(* ===== verification/Prelude.thy ===== *)
theory Prelude
  imports Complex_Main "HOL-Library.AList" "HOL-Library.Word" "HOL-Library.FSet" "HOL-Library.Multiset"
begin

text \<open>
  Shared vocabulary of the development: the types every component uses (identifiers, bytes,
  amounts), Python's insertion-ordered dictionaries as association lists, Python's fixed-width
  big-endian integer encodings, and the generic lemmas on lists and dictionaries the component
  theories rest on.  The collection \<open>dict_simps\<close> gathers the rewrite rules on dictionaries.
\<close>

named_theorems dict_simps \<open>rewrite rules on insertion-ordered dictionaries\<close>

section \<open>Types\<close>

text \<open>
  A \<open>uuid.UUID\<close> is a 128-bit value.  Bytes are 8-bit words.  Python's floats (amounts, averages,
  exchange rates) are exact rationals: rounding is not modelled.
\<close>

type_synonym uuid = "128 word"
type_synonym byte = "8 word"
type_synonym bytes = "byte list"
type_synonym amount = rat

text \<open>
  The Python exceptions the modelled code raises, and the two ways it can fail to return: a
  self-deadlock on a non-reentrant lock, and a crash of the process.
\<close>

datatype py_error =
    OverflowError
  | ValueError string
  | IndexError
  | KeyError
  | TypeError
  | AttributeError
  | ZeroDivisionError
  | UnexpectedMessageError
  | UnknownMessageError
  | ConversionAPIError
  | StopIteration
  | RuntimeError
  | OSError
  | MOMRingError
  | Deadlock

type_synonym 'a result = "py_error + 'a"

definition bind_result :: "'a result \<Rightarrow> ('a \<Rightarrow> 'b result) \<Rightarrow> 'b result" where
  "bind_result r f = (case r of Inl e \<Rightarrow> Inl e | Inr x \<Rightarrow> f x)"

fun map_result :: "('a \<Rightarrow> 'b result) \<Rightarrow> 'a list \<Rightarrow> 'b list result" where
  "map_result f [] = Inr []"
| "map_result f (x # xs) =
     bind_result (f x) (\<lambda>y. bind_result (map_result f xs) (\<lambda>ys. Inr (y # ys)))"

section \<open>Dictionaries\<close>

text \<open>
  A Python dict keeps its keys in insertion order and an assignment to a present key keeps the
  key's place: exactly the association list operation \<open>AList.update\<close>.
\<close>

type_synonym ('k, 'v) dict = "('k \<times> 'v) list"

abbreviation dict_lookup :: "('k, 'v) dict \<Rightarrow> 'k \<Rightarrow> 'v option" where
  "dict_lookup \<equiv> map_of"

abbreviation dict_set :: "'k \<Rightarrow> 'v \<Rightarrow> ('k, 'v) dict \<Rightarrow> ('k, 'v) dict" where
  "dict_set \<equiv> AList.update"

abbreviation dict_pop :: "'k \<Rightarrow> ('k, 'v) dict \<Rightarrow> ('k, 'v) dict" where
  "dict_pop \<equiv> AList.delete"

definition dict_get :: "('k, 'v) dict \<Rightarrow> 'k \<Rightarrow> 'v \<Rightarrow> 'v" where
  "dict_get d k dflt = (case map_of d k of None \<Rightarrow> dflt | Some v \<Rightarrow> v)"

definition dict_in :: "'k \<Rightarrow> ('k, 'v) dict \<Rightarrow> bool" where
  "dict_in k d \<longleftrightarrow> k \<in> set (map fst d)"

definition dict_setdefault :: "'k \<Rightarrow> 'v \<Rightarrow> ('k, 'v) dict \<Rightarrow> ('k, 'v) dict" where
  "dict_setdefault k v d = (if dict_in k d then d else dict_set k v d)"

text \<open>\<open>d.update(e)\<close>, and a dict comprehension over a list of pairs: later pairs win.\<close>

fun dict_update :: "('k, 'v) dict \<Rightarrow> ('k \<times> 'v) list \<Rightarrow> ('k, 'v) dict" where
  "dict_update d [] = d"
| "dict_update d ((k, v) # kvs) = dict_update (dict_set k v d) kvs"

definition dict_of :: "('k \<times> 'v) list \<Rightarrow> ('k, 'v) dict" where
  "dict_of kvs = dict_update [] kvs"

text \<open>The well-formedness every dict has: no key twice.\<close>

definition wf_dict :: "('k, 'v) dict \<Rightarrow> bool" where
  "wf_dict d \<longleftrightarrow> distinct (map fst d)"

section \<open>Fixed-width big-endian integers\<close>

text \<open>
  \<open>n.to_bytes(k, "big")\<close> raises \<open>OverflowError\<close> on a negative number or one of more than
  \<open>k\<close> bytes; \<open>int.from_bytes(bs, "big")\<close> reads any number of bytes.
\<close>

fun be_bytes :: "nat \<Rightarrow> nat \<Rightarrow> bytes" where
  "be_bytes 0 n = []"
| "be_bytes (Suc k) n = be_bytes k (n div 256) @ [of_nat (n mod 256)]"

definition to_bytes_big :: "int \<Rightarrow> nat \<Rightarrow> bytes result" where
  "to_bytes_big n k =
     (if 0 \<le> n \<and> n < 256 ^ k then Inr (be_bytes k (nat n)) else Inl OverflowError)"

definition from_bytes_big :: "bytes \<Rightarrow> int" where
  "from_bytes_big bs = foldl (\<lambda>acc b. 256 * acc + uint b) 0 bs"

text \<open>\<open>UUID.bytes\<close> and \<open>UUID(bytes=...)\<close>, which demands exactly 16 bytes.\<close>

definition uuid_bytes :: "uuid \<Rightarrow> bytes" where
  "uuid_bytes u = be_bytes 16 (unat u)"

definition uuid_of_bytes :: "bytes \<Rightarrow> uuid result" where
  "uuid_of_bytes bs =
     (if length bs = 16 then Inr (word_of_int (from_bytes_big bs))
      else Inl (ValueError ''bytes is not a 16-char string''))"

section \<open>Results\<close>

lemma bind_result_simps [simp]:
  "bind_result (Inl e) f = Inl e"
  "bind_result (Inr x) f = f x"
  by (simp_all add: bind_result_def)

lemma bind_result_eq_Inr:
  "bind_result r f = Inr y \<longleftrightarrow> (\<exists>x. r = Inr x \<and> f x = Inr y)"
  by (cases r) auto

lemma map_result_Inr [simp]:
  "(\<And>x. x \<in> set xs \<Longrightarrow> f (g x) = Inr (h x)) \<Longrightarrow> map_result f (map g xs) = Inr (map h xs)"
  by (induction xs) auto

lemma map_result_id:
  "(\<And>x. x \<in> set xs \<Longrightarrow> f (g x) = Inr x) \<Longrightarrow> map_result f (map g xs) = Inr xs"
  using map_result_Inr [of xs f g id] by simp

section \<open>Dictionary laws\<close>

declare update_conv' [simp, dict_simps] delete_conv' [simp, dict_simps]

lemma dict_get_set [simp, dict_simps]:
  "dict_get (dict_set k v d) k' dflt = (if k' = k then v else dict_get d k' dflt)"
  by (simp add: dict_get_def)

lemma dict_get_pop [simp, dict_simps]:
  "dict_get (dict_pop k d) k' dflt = (if k' = k then dflt else dict_get d k' dflt)"
  by (simp add: dict_get_def)

lemma dict_get_Nil [simp, dict_simps]: "dict_get [] k dflt = dflt"
  by (simp add: dict_get_def)

lemma dict_get_Cons [dict_simps]:
  "dict_get ((k, v) # d) k' dflt = (if k' = k then v else dict_get d k' dflt)"
  by (simp add: dict_get_def)

lemma dict_in_lookup: "dict_in k d \<longleftrightarrow> map_of d k \<noteq> None"
  by (simp add: dict_in_def map_of_eq_None_iff)

lemma dict_in_set [simp, dict_simps]: "dict_in k (dict_set k' v d) \<longleftrightarrow> k = k' \<or> dict_in k d"
  by (auto simp: dict_in_lookup)

lemma dict_in_pop [simp, dict_simps]: "dict_in k (dict_pop k' d) \<longleftrightarrow> k \<noteq> k' \<and> dict_in k d"
  by (auto simp: dict_in_lookup)

lemma dict_in_Nil [simp, dict_simps]: "\<not> dict_in k []"
  by (simp add: dict_in_def)

lemma dict_in_get: "dict_in k d \<Longrightarrow> map_of d k = Some (dict_get d k dflt)"
  by (auto simp: dict_in_lookup dict_get_def)

lemma dict_get_default: "\<not> dict_in k d \<Longrightarrow> dict_get d k dflt = dflt"
  by (simp add: dict_in_lookup dict_get_def)

lemma lookup_setdefault [simp, dict_simps]:
  "map_of (dict_setdefault k v d) = (if dict_in k d then map_of d else (map_of d)(k \<mapsto> v))"
  by (simp add: dict_setdefault_def)

lemma wf_dict_Nil [simp, intro]: "wf_dict []"
  by (simp add: wf_dict_def)

lemma wf_dict_set [simp, intro]: "wf_dict d \<Longrightarrow> wf_dict (dict_set k v d)"
  by (simp add: wf_dict_def distinct_update)

lemma wf_dict_pop [simp, intro]: "wf_dict d \<Longrightarrow> wf_dict (dict_pop k d)"
  by (simp add: wf_dict_def distinct_delete)

lemma wf_dict_setdefault [simp, intro]: "wf_dict d \<Longrightarrow> wf_dict (dict_setdefault k v d)"
  by (simp add: dict_setdefault_def)

lemma wf_dict_update [simp, intro]: "wf_dict d \<Longrightarrow> wf_dict (dict_update d kvs)"
  by (induction d kvs rule: dict_update.induct) auto

lemma wf_dict_of [simp, intro]: "wf_dict (dict_of kvs)"
  by (simp add: dict_of_def)

lemma lookup_dict_update: "map_of (dict_update d kvs) = map_of d ++ map_of (rev kvs)"
  by (induction d kvs rule: dict_update.induct) (auto simp: fun_eq_iff map_add_def split: option.splits)

lemma keys_dict_set [dict_simps]: "set (map fst (dict_set k v d)) = insert k (set (map fst d))"
  by (induction d) auto

lemma dict_set_fresh: "k \<notin> set (map fst d) \<Longrightarrow> dict_set k v d = d @ [(k, v)]"
  by (induction d) auto

lemma dict_update_fresh:
  "distinct (map fst kvs) \<Longrightarrow> set (map fst d) \<inter> set (map fst kvs) = {} \<Longrightarrow>
   dict_update d kvs = d @ kvs"
proof (induction d kvs rule: dict_update.induct)
  case (2 d k v kvs)
  from 2(2,3) have "dict_set k v d = d @ [(k, v)]"
    by (intro dict_set_fresh) auto
  with 2 show ?case by auto
qed simp

lemma dict_of_wf: "wf_dict d \<Longrightarrow> dict_of d = d"
  by (simp add: dict_of_def wf_dict_def dict_update_fresh)

lemma length_dict: "wf_dict d \<Longrightarrow> length d = card (set (map fst d))"
  by (metis distinct_card length_map wf_dict_def)

lemma rebuild_dict: "wf_dict d \<Longrightarrow> map (\<lambda>k. (k, the (map_of d k))) (map fst d) = d"
  by (auto simp: wf_dict_def intro!: map_idI)

section \<open>Encoding laws\<close>

lemma length_be_bytes [simp]: "length (be_bytes k n) = k"
  by (induction k arbitrary: n) auto

lemma from_bytes_big_snoc: "from_bytes_big (bs @ [b]) = 256 * from_bytes_big bs + uint b"
  by (simp add: from_bytes_big_def)

lemma from_bytes_be_bytes: "n < 256 ^ k \<Longrightarrow> from_bytes_big (be_bytes k n) = int n"
proof (induction k arbitrary: n)
  case 0
  then show ?case by (simp add: from_bytes_big_def)
next
  case (Suc k)
  then have "n div 256 < 256 ^ k"
    by (simp add: less_mult_imp_div_less mult.commute)
  moreover have "uint (of_nat (n mod 256) :: byte) = int (n mod 256)"
    by (simp add: unsigned_of_nat take_bit_eq_mod)
  ultimately show ?case
    using Suc.IH [of "n div 256"] by (simp add: from_bytes_big_snoc zdiv_int zmod_int)
qed

lemma to_bytes_big_length: "to_bytes_big n k = Inr bs \<Longrightarrow> length bs = k"
  by (auto simp: to_bytes_big_def split: if_splits)

lemma from_to_bytes_big: "to_bytes_big n k = Inr bs \<Longrightarrow> from_bytes_big bs = n"
proof -
  assume "to_bytes_big n k = Inr bs"
  then have n: "0 \<le> n" "n < 256 ^ k" and bs: "bs = be_bytes k (nat n)"
    by (auto simp: to_bytes_big_def split: if_splits)
  then have "nat n < 256 ^ k"
    by (metis nat_less_iff of_nat_numeral of_nat_power)
  with n bs show ?thesis by (simp add: from_bytes_be_bytes)
qed

lemma length_uuid_bytes [simp]: "length (uuid_bytes u) = 16"
  by (simp add: uuid_bytes_def)

lemma uuid_of_uuid_bytes [simp]: "uuid_of_bytes (uuid_bytes u) = Inr u"
proof -
  have "unat u < 256 ^ 16"
    using unsigned_less [of u] by simp
  then show ?thesis
    by (simp add: uuid_of_bytes_def uuid_bytes_def from_bytes_be_bytes)
qed

section \<open>Tagged concatenations\<close>

lemma distinct_tagged:
  fixes f :: "'k \<Rightarrow> 'i"
  shows "distinct (map fst ps) \<Longrightarrow> \<forall>(i, p)\<in>set ps. distinct (map fst p) \<and> (\<forall>x\<in>set p. f (fst x) = i) \<Longrightarrow>
   distinct (map fst (concat (map snd ps)))"
proof (induction ps)
  case (Cons ip ps)
  obtain i p where ip: "ip = (i, p)" by (cases ip)
  have j: "j \<noteq> i" if "(j, q) \<in> set ps" for j q using Cons.prems(1) that by (force simp: ip)
  have other: "f (fst x) \<noteq> i" if "x \<in> set (concat (map snd ps))" for x
  proof -
    from that obtain jq where jq: "jq \<in> set ps" "x \<in> set (snd jq)" by auto
    moreover obtain j q where "jq = (j, q)" by (cases jq)
    ultimately show ?thesis using Cons.prems(2) j [of j q] by auto
  qed
  have same: "f (fst x) = i" if "x \<in> set p" for x using Cons.prems(2) that by (simp add: ip)
  have "fst ` set p \<inter> fst ` set (concat (map snd ps)) = {}"
  proof (rule ccontr)
    assume "\<not> ?thesis"
    then obtain x y where "x \<in> set p" "y \<in> set (concat (map snd ps))" "fst x = fst y" by blast
    with same [of x] other [of y] show False by simp
  qed
  moreover have "distinct (map fst p)" using Cons.prems(2) by (simp add: ip)
  moreover have "distinct (map fst (concat (map snd ps)))"
    by (rule Cons.IH) (use Cons.prems in auto)
  ultimately show ?case unfolding ip by (simp only: list.map concat.simps map_append distinct_append set_map snd_conv)
qed simp
end
