(* ===== verification/Dedup.thy ===== *)
theory Dedup
  imports Prelude
begin

text \<open>
  The per-producer exactly-once filter of \<open>common/checkpoint/deduplicator.py\<close>.

  The abstract specification is a set of sequence numbers per producer; the class keeps instead
  the highest contiguous sequence number and the finite set of numbers seen ahead of a gap.  The
  locale \<open>exactly_once_filter\<close> states what the clients of the class (the checkpointer) rely on,
  and the interpretation at the end discharges it for the model of the class.
\<close>

record dedup =
  dd_hi :: "bytes \<rightharpoonup> int"
  dd_ahead :: "bytes \<rightharpoonup> int fset"

definition hi_of :: "dedup \<Rightarrow> bytes \<Rightarrow> int" where
  "hi_of d p = (case dd_hi d p of None \<Rightarrow> 0 | Some h \<Rightarrow> h)"

definition ahead_of :: "dedup \<Rightarrow> bytes \<Rightarrow> int fset" where
  "ahead_of d p = (case dd_ahead d p of None \<Rightarrow> {||} | Some a \<Rightarrow> a)"

definition restore_dedup :: "(bytes \<rightharpoonup> int \<times> int list) \<Rightarrow> dedup" where
  "restore_dedup snap =
     \<lparr>dd_hi = (\<lambda>p. map_option fst (snap p)),
      dd_ahead = (\<lambda>p. map_option (\<lambda>(h, a). fset_of_list a) (snap p))\<rparr>"

definition init_dedup :: "(bytes \<rightharpoonup> int \<times> int list) option \<Rightarrow> dedup" where
  "init_dedup state = restore_dedup (case state of None \<Rightarrow> Map.empty | Some s \<Rightarrow> s)"

definition is_duplicate :: "dedup \<Rightarrow> bytes \<Rightarrow> int \<Rightarrow> bool" where
  "is_duplicate d p seq =
     (if seq = 0 then False
      else if seq \<le> hi_of d p then True
      else seq |\<in>| ahead_of d p)"

text \<open>The loop \<open>while hi + 1 in ahead: hi += 1; ahead.discard(hi)\<close>.\<close>

function advance_hi :: "int \<Rightarrow> int fset \<Rightarrow> int \<times> int fset" where
  "advance_hi h a = (if h + 1 |\<in>| a then advance_hi (h + 1) (a |-| {|h + 1|}) else (h, a))"
  by pat_completeness auto
termination
proof (relation "measure (\<lambda>(h, a). fcard a)")
  fix h :: int and a :: "int fset"
  assume "h + 1 |\<in>| a"
  then have "fcard (a |-| {|h + 1|}) < fcard a"
    by (metis fcard_fminus1_less)
  then show "((h + 1, a |-| {|h + 1|}), (h, a)) \<in> measure (\<lambda>(h, a). fcard a)"
    by simp
qed simp

declare advance_hi.simps [simp del]

definition record_seq :: "dedup \<Rightarrow> bytes \<Rightarrow> int \<Rightarrow> dedup" where
  "record_seq d p seq =
     (if seq = 0 then d
      else if seq \<le> hi_of d p then d
      else let (h, a) = advance_hi (hi_of d p) (finsert seq (ahead_of d p))
           in d\<lparr>dd_hi := (dd_hi d)(p \<mapsto> h), dd_ahead := (dd_ahead d)(p \<mapsto> a)\<rparr>)"

definition snapshot_dedup :: "dedup \<Rightarrow> (bytes \<rightharpoonup> int \<times> int list)" where
  "snapshot_dedup d =
     (\<lambda>p. if dd_hi d p = None \<and> dd_ahead d p = None then None
          else Some (hi_of d p, sorted_list_of_fset (ahead_of d p)))"

text \<open>The abstraction: the sequence numbers of a producer already processed.\<close>

definition seen :: "dedup \<Rightarrow> bytes \<Rightarrow> int set" where
  "seen d p = {1..hi_of d p} \<union> fset (ahead_of d p)"

text \<open>
  The invariant: the contiguous prefix is not negative, everything in the ahead set lies beyond
  the gap that follows it, and the two dictionaries know the same producers.
\<close>

definition dedup_inv :: "dedup \<Rightarrow> bool" where
  "dedup_inv d \<longleftrightarrow>
     (\<forall>p. 0 \<le> hi_of d p \<and> (\<forall>s. s |\<in>| ahead_of d p \<longrightarrow> hi_of d p + 1 < s) \<and>
          (dd_hi d p = None \<longleftrightarrow> dd_ahead d p = None))"

section \<open>The loop\<close>

lemma advance_hi_spec:
  assumes "advance_hi h a = (h', a')"
  shows "h \<le> h' \<and> h' + 1 |\<notin>| a' \<and> {h + 1..h'} \<subseteq> fset a \<and> fset a' = fset a - {h + 1..h'}"
  using assms
proof (induction h a arbitrary: h' a' rule: advance_hi.induct)
  case (1 h a)
  show ?case
  proof (cases "h + 1 |\<in>| a")
    case True
    with 1(2) have "advance_hi (h + 1) (a |-| {|h + 1|}) = (h', a')"
      by (simp add: advance_hi.simps [of h a])
    from 1(1) [OF True this] have IH: "h + 1 \<le> h'" "h' + 1 |\<notin>| a'"
      "{h + 1 + 1..h'} \<subseteq> fset a - {h + 1}" "fset a' = fset a - {h + 1} - {h + 1 + 1..h'}"
      by auto
    have "{h + 1..h'} = insert (h + 1) {h + 1 + 1..h'}"
      using IH(1) by auto
    with True IH show ?thesis by auto
  next
    case False
    with 1(2) show ?thesis by (simp add: advance_hi.simps [of h a])
  qed
qed

lemma advance_hi_above:
  assumes "advance_hi h a = (h', a')" and "\<And>s. s |\<in>| a \<Longrightarrow> h < s" and "s |\<in>| a'"
  shows "h' + 1 < s"
proof -
  from advance_hi_spec [OF assms(1)] have spec: "h \<le> h'" "h' + 1 |\<notin>| a'"
    "fset a' = fset a - {h + 1..h'}" by blast+
  from assms(3) spec(3) have "s |\<in>| a" "s \<notin> {h + 1..h'}" by auto
  with assms(2) [of s] have "h' < s" by auto
  moreover from spec(2) assms(3) have "s \<noteq> h' + 1" by auto
  ultimately show ?thesis by simp
qed

section \<open>Refinement of the set of processed numbers\<close>

lemma dedup_invD:
  assumes "dedup_inv d"
  shows "0 \<le> hi_of d p" and "s |\<in>| ahead_of d p \<Longrightarrow> hi_of d p + 1 < s"
    and "dd_hi d p = None \<longleftrightarrow> dd_ahead d p = None"
  using assms by (auto simp: dedup_inv_def)

lemma is_duplicate_iff_seen:
  "dedup_inv d \<Longrightarrow> 1 \<le> seq \<Longrightarrow> is_duplicate d p seq \<longleftrightarrow> seq \<in> seen d p"
  by (auto simp: is_duplicate_def seen_def)

lemma record_seq_fields:
  assumes "1 \<le> seq" and "hi_of d p < seq"
    and "advance_hi (hi_of d p) (finsert seq (ahead_of d p)) = (h, a)"
  shows "hi_of (record_seq d p seq) q = (if q = p then h else hi_of d q)"
    and "ahead_of (record_seq d p seq) q = (if q = p then a else ahead_of d q)"
    and "dd_hi (record_seq d p seq) = (dd_hi d)(p \<mapsto> h)"
    and "dd_ahead (record_seq d p seq) = (dd_ahead d)(p \<mapsto> a)"
  using assms by (auto simp: record_seq_def hi_of_def ahead_of_def)

lemma seen_record:
  assumes inv: "dedup_inv d" and seq: "1 \<le> seq"
  shows "seen (record_seq d p seq) q = (if q = p then insert seq (seen d p) else seen d q)"
proof (cases "seq \<le> hi_of d p")
  case True
  then have "record_seq d p seq = d" by (simp add: record_seq_def)
  moreover from True seq have "seq \<in> seen d p" by (simp add: seen_def)
  ultimately show ?thesis by auto
next
  case False
  obtain h a where ha: "advance_hi (hi_of d p) (finsert seq (ahead_of d p)) = (h, a)"
    by fastforce
  from advance_hi_spec [OF ha] have spec: "hi_of d p \<le> h"
    "{hi_of d p + 1..h} \<subseteq> insert seq (fset (ahead_of d p))"
    "fset a = insert seq (fset (ahead_of d p)) - {hi_of d p + 1..h}" by simp_all
  have "{1..h} = {1..hi_of d p} \<union> {hi_of d p + 1..h}"
    using dedup_invD(1) [OF inv, of p] spec(1) by auto
  with spec(2,3) have "{1..h} \<union> fset a = insert seq ({1..hi_of d p} \<union> fset (ahead_of d p))"
    by auto
  with False record_seq_fields [OF seq _ ha] show ?thesis
    by (auto simp: seen_def)
qed

lemma dedup_inv_record:
  assumes inv: "dedup_inv d" and seq: "0 \<le> seq"
  shows "dedup_inv (record_seq d p seq)"
proof (cases "seq = 0 \<or> seq \<le> hi_of d p")
  case True
  then have "record_seq d p seq = d" by (auto simp: record_seq_def)
  with inv show ?thesis by simp
next
  case False
  with seq have seq1: "1 \<le> seq" and new: "hi_of d p < seq" by auto
  obtain h a where ha: "advance_hi (hi_of d p) (finsert seq (ahead_of d p)) = (h, a)"
    by fastforce
  note f = record_seq_fields [OF seq1 new ha]
  have "hi_of d p < s" if "s |\<in>| finsert seq (ahead_of d p)" for s
    using that new dedup_invD(2) [OF inv, of s p] by auto
  then have "h + 1 < s" if "s |\<in>| a" for s
    using advance_hi_above [OF ha _ that] by auto
  moreover have "0 \<le> h"
    using advance_hi_spec [OF ha] dedup_invD(1) [OF inv, of p] by auto
  ultimately show ?thesis
    using inv by (auto simp: dedup_inv_def f)
qed

lemma dedup_inv_init [simp]: "dedup_inv (init_dedup None)"
  by (simp add: dedup_inv_def init_dedup_def restore_dedup_def hi_of_def ahead_of_def)

lemma seen_init [simp]: "seen (init_dedup None) p = {}"
  by (simp add: seen_def init_dedup_def restore_dedup_def hi_of_def ahead_of_def)

lemma restore_snapshot_dedup:
  assumes "dedup_inv d"
  shows "restore_dedup (snapshot_dedup d) = d"
proof -
  have "map_option fst (snapshot_dedup d p) = dd_hi d p" for p
    using dedup_invD(3) [OF assms, of p] by (auto simp: snapshot_dedup_def hi_of_def split: option.splits)
  moreover have "map_option (\<lambda>(h, a). fset_of_list a) (snapshot_dedup d p) = dd_ahead d p" for p
    using dedup_invD(3) [OF assms, of p]
    by (auto simp: snapshot_dedup_def ahead_of_def split: option.splits)
  ultimately show ?thesis by (simp add: restore_dedup_def)
qed

section \<open>The interface\<close>

text \<open>
  What a client relies on: a filter \<open>dup\<close> and a recording operation \<open>rec\<close> that together behave
  as a set of processed identities, and a snapshot that survives a restart.
\<close>

locale exactly_once_filter =
  fixes fresh :: "'d"
    and dup :: "'d \<Rightarrow> 'p \<Rightarrow> 'q \<Rightarrow> bool"
    and rec :: "'d \<Rightarrow> 'p \<Rightarrow> 'q \<Rightarrow> 'd"
    and save :: "'d \<Rightarrow> 'b"
    and load :: "'b \<Rightarrow> 'd"
    and known :: "'d \<Rightarrow> ('p \<times> 'q) set"
    and valid :: "'q \<Rightarrow> bool"
    and invar :: "'d \<Rightarrow> bool"
  assumes invar_fresh: "invar fresh"
    and known_fresh: "known fresh = {}"
    and dup_known: "invar d \<Longrightarrow> valid q \<Longrightarrow> dup d p q \<longleftrightarrow> (p, q) \<in> known d"
    and known_rec: "invar d \<Longrightarrow> valid q \<Longrightarrow> known (rec d p q) = insert (p, q) (known d)"
    and invar_rec: "invar d \<Longrightarrow> valid q \<Longrightarrow> invar (rec d p q)"
    and load_save: "invar d \<Longrightarrow> load (save d) = d"
begin

definition run_filter :: "'d \<Rightarrow> ('p \<times> 'q) list \<Rightarrow> 'd \<times> ('p \<times> 'q) list" where
  "run_filter d ms =
     foldl (\<lambda>(d, out) (p, q). if dup d p q then (d, out) else (rec d p q, out @ [(p, q)])) (d, []) ms"

lemma run_filter_snoc:
  "run_filter d (ms @ [(p, q)]) =
     (let (d', out) = run_filter d ms
      in if dup d' p q then (d', out) else (rec d' p q, out @ [(p, q)]))"
  by (simp add: run_filter_def split: prod.splits)

lemma run_filter_inv:
  assumes "invar d" and "\<And>p q. (p, q) \<in> set ms \<Longrightarrow> valid q" and "run_filter d ms = (d', out)"
  shows "invar d' \<and> known d' = known d \<union> set ms \<and> distinct out \<and> set out = set ms - known d"
  using assms(2,3)
proof (induction ms arbitrary: d' out rule: rev_induct)
  case Nil
  with assms(1) show ?case by (simp add: run_filter_def)
next
  case (snoc m ms)
  obtain p q where m: "m = (p, q)" by fastforce
  obtain d1 o1 where run: "run_filter d ms = (d1, o1)" by fastforce
  have IH: "invar d1" "known d1 = known d \<union> set ms" "distinct o1" "set o1 = set ms - known d"
    using snoc.IH [OF _ run] snoc.prems(1) by auto
  have v: "valid q" using snoc.prems(1) [of p q] m by simp
  have step: "(d', out) = (if dup d1 p q then (d1, o1) else (rec d1 p q, o1 @ [(p, q)]))"
    using snoc.prems(2) m run by (simp add: run_filter_snoc)
  show ?case
  proof (cases "dup d1 p q")
    case True
    with step IH v m show ?thesis by (auto simp: dup_known)
  next
    case False
    with IH v have new: "(p, q) \<notin> known d \<union> set ms" by (simp add: dup_known)
    with False step IH v m show ?thesis by (auto simp: known_rec invar_rec)
  qed
qed

end

definition known_ids :: "dedup \<Rightarrow> (bytes \<times> int) set" where
  "known_ids d = {(p, s). s \<in> seen d p}"

interpretation dd: exactly_once_filter "init_dedup None" is_duplicate record_seq
  snapshot_dedup restore_dedup known_ids "\<lambda>s. 1 \<le> s" dedup_inv
proof unfold_locales
  fix d p and s :: int
  assume d: "dedup_inv d" and s: "1 \<le> s"
  show "is_duplicate d p s \<longleftrightarrow> (p, s) \<in> known_ids d"
    using is_duplicate_iff_seen [OF d s] by (simp add: known_ids_def)
  show "known_ids (record_seq d p s) = insert (p, s) (known_ids d)"
    using seen_record [OF d s] by (auto simp: known_ids_def split: if_splits)
  show "dedup_inv (record_seq d p s)"
    using dedup_inv_record [OF d] s by simp
qed (auto simp: known_ids_def restore_snapshot_dedup)

section \<open>Properties\<close>

text \<open>The filter as the checkpointer drives it: a duplicate is skipped, anything else is recorded
  and passed on.\<close>

fun filter_stream :: "dedup \<Rightarrow> (bytes \<times> int) list \<Rightarrow> dedup \<times> (bytes \<times> int) list" where
  "filter_stream d [] = (d, [])"
| "filter_stream d ((p, s) # ms) =
     (if is_duplicate d p s then filter_stream d ms
      else let (d', out) = filter_stream (record_seq d p s) ms in (d', (p, s) # out))"

lemma filter_stream_append:
  "filter_stream d (ms @ ms') =
     (let (d1, o1) = filter_stream d ms; (d2, o2) = filter_stream d1 ms' in (d2, o1 @ o2))"
  by (induction d ms rule: filter_stream.induct) (auto simp: Let_def split: prod.splits)

lemma filter_stream_run: "filter_stream d ms = dd.run_filter d ms"
proof (induction ms rule: rev_induct)
  case Nil
  then show ?case by (simp add: dd.run_filter_def)
next
  case (snoc m ms)
  obtain p s where m: "m = (p, s)" by fastforce
  from snoc show ?case by (simp add: m filter_stream_append dd.run_filter_snoc Let_def split: prod.splits)
qed

lemma filter_stream_first:
  assumes "\<And>p s. (p, s) \<in> set ms \<Longrightarrow> 1 \<le> s"
  shows "snd (filter_stream (init_dedup None) ms) = rev (remdups (rev ms))"
  using assms
proof (induction ms rule: rev_induct)
  case (snoc m ms)
  obtain p s where m: "m = (p, s)" by fastforce
  obtain d out where run: "filter_stream (init_dedup None) ms = (d, out)" by fastforce
  then have "dd.run_filter (init_dedup None) ms = (d, out)" by (simp add: filter_stream_run)
  from dd.run_filter_inv [OF dd.invar_fresh _ this] snoc.prems
  have d: "dedup_inv d" "known_ids d = set ms" by (auto simp: dd.known_fresh)
  have "is_duplicate d p s \<longleftrightarrow> m \<in> set ms"
    using dd.dup_known [OF d(1)] snoc.prems [of p s] d(2) m by simp
  with snoc run m show ?case by (auto simp: filter_stream_append)
qed simp

text \<open>
  C1.  Deduplication is exact under any redelivery and reordering: of a stream of stamped messages
  (sequence numbers start at 1) the filter passes each identity exactly once, at its first
  occurrence, and drops nothing else.
\<close>

theorem dedup_passes_first_occurrences:
  assumes "\<forall>(p, s)\<in>set ms. 1 \<le> s"
  shows "snd (filter_stream (init_dedup None) ms) = rev (remdups (rev ms))"
  using assms by (intro filter_stream_first) auto

theorem dedup_passes_first_occurrences_witness:
  "snd (filter_stream (init_dedup None) [([1], 2), ([1], 1), ([1], 2), ([2], 1), ([1], 1), ([1], 3)]) =
     [([1], 2), ([1], 1), ([2], 1), ([1], 3)]"
  by (subst dedup_passes_first_occurrences) simp_all

text \<open>
  C14.  A restart forgets nothing: whatever stamped stream the filter has processed, the filter
  restored from its snapshot is the same filter, and what it knows is exactly the stream.
\<close>

theorem dedup_survives_restart:
  assumes "\<forall>(p, s)\<in>set ms. 1 \<le> s" and "filter_stream (init_dedup None) ms = (d, out)"
  shows "restore_dedup (snapshot_dedup d) = d \<and> known_ids d = set ms"
proof -
  from assms(2) have "dd.run_filter (init_dedup None) ms = (d, out)" by (simp add: filter_stream_run)
  from dd.run_filter_inv [OF dd.invar_fresh _ this] assms(1)
  have "dedup_inv d" "known_ids d = set ms" by (auto simp: dd.known_fresh)
  then show ?thesis by (simp add: restore_snapshot_dedup)
qed

theorem dedup_survives_restart_witness:
  "known_ids (fst (filter_stream (init_dedup None) [([7], 3), ([7], 1)])) = {([7], 3), ([7], 1)}"
  using dedup_survives_restart [of "[([7], 3), ([7], 1)]"
      "fst (filter_stream (init_dedup None) [([7], 3), ([7], 1)])"
      "snd (filter_stream (init_dedup None) [([7], 3), ([7], 1)])"] by simp

end
