(* ===== verification/Checkpointing.thy ===== *)
theory Checkpointing
  imports Dedup
begin

text \<open>
  Checkpointing of a node's state: the atomic on-disk store (\<open>checkpoint_store.py\<close>), the
  \<open>Checkpointer\<close> that coordinates deduplication, batched checkpoints and held acknowledgements
  (\<open>checkpointer.py\<close>), its factory and the dispatcher of incoming messages (\<open>factory.py\<close>,
  \<open>dispatch.py\<close>).

  The objects the checkpointer snapshots are parameters: a record \<open>snapshotable\<close> holds the
  operations of the Python protocol of that name.  The non-reentrant lock is a field of the
  state, so that taking it twice is the error \<open>Deadlock\<close>.
\<close>

section \<open>The store\<close>

type_synonym fs = "string \<rightharpoonup> bytes"

text \<open>
  \<open>CheckpointStore.save\<close>: the states of the file system a crash can leave behind, in order.  The
  temporary file grows by prefixes of the packed blob; \<open>os.replace\<close> is one atomic step.
\<close>

definition save_trace :: "('b \<Rightarrow> bytes) \<Rightarrow> string \<Rightarrow> string \<Rightarrow> 'b \<Rightarrow> fs \<Rightarrow> fs list" where
  "save_trace packb path tmp blob fs =
     map (\<lambda>n. fs(tmp \<mapsto> take n (packb blob))) [0..<Suc (length (packb blob))]
     @ [(fs(path \<mapsto> packb blob))(tmp := None)]"

definition save_blob :: "('b \<Rightarrow> bytes) \<Rightarrow> string \<Rightarrow> string \<Rightarrow> 'b \<Rightarrow> fs \<Rightarrow> fs" where
  "save_blob packb path tmp blob fs = last (save_trace packb path tmp blob fs)"

text \<open>An exception before the replace unlinks the temporary file and is raised again.\<close>

definition save_failed :: "string \<Rightarrow> fs \<Rightarrow> fs" where
  "save_failed tmp fs = fs(tmp := None)"

definition load_blob :: "(bytes \<Rightarrow> 'b option) \<Rightarrow> string \<Rightarrow> fs \<Rightarrow> 'b option" where
  "load_blob unpackb path fs = (case fs path of None \<Rightarrow> None | Some c \<Rightarrow> unpackb c)"

section \<open>The checkpointer\<close>

text \<open>
  The \<open>Snapshotable\<close> protocol.  \<open>snap\<close> may change the object (the spilling aggregates write their
  partial results to disk first); \<open>fresh\<close> is the object a restarted process builds over what the
  old one left on disk; \<open>clear_stale\<close> is \<open>clear_stale_spill\<close>, the identity where the class has no
  such method.
\<close>

record ('s, 'b) snapshotable =
  snap :: "'s \<Rightarrow> 's \<times> 'b"
  rest :: "'b \<Rightarrow> 's \<Rightarrow> 's"
  fresh_obj :: "'s \<Rightarrow> 's"
  clear_stale :: "'s \<Rightarrow> 's"

record ('b, 'y) blob =
  b_state :: 'b
  b_dedup :: "bytes \<rightharpoonup> int \<times> int list"
  b_out_seq :: "(bytes, int) dict"
  b_extra :: "(string, 'y) dict"
  b_aborted :: "uuid fset"

text \<open>
  The last two fields are the environment: what \<open>CheckpointStore.load\<close> would return, and the
  delivery tags acknowledged to the broker, oldest first.
\<close>

record ('s, 'b, 'x, 'y) checkpointer =
  cfn :: 's
  cdedup :: dedup
  ckpt_every :: int
  seq_sources :: "(bytes \<times> int) list"
  extra_state :: "(string, 'x) dict"
  pending_acks :: "nat list"
  caborted :: "uuid fset"
  dirty :: bool
  ckpt_lock :: bool
  ckpt_store :: "('b, 'y) blob option"
  acked :: "nat list"

definition new_checkpointer ::
  "'s \<Rightarrow> int \<Rightarrow> (bytes \<times> int) list \<Rightarrow> (string, 'x) dict \<Rightarrow> ('b, 'y) blob option \<Rightarrow> nat list \<Rightarrow>
   ('s, 'b, 'x, 'y) checkpointer" where
  "new_checkpointer fn checkpoint_every sources extra on_disk acks =
     \<lparr>cfn = fn, cdedup = init_dedup None, ckpt_every = max 1 checkpoint_every, seq_sources = sources,
      extra_state = extra, pending_acks = [], caborted = {||}, dirty = False, ckpt_lock = False,
      ckpt_store = on_disk, acked = acks\<rparr>"

text \<open>\<open>make_checkpointer\<close>: no checkpointer at all when there is no state directory.\<close>

definition make_checkpointer ::
  "string option \<Rightarrow> 's \<Rightarrow> int \<Rightarrow> (bytes \<times> int) list \<Rightarrow> (string, 'x) dict \<Rightarrow>
   ('b, 'y) blob option \<Rightarrow> nat list \<Rightarrow> ('s, 'b, 'x, 'y) checkpointer option" where
  "make_checkpointer state_dir fn checkpoint_every sources extra on_disk acks =
     (case state_dir of
        None \<Rightarrow> None
      | Some d \<Rightarrow> if d = [] then None
                  else Some (new_checkpointer fn checkpoint_every sources extra on_disk acks))"

definition restore_sources :: "(bytes, int) dict \<Rightarrow> (bytes \<times> int) list \<Rightarrow> (bytes \<times> int) list" where
  "restore_sources out_seq = map (\<lambda>(p, v). (p, dict_get out_seq p v))"

definition restore_extra ::
  "('x, 'y) snapshotable \<Rightarrow> (string, 'y) dict \<Rightarrow> (string, 'x) dict \<Rightarrow> (string, 'x) dict" where
  "restore_extra X saved =
     map (\<lambda>(k, x). (k, case map_of saved k of None \<Rightarrow> x | Some y \<Rightarrow> rest X y x))"

definition restore_cp ::
  "('s, 'b) snapshotable \<Rightarrow> ('x, 'y) snapshotable \<Rightarrow> ('s, 'b, 'x, 'y) checkpointer \<Rightarrow>
   bool \<times> ('s, 'b, 'x, 'y) checkpointer" where
  "restore_cp S X c =
     (case ckpt_store c of
        None \<Rightarrow> (False, c\<lparr>cfn := clear_stale S (cfn c)\<rparr>)
      | Some b \<Rightarrow>
          (True, c\<lparr>cfn := rest S (b_state b) (cfn c), cdedup := restore_dedup (b_dedup b),
                   seq_sources := restore_sources (b_out_seq b) (seq_sources c),
                   extra_state := restore_extra X (b_extra b) (extra_state c),
                   caborted := b_aborted b\<rparr>))"

text \<open>
  \<open>_checkpoint_and_flush\<close>: save when dirty or forced, then perform the held acknowledgements.
  \<open>write_checkpoint\<close> is the first half; a crash may fall between the two.
\<close>

definition make_blob ::
  "('x, 'y) snapshotable \<Rightarrow> 'b \<Rightarrow> ('s, 'b, 'x, 'y) checkpointer \<Rightarrow> ('b, 'y) blob" where
  "make_blob X st c =
     \<lparr>b_state = st, b_dedup = snapshot_dedup (cdedup c), b_out_seq = dict_of (seq_sources c),
      b_extra = map (\<lambda>(k, x). (k, snd (snap X x))) (extra_state c), b_aborted = caborted c\<rparr>"

definition write_checkpoint ::
  "('s, 'b) snapshotable \<Rightarrow> ('x, 'y) snapshotable \<Rightarrow> bool \<Rightarrow> ('s, 'b, 'x, 'y) checkpointer \<Rightarrow>
   ('s, 'b, 'x, 'y) checkpointer" where
  "write_checkpoint S X force c =
     (if dirty c \<or> force then
        (let (fn', st) = snap S (cfn c);
             c' = c\<lparr>cfn := fn', ckpt_store := Some (make_blob X st c)\<rparr>
         in c'\<lparr>extra_state := map (\<lambda>(k, x). (k, fst (snap X x))) (extra_state c), dirty := False\<rparr>)
      else c)"

definition flush_acks :: "('s, 'b, 'x, 'y) checkpointer \<Rightarrow> ('s, 'b, 'x, 'y) checkpointer" where
  "flush_acks c = c\<lparr>acked := acked c @ pending_acks c, pending_acks := []\<rparr>"

definition checkpoint_and_flush ::
  "('s, 'b) snapshotable \<Rightarrow> ('x, 'y) snapshotable \<Rightarrow> bool \<Rightarrow> ('s, 'b, 'x, 'y) checkpointer \<Rightarrow>
   ('s, 'b, 'x, 'y) checkpointer" where
  "checkpoint_and_flush S X force c = flush_acks (write_checkpoint S X force c)"

text \<open>\<open>with self.lock\<close>: taking a held \<open>threading.Lock\<close> never returns.\<close>

definition with_lock ::
  "(('s, 'b, 'x, 'y) checkpointer \<Rightarrow> ('s, 'b, 'x, 'y) checkpointer result) \<Rightarrow>
   ('s, 'b, 'x, 'y) checkpointer \<Rightarrow> ('s, 'b, 'x, 'y) checkpointer result" where
  "with_lock body c =
     (if ckpt_lock c then Inl Deadlock
      else bind_result (body (c\<lparr>ckpt_lock := True\<rparr>)) (\<lambda>c'. Inr (c'\<lparr>ckpt_lock := False\<rparr>)))"

definition flush ::
  "('s, 'b) snapshotable \<Rightarrow> ('x, 'y) snapshotable \<Rightarrow> bool \<Rightarrow> ('s, 'b, 'x, 'y) checkpointer \<Rightarrow>
   ('s, 'b, 'x, 'y) checkpointer result" where
  "flush S X force = with_lock (\<lambda>c. Inr (checkpoint_and_flush S X force c))"

definition is_aborted :: "uuid \<Rightarrow> ('s, 'b, 'x, 'y) checkpointer \<Rightarrow> bool result" where
  "is_aborted cid c = (if ckpt_lock c then Inl Deadlock else Inr (cid |\<in>| caborted c))"

definition mark_aborted ::
  "uuid \<Rightarrow> ('s, 'b, 'x, 'y) checkpointer \<Rightarrow> ('s, 'b, 'x, 'y) checkpointer result" where
  "mark_aborted cid =
     with_lock (\<lambda>c. Inr (c\<lparr>caborted := finsert cid (caborted c), dirty := True\<rparr>))"

definition do_ack :: "nat \<Rightarrow> ('s, 'b, 'x, 'y) checkpointer \<Rightarrow> ('s, 'b, 'x, 'y) checkpointer" where
  "do_ack tag c = c\<lparr>acked := acked c @ [tag]\<rparr>"

text \<open>The identity a data message carries: client, producer, sequence number.\<close>

record msg_id =
  m_client :: uuid
  m_producer :: bytes
  m_seq :: int

text \<open>
  \<open>handle_data\<close>.  \<open>apply_and_record\<close> is its middle part, up to the crash point between the
  application of the message and the checkpoint.
\<close>

definition apply_and_record ::
  "msg_id \<Rightarrow> (('s, 'b, 'x, 'y) checkpointer \<Rightarrow> ('s, 'b, 'x, 'y) checkpointer result) \<Rightarrow> nat \<Rightarrow>
   ('s, 'b, 'x, 'y) checkpointer \<Rightarrow> ('s, 'b, 'x, 'y) checkpointer result" where
  "apply_and_record m apply_fn tag c =
     bind_result (apply_fn c) (\<lambda>c.
       Inr (c\<lparr>cdedup := record_seq (cdedup c) (m_producer m) (m_seq m), dirty := True,
              pending_acks := pending_acks c @ [tag]\<rparr>))"

definition handle_data ::
  "('s, 'b) snapshotable \<Rightarrow> ('x, 'y) snapshotable \<Rightarrow> msg_id \<Rightarrow>
   (('s, 'b, 'x, 'y) checkpointer \<Rightarrow> ('s, 'b, 'x, 'y) checkpointer result) \<Rightarrow> nat \<Rightarrow>
   ('s, 'b, 'x, 'y) checkpointer \<Rightarrow> ('s, 'b, 'x, 'y) checkpointer result" where
  "handle_data S X m apply_fn tag =
     with_lock (\<lambda>c.
       if m_client m |\<in>| caborted c then Inr (do_ack tag c)
       else if is_duplicate (cdedup c) (m_producer m) (m_seq m) then Inr (do_ack tag c)
       else bind_result (apply_and_record m apply_fn tag c) (\<lambda>c.
         Inr (if ckpt_every c \<le> int (length (pending_acks c))
              then checkpoint_and_flush S X False c else c)))"

text \<open>
  \<open>dispatch\<close>: EOF flushes and acknowledges after its handler, Abort runs its handler, anything
  else goes through deduplication.  Handlers act on the whole checkpointer state, since they may
  call back into it.  \<open>dispatch_plain\<close> is the same function when there is no checkpointer, over
  the handler's own state and the acknowledged tags.
\<close>

datatype msg_kind = KEof | KAbort | KData

definition dispatch ::
  "('s, 'b) snapshotable \<Rightarrow> ('x, 'y) snapshotable \<Rightarrow> msg_kind \<Rightarrow> msg_id \<Rightarrow> nat \<Rightarrow>
   (('s, 'b, 'x, 'y) checkpointer \<Rightarrow> ('s, 'b, 'x, 'y) checkpointer result) \<Rightarrow>
   (('s, 'b, 'x, 'y) checkpointer \<Rightarrow> ('s, 'b, 'x, 'y) checkpointer result) \<Rightarrow>
   (('s, 'b, 'x, 'y) checkpointer \<Rightarrow> ('s, 'b, 'x, 'y) checkpointer result) option \<Rightarrow>
   ('s, 'b, 'x, 'y) checkpointer \<Rightarrow> ('s, 'b, 'x, 'y) checkpointer result" where
  "dispatch S X k m tag on_eof on_data on_abort c =
     (case k of
        KEof \<Rightarrow> bind_result (flush S X False c) (\<lambda>c. bind_result (on_eof c) (\<lambda>c. Inr (do_ack tag c)))
      | KAbort \<Rightarrow> bind_result (case on_abort of None \<Rightarrow> Inr c | Some f \<Rightarrow> f c) (\<lambda>c. Inr (do_ack tag c))
      | KData \<Rightarrow> handle_data S X m on_data tag c)"

definition dispatch_plain ::
  "msg_kind \<Rightarrow> nat \<Rightarrow> ('w \<Rightarrow> 'w result) \<Rightarrow> ('w \<Rightarrow> 'w result) \<Rightarrow> ('w \<Rightarrow> 'w result) option \<Rightarrow>
   'w \<times> nat list \<Rightarrow> ('w \<times> nat list) result" where
  "dispatch_plain k tag on_eof on_data on_abort st =
     (case st of (w, acks) \<Rightarrow>
       bind_result (case k of
           KEof \<Rightarrow> on_eof w
         | KAbort \<Rightarrow> (case on_abort of None \<Rightarrow> Inr w | Some f \<Rightarrow> f w)
         | KData \<Rightarrow> on_data w)
         (\<lambda>w'. Inr (w', acks @ [tag])))"

text \<open>\<open>NullState\<close>: the business state of the stateless nodes.\<close>

definition null_state :: "(unit, unit) snapshotable" where
  "null_state = \<lparr>snap = (\<lambda>s. (s, ())), rest = (\<lambda>b s. s), fresh_obj = (\<lambda>s. ()), clear_stale = (\<lambda>s. s)\<rparr>"

section \<open>Atomicity of the store\<close>

lemma save_trace_path:
  assumes "g \<in> set (save_trace packb path tmp blob fs)" and "path \<noteq> tmp"
  shows "g path = fs path \<or> g path = Some (packb blob)"
  using assms by (auto simp: save_trace_def)

lemma save_blob_path [simp]: "path \<noteq> tmp \<Longrightarrow> save_blob packb path tmp blob fs path = Some (packb blob)"
  by (simp add: save_blob_def save_trace_def)

section \<open>The lock\<close>

lemma with_lock_held [simp]: "ckpt_lock c \<Longrightarrow> with_lock body c = Inl Deadlock"
  by (simp add: with_lock_def)

lemma with_lock_free [simp]:
  "\<not> ckpt_lock c \<Longrightarrow>
   with_lock body c = bind_result (body (c\<lparr>ckpt_lock := True\<rparr>)) (\<lambda>c'. Inr (c'\<lparr>ckpt_lock := False\<rparr>))"
  by (simp add: with_lock_def)

lemma ckpt_lock_frame [simp]:
  "ckpt_lock (write_checkpoint S X f c) = ckpt_lock c"
  "ckpt_lock (checkpoint_and_flush S X f c) = ckpt_lock c"
  "ckpt_lock (do_ack t c) = ckpt_lock c"
  by (simp_all add: write_checkpoint_def checkpoint_and_flush_def flush_acks_def do_ack_def split: prod.splits)

section \<open>Properties\<close>

text \<open>
  C12.  The checkpoint file is replaced atomically: in every state a crash during \<open>save\<close> can leave
  behind, \<open>load\<close> returns the checkpoint that was there before or the new one, and after \<open>save\<close> it
  returns the new one.  The hypothesis on \<open>unpackb\<close> is msgpack's round trip.
\<close>

theorem checkpoint_atomic:
  assumes "path \<noteq> tmp" and "\<forall>b. unpackb (packb b) = Some b"
  shows "(\<forall>g\<in>set (save_trace packb path tmp blob fs).
            load_blob unpackb path g \<in> {load_blob unpackb path fs, Some blob}) \<and>
         load_blob unpackb path (save_blob packb path tmp blob fs) = Some blob"
proof -
  have "load_blob unpackb path g \<in> {load_blob unpackb path fs, Some blob}"
    if "g \<in> set (save_trace packb path tmp blob fs)" for g
    using save_trace_path [OF that assms(1)] assms(2) by (auto simp: load_blob_def)
  then show ?thesis using assms by (simp add: load_blob_def)
qed

theorem checkpoint_atomic_witness:
  "load_blob (\<lambda>c. Some c) ''n.ckpt'' (save_blob (\<lambda>b. b) ''n.ckpt'' ''a.tmp'' [1, 2, 3] (\<lambda>_. Some [9])) = Some [1, 2, 3]"
  using checkpoint_atomic [of "''n.ckpt''" "''a.tmp''" "\<lambda>c. Some c" "\<lambda>b. b" "[1, 2, 3]" "\<lambda>_. Some [9]"]
  by simp

end
