(* ===== verification/Exactly_Once.thy ===== *)
theory Exactly_Once
  imports Checkpointing
begin

text \<open>
  A checkpointed node under redelivery and crashes.  The steps of \<open>cp_step\<close> are the calls the
  controllers make on their \<open>Checkpointer\<close> (a delivered data message, a control event such as an
  EOF or a barrier token, a flush, an abort), and the crashes at the points the code marks with
  \<open>maybe_crash\<close>: between any two calls, after a message was applied, while the checkpoint is
  written, and between the checkpoint and each held acknowledgement.  A crash restarts the process
  over the last durable checkpoint; the broker delivers again whatever was not acknowledged.

  The invariant of the locale \<open>checkpointed_node\<close> says that the volatile and the durable state
  are those of a log in which every message identity occurs at most once, and that whatever was
  acknowledged is covered by the durable log.
\<close>

datatype ('m, 'e) event = Data 'm | Ctl 'e

type_synonym ('s, 'x) node_state = "'s \<times> (bytes \<times> int) list \<times> (string, 'x) dict"

text \<open>What a controller is to its checkpointer: its snapshotable parts, the identity of its
  messages, the effect of an event on its state, and the state it is built with.\<close>

record ('s, 'b, 'x, 'y, 'm, 'e) node =
  nd_fn :: "('s, 'b) snapshotable"
  nd_extra :: "('x, 'y) snapshotable"
  nd_ident :: "'m \<Rightarrow> msg_id"
  nd_eff :: "('m, 'e) event \<Rightarrow> ('s, 'x) node_state \<Rightarrow> ('s, 'x) node_state"
  nd_init :: "('s, 'x) node_state"
  nd_every :: int

definition node_state :: "('s, 'b, 'x, 'y) checkpointer \<Rightarrow> ('s, 'x) node_state" where
  "node_state c = (cfn c, seq_sources c, extra_state c)"

definition put_state ::
  "('s, 'x) node_state \<Rightarrow> ('s, 'b, 'x, 'y) checkpointer \<Rightarrow> ('s, 'b, 'x, 'y) checkpointer" where
  "put_state st c =
     (case st of (s, q, e) \<Rightarrow> c\<lparr>cfn := s, seq_sources := q, extra_state := e\<rparr>)"

definition run_eff ::
  "('s, 'b, 'x, 'y, 'm, 'e) node \<Rightarrow> ('m, 'e) event \<Rightarrow> ('s, 'b, 'x, 'y) checkpointer \<Rightarrow>
   ('s, 'b, 'x, 'y) checkpointer" where
  "run_eff N ev c = put_state (nd_eff N ev (node_state c)) c"

text \<open>The start of a process: the constructor over what is on disk, then \<open>restore\<close>.\<close>

definition boot ::
  "('s, 'b, 'x, 'y, 'm, 'e) node \<Rightarrow> ('s, 'b, 'x, 'y) checkpointer \<Rightarrow> ('s, 'b, 'x, 'y) checkpointer" where
  "boot N c =
     (case nd_init N of (s0, q0, e0) \<Rightarrow>
       snd (restore_cp (nd_fn N) (nd_extra N)
         (new_checkpointer (fresh_obj (nd_fn N) (cfn c)) (nd_every N) q0 e0 (ckpt_store c) (acked c))))"

definition first_boot :: "('s, 'b, 'x, 'y, 'm, 'e) node \<Rightarrow> ('s, 'b, 'x, 'y) checkpointer" where
  "first_boot N =
     (case nd_init N of (s0, q0, e0) \<Rightarrow>
       snd (restore_cp (nd_fn N) (nd_extra N)
         (new_checkpointer (fresh_obj (nd_fn N) s0) (nd_every N) q0 e0 None [])))"

text \<open>A flush cut short after the checkpoint and \<open>n\<close> of the held acknowledgements.\<close>

definition partial_flush ::
  "('s, 'b, 'x, 'y, 'm, 'e) node \<Rightarrow> bool \<Rightarrow> nat \<Rightarrow> ('s, 'b, 'x, 'y) checkpointer \<Rightarrow>
   ('s, 'b, 'x, 'y) checkpointer" where
  "partial_flush N f n c =
     (let c' = write_checkpoint (nd_fn N) (nd_extra N) f c
      in c'\<lparr>acked := acked c' @ take n (pending_acks c')\<rparr>)"

text \<open>The part of \<open>_on_abort\<close> that concerns the checkpointer: the client's state is dropped (the
  control event \<open>ev\<close>), the client is marked, and the checkpoint is forced.\<close>

definition abort_client ::
  "('s, 'b, 'x, 'y, 'm, 'e) node \<Rightarrow> ('m, 'e) event \<Rightarrow> uuid \<Rightarrow> ('s, 'b, 'x, 'y) checkpointer \<Rightarrow>
   ('s, 'b, 'x, 'y) checkpointer result" where
  "abort_client N ev cid c =
     bind_result (mark_aborted cid (run_eff N ev c)) (flush (nd_fn N) (nd_extra N) True)"

inductive cp_step ::
  "('s, 'b, 'x, 'y, 'm, 'e) node \<Rightarrow> (nat \<rightharpoonup> 'm) \<Rightarrow>
   ('s, 'b, 'x, 'y) checkpointer \<Rightarrow> ('s, 'b, 'x, 'y) checkpointer \<Rightarrow> bool"
  for N :: "('s, 'b, 'x, 'y, 'm, 'e) node" and q :: "nat \<rightharpoonup> 'm" where
  deliver: "q t = Some m \<Longrightarrow> t \<notin> set (acked c) \<union> set (pending_acks c) \<Longrightarrow>
     handle_data (nd_fn N) (nd_extra N) (nd_ident N m) (\<lambda>c. Inr (run_eff N (Data m) c)) t c = Inr c' \<Longrightarrow>
     cp_step N q c c'"
| control: "cp_step N q c (run_eff N (Ctl e) c)"
| flush: "flush (nd_fn N) (nd_extra N) f c = Inr c' \<Longrightarrow> cp_step N q c c'"
| abort: "abort_client N (Ctl e) cid c = Inr c' \<Longrightarrow> cp_step N q c c'"
| crash: "cp_step N q c (boot N c)"
| crash_in_flush: "cp_step N q c (boot N (partial_flush N f n c))"
| crash_in_deliver: "q t = Some m \<Longrightarrow> t \<notin> set (acked c) \<union> set (pending_acks c) \<Longrightarrow>
     m_client (nd_ident N m) |\<notin>| caborted c \<Longrightarrow>
     \<not> is_duplicate (cdedup c) (m_producer (nd_ident N m)) (m_seq (nd_ident N m)) \<Longrightarrow>
     apply_and_record (nd_ident N m) (\<lambda>c. Inr (run_eff N (Data m) c)) t c = Inr c' \<Longrightarrow>
     cp_step N q c (boot N (partial_flush N False n c'))"
| crash_in_abort: "mark_aborted cid (run_eff N (Ctl e) c) = Inr c' \<Longrightarrow>
     cp_step N q c (boot N (partial_flush N True n c'))"

inductive cp_reach ::
  "('s, 'b, 'x, 'y, 'm, 'e) node \<Rightarrow> (nat \<rightharpoonup> 'm) \<Rightarrow> ('s, 'b, 'x, 'y) checkpointer \<Rightarrow> bool"
  for N :: "('s, 'b, 'x, 'y, 'm, 'e) node" and q :: "nat \<rightharpoonup> 'm" where
  start: "cp_reach N q (first_boot N)"
| step: "cp_reach N q c \<Longrightarrow> cp_step N q c c' \<Longrightarrow> cp_reach N q c'"

inductive_cases cp_stepE: "cp_step N q c c'"

section \<open>Logs\<close>

definition replay ::
  "('s, 'b, 'x, 'y, 'm, 'e) node \<Rightarrow> ('m, 'e) event list \<Rightarrow> ('s, 'x) node_state" where
  "replay N evs = foldl (\<lambda>st ev. nd_eff N ev st) (nd_init N) evs"

definition pid :: "('s, 'b, 'x, 'y, 'm, 'e) node \<Rightarrow> 'm \<Rightarrow> bytes \<times> int" where
  "pid N m = (m_producer (nd_ident N m), m_seq (nd_ident N m))"

fun data_of :: "('m, 'e) event list \<Rightarrow> 'm list" where
  "data_of [] = []"
| "data_of (Data m # es) = m # data_of es"
| "data_of (Ctl e # es) = data_of es"

definition ids_of :: "('s, 'b, 'x, 'y, 'm, 'e) node \<Rightarrow> ('m, 'e) event list \<Rightarrow> (bytes \<times> int) list" where
  "ids_of N evs = map (pid N) (data_of evs)"

text \<open>The blob a checkpoint of a given state, filter and abort set contains.\<close>

definition blob_for ::
  "('s, 'b, 'x, 'y, 'm, 'e) node \<Rightarrow> ('s, 'x) node_state \<Rightarrow> dedup \<Rightarrow> uuid fset \<Rightarrow> ('b, 'y) blob" where
  "blob_for N st d ab =
     (case st of (s, q, e) \<Rightarrow>
       \<lparr>b_state = snd (snap (nd_fn N) s), b_dedup = snapshot_dedup d, b_out_seq = dict_of q,
        b_extra = map (\<lambda>(k, x). (k, snd (snap (nd_extra N) x))) e, b_aborted = ab\<rparr>)"

definition durable_aborted :: "('b, 'y) blob option \<Rightarrow> uuid fset" where
  "durable_aborted st = (case st of None \<Rightarrow> {||} | Some b \<Rightarrow> b_aborted b)"

text \<open>The durable state is that of the log.\<close>

definition stored_log ::
  "('s, 'b, 'x, 'y, 'm, 'e) node \<Rightarrow> ('b, 'y) blob option \<Rightarrow> ('m, 'e) event list \<Rightarrow> bool" where
  "stored_log N st evs \<longleftrightarrow>
     (case st of
        None \<Rightarrow> evs = []
      | Some b \<Rightarrow> \<exists>d. b = blob_for N (replay N evs) d (b_aborted b) \<and> dedup_inv d \<and>
                       known_ids d = set (ids_of N evs))"

lemma b_aborted_blob_for [simp]: "b_aborted (blob_for N st d ab) = ab"
  by (simp add: blob_for_def split: prod.splits)

lemma data_of_append [simp]: "data_of (l1 @ l2) = data_of l1 @ data_of l2"
  by (induction l1 rule: data_of.induct) auto

lemma data_of_single [simp]: "data_of [Data m] = [m]" "data_of [Ctl e] = []"
  by simp_all

lemma set_data_of: "m \<in> set (data_of evs) \<longleftrightarrow> Data m \<in> set evs"
  by (induction evs rule: data_of.induct) auto

lemma ids_of_append [simp]: "ids_of N (l1 @ l2) = ids_of N l1 @ ids_of N l2"
  by (simp add: ids_of_def)

lemma ids_of_simps [simp]:
  "ids_of N [] = []" "ids_of N [Data m] = [pid N m]" "ids_of N [Ctl e] = []"
  by (simp_all add: ids_of_def)

lemma replay_Nil [simp]: "replay N [] = nd_init N"
  by (simp add: replay_def)

lemma replay_snoc [simp]: "replay N (evs @ [ev]) = nd_eff N ev (replay N evs)"
  by (simp add: replay_def)

section \<open>Frame conditions\<close>

lemma put_state_simps [simp]:
  "node_state (put_state st c) = st" "cdedup (put_state st c) = cdedup c"
  "pending_acks (put_state st c) = pending_acks c" "caborted (put_state st c) = caborted c"
  "dirty (put_state st c) = dirty c" "ckpt_lock (put_state st c) = ckpt_lock c"
  "ckpt_store (put_state st c) = ckpt_store c" "acked (put_state st c) = acked c"
  "ckpt_every (put_state st c) = ckpt_every c"
  by (auto simp: put_state_def node_state_def split: prod.splits)

lemma run_eff_simps [simp]:
  "node_state (run_eff N ev c) = nd_eff N ev (node_state c)" "cdedup (run_eff N ev c) = cdedup c"
  "pending_acks (run_eff N ev c) = pending_acks c" "caborted (run_eff N ev c) = caborted c"
  "dirty (run_eff N ev c) = dirty c" "ckpt_lock (run_eff N ev c) = ckpt_lock c"
  "ckpt_store (run_eff N ev c) = ckpt_store c" "acked (run_eff N ev c) = acked c"
  by (simp_all add: run_eff_def)

lemma lock_update_id [simp]: "\<not> ckpt_lock c \<Longrightarrow> c\<lparr>ckpt_lock := False\<rparr> = c"
  by (cases c) simp

lemma node_state_update [simp]:
  "node_state (c\<lparr>cdedup := d\<rparr>) = node_state c" "node_state (c\<lparr>pending_acks := p\<rparr>) = node_state c"
  "node_state (c\<lparr>caborted := a\<rparr>) = node_state c" "node_state (c\<lparr>dirty := b\<rparr>) = node_state c"
  "node_state (c\<lparr>ckpt_lock := b\<rparr>) = node_state c" "node_state (c\<lparr>ckpt_store := x\<rparr>) = node_state c"
  "node_state (c\<lparr>acked := y\<rparr>) = node_state c"
  by (simp_all add: node_state_def)

lemma checkpoint_under_lock:
  "\<not> ckpt_lock c \<Longrightarrow>
   (checkpoint_and_flush S X f (c\<lparr>ckpt_lock := True\<rparr>))\<lparr>ckpt_lock := False\<rparr> = checkpoint_and_flush S X f c"
  by (cases c) (simp add: checkpoint_and_flush_def write_checkpoint_def flush_acks_def make_blob_def
      split: prod.splits)

lemma run_eff_under_lock:
  "\<not> ckpt_lock c \<Longrightarrow> (run_eff N ev (c\<lparr>ckpt_lock := True\<rparr>)) = (run_eff N ev c)\<lparr>ckpt_lock := True\<rparr>"
  by (cases c) (simp add: run_eff_def put_state_def node_state_def split: prod.splits)

section \<open>Restoring the outgoing counters and the extra state\<close>

lemma restore_sources_id:
  assumes "map fst q = map fst q0" and "distinct (map fst q0)"
  shows "restore_sources (dict_of q) q0 = q"
proof -
  from assms have wf: "wf_dict q" by (simp add: wf_dict_def)
  have "restore_sources (dict_of q) q0 = map (\<lambda>(p, v). (p, the (map_of q p))) q0"
  proof -
    have "dict_get q p v = the (map_of q p)" if "(p, v) \<in> set q0" for p v
    proof -
      from that assms(1) have "p \<in> set (map fst q)" by (metis fst_conv image_eqI list.set_map)
      then have "map_of q p \<noteq> None" by (simp add: map_of_eq_None_iff)
      then show ?thesis by (auto simp: dict_get_def)
    qed
    then show ?thesis by (auto simp: restore_sources_def dict_of_wf [OF wf])
  qed
  also have "\<dots> = map (\<lambda>p. (p, the (map_of q p))) (map fst q0)"
    by (simp add: case_prod_beta)
  also have "\<dots> = map (\<lambda>p. (p, the (map_of q p))) (map fst q)"
    by (simp only: assms(1))
  also have "\<dots> = q"
    using wf by (rule rebuild_dict)
  finally show ?thesis .
qed

lemma restore_extra_id:
  assumes keys: "map fst e = map fst e0" and dist: "distinct (map fst e0)"
    and rs: "\<And>k x x0. (k, x) \<in> set e \<Longrightarrow> (k, x0) \<in> set e0 \<Longrightarrow> rest X (snd (snap X x)) x0 = x"
  shows "restore_extra X (map (\<lambda>(k, x). (k, snd (snap X x))) e) e0 = e"
proof -
  have m: "map_of (map (\<lambda>(k, x). (k, snd (snap X x))) e) k = map_option (\<lambda>x. snd (snap X x)) (map_of e k)" for k
    by (simp add: map_of_map)
  have val: "(case map_option (\<lambda>x. snd (snap X x)) (map_of e k) of None \<Rightarrow> x0 | Some y \<Rightarrow> rest X y x0)
      = the (map_of e k)" if "(k, x0) \<in> set e0" for k x0
  proof -
    from that keys have "k \<in> set (map fst e)" by (metis fst_conv image_eqI list.set_map)
    then obtain x where "map_of e k = Some x" by (metis map_of_eq_None_iff not_Some_eq set_map)
    moreover from this have "(k, x) \<in> set e" by (rule map_of_SomeD)
    ultimately show ?thesis using rs that by simp
  qed
  have "restore_extra X (map (\<lambda>(k, x). (k, snd (snap X x))) e) e0 = map (\<lambda>p. (p, the (map_of e p))) (map fst e0)"
    using val by (auto simp: restore_extra_def m)
  also have "\<dots> = map (\<lambda>p. (p, the (map_of e p))) (map fst e)"
    by (simp only: keys)
  also have "\<dots> = e"
    using keys dist by (intro rebuild_dict) (simp add: wf_dict_def)
  finally show ?thesis .
qed

section \<open>The interface of a checkpointed node\<close>

text \<open>
  The queue is well stamped: every message carries a sequence number (the control messages that
  carry the number 0 do not go through deduplication), and copies under one identity are copies
  of one message.
\<close>

definition stamped_queue :: "('s, 'b, 'x, 'y, 'm, 'e) node \<Rightarrow> (nat \<rightharpoonup> 'm) \<Rightarrow> bool" where
  "stamped_queue N q \<longleftrightarrow> (\<forall>m\<in>ran q. 1 \<le> m_seq (nd_ident N m)) \<and> (\<forall>m\<in>ran q. \<forall>m'\<in>ran q. pid N m = pid N m' \<longrightarrow> m = m')"

locale checkpointed_node =
  fixes N :: "('s, 'b, 'x, 'y, 'm, 'e) node"
    and wf :: "('s, 'x) node_state \<Rightarrow> bool"
  assumes wf_init: "wf (nd_init N)"
    and wf_eff: "wf st \<Longrightarrow> wf (nd_eff N ev st)"
    and fresh_clear: "clear_stale (nd_fn N) (fresh_obj (nd_fn N) s') = fst (nd_init N)"
    and snap_fn: "wf (s, q, e) \<Longrightarrow> fst (snap (nd_fn N) s) = s"
    and rest_fn: "wf (s, q, e) \<Longrightarrow> rest (nd_fn N) (snd (snap (nd_fn N) s)) (fresh_obj (nd_fn N) s') = s"
    and source_keys: "wf (s, q, e) \<Longrightarrow> map fst q = map fst (fst (snd (nd_init N)))"
    and extra_keys: "wf (s, q, e) \<Longrightarrow> map fst e = map fst (snd (snd (nd_init N)))"
    and snap_extra: "wf (s, q, e) \<Longrightarrow> (k, x) \<in> set e \<Longrightarrow> fst (snap (nd_extra N) x) = x"
    and rest_extra: "wf (s, q, e) \<Longrightarrow> (k, x) \<in> set e \<Longrightarrow> (k, x0) \<in> set (snd (snd (nd_init N))) \<Longrightarrow>
      rest (nd_extra N) (snd (snap (nd_extra N) x)) x0 = x"
    and distinct_keys: "distinct (map fst (fst (snd (nd_init N))))" "distinct (map fst (snd (snd (nd_init N))))"
begin

lemma wf_replay: "wf (replay N evs)"
  by (induction evs rule: rev_induct) (auto simp: wf_init wf_eff)

text \<open>A restart over a checkpoint of the log is the state of that log.\<close>

lemma boot_stored:
  assumes "stored_log N (ckpt_store c) devs"
  shows "node_state (boot N c) = replay N devs" and "dedup_inv (cdedup (boot N c))"
    and "known_ids (cdedup (boot N c)) = set (ids_of N devs)"
    and "caborted (boot N c) = durable_aborted (ckpt_store c)"
    and "ckpt_store (boot N c) = ckpt_store c" and "acked (boot N c) = acked c"
    and "pending_acks (boot N c) = []" and "\<not> ckpt_lock (boot N c)"
proof -
  obtain s0 q0 e0 where init: "nd_init N = (s0, q0, e0)" by (metis prod_cases3)
  obtain s q e where rep: "replay N devs = (s, q, e)" by (metis prod_cases3)
  from wf_replay [of devs] rep have wf: "wf (s, q, e)" by simp
  have q: "restore_sources (dict_of q) q0 = q"
    using source_keys [OF wf] distinct_keys init by (auto intro: restore_sources_id)
  have e: "restore_extra (nd_extra N) (map (\<lambda>(k, x). (k, snd (snap (nd_extra N) x))) e) e0 = e"
    using extra_keys [OF wf] distinct_keys rest_extra [OF wf] init by (auto intro: restore_extra_id)
  have "node_state (boot N c) = replay N devs \<and> dedup_inv (cdedup (boot N c)) \<and>
    known_ids (cdedup (boot N c)) = set (ids_of N devs) \<and>
    caborted (boot N c) = durable_aborted (ckpt_store c)"
  proof (cases "ckpt_store c")
    case None
    with assms have "devs = []" by (simp add: stored_log_def)
    with None init fresh_clear dd.known_fresh show ?thesis
      by (simp add: boot_def restore_cp_def new_checkpointer_def node_state_def durable_aborted_def)
  next
    case (Some b)
    with assms obtain d where b: "b = blob_for N (replay N devs) d (b_aborted b)" and d: "dedup_inv d"
      "known_ids d = set (ids_of N devs)" by (auto simp: stored_log_def)
    have f: "b_state b = snd (snap (nd_fn N) s)" "b_dedup b = snapshot_dedup d" "b_out_seq b = dict_of q"
      "b_extra b = map (\<lambda>(k, x). (k, snd (snap (nd_extra N) x))) e"
      by (subst b, simp add: blob_for_def rep)+
    from Some init q e d rest_fn [OF wf] show ?thesis
      by (simp add: boot_def restore_cp_def new_checkpointer_def node_state_def durable_aborted_def
          rep f restore_snapshot_dedup)
  qed
  then show "node_state (boot N c) = replay N devs" "dedup_inv (cdedup (boot N c))"
    "known_ids (cdedup (boot N c)) = set (ids_of N devs)"
    "caborted (boot N c) = durable_aborted (ckpt_store c)" by auto
  show "ckpt_store (boot N c) = ckpt_store c" "acked (boot N c) = acked c"
    "pending_acks (boot N c) = []" "\<not> ckpt_lock (boot N c)"
    by (simp_all add: boot_def restore_cp_def new_checkpointer_def init split: option.splits)
qed

text \<open>
  The invariant.  \<open>evs\<close> is the log of the volatile state, \<open>devs\<close> that of the durable one; an
  acknowledged tag is covered when its identity is in the durable log, its client is durably
  aborted, or another tag with its identity is still with the broker.
\<close>

definition covered :: "(nat \<rightharpoonup> 'm) \<Rightarrow> nat set \<Rightarrow> uuid fset \<Rightarrow> ('m, 'e) event list \<Rightarrow> nat \<Rightarrow> bool" where
  "covered q A ab devs t \<longleftrightarrow>
     (\<exists>m. q t = Some m \<and>
       (pid N m \<in> set (ids_of N devs) \<or> m_client (nd_ident N m) |\<in>| ab \<or>
        (\<exists>t' m'. q t' = Some m' \<and> pid N m' = pid N m \<and> t' \<notin> A)))"

definition cp_core :: "(nat \<rightharpoonup> 'm) \<Rightarrow> ('s, 'b, 'x, 'y) checkpointer \<Rightarrow> ('m, 'e) event list \<Rightarrow> ('m, 'e) event list \<Rightarrow> bool" where
  "cp_core q c evs devs \<longleftrightarrow>
     node_state c = replay N evs \<and> dedup_inv (cdedup c) \<and> known_ids (cdedup c) = set (ids_of N evs) \<and>
     distinct (ids_of N evs) \<and> stored_log N (ckpt_store c) devs \<and>
     durable_aborted (ckpt_store c) |\<subseteq>| caborted c \<and>
     (\<exists>r. evs = devs @ r \<and> (data_of r \<noteq> [] \<longrightarrow> dirty c) \<and>
          (\<forall>i\<in>set (ids_of N r). \<exists>t m. q t = Some m \<and> pid N m = i \<and> t \<in> set (pending_acks c))) \<and>
     (\<forall>t\<in>set (pending_acks c). \<exists>m. q t = Some m \<and> pid N m \<in> set (ids_of N evs)) \<and>
     distinct (acked c @ pending_acks c) \<and>
     (\<forall>t\<in>set (acked c). covered q (set (acked c)) (durable_aborted (ckpt_store c)) devs t) \<and>
     (\<forall>m\<in>set (data_of evs). m \<in> ran q)"

definition cp_inv :: "(nat \<rightharpoonup> 'm) \<Rightarrow> ('s, 'b, 'x, 'y) checkpointer \<Rightarrow> ('m, 'e) event list \<Rightarrow> ('m, 'e) event list \<Rightarrow> bool" where
  "cp_inv q c evs devs \<longleftrightarrow>
     cp_core q c evs devs \<and> \<not> ckpt_lock c \<and> caborted c = durable_aborted (ckpt_store c)"

lemma coreD:
  assumes "cp_core q c evs devs"
  shows "node_state c = replay N evs" and "dedup_inv (cdedup c)"
    and "known_ids (cdedup c) = set (ids_of N evs)" and "distinct (ids_of N evs)"
    and "stored_log N (ckpt_store c) devs" and "durable_aborted (ckpt_store c) |\<subseteq>| caborted c"
    and "distinct (acked c @ pending_acks c)"
    and "t \<in> set (acked c) \<Longrightarrow> covered q (set (acked c)) (durable_aborted (ckpt_store c)) devs t"
    and "m \<in> set (data_of evs) \<Longrightarrow> m \<in> ran q"
    and "t \<in> set (pending_acks c) \<Longrightarrow> \<exists>m. q t = Some m \<and> pid N m \<in> set (ids_of N evs)"
    and "\<exists>r. evs = devs @ r \<and> (data_of r \<noteq> [] \<longrightarrow> dirty c) \<and>
          (\<forall>i\<in>set (ids_of N r). \<exists>t m. q t = Some m \<and> pid N m = i \<and> t \<in> set (pending_acks c))"
  using assms unfolding cp_core_def by blast+

lemma core_control:
  assumes "cp_core q c evs devs"
  shows "cp_core q (run_eff N (Ctl e) c) (evs @ [Ctl e]) devs"
  using assms by (auto simp: cp_core_def)

lemma core_mark:
  assumes "cp_core q c evs devs"
  shows "cp_core q (c\<lparr>caborted := finsert cid (caborted c), dirty := True\<rparr>) evs devs"
  using assms by (auto simp: cp_core_def)

lemma core_apply:
  assumes core: "cp_core q c evs devs" and t: "q t = Some m" "t \<notin> set (acked c) \<union> set (pending_acks c)"
    and seq: "stamped_queue N q"
    and new: "\<not> is_duplicate (cdedup c) (m_producer (nd_ident N m)) (m_seq (nd_ident N m))"
    and c': "apply_and_record (nd_ident N m) (\<lambda>c. Inr (run_eff N (Data m) c)) t c = Inr c'"
  shows "cp_core q c' (evs @ [Data m]) devs" and "caborted c' = caborted c" and "ckpt_store c' = ckpt_store c"
    and "ckpt_lock c' = ckpt_lock c"
proof -
  note D = coreD [OF core]
  have v: "1 \<le> m_seq (nd_ident N m)" using seq t by (auto simp: stamped_queue_def ran_def)
  have fresh: "pid N m \<notin> set (ids_of N evs)"
    using new dd.dup_known [OF D(2) v] D(3) by (simp add: pid_def)
  have rec: "dedup_inv (record_seq (cdedup c) (m_producer (nd_ident N m)) (m_seq (nd_ident N m)))"
    "known_ids (record_seq (cdedup c) (m_producer (nd_ident N m)) (m_seq (nd_ident N m))) =
     insert (pid N m) (set (ids_of N evs))"
    using dd.invar_rec [OF D(2) v] dd.known_rec [OF D(2) v] D(3) by (simp_all add: pid_def)
  from c' have c'': "c' = (run_eff N (Data m) c)\<lparr>cdedup := record_seq (cdedup c) (m_producer (nd_ident N m)) (m_seq (nd_ident N m)),
      dirty := True, pending_acks := pending_acks c @ [t]\<rparr>"
    by (simp add: apply_and_record_def)
  obtain r where r: "evs = devs @ r"
    "\<forall>i\<in>set (ids_of N r). \<exists>t m. q t = Some m \<and> pid N m = i \<and> t \<in> set (pending_acks c)"
    using D(11) by auto
  have "\<forall>i\<in>set (ids_of N (r @ [Data m])). \<exists>t' m. q t' = Some m \<and> pid N m = i \<and> t' \<in> insert t (set (pending_acks c))"
  proof
    fix i assume "i \<in> set (ids_of N (r @ [Data m]))"
    then have "i = pid N m \<or> i \<in> set (ids_of N r)" by auto
    then show "\<exists>t' m. q t' = Some m \<and> pid N m = i \<and> t' \<in> insert t (set (pending_acks c))"
      using r(2) t(1) by blast
  qed
  moreover have "evs @ [Data m] = devs @ (r @ [Data m])" using r by simp
  ultimately have "\<exists>r'. evs @ [Data m] = devs @ r' \<and>
      (\<forall>i\<in>set (ids_of N r'). \<exists>t' m. q t' = Some m \<and> pid N m = i \<and> t' \<in> insert t (set (pending_acks c)))"
    by blast
  moreover have "\<exists>m. q t' = Some m \<and> pid N m \<in> insert (pid N m0) (set (ids_of N evs))"
    if "t' \<in> set (pending_acks c)" for t' m0
    using D(10) [OF that] by auto
  ultimately show "cp_core q c' (evs @ [Data m]) devs"
    using D(1,4-9) fresh rec t by (auto simp: cp_core_def c'' ran_def)
  show "caborted c' = caborted c" "ckpt_store c' = ckpt_store c" "ckpt_lock c' = ckpt_lock c"
    by (simp_all add: c'')
qed

text \<open>A written checkpoint makes the data of the volatile log durable.\<close>

lemma covered_mono:
  "covered q A ab devs t \<Longrightarrow> set (ids_of N devs) \<subseteq> set (ids_of N devs') \<Longrightarrow> ab |\<subseteq>| ab' \<Longrightarrow>
   covered q A ab' devs' t"
  by (auto simp: covered_def)

lemma blob_write:
  "node_state c = (s, qs, e) \<Longrightarrow>
   make_blob (nd_extra N) (snd (snap (nd_fn N) s)) c = blob_for N (s, qs, e) (cdedup c) (caborted c)"
  by (simp add: make_blob_def blob_for_def node_state_def)

lemma core_write:
  assumes core: "cp_core q c evs devs"
    and c'_def: "c' = write_checkpoint (nd_fn N) (nd_extra N) f c"
  shows "\<exists>devs'. cp_core q c' evs devs' \<and> set (ids_of N devs') = set (ids_of N evs)"
    and "dirty c \<or> f \<Longrightarrow> caborted c' = durable_aborted (ckpt_store c')"
    and "\<not> (dirty c \<or> f) \<Longrightarrow> c' = c"
    and "ckpt_lock c' = ckpt_lock c"
proof -
  note D = coreD [OF core]
  obtain s qs e where st: "node_state c = (s, qs, e)" by (metis prod_cases3)
  from D(1) st wf_replay [of evs] have wf: "wf (s, qs, e)" by simp
  obtain b where sn: "snap (nd_fn N) s = (s, b)" using snap_fn [OF wf] by (metis prod.collapse)
  have ex: "map (\<lambda>(k, x). (k, fst (snap (nd_extra N) x))) e = e"
    using snap_extra [OF wf] by (auto intro!: map_idI)
  have saved: "c' = c\<lparr>ckpt_store := Some (blob_for N (s, qs, e) (cdedup c) (caborted c)), dirty := False\<rparr>"
    if "dirty c \<or> f"
  proof -
    have "cfn c = s" "extra_state c = e" using st by (simp_all add: node_state_def)
    with that sn ex blob_write [OF st] show ?thesis
      by (cases c) (simp add: c'_def write_checkpoint_def split: prod.splits)
  qed
  show "\<exists>devs'. cp_core q c' evs devs' \<and> set (ids_of N devs') = set (ids_of N evs)"
  proof (cases "dirty c \<or> f")
    case True
    have sl: "stored_log N (Some (blob_for N (s, qs, e) (cdedup c) (caborted c))) evs"
      using D(1-3) st by (auto simp: stored_log_def)
    have ab: "durable_aborted (Some (blob_for N (s, qs, e) (cdedup c) (caborted c))) = caborted c"
      by (simp add: durable_aborted_def)
    have sub: "set (ids_of N devs) \<subseteq> set (ids_of N evs)" using D(11) by auto
    have cov: "covered q (set (acked c)) (caborted c) evs t" if "t \<in> set (acked c)" for t
      using D(8) [OF that] sub D(6) by (rule covered_mono)
    have "cp_core q c' evs evs"
      using D(1-4,7,9,10) sl ab cov by (simp add: cp_core_def saved [OF True])
    then show ?thesis by auto
  next
    case False
    then have "c' = c" by (simp add: c'_def write_checkpoint_def)
    moreover from False D(11) have "set (ids_of N devs) = set (ids_of N evs)"
      by (auto simp: ids_of_def)
    ultimately show ?thesis using core by auto
  qed
  show "dirty c \<or> f \<Longrightarrow> caborted c' = durable_aborted (ckpt_store c')"
    by (simp add: saved durable_aborted_def blob_for_def)
  show "\<not> (dirty c \<or> f) \<Longrightarrow> c' = c" by (simp add: c'_def write_checkpoint_def)
  show "ckpt_lock c' = ckpt_lock c" by (simp add: c'_def)
qed

text \<open>Acknowledging what the durable log contains, all of it or a part before a crash.\<close>

lemma covered_after_ack:
  assumes core: "cp_core q c evs devs" and ids: "set (ids_of N devs) = set (ids_of N evs)"
    and T: "T \<subseteq> set (pending_acks c)" and t: "t \<in> set (acked c) \<union> T"
  shows "covered q (set (acked c) \<union> T) (durable_aborted (ckpt_store c)) devs t"
proof (cases "t \<in> T")
  case True
  with T have "t \<in> set (pending_acks c)" by auto
  from coreD(10) [OF core this] ids show ?thesis by (auto simp: covered_def)
next
  case False
  with t have "covered q (set (acked c)) (durable_aborted (ckpt_store c)) devs t"
    using coreD(8) [OF core] by auto
  then obtain m where m: "q t = Some m" and alt: "pid N m \<in> set (ids_of N devs) \<or>
      m_client (nd_ident N m) |\<in>| durable_aborted (ckpt_store c) \<or>
      (\<exists>t' m'. q t' = Some m' \<and> pid N m' = pid N m \<and> t' \<notin> set (acked c))"
    by (auto simp: covered_def)
  have "pid N m' \<in> set (ids_of N devs)" if "q t' = Some m'" "t' \<in> T" for t' m'
  proof -
    from that T have "t' \<in> set (pending_acks c)" by auto
    from coreD(10) [OF core this] that ids show ?thesis by auto
  qed
  with alt have "pid N m \<in> set (ids_of N devs) \<or> m_client (nd_ident N m) |\<in>| durable_aborted (ckpt_store c) \<or>
      (\<exists>t' m'. q t' = Some m' \<and> pid N m' = pid N m \<and> t' \<notin> set (acked c) \<union> T)"
    by (metis Un_iff)
  with m show ?thesis unfolding covered_def by blast
qed

lemma core_flush_acks:
  assumes core: "cp_core q c evs devs" and ids: "set (ids_of N devs) = set (ids_of N evs)"
  shows "cp_core q (flush_acks c) evs devs"
proof -
  note D = coreD [OF core]
  have r: "\<exists>r. evs = devs @ r \<and> data_of r = []"
  proof -
    from D(11) obtain r where r: "evs = devs @ r" by auto
    with D(4) have "set (ids_of N r) \<inter> set (ids_of N devs) = {}" by auto
    moreover from r ids have "set (ids_of N r) \<subseteq> set (ids_of N devs)" by auto
    ultimately have "set (ids_of N r) = {}" by (simp add: Int_absorb2)
    with r show ?thesis by (simp add: ids_of_def)
  qed
  then have r': "\<exists>r. evs = devs @ r \<and> data_of r = [] \<and> ids_of N r = []"
    by (auto simp: ids_of_def)
  show ?thesis
    using D(1-7,9) r' covered_after_ack [OF core ids order_refl]
    by (auto simp: cp_core_def flush_acks_def)
qed

lemma inv_boot:
  assumes "stored_log N (ckpt_store c) devs" and "distinct (acked c)" and "distinct (ids_of N devs)"
    and "\<And>t. t \<in> set (acked c) \<Longrightarrow> covered q (set (acked c)) (durable_aborted (ckpt_store c)) devs t"
    and "\<And>m. m \<in> set (data_of devs) \<Longrightarrow> m \<in> ran q"
  shows "cp_inv q (boot N c) devs devs"
  using assms boot_stored [OF assms(1)] by (auto simp: cp_inv_def cp_core_def)

text \<open>Acknowledging a covered tag at once: a duplicate, or a message of an aborted client.\<close>

lemma core_ack:
  assumes core: "cp_core q c evs devs" and sq: "stamped_queue N q"
    and t: "q t = Some m" "t \<notin> set (acked c) \<union> set (pending_acks c)"
    and cov: "pid N m \<in> set (ids_of N evs) \<or> m_client (nd_ident N m) |\<in>| durable_aborted (ckpt_store c)"
  shows "cp_core q (do_ack t c) evs devs"
proof -
  note D = coreD [OF core]
  obtain r where r: "evs = devs @ r"
    "\<forall>i\<in>set (ids_of N r). \<exists>t m. q t = Some m \<and> pid N m = i \<and> t \<in> set (pending_acks c)"
    using D(11) by auto
  have new: "covered q (insert t (set (acked c))) (durable_aborted (ckpt_store c)) devs t"
  proof (cases "pid N m \<in> set (ids_of N r)")
    case True
    then obtain t' m' where "q t' = Some m'" "pid N m' = pid N m" "t' \<in> set (pending_acks c)"
      using r(2) by blast
    moreover from this t D(7) have "t' \<notin> insert t (set (acked c))" by auto
    ultimately show ?thesis using t by (auto simp: covered_def)
  next
    case False
    with cov r t show ?thesis by (auto simp: covered_def)
  qed
  have old: "covered q (insert t (set (acked c))) (durable_aborted (ckpt_store c)) devs t1"
    if t1: "t1 \<in> set (acked c)" for t1
  proof -
    obtain m1 where m1: "q t1 = Some m1" and alt: "pid N m1 \<in> set (ids_of N devs) \<or>
        m_client (nd_ident N m1) |\<in>| durable_aborted (ckpt_store c) \<or>
        (\<exists>t' m'. q t' = Some m' \<and> pid N m' = pid N m1 \<and> t' \<notin> set (acked c))"
      using D(8) [OF t1] by (auto simp: covered_def)
    show ?thesis
    proof (cases "pid N m1 = pid N m")
      case True
      with sq m1 t(1) have "m1 = m" by (auto simp: stamped_queue_def ran_def)
      with new m1 t(1) show ?thesis by (auto simp: covered_def)
    next
      case False
      have "t' \<noteq> t" if "q t' = Some m'" "pid N m' = pid N m1" for t' m'
        using that False t(1) by auto
      with alt m1 show ?thesis by (auto simp: covered_def)
    qed
  qed
  have "evs = devs @ r \<and> (data_of r \<noteq> [] \<longrightarrow> dirty c) \<and>
      (\<forall>i\<in>set (ids_of N r). \<exists>t m. q t = Some m \<and> pid N m = i \<and> t \<in> set (pending_acks c))"
    using D(11) r by auto
  then show ?thesis
    using D(1-7,9,10) new old t by (auto simp: cp_core_def do_ack_def)
qed

lemma inv_after_flush:
  assumes core: "cp_core q c evs devs" and lock: "\<not> ckpt_lock c"
    and ab: "dirty c \<or> f \<or> caborted c = durable_aborted (ckpt_store c)"
  shows "\<exists>devs'. cp_inv q (checkpoint_and_flush (nd_fn N) (nd_extra N) f c) evs devs' \<and>
    set (ids_of N devs') = set (ids_of N evs)"
proof -
  define c' where "c' = write_checkpoint (nd_fn N) (nd_extra N) f c"
  note W = core_write [OF core c'_def]
  obtain devs' where c': "cp_core q c' evs devs'" "set (ids_of N devs') = set (ids_of N evs)"
    using W(1) by blast
  from core_flush_acks [OF c'] have "cp_core q (flush_acks c') evs devs'" .
  moreover have "caborted c' = durable_aborted (ckpt_store c')" using W(2,3) ab by metis
  ultimately have "cp_inv q (flush_acks c') evs devs'"
    using W(4) lock by (simp add: cp_inv_def flush_acks_def)
  with c' show ?thesis by (auto simp: checkpoint_and_flush_def c'_def)
qed

lemma inv_crash_flush:
  assumes core: "cp_core q c evs devs"
  shows "\<exists>devs'. cp_inv q (boot N (partial_flush N f n c)) devs' devs'"
proof -
  define c' where "c' = write_checkpoint (nd_fn N) (nd_extra N) f c"
  obtain devs' where c': "cp_core q c' evs devs'" and ids: "set (ids_of N devs') = set (ids_of N evs)"
    using core_write(1) [OF core c'_def] by blast
  note D = coreD [OF c']
  define p where "p = partial_flush N f n c"
  have p: "p = c'\<lparr>acked := acked c' @ take n (pending_acks c')\<rparr>"
    by (simp add: p_def partial_flush_def c'_def Let_def)
  obtain r where r: "evs = devs' @ r" using D(11) by auto
  have "cp_inv q (boot N p) devs' devs'"
  proof (rule inv_boot)
    show "stored_log N (ckpt_store p) devs'" using D(5) by (simp add: p)
    show "distinct (acked p)"
      using D(7) by (auto simp: p dest: in_set_takeD)
    show "distinct (ids_of N devs')" using D(4) r by simp
    show "m \<in> ran q" if "m \<in> set (data_of devs')" for m
      using D(9) r that by auto
    show "covered q (set (acked p)) (durable_aborted (ckpt_store p)) devs' t" if "t \<in> set (acked p)" for t
      using covered_after_ack [OF c' ids, of "set (take n (pending_acks c'))" t] that
      by (auto simp: p dest: in_set_takeD)
  qed
  then show ?thesis by (auto simp: p_def)
qed

lemma inv_crash:
  assumes core: "cp_core q c evs devs"
  shows "cp_inv q (boot N c) devs devs"
proof -
  note D = coreD [OF core]
  obtain r where r: "evs = devs @ r" using D(11) by auto
  from D(4,5,7,8,9) r show ?thesis by (intro inv_boot) auto
qed

lemma inv_first_boot: "cp_inv q (first_boot N) [] []"
proof -
  obtain s0 q0 e0 where init: "nd_init N = (s0, q0, e0)" by (metis prod_cases3)
  let ?c = "new_checkpointer s0 (nd_every N) q0 e0 None []"
  have "first_boot N = boot N ?c"
    by (simp add: first_boot_def boot_def init new_checkpointer_def)
  moreover have "cp_inv q (boot N ?c) [] []"
    by (rule inv_boot) (simp_all add: new_checkpointer_def stored_log_def)
  ultimately show ?thesis by simp
qed

lemma inv_deliver:
  assumes inv: "cp_inv q c evs devs" and sq: "stamped_queue N q"
    and t: "q t = Some m" "t \<notin> set (acked c) \<union> set (pending_acks c)"
    and c': "handle_data (nd_fn N) (nd_extra N) (nd_ident N m) (\<lambda>c. Inr (run_eff N (Data m) c)) t c = Inr c'"
  shows "\<exists>evs' devs'. cp_inv q c' evs' devs'"
proof -
  let ?i = "nd_ident N m"
  from inv have core: "cp_core q c evs devs" and lock: "\<not> ckpt_lock c"
    and ab: "caborted c = durable_aborted (ckpt_store c)" by (auto simp: cp_inv_def)
  have v: "1 \<le> m_seq ?i" using sq t by (auto simp: stamped_queue_def ran_def)
  have dup: "is_duplicate (cdedup c) (m_producer ?i) (m_seq ?i) \<longleftrightarrow> pid N m \<in> set (ids_of N evs)"
    using dd.dup_known [OF coreD(2) [OF core] v] coreD(3) [OF core] by (simp add: pid_def)
  show ?thesis
  proof (cases "m_client ?i |\<in>| caborted c \<or> is_duplicate (cdedup c) (m_producer ?i) (m_seq ?i)")
    case True
    with c' lock have "c' = do_ack t c"
      by (auto simp: handle_data_def do_ack_def split: if_splits)
    moreover from True ab dup have "cp_core q (do_ack t c) evs devs"
      by (intro core_ack [OF core sq t]) auto
    ultimately show ?thesis using lock ab by (auto simp: cp_inv_def do_ack_def)
  next
    case False
    define c1 where "c1 = (run_eff N (Data m) c)\<lparr>cdedup := record_seq (cdedup c) (m_producer ?i) (m_seq ?i),
        dirty := True, pending_acks := pending_acks c @ [t]\<rparr>"
    have c1: "apply_and_record ?i (\<lambda>c. Inr (run_eff N (Data m) c)) t c = Inr c1"
      by (simp add: apply_and_record_def c1_def)
    have new: "\<not> is_duplicate (cdedup c) (m_producer ?i) (m_seq ?i)" using False by simp
    note A = core_apply [OF core t sq new c1]
    have lock1: "\<not> ckpt_lock c1" using A(4) lock by simp
    have "c' = (if ckpt_every c1 \<le> int (length (pending_acks c1))
        then checkpoint_and_flush (nd_fn N) (nd_extra N) False c1 else c1)"
    proof -
      have "apply_and_record ?i (\<lambda>c. Inr (run_eff N (Data m) c)) t (c\<lparr>ckpt_lock := True\<rparr>) =
          Inr (c1\<lparr>ckpt_lock := True\<rparr>)"
        using lock by (simp add: apply_and_record_def c1_def run_eff_under_lock)
      with c' False lock lock1 show ?thesis
        by (auto simp: handle_data_def checkpoint_under_lock split: if_splits)
    qed
    moreover have "cp_inv q c1 (evs @ [Data m]) devs"
      using A ab lock1 by (simp add: cp_inv_def)
    moreover have "\<exists>devs'. cp_inv q (checkpoint_and_flush (nd_fn N) (nd_extra N) False c1) (evs @ [Data m]) devs'"
      using inv_after_flush [OF A(1) lock1] by (auto simp: c1_def)
    ultimately show ?thesis by auto
  qed
qed

lemma inv_step:
  assumes inv: "cp_inv q c evs devs" and sq: "stamped_queue N q" and step: "cp_step N q c c'"
  shows "\<exists>evs' devs'. cp_inv q c' evs' devs'"
proof -
  from inv have core: "cp_core q c evs devs" and lock: "\<not> ckpt_lock c"
    and ab: "caborted c = durable_aborted (ckpt_store c)" by (auto simp: cp_inv_def)
  from step show ?thesis
  proof cases
    case (deliver t m)
    then show ?thesis by (intro inv_deliver [OF inv sq])
  next
    case (control e)
    with core_control [OF core] lock ab show ?thesis by (auto simp: cp_inv_def)
  next
    case (flush f)
    with lock have "c' = checkpoint_and_flush (nd_fn N) (nd_extra N) f c"
      by (simp add: flush_def checkpoint_under_lock)
    with inv_after_flush [OF core lock] ab show ?thesis by blast
  next
    case (abort e cid)
    let ?c = "(run_eff N (Ctl e) c)\<lparr>caborted := finsert cid (caborted c), dirty := True\<rparr>"
    have core': "cp_core q ?c (evs @ [Ctl e]) devs"
      using core_mark [OF core_control [OF core]] by simp
    have "mark_aborted cid (run_eff N (Ctl e) c) = Inr ?c"
      using lock by (simp add: mark_aborted_def)
    with abort lock have "c' = checkpoint_and_flush (nd_fn N) (nd_extra N) True ?c"
      by (simp add: abort_client_def flush_def checkpoint_under_lock)
    with inv_after_flush [OF core', of True] lock show ?thesis by (simp, blast)
  next
    case crash
    with inv_crash [OF core] show ?thesis by blast
  next
    case (crash_in_flush f n)
    with inv_crash_flush [OF core] show ?thesis by blast
  next
    case (crash_in_deliver t m c1 n)
    with inv_crash_flush [OF core_apply(1) [OF core _ _ sq]] show ?thesis by blast
  next
    case (crash_in_abort cid e c1 n)
    then have "c1 = (run_eff N (Ctl e) c)\<lparr>caborted := finsert cid (caborted c), dirty := True\<rparr>"
      using lock by (simp add: mark_aborted_def)
    with core_mark [OF core_control [OF core]] have "cp_core q c1 (evs @ [Ctl e]) devs" by simp
    with inv_crash_flush crash_in_abort show ?thesis by blast
  qed
qed

lemma reach_inv:
  assumes "cp_reach N q c" and "stamped_queue N q"
  shows "\<exists>evs devs. cp_inv q c evs devs"
  using assms
proof (induction rule: cp_reach.induct)
  case start
  show ?case using inv_first_boot by blast
next
  case (step c c')
  then show ?case using inv_step by blast
qed

text \<open>Once the broker holds nothing back, every message of a client that was not aborted is in
  the durable log exactly once, and nothing else is.\<close>

lemma exactly_once:
  assumes reach: "cp_reach N q c" and sq: "stamped_queue N q" and all: "dom q \<subseteq> set (acked c)"
  shows "\<exists>devs. stored_log N (ckpt_store c) devs \<and> distinct (data_of devs) \<and> set (data_of devs) \<subseteq> ran q \<and>
    (\<forall>m\<in>ran q. m_client (nd_ident N m) |\<notin>| durable_aborted (ckpt_store c) \<longrightarrow> m \<in> set (data_of devs)) \<and>
    node_state (boot N c) = replay N devs"
proof -
  obtain evs devs where inv: "cp_inv q c evs devs" using reach_inv [OF reach sq] by blast
  then have core: "cp_core q c evs devs" by (simp add: cp_inv_def)
  note D = coreD [OF core]
  obtain r where r: "evs = devs @ r" using D(11) by auto
  have sub: "set (data_of devs) \<subseteq> ran q" using D(9) r by auto
  moreover have "distinct (data_of devs)"
    using D(4) r by (auto simp: ids_of_def distinct_map)
  moreover have "m \<in> set (data_of devs)"
    if m: "m \<in> ran q" and na: "m_client (nd_ident N m) |\<notin>| durable_aborted (ckpt_store c)" for m
  proof -
    from m obtain t where t: "q t = Some m" by (auto simp: ran_def)
    with all have "t \<in> set (acked c)" by auto
    from D(8) [OF this] t na all have "pid N m \<in> set (ids_of N devs)" by (auto simp: covered_def)
    then obtain m' where "m' \<in> set (data_of devs)" "pid N m = pid N m'" by (auto simp: ids_of_def)
    with sub m sq show ?thesis by (auto simp: stamped_queue_def)
  qed
  ultimately show ?thesis using D(5) boot_stored(1) [OF D(5)] by blast
qed

end

end
