(* ===== verification/Pystr.thy ===== *)
theory Pystr
  imports Prelude
begin

text \<open>
  The textual forms Python gives to the identifiers and numbers the program stores as strings:
  \<open>str(UUID)\<close> and \<open>UUID(text)\<close>, \<open>str(int)\<close> and \<open>int(text)\<close>, \<open>str.split\<close> and \<open>str.join\<close> on one
  character, with their round trips.
\<close>

section \<open>Digits\<close>

definition digit_char :: "nat \<Rightarrow> char" where
  "digit_char d = (if d < 10 then char_of (48 + d) else char_of (87 + d))"

definition digit_val :: "char \<Rightarrow> nat option" where
  "digit_val c =
     (let n = of_char c :: nat in
      if 48 \<le> n \<and> n \<le> 57 then Some (n - 48)
      else if 97 \<le> n \<and> n \<le> 102 then Some (n - 87)
      else if 65 \<le> n \<and> n \<le> 70 then Some (n - 55)
      else None)"

fun fixed_digits :: "nat \<Rightarrow> nat \<Rightarrow> nat \<Rightarrow> string" where
  "fixed_digits base 0 n = []"
| "fixed_digits base (Suc k) n = fixed_digits base k (n div base) @ [digit_char (n mod base)]"

fun digits_val :: "nat \<Rightarrow> nat \<Rightarrow> string \<Rightarrow> nat option" where
  "digits_val base acc [] = Some acc"
| "digits_val base acc (c # cs) =
     (case digit_val c of
        None \<Rightarrow> None
      | Some d \<Rightarrow> if d < base then digits_val base (base * acc + d) cs else None)"

section \<open>Identifiers\<close>

definition uuid_str :: "uuid \<Rightarrow> string" where
  "uuid_str u =
     (let h = fixed_digits 16 32 (unat u)
      in take 8 h @ ''-'' @ take 4 (drop 8 h) @ ''-'' @ take 4 (drop 12 h) @ ''-'' @
         take 4 (drop 16 h) @ ''-'' @ drop 20 h)"

definition parse_uuid :: "string \<Rightarrow> uuid result" where
  "parse_uuid s =
     (let h = filter (\<lambda>c. c \<noteq> CHR ''-'') s in
      if length h \<noteq> 32 then Inl (ValueError ''badly formed hexadecimal UUID string'')
      else case digits_val 16 0 h of
             None \<Rightarrow> Inl (ValueError ''invalid literal for int() with base 16'')
           | Some n \<Rightarrow> Inr (of_nat n))"

section \<open>Integers\<close>

function nat_str :: "nat \<Rightarrow> string" where
  "nat_str n = (if n < 10 then [digit_char n] else nat_str (n div 10) @ [digit_char (n mod 10)])"
  by pat_completeness auto
termination by (relation "measure (\<lambda>n. n)") auto

declare nat_str.simps [simp del]

definition int_str :: "int \<Rightarrow> string" where
  "int_str i = (if i < 0 then CHR ''-'' # nat_str (nat (- i)) else nat_str (nat i))"

definition is_space :: "char \<Rightarrow> bool" where
  "is_space c = (of_char c \<in> {9, 10, 11, 12, 13, 28, 29, 30, 31, 32 :: nat})"

definition strip :: "string \<Rightarrow> string" where
  "strip s = rev (dropWhile is_space (rev (dropWhile is_space s)))"

definition parse_nat :: "string \<Rightarrow> nat option" where
  "parse_nat s = (if s = [] then None else digits_val 10 0 s)"

definition parse_int :: "string \<Rightarrow> int result" where
  "parse_int s =
     (let bad = Inl (ValueError ''invalid literal for int() with base 10'') in
      case strip s of
        [] \<Rightarrow> bad
      | c # cs \<Rightarrow>
          (case (if c = CHR ''-'' \<or> c = CHR ''+'' then parse_nat cs else parse_nat (c # cs)) of
             None \<Rightarrow> bad
           | Some n \<Rightarrow> Inr (if c = CHR ''-'' then - int n else int n)))"

section \<open>Splitting and joining\<close>

fun split_on :: "char \<Rightarrow> string \<Rightarrow> string list" where
  "split_on sep [] = [[]]"
| "split_on sep (c # cs) =
     (if c = sep then [] # split_on sep cs
      else case split_on sep cs of [] \<Rightarrow> [[c]] | w # ws \<Rightarrow> (c # w) # ws)"

fun join_on :: "char \<Rightarrow> string list \<Rightarrow> string" where
  "join_on sep [] = []"
| "join_on sep [w] = w"
| "join_on sep (w # ws) = w @ sep # join_on sep ws"

section \<open>Decimals\<close>

text \<open>\<open>float(text)\<close> on decimal notation with an optional sign and fraction; other notations are not
  modelled and count as an error.\<close>

definition parse_decimal :: "string \<Rightarrow> amount option" where
  "parse_decimal s =
     (case split_on (CHR ''.'') s of
        [w] \<Rightarrow> map_option (\<lambda>n. of_nat n) (parse_nat w)
      | [w, f] \<Rightarrow>
          if w = [] \<and> f = [] then None
          else (case (digits_val 10 0 w, digits_val 10 0 f) of
                  (Some a, Some b) \<Rightarrow> Some (of_nat a + of_nat b / 10 ^ length f)
                | _ \<Rightarrow> None)
      | _ \<Rightarrow> None)"

definition parse_float :: "string \<Rightarrow> amount result" where
  "parse_float s =
     (let bad = Inl (ValueError ''could not convert string to float'') in
      case strip s of
        [] \<Rightarrow> bad
      | c # cs \<Rightarrow>
          (case (if c = CHR ''-'' \<or> c = CHR ''+'' then parse_decimal cs else parse_decimal (c # cs)) of
             None \<Rightarrow> bad
           | Some x \<Rightarrow> Inr (if c = CHR ''-'' then - x else x)))"

section \<open>Round trips\<close>

lemma digit_roundtrip: "d < 16 \<Longrightarrow> digit_val (digit_char d) = Some d"
  by (auto simp: digit_char_def digit_val_def Let_def of_char_of)

lemma digit_char_range:
  assumes "d < 16"
  shows "(of_char (digit_char d) :: nat) \<in> {48..57} \<union> {97..102}"
  using assms by (auto simp: digit_char_def of_char_of)

lemma digit_char_not_special:
  assumes "d < 16"
  shows "digit_char d \<noteq> CHR ''-''" and "digit_char d \<noteq> CHR ''+''" and "\<not> is_space (digit_char d)"
proof -
  note r = digit_char_range [OF assms]
  have "(of_char (CHR ''-'') :: nat) = 45" "(of_char (CHR ''+'') :: nat) = 43" by simp_all
  with r show "digit_char d \<noteq> CHR ''-''" "digit_char d \<noteq> CHR ''+''" by auto
  from r show "\<not> is_space (digit_char d)" by (auto simp: is_space_def)
qed

lemma length_fixed_digits [simp]: "length (fixed_digits b k n) = k"
  by (induction b k n rule: fixed_digits.induct) auto

lemma fixed_digits_chars:
  "0 < b \<Longrightarrow> b \<le> 16 \<Longrightarrow> c \<in> set (fixed_digits b k n) \<Longrightarrow> \<exists>d<16. c = digit_char d"
proof (induction b k n rule: fixed_digits.induct)
  case (2 b k n)
  moreover have "n mod b < 16" using 2(2,3) by (meson mod_less_divisor order_less_le_trans)
  ultimately show ?case by auto
qed simp

lemma digits_val_append:
  "digits_val b acc (xs @ ys) = (case digits_val b acc xs of None \<Rightarrow> None | Some a \<Rightarrow> digits_val b a ys)"
  by (induction xs arbitrary: acc) (auto split: option.splits)

lemma digits_val_fixed:
  "0 < b \<Longrightarrow> b \<le> 16 \<Longrightarrow> n < b ^ k \<Longrightarrow> digits_val b 0 (fixed_digits b k n) = Some n"
proof (induction b k n rule: fixed_digits.induct)
  case (2 b k n)
  have "n div b < b ^ k" using 2(2,4) by (simp add: less_mult_imp_div_less mult.commute)
  moreover have "n mod b < b" "n mod b < 16" using 2(2,3) by (simp, meson mod_less_divisor order_less_le_trans)
  ultimately show ?case
    using 2 by (simp add: digits_val_append digit_roundtrip)
qed simp

lemma parse_uuid_str [simp]: "parse_uuid (uuid_str u) = Inr u"
proof -
  define h where "h = fixed_digits 16 32 (unat u)"
  have no: "filter (\<lambda>c. c \<noteq> CHR ''-'') h' = h'" if "set h' \<subseteq> set h" for h'
    using that fixed_digits_chars [of 16 _ 32 "unat u"] digit_char_not_special(1)
    unfolding h_def by (intro filter_True) fastforce
  have "filter (\<lambda>c. c \<noteq> CHR ''-'') (uuid_str u) =
      take 8 h @ take 4 (drop 8 h) @ take 4 (drop 12 h) @ take 4 (drop 16 h) @ drop 20 h"
    unfolding uuid_str_def Let_def h_def [symmetric]
    by (simp add: no set_take_subset set_drop_subset order_trans [OF set_take_subset set_drop_subset])
  also have "\<dots> = h"
  proof -
    have "take 4 (drop 16 h) @ drop 20 h = drop 16 h"
      using append_take_drop_id [of 4 "drop 16 h"] by simp
    moreover have "take 4 (drop 12 h) @ drop 16 h = drop 12 h"
      using append_take_drop_id [of 4 "drop 12 h"] by simp
    moreover have "take 4 (drop 8 h) @ drop 12 h = drop 8 h"
      using append_take_drop_id [of 4 "drop 8 h"] by simp
    ultimately show ?thesis by simp
  qed
  finally have f: "filter (\<lambda>c. c \<noteq> CHR ''-'') (uuid_str u) = h" .
  have "unat u < 16 ^ 32" using unsigned_less [of u] by simp
  then have "digits_val 16 0 h = Some (unat u)"
    unfolding h_def by (intro digits_val_fixed) auto
  then show ?thesis by (simp add: parse_uuid_def f h_def)
qed

lemma uuid_str_inj [simp]: "uuid_str u = uuid_str v \<longleftrightarrow> u = v"
  by (metis parse_uuid_str sum.inject(2))

lemma nat_str_nonempty [simp]: "nat_str n \<noteq> []"
  by (subst nat_str.simps) auto

lemma nat_str_chars: "c \<in> set (nat_str n) \<Longrightarrow> \<exists>d<16. c = digit_char d"
proof (induction n rule: nat_str.induct)
  case (1 n)
  show ?case
  proof (cases "n < 10")
    case True
    then have "c = digit_char n" using 1(2) by (subst (asm) nat_str.simps) simp
    with True show ?thesis by (intro exI [of _ n]) simp
  next
    case False
    then have "c \<in> set (nat_str (n div 10)) \<or> c = digit_char (n mod 10)"
      using 1(2) by (subst (asm) nat_str.simps) auto
    moreover have "n mod 10 < 16" by (rule order_less_le_trans [of _ 10]) auto
    ultimately show ?thesis using 1(1) False by auto
  qed
qed

lemma digits_val_nat_str: "digits_val 10 0 (nat_str n) = Some n"
proof (induction n rule: nat_str.induct)
  case (1 n)
  have "n mod 10 < 16" by (rule order_less_le_trans [of _ 10]) auto
  then show ?case
    using 1 by (subst nat_str.simps) (auto simp: digits_val_append digit_roundtrip)
qed

lemma not_space_minus: "\<not> is_space (CHR ''-'')"
  by (simp add: is_space_def)

lemma strip_no_space: "(\<And>c. c \<in> set s \<Longrightarrow> \<not> is_space c) \<Longrightarrow> strip s = s"
proof -
  assume a: "\<And>c. c \<in> set s \<Longrightarrow> \<not> is_space c"
  then have "dropWhile is_space s = s" by (cases s) auto
  moreover have "dropWhile is_space (rev s) = rev s" using a by (cases "rev s") (auto dest: arg_cong [of _ _ set])
  ultimately show ?thesis by (simp add: strip_def)
qed

lemma parse_int_str [simp]: "parse_int (int_str i) = Inr i"
proof -
  have ns: "\<not> is_space c" if "c \<in> set (nat_str n)" for c n
    using nat_str_chars [OF that] digit_char_not_special(3) by auto
  have head: "c \<noteq> CHR ''-''" "c \<noteq> CHR ''+''" if "nat_str n = c # cs" for c cs n
    using nat_str_chars [of c n] that digit_char_not_special(1,2) by auto
  show ?thesis
  proof (cases "i < 0")
    case True
    have "strip (int_str i) = int_str i"
      using True ns not_space_minus by (intro strip_no_space) (auto simp: int_str_def)
    with True show ?thesis
      by (simp add: parse_int_def int_str_def parse_nat_def digits_val_nat_str)
  next
    case False
    have "strip (int_str i) = int_str i"
      using False by (intro strip_no_space) (auto simp: int_str_def ns)
    moreover obtain c cs where "nat_str (nat i) = c # cs" by (cases "nat_str (nat i)") auto
    moreover from this have "parse_nat (c # cs) = Some (nat i)"
      using digits_val_nat_str [of "nat i"] by (simp add: parse_nat_def)
    ultimately show ?thesis
      using False head by (simp add: parse_int_def int_str_def)
  qed
qed

lemma int_str_inj [simp]: "int_str i = int_str j \<longleftrightarrow> i = j"
  by (metis parse_int_str sum.inject(2))

lemma split_on_ne [simp]: "split_on sep s \<noteq> []"
  by (induction s) (auto split: list.splits)

lemma split_on_word: "sep \<notin> set w \<Longrightarrow> split_on sep w = [w]"
  by (induction w) auto

lemma split_on_append: "sep \<notin> set w \<Longrightarrow> split_on sep (w @ sep # s) = w # split_on sep s"
  by (induction w) (auto split: list.splits)

lemma split_join: "ws \<noteq> [] \<Longrightarrow> (\<And>w. w \<in> set ws \<Longrightarrow> sep \<notin> set w) \<Longrightarrow> split_on sep (join_on sep ws) = ws"
  by (induction sep ws rule: join_on.induct) (auto simp: split_on_word split_on_append)

lemma join_split: "join_on sep (split_on sep s) = s"
proof (induction s)
  case (Cons c s)
  show ?case
  proof (cases "split_on sep s")
    case (Cons w ws)
    with Cons.IH show ?thesis by (cases ws) auto
  qed simp
qed simp

text \<open>\<open>rstrip("\\n")\<close>\<close>

definition rstrip_newlines :: "string \<Rightarrow> string" where
  "rstrip_newlines s = rev (dropWhile (\<lambda>c. c = CHR 0x0A) (rev s))"

end
