(* ===== verification/Ring_Completion.thy ===== *)
theory Ring_Completion
  imports Pystr
begin

text \<open>
  The completion state machine of one peer of an affinity ring
  (\<open>common/comms/eof_handler/ring_completion.py\<close>): the phases of a client, the barrier token and
  the actions returned to the controller.  A Python operation on \<open>self\<close> becomes a function from
  the state to the new state and the actions.  The sequencing of tokens between the peers is in
  \<open>Ring_Network\<close>.
\<close>

datatype phase = PROCESSING | EMITTED | DONE

record ring_client =
  rc_expected :: int
  rc_received :: int
  rc_sent :: "(int, int) dict"
  rc_phase :: phase

record barrier_token =
  tk_client :: uuid
  tk_origin :: int
  tk_sent_by :: "(int, (int, int) dict) dict"

datatype action = Emit uuid | Forward barrier_token | DownstreamEOF uuid "(int, int) dict"

record ring_completion =
  rc_node :: int
  rc_n_nodes :: nat
  rc_leader :: int
  rc_clients :: "(uuid, ring_client) dict"
  rc_aborted :: "uuid fset"

definition new_client :: ring_client where
  "new_client = \<lparr>rc_expected = - 1, rc_received = 0, rc_sent = [], rc_phase = PROCESSING\<rparr>"

definition init_rc :: "int \<Rightarrow> int list \<Rightarrow> ring_completion" where
  "init_rc node peers =
     \<lparr>rc_node = node, rc_n_nodes = length peers + 1, rc_leader = Min (set (node # peers)),
      rc_clients = [], rc_aborted = {||}\<rparr>"

text \<open>\<open>_client\<close> is \<open>setdefault\<close>: it creates the entry, and returns it.\<close>

definition client_of :: "ring_completion \<Rightarrow> uuid \<Rightarrow> ring_client" where
  "client_of rc cid = dict_get (rc_clients rc) cid new_client"

definition put_client :: "uuid \<Rightarrow> ring_client \<Rightarrow> ring_completion \<Rightarrow> ring_completion" where
  "put_client cid c rc = rc\<lparr>rc_clients := dict_set cid c (rc_clients rc)\<rparr>"

definition touch_client :: "uuid \<Rightarrow> ring_completion \<Rightarrow> ring_completion" where
  "touch_client cid rc = rc\<lparr>rc_clients := dict_setdefault cid new_client (rc_clients rc)\<rparr>"

definition maybe_local_complete :: "ring_completion \<Rightarrow> uuid \<Rightarrow> ring_completion \<times> action list" where
  "maybe_local_complete rc cid =
     (let rc = touch_client cid rc; c = client_of rc cid in
      if rc_phase c \<noteq> PROCESSING \<or> rc_expected c < 0 \<or> rc_received c < rc_expected c then (rc, [])
      else (rc, [Emit cid]))"

definition on_data :: "ring_completion \<Rightarrow> uuid \<Rightarrow> ring_completion \<times> action list" where
  "on_data rc cid =
     (if cid |\<in>| rc_aborted rc then (rc, [])
      else let c = client_of rc cid
           in maybe_local_complete (put_client cid (c\<lparr>rc_received := rc_received c + 1\<rparr>) rc) cid)"

definition drop_client :: "ring_completion \<Rightarrow> uuid \<Rightarrow> ring_completion" where
  "drop_client rc cid =
     rc\<lparr>rc_clients := dict_pop cid (rc_clients rc), rc_aborted := finsert cid (rc_aborted rc)\<rparr>"

definition on_upstream_eof :: "ring_completion \<Rightarrow> uuid \<Rightarrow> int \<Rightarrow> ring_completion \<times> action list" where
  "on_upstream_eof rc cid expected =
     (if cid |\<in>| rc_aborted rc then (rc, [])
      else let c = client_of rc cid
           in maybe_local_complete (put_client cid (c\<lparr>rc_expected := expected\<rparr>) rc) cid)"

fun recheck_list :: "ring_completion \<Rightarrow> uuid list \<Rightarrow> ring_completion \<times> action list" where
  "recheck_list rc [] = (rc, [])"
| "recheck_list rc (cid # cids) =
     (let (rc, as) = maybe_local_complete rc cid; (rc, bs) = recheck_list rc cids in (rc, as @ bs))"

definition recheck :: "ring_completion \<Rightarrow> ring_completion \<times> action list" where
  "recheck rc = recheck_list rc (map fst (rc_clients rc))"

definition resolved_clients :: "ring_completion \<Rightarrow> uuid list" where
  "resolved_clients rc = map fst (filter (\<lambda>(cid, c). rc_phase c \<noteq> PROCESSING) (rc_clients rc))"

text \<open>The double loop of \<open>_advance\<close> that adds up the counts of every peer.\<close>

definition add_count :: "(int, int) dict \<Rightarrow> int \<times> int \<Rightarrow> (int, int) dict" where
  "add_count per_shard sc = (case sc of (shard, n) \<Rightarrow> dict_set shard (dict_get per_shard shard 0 + n) per_shard)"

definition sum_shards :: "(int, (int, int) dict) dict \<Rightarrow> (int, int) dict" where
  "sum_shards sent_by = foldl (\<lambda>per_shard counts. foldl add_count per_shard counts) [] (map snd sent_by)"

definition advance :: "ring_completion \<Rightarrow> barrier_token \<Rightarrow> ring_completion \<times> action list" where
  "advance rc tk =
     (if length (tk_sent_by tk) < rc_n_nodes rc then (rc, [Forward tk])
      else if tk_origin tk \<noteq> rc_node rc then (rc, [Forward tk])
      else let c = client_of rc (tk_client tk) in
           if rc_phase c = DONE then (touch_client (tk_client tk) rc, [])
           else (put_client (tk_client tk) (c\<lparr>rc_phase := DONE\<rparr>) rc,
                 [DownstreamEOF (tk_client tk) (sum_shards (tk_sent_by tk))]))"

definition report_sent ::
  "ring_completion \<Rightarrow> uuid \<Rightarrow> (int, int) dict \<Rightarrow> ring_completion \<times> action list" where
  "report_sent rc cid sent =
     (let rc = touch_client cid rc; c = client_of rc cid in
      if rc_phase c \<noteq> PROCESSING then (rc, [])
      else let rc = put_client cid (c\<lparr>rc_sent := sent, rc_phase := EMITTED\<rparr>) rc in
           if rc_node rc \<noteq> rc_leader rc then (rc, [])
           else advance rc \<lparr>tk_client = cid, tk_origin = rc_leader rc, tk_sent_by = [(rc_node rc, sent)]\<rparr>)"

definition on_token :: "ring_completion \<Rightarrow> barrier_token \<Rightarrow> ring_completion \<times> action list" where
  "on_token rc tk =
     (if tk_client tk |\<in>| rc_aborted rc then (rc, [])
      else let rc = touch_client (tk_client tk) rc; c = client_of rc (tk_client tk) in
           advance rc (if rc_phase c \<noteq> PROCESSING
                       then tk\<lparr>tk_sent_by := dict_set (rc_node rc) (rc_sent c) (tk_sent_by tk)\<rparr>
                       else tk))"

section \<open>Snapshots\<close>

text \<open>
  The checkpointed form: identifiers and shards as text, the phase by name.  Checkpoints written
  before aborted clients were recorded are a bare map of clients.
\<close>

type_synonym client_snap = "int \<times> int \<times> (string, int) dict \<times> string"

datatype rc_snap =
    Keyed "(string, client_snap) dict" "string list option"
  | Flat "(string, client_snap) dict"

definition phase_name :: "phase \<Rightarrow> string" where
  "phase_name p = (case p of PROCESSING \<Rightarrow> ''PROCESSING'' | EMITTED \<Rightarrow> ''EMITTED'' | DONE \<Rightarrow> ''DONE'')"

definition phase_of_name :: "string \<Rightarrow> phase result" where
  "phase_of_name s =
     (if s = ''PROCESSING'' then Inr PROCESSING else if s = ''EMITTED'' then Inr EMITTED
      else if s = ''DONE'' then Inr DONE else Inl KeyError)"

definition shards_snap :: "(int, int) dict \<Rightarrow> (string, int) dict" where
  "shards_snap d = dict_of (map (\<lambda>(s, n). (int_str s, n)) d)"

definition shards_of_snap :: "(string, int) dict \<Rightarrow> (int, int) dict result" where
  "shards_of_snap d =
     bind_result (map_result (\<lambda>(s, n). bind_result (parse_int s) (\<lambda>i. Inr (i, n))) d) (\<lambda>kvs. Inr (dict_of kvs))"

definition client_snap_of :: "ring_client \<Rightarrow> client_snap" where
  "client_snap_of c = (rc_expected c, rc_received c, shards_snap (rc_sent c), phase_name (rc_phase c))"

definition client_of_snap :: "client_snap \<Rightarrow> ring_client result" where
  "client_of_snap cs =
     (case cs of (expected, received, sent, phase) \<Rightarrow>
       bind_result (shards_of_snap sent) (\<lambda>sent.
       bind_result (phase_of_name phase) (\<lambda>phase.
         Inr \<lparr>rc_expected = expected, rc_received = received, rc_sent = sent, rc_phase = phase\<rparr>)))"

text \<open>\<open>_aborted\<close> is a set, written in the order Python iterates it: the parameter \<open>order\<close>.\<close>

definition snapshot_rc :: "(uuid fset \<Rightarrow> uuid list) \<Rightarrow> ring_completion \<Rightarrow> rc_snap" where
  "snapshot_rc order rc =
     Keyed (dict_of (map (\<lambda>(cid, c). (uuid_str cid, client_snap_of c)) (rc_clients rc)))
           (Some (map uuid_str (order (rc_aborted rc))))"

definition clients_of_snap :: "(string, client_snap) dict \<Rightarrow> (uuid, ring_client) dict result" where
  "clients_of_snap d =
     bind_result (map_result (\<lambda>(cid, cs). bind_result (parse_uuid cid) (\<lambda>u.
                    bind_result (client_of_snap cs) (\<lambda>c. Inr (u, c)))) d)
       (\<lambda>kvs. Inr (dict_of kvs))"

definition restore_rc :: "rc_snap \<Rightarrow> ring_completion \<Rightarrow> ring_completion result" where
  "restore_rc sn rc =
     (let (clients, ab) = (case sn of Keyed cl ab \<Rightarrow> (cl, case ab of None \<Rightarrow> [] | Some l \<Rightarrow> l) | Flat cl \<Rightarrow> (cl, []))
      in bind_result (clients_of_snap clients) (\<lambda>cl.
         bind_result (map_result parse_uuid ab) (\<lambda>ab.
           Inr (rc\<lparr>rc_clients := cl, rc_aborted := fset_of_list ab\<rparr>))))"

section \<open>Access laws\<close>

lemma client_of_put [simp]: "client_of (put_client cid c rc) cid' = (if cid' = cid then c else client_of rc cid')"
  by (simp add: client_of_def put_client_def)

lemma client_of_touch [simp]: "client_of (touch_client cid rc) cid' = client_of rc cid'"
  by (auto simp: client_of_def touch_client_def dict_setdefault_def dict_get_default)

lemma client_of_drop [simp]:
  "client_of (drop_client rc cid) cid' = (if cid' = cid then new_client else client_of rc cid')"
  by (simp add: client_of_def drop_client_def)

lemma rc_frame [simp]:
  "rc_node (put_client cid c rc) = rc_node rc" "rc_node (touch_client cid rc) = rc_node rc"
  "rc_leader (put_client cid c rc) = rc_leader rc" "rc_leader (touch_client cid rc) = rc_leader rc"
  "rc_n_nodes (put_client cid c rc) = rc_n_nodes rc" "rc_n_nodes (touch_client cid rc) = rc_n_nodes rc"
  "rc_aborted (put_client cid c rc) = rc_aborted rc" "rc_aborted (touch_client cid rc) = rc_aborted rc"
  by (simp_all add: put_client_def touch_client_def)

text \<open>What the operations never change: the identity of the peer, and with the exception of
  \<open>drop\<close> the set of aborted clients.\<close>

definition same_peer :: "ring_completion \<Rightarrow> ring_completion \<Rightarrow> bool" where
  "same_peer rc rc' \<longleftrightarrow>
     rc_node rc' = rc_node rc \<and> rc_leader rc' = rc_leader rc \<and> rc_n_nodes rc' = rc_n_nodes rc"

lemma same_peer_ops [simp, intro]:
  "same_peer rc (fst (maybe_local_complete rc cid))" "same_peer rc (fst (on_data rc cid))"
  "same_peer rc (fst (on_upstream_eof rc cid e))" "same_peer rc (drop_client rc cid)"
  "same_peer rc (fst (advance rc tk))" "same_peer rc (fst (report_sent rc cid sent))"
  "same_peer rc (fst (on_token rc tk))"
  by (simp_all add: same_peer_def maybe_local_complete_def on_data_def on_upstream_eof_def
      drop_client_def advance_def report_sent_def on_token_def Let_def)

lemma aborted_ops [simp]:
  "rc_aborted (fst (maybe_local_complete rc cid)) = rc_aborted rc"
  "rc_aborted (fst (on_data rc cid)) = rc_aborted rc"
  "rc_aborted (fst (on_upstream_eof rc cid e)) = rc_aborted rc"
  "rc_aborted (fst (advance rc tk)) = rc_aborted rc"
  "rc_aborted (fst (report_sent rc cid sent)) = rc_aborted rc"
  "rc_aborted (fst (on_token rc tk)) = rc_aborted rc"
  "rc_aborted (drop_client rc cid) = finsert cid (rc_aborted rc)"
  by (simp_all add: maybe_local_complete_def on_data_def on_upstream_eof_def
      drop_client_def advance_def report_sent_def on_token_def Let_def)

section \<open>The effect of each operation on one client\<close>

lemma client_maybe [simp]: "client_of (fst (maybe_local_complete rc cid)) = client_of rc"
  by (auto simp: maybe_local_complete_def Let_def)

lemma snd_maybe:
  "snd (maybe_local_complete rc cid) =
     (let c = client_of rc cid in
      if rc_phase c = PROCESSING \<and> 0 \<le> rc_expected c \<and> rc_expected c \<le> rc_received c then [Emit cid] else [])"
  by (auto simp: maybe_local_complete_def Let_def)

lemma client_on_data:
  "client_of (fst (on_data rc cid)) cid' =
     (if cid' = cid \<and> cid |\<notin>| rc_aborted rc
      then (client_of rc cid)\<lparr>rc_received := rc_received (client_of rc cid) + 1\<rparr> else client_of rc cid')"
  by (simp add: on_data_def Let_def)

lemma client_on_eof:
  "client_of (fst (on_upstream_eof rc cid e)) cid' =
     (if cid' = cid \<and> cid |\<notin>| rc_aborted rc then (client_of rc cid)\<lparr>rc_expected := e\<rparr> else client_of rc cid')"
  by (simp add: on_upstream_eof_def Let_def)

definition closes :: "ring_completion \<Rightarrow> barrier_token \<Rightarrow> bool" where
  "closes rc tk \<longleftrightarrow>
     rc_n_nodes rc \<le> length (tk_sent_by tk) \<and> tk_origin tk = rc_node rc \<and>
     rc_phase (client_of rc (tk_client tk)) \<noteq> DONE"

lemma client_advance:
  "client_of (fst (advance rc tk)) cid =
     (if cid = tk_client tk \<and> closes rc tk then (client_of rc cid)\<lparr>rc_phase := DONE\<rparr> else client_of rc cid)"
  by (auto simp: advance_def closes_def Let_def)

lemma snd_advance:
  "snd (advance rc tk) =
     (if closes rc tk then [DownstreamEOF (tk_client tk) (sum_shards (tk_sent_by tk))]
      else if length (tk_sent_by tk) < rc_n_nodes rc \<or> tk_origin tk \<noteq> rc_node rc then [Forward tk] else [])"
  by (auto simp: advance_def closes_def Let_def)

text \<open>The token as a peer passes it on.\<close>

definition fill_slot :: "ring_completion \<Rightarrow> barrier_token \<Rightarrow> barrier_token" where
  "fill_slot rc tk =
     (let c = client_of rc (tk_client tk) in
      if rc_phase c \<noteq> PROCESSING
      then tk\<lparr>tk_sent_by := dict_set (rc_node rc) (rc_sent c) (tk_sent_by tk)\<rparr> else tk)"

lemma fill_slot_fields [simp]:
  "tk_client (fill_slot rc tk) = tk_client tk" "tk_origin (fill_slot rc tk) = tk_origin tk"
  by (simp_all add: fill_slot_def Let_def)

lemma on_token_live:
  "tk_client tk |\<notin>| rc_aborted rc \<Longrightarrow> on_token rc tk = advance (touch_client (tk_client tk) rc) (fill_slot rc tk)"
  by (simp add: on_token_def fill_slot_def Let_def)

lemma on_token_aborted: "tk_client tk |\<in>| rc_aborted rc \<Longrightarrow> on_token rc tk = (rc, [])"
  by (simp add: on_token_def)

lemma report_sent_done:
  "rc_phase (client_of rc cid) \<noteq> PROCESSING \<Longrightarrow> report_sent rc cid sent = (touch_client cid rc, [])"
  by (simp add: report_sent_def Let_def)

lemma report_sent_processing:
  assumes "rc_phase (client_of rc cid) = PROCESSING"
  shows "report_sent rc cid sent =
    (let rc' = put_client cid ((client_of rc cid)\<lparr>rc_sent := sent, rc_phase := EMITTED\<rparr>) (touch_client cid rc) in
     if rc_node rc \<noteq> rc_leader rc then (rc', [])
     else advance rc' \<lparr>tk_client = cid, tk_origin = rc_leader rc, tk_sent_by = [(rc_node rc, sent)]\<rparr>)"
  using assms by (simp add: report_sent_def Let_def)

section \<open>Sums over the token\<close>

definition shard_count :: "(int, int) dict \<Rightarrow> int \<Rightarrow> int" where
  "shard_count d s = dict_get d s 0"

lemma shard_count_add:
  "shard_count (add_count d sc) s = shard_count d s + (if fst sc = s then snd sc else 0)"
  by (cases sc) (auto simp: add_count_def shard_count_def)

lemma shard_count_foldl:
  "shard_count (foldl add_count d counts) s = shard_count d s + (\<Sum>sc\<leftarrow>counts. if fst sc = s then snd sc else 0)"
  by (induction counts arbitrary: d) (auto simp: shard_count_add)

lemma shard_count_sum:
  "wf_dict counts \<Longrightarrow> (\<Sum>sc\<leftarrow>counts. if fst sc = s then snd sc else 0) = shard_count counts s"
proof (induction counts)
  case (Cons a counts)
  obtain k v where a: "a = (k, v)" by fastforce
  from Cons(2) a have "wf_dict counts" "k \<notin> set (map fst counts)" by (auto simp: wf_dict_def)
  moreover from this have "dict_get counts k 0 = 0" by (simp add: dict_get_default dict_in_def)
  ultimately show ?case using Cons(1) a by (auto simp: shard_count_def dict_get_Cons)
qed (simp add: shard_count_def)

definition wf_sent_by :: "(int, (int, int) dict) dict \<Rightarrow> bool" where
  "wf_sent_by sb \<longleftrightarrow> wf_dict sb \<and> (\<forall>(k, counts)\<in>set sb. wf_dict counts)"

lemma shard_count_foldl_all:
  assumes "\<And>counts. counts \<in> set cs \<Longrightarrow> wf_dict counts"
  shows "shard_count (foldl (\<lambda>d counts. foldl add_count d counts) d cs) s =
    shard_count d s + (\<Sum>counts\<leftarrow>cs. shard_count counts s)"
  using assms by (induction cs arbitrary: d) (auto simp: shard_count_foldl shard_count_sum)

lemma shard_count_sum_shards:
  assumes "wf_sent_by sb"
  shows "shard_count (sum_shards sb) s = (\<Sum>k\<in>set (map fst sb). shard_count (the (map_of sb k)) s)"
proof -
  from assms have wf: "distinct (map fst sb)" "\<And>counts. counts \<in> set (map snd sb) \<Longrightarrow> wf_dict counts"
    by (auto simp: wf_sent_by_def wf_dict_def)
  have "shard_count (sum_shards sb) s = (\<Sum>kv\<leftarrow>sb. shard_count (snd kv) s)"
    using shard_count_foldl_all [of "map snd sb" "[]" s] wf(2)
    by (simp add: sum_shards_def shard_count_def comp_def)
  also have "\<dots> = (\<Sum>kv\<leftarrow>sb. shard_count (the (map_of sb (fst kv))) s)"
    using wf(1) by (intro arg_cong [where f = sum_list] map_cong) auto
  also have "\<dots> = (\<Sum>k\<leftarrow>map fst sb. shard_count (the (map_of sb k)) s)"
    by (simp add: comp_def)
  also have "\<dots> = (\<Sum>k\<in>set (map fst sb). shard_count (the (map_of sb k)) s)"
    using wf(1) by (rule sum_list_distinct_conv_sum_set)
  finally show ?thesis .
qed

section \<open>Well-formedness and the snapshot round trip\<close>

text \<open>The dictionaries have no key twice, and a client that is still processing has reported nothing.\<close>

definition rc_wf :: "ring_completion \<Rightarrow> bool" where
  "rc_wf rc \<longleftrightarrow>
     wf_dict (rc_clients rc) \<and>
     (\<forall>(cid, c)\<in>set (rc_clients rc). wf_dict (rc_sent c) \<and> (rc_phase c = PROCESSING \<longrightarrow> rc_sent c = []))"

lemma set_dict_set: "wf_dict d \<Longrightarrow> x \<in> set (dict_set k v d) \<Longrightarrow> x = (k, v) \<or> x \<in> set d"
  by (induction d) (auto simp: wf_dict_def split: if_splits)

lemma set_dict_pop: "x \<in> set (dict_pop k d) \<Longrightarrow> x \<in> set d"
  by (simp add: AList.delete_eq)

lemma rc_wf_put:
  assumes rc: "rc_wf rc" and c: "wf_dict (rc_sent c)" "rc_phase c = PROCESSING \<Longrightarrow> rc_sent c = []"
  shows "rc_wf (put_client cid c rc)"
proof -
  from rc have wf: "wf_dict (rc_clients rc)" by (simp add: rc_wf_def)
  have "wf_dict (rc_sent c') \<and> (rc_phase c' = PROCESSING \<longrightarrow> rc_sent c' = [])"
    if "(cid', c') \<in> set (dict_set cid c (rc_clients rc))" for cid' c'
    using set_dict_set [OF wf that] rc c by (auto simp: rc_wf_def)
  with wf show ?thesis by (auto simp: rc_wf_def put_client_def)
qed

lemma rc_wf_touch: "rc_wf rc \<Longrightarrow> rc_wf (touch_client cid rc)"
  using rc_wf_put [of rc new_client cid]
  by (auto simp: touch_client_def dict_setdefault_def put_client_def new_client_def)

lemma rc_wf_client:
  assumes "rc_wf rc"
  shows "wf_dict (rc_sent (client_of rc cid))"
    and "rc_phase (client_of rc cid) = PROCESSING \<Longrightarrow> rc_sent (client_of rc cid) = []"
  using assms by (auto simp: rc_wf_def client_of_def dict_get_def new_client_def split: option.splits dest: map_of_SomeD)

lemma rc_wf_init: "rc_wf (init_rc node peers)"
  by (simp add: rc_wf_def init_rc_def)

lemma rc_wf_drop: "rc_wf rc \<Longrightarrow> rc_wf (drop_client rc cid)"
  by (auto simp: rc_wf_def drop_client_def dest: set_dict_pop)

lemma rc_wf_maybe: "rc_wf rc \<Longrightarrow> rc_wf (fst (maybe_local_complete rc cid))"
  by (simp add: maybe_local_complete_def Let_def rc_wf_touch)

lemma rc_wf_on_data: "rc_wf rc \<Longrightarrow> rc_wf (fst (on_data rc cid))"
  by (auto simp: on_data_def Let_def intro!: rc_wf_maybe rc_wf_put dest: rc_wf_client)

lemma rc_wf_on_eof: "rc_wf rc \<Longrightarrow> rc_wf (fst (on_upstream_eof rc cid e))"
  by (auto simp: on_upstream_eof_def Let_def intro!: rc_wf_maybe rc_wf_put dest: rc_wf_client)

lemma rc_wf_advance: "rc_wf rc \<Longrightarrow> rc_wf (fst (advance rc tk))"
  by (auto simp: advance_def Let_def intro!: rc_wf_put rc_wf_touch dest: rc_wf_client)

lemma rc_wf_report: "rc_wf rc \<Longrightarrow> wf_dict sent \<Longrightarrow> rc_wf (fst (report_sent rc cid sent))"
  by (auto simp: report_sent_def Let_def intro!: rc_wf_put rc_wf_touch rc_wf_advance)

lemma rc_wf_on_token: "rc_wf rc \<Longrightarrow> rc_wf (fst (on_token rc tk))"
  by (simp add: on_token_def Let_def rc_wf_touch rc_wf_advance)

lemmas rc_wf_ops = rc_wf_init rc_wf_drop rc_wf_on_data rc_wf_on_eof rc_wf_report rc_wf_on_token

lemma wf_dict_map_key: "inj f \<Longrightarrow> wf_dict d \<Longrightarrow> wf_dict (map (\<lambda>(k, v). (f k, g v)) d)"
  by (auto simp: wf_dict_def comp_def case_prod_beta distinct_map inj_on_def inj_def)

lemma dict_of_map_key: "inj f \<Longrightarrow> wf_dict d \<Longrightarrow> dict_of (map (\<lambda>(k, v). (f k, g v)) d) = map (\<lambda>(k, v). (f k, g v)) d"
  by (simp add: dict_of_wf wf_dict_map_key)

lemma inj_int_str: "inj int_str" and inj_uuid_str: "inj uuid_str"
  by (auto simp: inj_def)

lemma map_result_dict:
  assumes "\<And>k v. (k, v) \<in> set d \<Longrightarrow> f (g (k, v)) = Inr (k, v)"
  shows "map_result f (map g d) = Inr d"
  using assms map_result_Inr [of d f g id] by (metis id_apply list.map_id old.prod.exhaust)

lemma shards_roundtrip: "wf_dict d \<Longrightarrow> shards_of_snap (shards_snap d) = Inr d"
proof -
  assume wf: "wf_dict d"
  have "shards_snap d = map (\<lambda>(s, n). (int_str s, n)) d"
    using dict_of_map_key [OF inj_int_str wf, of id] by (simp add: shards_snap_def)
  then show ?thesis
    using wf by (simp add: shards_of_snap_def map_result_dict dict_of_wf)
qed

lemma phase_roundtrip [simp]: "phase_of_name (phase_name p) = Inr p"
  by (cases p) (simp_all add: phase_of_name_def phase_name_def)

lemma client_roundtrip: "wf_dict (rc_sent c) \<Longrightarrow> client_of_snap (client_snap_of c) = Inr c"
  by (simp add: client_of_snap_def client_snap_of_def shards_roundtrip)

lemma clients_roundtrip:
  assumes "wf_dict d" and "\<And>cid c. (cid, c) \<in> set d \<Longrightarrow> wf_dict (rc_sent c)"
  shows "clients_of_snap (dict_of (map (\<lambda>(cid, c). (uuid_str cid, client_snap_of c)) d)) = Inr d"
proof -
  have "dict_of (map (\<lambda>(cid, c). (uuid_str cid, client_snap_of c)) d) = map (\<lambda>(cid, c). (uuid_str cid, client_snap_of c)) d"
    using dict_of_map_key [OF inj_uuid_str assms(1)] .
  with assms show ?thesis
    by (simp add: clients_of_snap_def map_result_dict client_roundtrip dict_of_wf)
qed

lemma restore_snapshot_rc:
  assumes "rc_wf rc" and "\<And>A. set (order A) = fset A"
  shows "restore_rc (snapshot_rc order rc) rc0 =
    Inr (rc0\<lparr>rc_clients := rc_clients rc, rc_aborted := rc_aborted rc\<rparr>)"
proof -
  have "clients_of_snap (dict_of (map (\<lambda>(cid, c). (uuid_str cid, client_snap_of c)) (rc_clients rc))) = Inr (rc_clients rc)"
    using assms(1) by (intro clients_roundtrip) (auto simp: rc_wf_def)
  moreover have "fset_of_list (order (rc_aborted rc)) = rc_aborted rc"
    by (simp add: fset_eq_iff fset_of_list_elem assms(2))
  moreover have "map_result parse_uuid (map uuid_str (order (rc_aborted rc))) = Inr (order (rc_aborted rc))"
    using map_result_Inr [of "order (rc_aborted rc)" parse_uuid uuid_str id] by simp
  ultimately show ?thesis
    by (simp add: restore_rc_def snapshot_rc_def)
qed

section \<open>Local completion\<close>

text \<open>One client's events at one peer; the controller reports at each \<open>Emit\<close>.  The second
  component counts the emissions.\<close>

datatype local_event = LData | LEof int

definition local_step ::
  "(int, int) dict \<Rightarrow> uuid \<Rightarrow> ring_completion \<times> nat \<Rightarrow> local_event \<Rightarrow> ring_completion \<times> nat" where
  "local_step sent cid st ev =
     (case st of (rc, k) \<Rightarrow>
       let (rc, as) = (case ev of LData \<Rightarrow> on_data rc cid | LEof e \<Rightarrow> on_upstream_eof rc cid e)
       in if as = [] then (rc, k) else (fst (report_sent rc cid sent), Suc k))"

definition local_run :: "(int, int) dict \<Rightarrow> uuid \<Rightarrow> ring_completion \<Rightarrow> local_event list \<Rightarrow> ring_completion \<times> nat" where
  "local_run sent cid rc evs = foldl (local_step sent cid) (rc, 0) evs"

lemma phase_report_sent:
  "rc_phase (client_of (fst (report_sent rc cid sent)) cid) \<noteq> PROCESSING"
  "rc_received (client_of (fst (report_sent rc cid sent)) cid) = rc_received (client_of rc cid)"
  "rc_expected (client_of (fst (report_sent rc cid sent)) cid) = rc_expected (client_of rc cid)"
  by (cases "rc_phase (client_of rc cid) = PROCESSING",
      auto simp: report_sent_done report_sent_processing Let_def client_advance)+

lemma local_run_inv:
  assumes "\<And>ev e. ev \<in> set evs \<Longrightarrow> ev = LEof e \<Longrightarrow> e = n" and "0 \<le> n"
    and "local_run sent cid (init_rc node peers) evs = (rc, k)"
  shows "rc_received (client_of rc cid) = int (count_list evs LData) \<and>
    rc_expected (client_of rc cid) = (if LEof n \<in> set evs then n else - 1) \<and> rc_aborted rc = {||} \<and>
    k = (if LEof n \<in> set evs \<and> n \<le> int (count_list evs LData) then 1 else 0) \<and>
    (rc_phase (client_of rc cid) = PROCESSING \<longleftrightarrow> k = 0)"
  using assms(1,3)
proof (induction evs arbitrary: rc k rule: rev_induct)
  case Nil
  then show ?case by (auto simp: local_run_def init_rc_def client_of_def new_client_def)
next
  case (snoc ev evs)
  obtain rc1 k1 where run: "local_run sent cid (init_rc node peers) evs = (rc1, k1)" by fastforce
  have IH: "rc_received (client_of rc1 cid) = int (count_list evs LData)"
    "rc_expected (client_of rc1 cid) = (if LEof n \<in> set evs then n else - 1)" "rc_aborted rc1 = {||}"
    "k1 = (if LEof n \<in> set evs \<and> n \<le> int (count_list evs LData) then 1 else 0)"
    "rc_phase (client_of rc1 cid) = PROCESSING \<longleftrightarrow> k1 = 0"
    using snoc.IH [OF _ run] snoc.prems(1) by auto
  have step: "local_step sent cid (rc1, k1) ev = (rc, k)"
    using snoc.prems(2) run by (simp add: local_run_def)
  show ?case
  proof (cases ev)
    case LData
    have as: "snd (on_data rc1 cid) = (if k1 = 0 \<and> LEof n \<in> set evs \<and> n \<le> 1 + int (count_list evs LData) then [Emit cid] else [])"
      using IH assms(2) by (auto simp: on_data_def snd_maybe Let_def)
    have cl: "client_of (fst (on_data rc1 cid)) cid = (client_of rc1 cid)\<lparr>rc_received := rc_received (client_of rc1 cid) + 1\<rparr>"
      using IH(3) by (simp add: client_on_data)
    show ?thesis
    proof (cases "snd (on_data rc1 cid) = []")
      case True
      with step LData have "rc = fst (on_data rc1 cid)" "k = k1" by (auto simp: local_step_def Let_def split: prod.splits)
      with IH LData True as cl show ?thesis by (auto split: if_splits)
    next
      case False
      with step LData have "rc = fst (report_sent (fst (on_data rc1 cid)) cid sent)" "k = Suc k1"
        by (auto simp: local_step_def Let_def split: prod.splits)
      with IH LData False as cl show ?thesis by (auto simp: phase_report_sent split: if_splits)
    qed
  next
    case (LEof e)
    then have e: "e = n" using snoc.prems(1) by simp
    have as: "snd (on_upstream_eof rc1 cid n) = (if k1 = 0 \<and> n \<le> int (count_list evs LData) then [Emit cid] else [])"
      using IH assms(2) by (auto simp: on_upstream_eof_def snd_maybe Let_def)
    have cl: "client_of (fst (on_upstream_eof rc1 cid n)) cid = (client_of rc1 cid)\<lparr>rc_expected := n\<rparr>"
      using IH(3) by (simp add: client_on_eof)
    show ?thesis
    proof (cases "snd (on_upstream_eof rc1 cid n) = []")
      case True
      with step LEof e have "rc = fst (on_upstream_eof rc1 cid n)" "k = k1" by (auto simp: local_step_def Let_def split: prod.splits)
      with IH LEof e True as cl show ?thesis by (auto split: if_splits)
    next
      case False
      with step LEof e have "rc = fst (report_sent (fst (on_upstream_eof rc1 cid n)) cid sent)" "k = Suc k1"
        by (auto simp: local_step_def Let_def split: prod.splits)
      with IH LEof e False as cl show ?thesis by (auto simp: phase_report_sent split: if_splits)
    qed
  qed
qed

section \<open>Properties\<close>

text \<open>
  C11.  A peer completes a client exactly once, in whatever order its data and its (possibly
  repeated) EOF arrive: it has emitted once if the EOF arrived and at least the announced number
  of messages did, and not at all otherwise.
\<close>

theorem completes_once_in_any_order:
  assumes "\<forall>e. LEof e \<in> set evs \<longrightarrow> e = n" and "0 \<le> n"
  shows "snd (local_run sent cid (init_rc node peers) evs) =
    (if LEof n \<in> set evs \<and> n \<le> int (count_list evs LData) then 1 else 0)"
proof -
  obtain rc k where "local_run sent cid (init_rc node peers) evs = (rc, k)" by fastforce
  with local_run_inv [of evs n sent cid node peers rc k] assms show ?thesis by auto
qed

theorem completes_once_in_any_order_witness:
  "snd (local_run [(0, 2)] 5 (init_rc 0 [1, 2]) [LData, LEof 2, LData, LEof 2]) = 1"
  by (subst completes_once_in_any_order [where n = 2]) auto

text \<open>
  The calls a controller makes on one peer's object, and a restart: a fresh object that restores the
  snapshot.  \<open>order\<close> is the order in which Python iterates a set.
\<close>

datatype rc_op = OpData uuid | OpEof uuid int | OpReport uuid "(int, int) dict" | OpToken barrier_token | OpDrop uuid | OpRestart

fun rc_apply :: "(uuid fset \<Rightarrow> uuid list) \<Rightarrow> int \<Rightarrow> int list \<Rightarrow> ring_completion \<Rightarrow> rc_op \<Rightarrow> ring_completion result" where
  "rc_apply order node peers rc (OpData cid) = Inr (fst (on_data rc cid))"
| "rc_apply order node peers rc (OpEof cid n) = Inr (fst (on_upstream_eof rc cid n))"
| "rc_apply order node peers rc (OpReport cid sent) = Inr (fst (report_sent rc cid (dict_of sent)))"
| "rc_apply order node peers rc (OpToken tk) = Inr (fst (on_token rc tk))"
| "rc_apply order node peers rc (OpDrop cid) = Inr (drop_client rc cid)"
| "rc_apply order node peers rc OpRestart = restore_rc (snapshot_rc order rc) (init_rc node peers)"

fun rc_history :: "(uuid fset \<Rightarrow> uuid list) \<Rightarrow> int \<Rightarrow> int list \<Rightarrow> ring_completion \<Rightarrow> rc_op list \<Rightarrow> ring_completion result" where
  "rc_history order node peers rc [] = Inr rc"
| "rc_history order node peers rc (op # ops) =
     bind_result (rc_apply order node peers rc op) (\<lambda>rc. rc_history order node peers rc ops)"

lemma rc_history_restarts:
  assumes "\<forall>A. set (order A) = fset A"
  shows "rc_wf rc \<Longrightarrow> same_peer (init_rc node peers) rc \<Longrightarrow>
    \<exists>rc'. rc_history order node peers rc ops = Inr rc' \<and>
      rc_history order node peers rc (filter (\<lambda>op. op \<noteq> OpRestart) ops) = Inr rc'"
proof (induction ops arbitrary: rc)
  case (Cons op ops)
  have tr: "same_peer (init_rc node peers) rc'" if "same_peer rc rc'" for rc'
    using Cons.prems(2) that by (simp add: same_peer_def)
  have "\<exists>rc'. rc_apply order node peers rc op = Inr rc' \<and> rc_wf rc' \<and> same_peer (init_rc node peers) rc' \<and> (op = OpRestart \<longrightarrow> rc' = rc)"
  proof (cases op)
    case OpRestart
    have "restore_rc (snapshot_rc order rc) (init_rc node peers) = Inr rc"
      using restore_snapshot_rc [of rc order "init_rc node peers"] Cons.prems assms by (simp add: same_peer_def)
    then show ?thesis using OpRestart Cons.prems by simp
  qed (use Cons.prems in \<open>auto intro!: rc_wf_ops tr\<close>)
  then obtain rc' where a: "rc_apply order node peers rc op = Inr rc'" "rc_wf rc'" "same_peer (init_rc node peers) rc'" "op = OpRestart \<longrightarrow> rc' = rc"
    by blast
  obtain rc'' where "rc_history order node peers rc' ops = Inr rc''"
    "rc_history order node peers rc' (filter (\<lambda>op. op \<noteq> OpRestart) ops) = Inr rc''" using Cons.IH [OF a(2,3)] by blast
  then show ?case using a(1,4) by (cases "op = OpRestart") simp_all
qed simp

text \<open>
  C13.  The completion state of a peer survives restarts: a history of calls during which the process
  is restarted at any points, each time from its snapshot, never fails to restore and ends in the
  very state the same calls reach without restarts, phases, counts and tombstones included.
\<close>

theorem ring_completion_roundtrip:
  assumes "\<forall>A. set (order A) = fset A"
  shows "\<exists>rc. rc_history order node peers (init_rc node peers) ops = Inr rc \<and>
    rc_history order node peers (init_rc node peers) (filter (\<lambda>op. op \<noteq> OpRestart) ops) = Inr rc"
  by (rule rc_history_restarts [OF assms rc_wf_init]) (simp add: same_peer_def)

theorem ring_completion_roundtrip_witness:
  "\<exists>rc. rc_history sorted_list_of_fset 1 [0] (init_rc 1 [0]) [OpEof 7 3, OpRestart, OpData 7, OpDrop 9, OpRestart] = Inr rc \<and>
     rc_history sorted_list_of_fset 1 [0] (init_rc 1 [0]) [OpEof 7 3, OpData 7, OpDrop 9] = Inr rc"
  using ring_completion_roundtrip [of sorted_list_of_fset 1 "[0]" "[OpEof 7 3, OpRestart, OpData 7, OpDrop 9, OpRestart]"]
  by simp



end
