(* ===== verification/Ring_Topology.thy ===== *)
theory Ring_Topology
  imports Prelude
begin

text \<open>
  The neighbours of a peer in its ring (\<open>_get_front_back_ids\<close> of
  \<open>common/comms/middleware/ring_rabbitmq.py\<close>): the peer sends to the one in front and consumes
  what the one behind sends.  Over the sorted identifiers of all peers, the front of each is the
  next one and the front of the last is the first: one cycle through every peer.
\<close>

definition front_index :: "int \<Rightarrow> int list \<Rightarrow> nat" where
  "front_index self ps =
     (case find (\<lambda>i. self < ps ! i) [0..<length ps] of None \<Rightarrow> 0 | Some i \<Rightarrow> i)"

definition get_front_back_ids :: "int \<Rightarrow> int list \<Rightarrow> (int \<times> int) result" where
  "get_front_back_ids self peer_ids =
     (if self \<in> set peer_ids then Inl MOMRingError
      else let ps = sort peer_ids; npeers = length ps in
           if npeers = 0 then Inr (self, self)
           else if npeers = 1 then Inr (ps ! 0, ps ! 0)
           else let f = front_index self ps; b = (npeers + f - 1) mod npeers
                in Inr (ps ! f, ps ! b))"

definition peers_of :: "int list \<Rightarrow> nat \<Rightarrow> int list" where
  "peers_of xs k = take k xs @ drop (Suc k) xs"

lemma sorted_peers_of: "sorted xs \<Longrightarrow> sorted (peers_of xs k)"
proof (induction xs arbitrary: k)
  case (Cons x xs)
  then show ?case
    by (cases k) (auto simp: peers_of_def dest: in_set_takeD in_set_dropD)
qed (simp add: peers_of_def)

lemma length_peers_of: "k < length xs \<Longrightarrow> length (peers_of xs k) = length xs - 1"
  by (simp add: peers_of_def)

lemma nth_peers_of:
  "k < length xs \<Longrightarrow> i < length xs - 1 \<Longrightarrow> peers_of xs k ! i = (if i < k then xs ! i else xs ! Suc i)"
  by (auto simp: peers_of_def nth_append min_def)

lemma notin_peers_of:
  assumes "distinct xs" and "k < length xs"
  shows "xs ! k \<notin> set (peers_of xs k)"
  using assms id_take_nth_drop [OF assms(2)] unfolding peers_of_def
  by (metis disjoint_iff distinct.simps(2) distinct_append list.set_intros(1) set_append Un_iff)

lemma find_upt_first:
  assumes "m \<le> n" and "\<And>i. i < m \<Longrightarrow> \<not> P i" and "m < n \<Longrightarrow> P m"
  shows "find P [0..<n] = (if m < n then Some m else None)"
proof (cases "m < n")
  case True
  then show ?thesis using assms by (auto simp: find_Some_iff)
next
  case False
  with assms(1,2) show ?thesis by (auto simp: find_None_iff)
qed

lemma front_index_peers_of:
  assumes sd: "sorted xs" "distinct xs" and k: "k < length xs"
  shows "front_index (xs ! k) (peers_of xs k) = (if Suc k < length xs then k else 0)"
proof -
  let ?n = "length xs - 1"
  have mono: "i < j \<Longrightarrow> j < length xs \<Longrightarrow> xs ! i < xs ! j" for i j
    using sd by (simp add: sorted_wrt_nth_less strict_sorted_iff)
  have "find (\<lambda>i. xs ! k < peers_of xs k ! i) [0..<?n] = (if k < ?n then Some k else None)"
  proof (rule find_upt_first)
    show "k \<le> ?n" using k by simp
    show "\<not> xs ! k < peers_of xs k ! i" if "i < k" for i
    proof -
      have "peers_of xs k ! i = xs ! i" using that k by (subst nth_peers_of) auto
      with mono [of i k] that k show ?thesis by simp
    qed
    show "xs ! k < peers_of xs k ! k" if "k < ?n"
      using that mono [of k "Suc k"] k by (simp add: nth_peers_of)
  qed
  with k show ?thesis by (auto simp: front_index_def length_peers_of)
qed

lemma front_back_cycle:
  assumes sd: "sorted xs" "distinct xs" and k: "k < length xs" and peers: "mset peers = mset (peers_of xs k)"
  shows "get_front_back_ids (xs ! k) peers =
    Inr (xs ! (Suc k mod length xs), xs ! ((k + length xs - 1) mod length xs))"
proof -
  let ?ps = "peers_of xs k"
  have s: "sort peers = ?ps"
    using peers sorted_peers_of [OF sd(1)] by (metis properties_for_sort)
  have nin: "xs ! k \<notin> set peers"
    using notin_peers_of [OF sd(2) k] peers by (metis mset_eq_setD)
  have len: "length ?ps = length xs - 1" using k by (rule length_peers_of)
  note fi = front_index_peers_of [OF sd k]
  consider "length xs = 1" | "length xs = 2" | "3 \<le> length xs" using k by linarith
  then show ?thesis
  proof cases
    case 1
    with s nin len k show ?thesis by (simp add: get_front_back_ids_def Let_def)
  next
    case 2
    then have "k = 0 \<or> k = 1" using k by auto
    with 2 s nin len k show ?thesis
      by (auto simp: get_front_back_ids_def Let_def nth_peers_of)
  next
    case 3
    let ?n = "length xs"
    let ?f = "if Suc k < ?n then k else 0"
    have "get_front_back_ids (xs ! k) peers = Inr (?ps ! ?f, ?ps ! ((?n - 1 + ?f - 1) mod (?n - 1)))"
    proof -
      have "length ?ps \<noteq> 0" "length ?ps \<noteq> 1" using 3 len by auto
      with nin s len fi show ?thesis unfolding get_front_back_ids_def Let_def by (simp only: if_False refl)
    qed
    moreover have "?ps ! ?f = xs ! (Suc k mod ?n)"
      using 3 k by (cases "Suc k < ?n") (auto simp: nth_peers_of mod_self dest: Suc_lessI)
    moreover have "?ps ! ((?n - 1 + ?f - 1) mod (?n - 1)) = xs ! ((k + ?n - 1) mod ?n)"
    proof (cases "Suc k < ?n \<and> 0 < k")
      case True
      then have "?n - 1 + k - 1 = (k - 1) + (?n - 1)" "k + ?n - 1 = (k - 1) + ?n" by simp_all
      then have "(?n - 1 + k - 1) mod (?n - 1) = k - 1" "(k + ?n - 1) mod ?n = k - 1"
        using mod_less [of "k - 1" "?n - 1"] mod_less [of "k - 1" ?n] True
        by (simp_all only: mod_add_self2) linarith+
      moreover have "?ps ! (k - 1) = xs ! (k - 1)" using True k by (subst nth_peers_of) auto
      ultimately show ?thesis using True by (simp only: if_True)
    next
      case False
      then consider "k = 0" | "Suc k = ?n" using k by linarith
      then show ?thesis
      proof cases
        case 1
        moreover have "peers_of xs 0 ! (?n - 2) = xs ! (?n - 1)"
          using 3 by (subst nth_peers_of) (auto simp: numeral_2_eq_2 Suc_diff_Suc)
        ultimately show ?thesis using 3 by (simp add: numeral_2_eq_2)
      next
        case 2
        then have "k + ?n - 1 = (?n - 2) + ?n" using 3 by simp
        then have "(k + ?n - 1) mod ?n = ?n - 2" using 3 by (simp only: mod_add_self2) simp
        moreover have "?ps ! (?n - 2) = xs ! (?n - 2)"
          using 2 3 k by (subst nth_peers_of) auto
        ultimately show ?thesis using 2 3 by (simp add: numeral_2_eq_2)
      qed
    qed
    ultimately show ?thesis by simp
  qed
qed

section \<open>Properties\<close>

text \<open>
  The ring is one cycle: over the sorted identifiers of the peers, each peer sends to the
  next one and the last to the first, and consumes from the one before it.
\<close>

theorem ring_is_one_cycle:
  assumes "sorted xs" and "distinct xs" and "k < length xs" and "mset peers = mset (peers_of xs k)"
  shows "get_front_back_ids (xs ! k) peers =
    Inr (xs ! (Suc k mod length xs), xs ! ((k + length xs - 1) mod length xs))"
  using assms by (rule front_back_cycle)

theorem ring_is_one_cycle_witness: "get_front_back_ids 4 [9, 0, 2] = Inr (9, 2)"
  using ring_is_one_cycle [of "[0, 2, 4, 9]" 2 "[9, 0, 2]"] by (simp add: peers_of_def)

end
