(* ===== verification/Ring_Network.thy ===== *)
theory Ring_Network
  imports Ring_Completion Ring_Topology
begin

text \<open>
  The peers of one ring together: each runs the state machine of \<open>Ring_Completion\<close> under the
  controller of \<open>ring_node.py\<close>, and the barrier token travels from a peer to the one in front of it
  over the broker, which may deliver it again.  A crash takes a peer back to an earlier state of
  its own (its last checkpoint) and runs \<open>recheck\<close>, as \<open>start\<close> does.  The leader's restart is
  assumed to keep or redo what it had reported (\<open>keeps_reports\<close>): \<open>full_token_unreported\<close> shows
  what a leader restored to a state before its report does with a token that comes back full.

  What a peer reports for a client, \<open>S i cid\<close>, is a parameter: a peer reports when it has
  processed all its input for the client, and the counts are a function of that input.
\<close>

text \<open>\<open>_run\<close>: an \<open>Emit\<close> makes the node send its results and report the counts; the actions of the
  report are performed in its place.\<close>

fun run_actions :: "(uuid \<Rightarrow> (int, int) dict) \<Rightarrow> ring_completion \<Rightarrow> action list \<Rightarrow> ring_completion \<times> action list" where
  "run_actions S rc [] = (rc, [])"
| "run_actions S rc (a # as) =
     (case a of
        Emit cid \<Rightarrow> let (rc, bs) = report_sent rc cid (S cid); (rc, cs) = run_actions S rc as in (rc, bs @ cs)
      | _ \<Rightarrow> let (rc, cs) = run_actions S rc as in (rc, a # cs))"

definition step_peer ::
  "(uuid \<Rightarrow> (int, int) dict) \<Rightarrow> ring_completion \<times> action list \<Rightarrow> ring_completion \<times> action list" where
  "step_peer S r = run_actions S (fst r) (snd r)"

record ring_net =
  nw_peer :: "int \<Rightarrow> ring_completion"
  nw_past :: "int \<Rightarrow> ring_completion set"
  nw_tokens :: "(int \<times> barrier_token) multiset"
  nw_eofs :: "(uuid \<times> (int, int) dict) list"

fun deliver_actions :: "int \<Rightarrow> action list \<Rightarrow> ring_net \<Rightarrow> ring_net" where
  "deliver_actions front [] w = w"
| "deliver_actions front (a # as) w =
     deliver_actions front as
       (case a of
          Forward tk \<Rightarrow> w\<lparr>nw_tokens := add_mset (front, tk) (nw_tokens w)\<rparr>
        | DownstreamEOF cid d \<Rightarrow> w\<lparr>nw_eofs := nw_eofs w @ [(cid, d)]\<rparr>
        | Emit cid \<Rightarrow> w)"

text \<open>\<open>peer_ids = [i for i in range(npeers) if i != idx]\<close>, over the identifiers of the cluster.\<close>

definition other_ids :: "int list \<Rightarrow> int \<Rightarrow> int list" where
  "other_ids ids i = filter (\<lambda>j. j \<noteq> i) ids"

definition cluster_ids :: "nat \<Rightarrow> int list" where
  "cluster_ids n = map int [0..<n]"

definition front_of :: "int list \<Rightarrow> int \<Rightarrow> int" where
  "front_of ids i = (case get_front_back_ids i (other_ids ids i) of Inl e \<Rightarrow> i | Inr (f, b) \<Rightarrow> f)"

definition commit :: "int list \<Rightarrow> int \<Rightarrow> ring_completion \<times> action list \<Rightarrow> ring_net \<Rightarrow> ring_net" where
  "commit ids i r w =
     deliver_actions (front_of ids i) (snd r)
       (w\<lparr>nw_peer := (nw_peer w)(i := fst r), nw_past := (nw_past w)(i := insert (fst r) (nw_past w i))\<rparr>)"

definition init_net :: "int list \<Rightarrow> ring_net" where
  "init_net ids =
     \<lparr>nw_peer = (\<lambda>i. init_rc i (other_ids ids i)), nw_past = (\<lambda>i. {init_rc i (other_ids ids i)}),
      nw_tokens = {#}, nw_eofs = []\<rparr>"

text \<open>A client is resolved at a peer that has reported it, or that has dropped it.\<close>

definition reported :: "ring_completion \<Rightarrow> uuid \<Rightarrow> bool" where
  "reported rc cid \<longleftrightarrow> rc_phase (client_of rc cid) \<noteq> PROCESSING \<or> cid |\<in>| rc_aborted rc"

definition keeps_reports :: "ring_completion \<Rightarrow> ring_completion \<Rightarrow> bool" where
  "keeps_reports rc rc' \<longleftrightarrow> (\<forall>cid. reported rc cid \<longrightarrow> reported rc' cid)"

inductive net_step :: "bool \<Rightarrow> int list \<Rightarrow> (int \<Rightarrow> uuid \<Rightarrow> (int, int) dict) \<Rightarrow> ring_net \<Rightarrow> ring_net \<Rightarrow> bool"
  for crashes :: bool and ids :: "int list" and S :: "int \<Rightarrow> uuid \<Rightarrow> (int, int) dict" where
  data: "i \<in> set ids \<Longrightarrow> net_step crashes ids S w (commit ids i (step_peer (S i) (on_data (nw_peer w i) cid)) w)"
| eof: "i \<in> set ids \<Longrightarrow>
    net_step crashes ids S w (commit ids i (step_peer (S i) (on_upstream_eof (nw_peer w i) cid e)) w)"
| abort: "i \<in> set ids \<Longrightarrow> net_step crashes ids S w (commit ids i (drop_client (nw_peer w i) cid, []) w)"
| token: "i \<in> set ids \<Longrightarrow> (i, tk) \<in># nw_tokens w \<Longrightarrow>
    net_step crashes ids S w
      (commit ids i (step_peer (S i) (on_token (nw_peer w i) tk)) (w\<lparr>nw_tokens := nw_tokens w - {#(i, tk)#}\<rparr>))"
| redelivered: "i \<in> set ids \<Longrightarrow> (i, tk) \<in># nw_tokens w \<Longrightarrow>
    net_step crashes ids S w (commit ids i (step_peer (S i) (on_token (nw_peer w i) tk)) w)"
| crash: "crashes \<Longrightarrow> i \<in> set ids \<Longrightarrow> rc \<in> nw_past w i \<Longrightarrow>
    (i = Min (set ids) \<Longrightarrow> keeps_reports (nw_peer w i) (fst (step_peer (S i) (recheck rc)))) \<Longrightarrow>
    net_step crashes ids S w (commit ids i (step_peer (S i) (recheck rc)) w)"

inductive net_reach :: "bool \<Rightarrow> int list \<Rightarrow> (int \<Rightarrow> uuid \<Rightarrow> (int, int) dict) \<Rightarrow> ring_net \<Rightarrow> ring_net \<Rightarrow> bool"
  for crashes :: bool and ids :: "int list" and S :: "int \<Rightarrow> uuid \<Rightarrow> (int, int) dict" and w0 :: ring_net where
  start: "net_reach crashes ids S w0 w0"
| step: "net_reach crashes ids S w0 w \<Longrightarrow> net_step crashes ids S w w' \<Longrightarrow> net_reach crashes ids S w0 w'"

section \<open>Actions\<close>

lemma deliver_actions_frame [simp]:
  "nw_peer (deliver_actions f as w) = nw_peer w" "nw_past (deliver_actions f as w) = nw_past w"
  by (induction f as w rule: deliver_actions.induct) (auto split: action.splits)

lemma deliver_actions_tokens:
  "set_mset (nw_tokens (deliver_actions f as w)) =
     set_mset (nw_tokens w) \<union> {(f, tk) |tk. Forward tk \<in> set as}"
  by (induction f as w rule: deliver_actions.induct) (auto split: action.splits)

fun eofs_of :: "action list \<Rightarrow> (uuid \<times> (int, int) dict) list" where
  "eofs_of [] = []"
| "eofs_of (a # as) = (case a of DownstreamEOF cid d \<Rightarrow> (cid, d) # eofs_of as | _ \<Rightarrow> eofs_of as)"

lemma deliver_actions_eofs: "nw_eofs (deliver_actions f as w) = nw_eofs w @ eofs_of as"
  by (induction f as w rule: deliver_actions.induct) (auto split: action.splits)

lemma set_eofs_of: "(cid, d) \<in> set (eofs_of as) \<longleftrightarrow> DownstreamEOF cid d \<in> set as"
  by (induction as) (auto split: action.splits)

section \<open>What every peer keeps\<close>

text \<open>
  A peer is good when it is the peer it claims to be and whatever it has reported is \<open>S\<close>; an
  action is good when its token carries only such reports, or its counts are the sum over all
  peers.
\<close>

definition good_peer :: "int list \<Rightarrow> (int \<Rightarrow> uuid \<Rightarrow> (int, int) dict) \<Rightarrow> int \<Rightarrow> ring_completion \<Rightarrow> bool" where
  "good_peer ids S i rc \<longleftrightarrow>
     rc_node rc = i \<and> rc_n_nodes rc = length ids \<and> rc_leader rc = Min (set ids) \<and>
     (\<forall>cid. rc_phase (client_of rc cid) \<noteq> PROCESSING \<longrightarrow> rc_sent (client_of rc cid) = S i cid)"

definition good_token :: "int list \<Rightarrow> (int \<Rightarrow> uuid \<Rightarrow> (int, int) dict) \<Rightarrow> barrier_token \<Rightarrow> bool" where
  "good_token ids S tk \<longleftrightarrow>
     wf_dict (tk_sent_by tk) \<and> tk_origin tk = Min (set ids) \<and>
     (\<forall>(k, counts)\<in>set (tk_sent_by tk). k \<in> set ids \<and> counts = S k (tk_client tk))"

definition cluster_total :: "int list \<Rightarrow> (int \<Rightarrow> uuid \<Rightarrow> (int, int) dict) \<Rightarrow> uuid \<Rightarrow> int \<Rightarrow> int" where
  "cluster_total ids S cid s = (\<Sum>i\<in>set ids. shard_count (S i cid) s)"

definition good_action :: "int list \<Rightarrow> (int \<Rightarrow> uuid \<Rightarrow> (int, int) dict) \<Rightarrow> action \<Rightarrow> bool" where
  "good_action ids S a =
     (case a of
        Emit cid \<Rightarrow> True
      | Forward tk \<Rightarrow> good_token ids S tk
      | DownstreamEOF cid d \<Rightarrow> \<forall>s. shard_count d s = cluster_total ids S cid s)"

text \<open>
  The result of an operation of peer \<open>i\<close> at the state \<open>rc\<close>.  A token it forwards carries the
  leader's slot only for a client the leader has resolved: \<open>R\<close> says which those are when the
  leader is another peer.
\<close>

definition slot_ok :: "int list \<Rightarrow> (uuid \<Rightarrow> bool) \<Rightarrow> int \<Rightarrow> ring_completion \<Rightarrow> barrier_token \<Rightarrow> bool" where
  "slot_ok ids R i rc tk \<longleftrightarrow>
     (Min (set ids) \<in> set (map fst (tk_sent_by tk)) \<longrightarrow>
      (if i = Min (set ids) then reported rc (tk_client tk) else R (tk_client tk)))"

definition good_result ::
  "int list \<Rightarrow> (int \<Rightarrow> uuid \<Rightarrow> (int, int) dict) \<Rightarrow> (uuid \<Rightarrow> bool) \<Rightarrow> int \<Rightarrow> ring_completion \<Rightarrow>
   ring_completion \<times> action list \<Rightarrow> bool" where
  "good_result ids S R i rc r \<longleftrightarrow>
     good_peer ids S i (fst r) \<and> keeps_reports rc (fst r) \<and> list_all (good_action ids S) (snd r) \<and>
     (\<forall>tk. Forward tk \<in> set (snd r) \<longrightarrow> slot_ok ids R i (fst r) tk)"

lemma slot_ok_mono: "keeps_reports rc rc' \<Longrightarrow> slot_ok ids R i rc tk \<Longrightarrow> slot_ok ids R i rc' tk"
  by (simp add: slot_ok_def keeps_reports_def)

lemma keeps_reports_refl [simp]: "keeps_reports rc rc"
  by (simp add: keeps_reports_def)

lemma keeps_reports_trans [trans]: "keeps_reports a b \<Longrightarrow> keeps_reports b c \<Longrightarrow> keeps_reports a c"
  by (simp add: keeps_reports_def)

lemma reported_touch [simp]: "reported (touch_client cid rc) cid' = reported rc cid'"
  by (simp add: reported_def)

lemma keeps_reports_advance: "keeps_reports rc (fst (advance rc tk))"
  by (auto simp: keeps_reports_def reported_def client_advance)

text \<open>The barrier as the peers and the tokens use it.\<close>

locale ring_barrier =
  fixes ids :: "int list" and S :: "int \<Rightarrow> uuid \<Rightarrow> (int, int) dict"
  assumes distinct_ids: "distinct ids" and some_peer: "ids \<noteq> []"
    and wf_S: "wf_dict (S i cid)"
begin

lemma full_token:
  assumes tk: "good_token ids S tk" and len: "length ids \<le> length (tk_sent_by tk)"
  shows "shard_count (sum_shards (tk_sent_by tk)) s = cluster_total ids S (tk_client tk) s"
    and "set (map fst (tk_sent_by tk)) = set ids"
proof -
  let ?sb = "tk_sent_by tk"
  from tk have wf: "wf_dict ?sb" and sub: "set (map fst ?sb) \<subseteq> set ids"
    and val: "\<And>k counts. (k, counts) \<in> set ?sb \<Longrightarrow> counts = S k (tk_client tk)"
    by (auto simp: good_token_def)
  have "card (set ids) \<le> card (set (map fst ?sb))"
    using len length_dict [OF wf] distinct_card [OF distinct_ids] by simp
  then show all: "set (map fst ?sb) = set ids"
    using sub by (intro card_seteq) auto
  have wfs: "wf_sent_by ?sb"
    using wf val wf_S by (auto simp: wf_sent_by_def)
  have eq: "the (map_of ?sb k) = S k (tk_client tk)" if "k \<in> set ids" for k
  proof -
    from that all have "map_of ?sb k \<noteq> None" by (simp add: map_of_eq_None_iff)
    then obtain v where "map_of ?sb k = Some v" by auto
    with val [OF map_of_SomeD] show ?thesis by simp
  qed
  have "shard_count (sum_shards ?sb) s = (\<Sum>k\<in>set ids. shard_count (the (map_of ?sb k)) s)"
    using shard_count_sum_shards [OF wfs] all by simp
  also have "\<dots> = cluster_total ids S (tk_client tk) s"
    unfolding cluster_total_def by (rule sum.cong) (simp_all add: eq)
  finally show "shard_count (sum_shards ?sb) s = cluster_total ids S (tk_client tk) s" .
qed

lemma good_advance:
  assumes rc: "good_peer ids S i rc" and tk: "good_token ids S tk"
    and em: "i = Min (set ids) \<Longrightarrow> i \<in> set (map fst (tk_sent_by tk)) \<Longrightarrow> rc_phase (client_of rc (tk_client tk)) \<noteq> PROCESSING"
    and slot: "slot_ok ids R i rc tk"
  shows "good_result ids S R i rc (advance rc tk)"
proof -
  have cl: "rc_phase (client_of rc (tk_client tk)) \<noteq> PROCESSING" if "closes rc tk"
  proof -
    from that rc tk have "i = Min (set ids)" "length ids \<le> length (tk_sent_by tk)"
      by (auto simp: closes_def good_peer_def good_token_def)
    moreover from this full_token(2) [OF tk] some_peer have "i \<in> set (map fst (tk_sent_by tk))" by simp
    ultimately show ?thesis using em by blast
  qed
  have "good_peer ids S i (fst (advance rc tk))"
    using rc same_peer_ops(5) [of rc tk] cl by (auto simp: good_peer_def same_peer_def client_advance)
  moreover have "list_all (good_action ids S) (snd (advance rc tk))"
    using tk rc full_token(1) [OF tk] by (auto simp: snd_advance good_action_def closes_def good_peer_def)
  moreover have "slot_ok ids R i (fst (advance rc tk)) tk'" if "Forward tk' \<in> set (snd (advance rc tk))" for tk'
  proof -
    from that have "tk' = tk" by (auto simp: snd_advance split: if_splits)
    with slot slot_ok_mono [OF keeps_reports_advance] show ?thesis by simp
  qed
  ultimately show ?thesis using keeps_reports_advance by (simp add: good_result_def)
qed

lemma good_touch: "good_peer ids S i rc \<Longrightarrow> good_peer ids S i (touch_client cid rc)"
  by (simp add: good_peer_def)

lemma good_report:
  assumes rc: "good_peer ids S i rc" and i: "i \<in> set ids"
  shows "good_result ids S R i rc (report_sent rc cid (S i cid))"
proof (cases "rc_phase (client_of rc cid) = PROCESSING")
  case False
  with rc good_touch show ?thesis by (simp add: report_sent_done good_result_def keeps_reports_def)
next
  case True
  define rc' where "rc' = put_client cid ((client_of rc cid)\<lparr>rc_sent := S i cid, rc_phase := EMITTED\<rparr>) (touch_client cid rc)"
  define tk where "tk = \<lparr>tk_client = cid, tk_origin = rc_leader rc, tk_sent_by = [(rc_node rc, S i cid)]\<rparr>"
  have rc': "good_peer ids S i rc'" and kr: "keeps_reports rc rc'"
    using rc by (auto simp: rc'_def good_peer_def keeps_reports_def reported_def)
  have tk: "good_token ids S tk"
    using rc i by (simp add: tk_def good_token_def good_peer_def wf_dict_def)
  have "report_sent rc cid (S i cid) = (if rc_node rc \<noteq> rc_leader rc then (rc', []) else advance rc' tk)"
    using True by (simp add: report_sent_processing rc'_def tk_def Let_def)
  moreover have "good_result ids S R i rc' (advance rc' tk)" if "rc_node rc = rc_leader rc"
    using that rc by (intro good_advance [OF rc' tk]) (auto simp: rc'_def tk_def slot_ok_def reported_def good_peer_def)
  ultimately show ?thesis
    using rc' kr by (auto simp: good_result_def intro: keeps_reports_trans)
qed

lemma good_token_fill: "good_peer ids S i rc \<Longrightarrow> i \<in> set ids \<Longrightarrow> good_token ids S tk \<Longrightarrow> good_token ids S (fill_slot rc tk)"
  by (auto simp: good_token_def fill_slot_def Let_def good_peer_def dest: set_dict_set)

lemma good_on_token:
  assumes rc: "good_peer ids S i rc" and i: "i \<in> set ids" and tk: "good_token ids S tk"
    and slot: "slot_ok ids R i rc tk"
  shows "good_result ids S R i rc (on_token rc tk)"
proof (cases "tk_client tk |\<in>| rc_aborted rc")
  case True
  with rc show ?thesis by (simp add: on_token_aborted good_result_def)
next
  case False
  have "good_result ids S R i (touch_client (tk_client tk) rc) (advance (touch_client (tk_client tk) rc) (fill_slot rc tk))"
  proof (rule good_advance [OF good_touch [OF rc] good_token_fill [OF rc i tk]])
    assume "i = Min (set ids)" "i \<in> set (map fst (tk_sent_by (fill_slot rc tk)))"
    then show "rc_phase (client_of (touch_client (tk_client tk) rc) (tk_client (fill_slot rc tk))) \<noteq> PROCESSING"
      using slot False by (auto simp: fill_slot_def Let_def reported_def slot_ok_def split: if_splits)
  next
    show "slot_ok ids R i (touch_client (tk_client tk) rc) (fill_slot rc tk)"
      using slot rc keys_dict_set [of i "S i (tk_client tk)" "tk_sent_by tk"]
      by (auto simp: fill_slot_def Let_def slot_ok_def reported_def good_peer_def simp del: set_map split: if_splits)
  qed
  with False show ?thesis
    by (simp add: on_token_live good_result_def keeps_reports_def)
qed

lemma good_local:
  assumes "good_peer ids S i rc"
  shows "good_result ids S R i rc (on_data rc cid)" and "good_result ids S R i rc (on_upstream_eof rc cid e)"
    and "good_result ids S R i rc (drop_client rc cid, [])" and "good_result ids S R i rc (maybe_local_complete rc cid)"
proof -
  have emit: "list_all (good_action ids S) (snd (maybe_local_complete rc cid))"
    "\<And>tk. Forward tk \<notin> set (snd (maybe_local_complete rc cid))" for rc cid
    by (auto simp: snd_maybe Let_def good_action_def)
  show "good_result ids S R i rc (maybe_local_complete rc cid)"
    using assms same_peer_ops(1) [of rc cid] emit
    by (simp add: good_result_def good_peer_def same_peer_def keeps_reports_def reported_def)
  have d: "list_all (good_action ids S) (snd (on_data rc cid))" "\<And>tk. Forward tk \<notin> set (snd (on_data rc cid))"
    "list_all (good_action ids S) (snd (on_upstream_eof rc cid e))" "\<And>tk. Forward tk \<notin> set (snd (on_upstream_eof rc cid e))"
    using emit by (simp_all add: on_data_def on_upstream_eof_def Let_def)
  show "good_result ids S R i rc (on_data rc cid)"
    using assms same_peer_ops(2) [of rc cid] d(1,2)
    by (simp add: good_result_def good_peer_def same_peer_def keeps_reports_def reported_def client_on_data)
  show "good_result ids S R i rc (on_upstream_eof rc cid e)"
    using assms same_peer_ops(3) [of rc cid e] d(3,4)
    by (simp add: good_result_def good_peer_def same_peer_def keeps_reports_def reported_def client_on_eof)
  show "good_result ids S R i rc (drop_client rc cid, [])"
    using assms same_peer_ops(4) [of rc cid]
    by (simp add: good_result_def good_peer_def same_peer_def keeps_reports_def reported_def new_client_def)
qed

lemma good_result_emits:
  assumes "good_result ids S R i rc r" and "snd r' = as @ snd r" and "fst r' = fst r"
    and "list_all (good_action ids S) as" and "\<And>tk. Forward tk \<in> set as \<Longrightarrow> slot_ok ids R i (fst r) tk"
  shows "good_result ids S R i rc r'"
  using assms by (auto simp: good_result_def)

lemma good_run:
  assumes "good_peer ids S i rc" and "i \<in> set ids" and "list_all (good_action ids S) as"
    and "\<And>tk. Forward tk \<in> set as \<Longrightarrow> slot_ok ids R i rc tk"
  shows "good_result ids S R i rc (run_actions (S i) rc as)"
  using assms
proof (induction as arbitrary: rc)
  case Nil
  then show ?case by (simp add: good_result_def)
next
  case (Cons a as)
  show ?case
  proof (cases "\<exists>cid. a = Emit cid")
    case True
    then obtain cid where a: "a = Emit cid" by auto
    obtain rc1 bs where r1: "report_sent rc cid (S i cid) = (rc1, bs)" by fastforce
    with good_report [OF Cons.prems(1,2), of R cid] have g1: "good_result ids S R i rc (rc1, bs)" by simp
    then have k1: "good_peer ids S i rc1" "keeps_reports rc rc1" by (auto simp: good_result_def)
    have g2: "good_result ids S R i rc1 (run_actions (S i) rc1 as)"
      using Cons.prems slot_ok_mono [OF k1(2)] by (intro Cons.IH k1) auto
    obtain rc2 cs where r2: "run_actions (S i) rc1 as = (rc2, cs)" by fastforce
    have k2: "keeps_reports rc1 rc2" using g2 r2 by (simp add: good_result_def)
    have "run_actions (S i) rc (a # as) = (rc2, bs @ cs)"
      by (simp add: a r1 r2)
    with g1 g2 r2 k1 k2 show ?thesis
      by (auto simp: good_result_def intro: keeps_reports_trans slot_ok_mono [OF k2])
  next
    case False
    obtain rc2 cs where r2: "run_actions (S i) rc as = (rc2, cs)" by fastforce
    have "run_actions (S i) rc (a # as) = (rc2, a # cs)"
      using False r2 by (cases a) auto
    moreover have g: "good_result ids S R i rc (rc2, cs)"
      using Cons.IH [of rc] Cons.prems r2 by auto
    moreover have "keeps_reports rc rc2" using g by (simp add: good_result_def)
    ultimately show ?thesis
      using Cons.prems by (auto simp: good_result_def intro: slot_ok_mono)
  qed
qed

lemma good_step_peer:
  assumes "good_result ids S R i rc r" and "i \<in> set ids"
  shows "good_result ids S R i rc (step_peer (S i) r)"
proof -
  have "good_result ids S R i (fst r) (run_actions (S i) (fst r) (snd r))"
    using assms by (intro good_run) (auto simp: good_result_def)
  moreover have "keeps_reports rc (fst r)" using assms by (simp add: good_result_def)
  ultimately show ?thesis by (auto simp: step_peer_def good_result_def intro: keeps_reports_trans)
qed

lemma good_recheck_list: "good_peer ids S i rc \<Longrightarrow> good_result ids S R i rc (recheck_list rc cids)"
proof (induction rc cids rule: recheck_list.induct)
  case (1 rc)
  then show ?case by (simp add: good_result_def)
next
  case (2 rc cid cids)
  obtain rc1 as where r1: "maybe_local_complete rc cid = (rc1, as)" by fastforce
  have g1: "good_result ids S R i rc (rc1, as)" using good_local(4) [OF 2(2), of R cid] r1 by simp
  then have p1: "good_peer ids S i rc1" by (simp add: good_result_def)
  obtain rc2 bs where r2: "recheck_list rc1 cids = (rc2, bs)" by fastforce
  have g2: "good_result ids S R i rc1 (rc2, bs)" using 2(1) [OF r1 [symmetric] refl p1] r2 by simp
  then have "keeps_reports rc1 rc2" by (simp add: good_result_def)
  with g1 g2 r1 r2 show ?case
    by (auto simp: good_result_def intro: keeps_reports_trans slot_ok_mono)
qed

lemma good_recheck: "good_peer ids S i rc \<Longrightarrow> good_result ids S R i rc (recheck rc)"
  by (simp add: recheck_def good_recheck_list)

section \<open>The network invariant\<close>

definition leader_knows :: "ring_net \<Rightarrow> uuid \<Rightarrow> bool" where
  "leader_knows w cid \<longleftrightarrow> reported (nw_peer w (Min (set ids))) cid"

definition net_inv :: "ring_net \<Rightarrow> bool" where
  "net_inv w \<longleftrightarrow>
     (\<forall>i\<in>set ids. good_peer ids S i (nw_peer w i) \<and> (\<forall>rc\<in>nw_past w i. good_peer ids S i rc)) \<and>
     (\<forall>(j, tk)\<in>#nw_tokens w. good_token ids S tk \<and>
        (Min (set ids) \<in> set (map fst (tk_sent_by tk)) \<longrightarrow> leader_knows w (tk_client tk))) \<and>
     (\<forall>(cid, d)\<in>set (nw_eofs w). \<forall>s. shard_count d s = cluster_total ids S cid s)"

lemma net_invD:
  assumes "net_inv w"
  shows "i \<in> set ids \<Longrightarrow> good_peer ids S i (nw_peer w i)"
    and "i \<in> set ids \<Longrightarrow> rc \<in> nw_past w i \<Longrightarrow> good_peer ids S i rc"
    and "(j, tk) \<in># nw_tokens w \<Longrightarrow> good_token ids S tk"
    and "(j, tk) \<in># nw_tokens w \<Longrightarrow> Min (set ids) \<in> set (map fst (tk_sent_by tk)) \<Longrightarrow> leader_knows w (tk_client tk)"
    and "(cid, d) \<in> set (nw_eofs w) \<Longrightarrow> shard_count d s = cluster_total ids S cid s"
  using assms unfolding net_inv_def by blast+

lemma net_invI:
  assumes "\<And>i. i \<in> set ids \<Longrightarrow> good_peer ids S i (nw_peer w i)"
    and "\<And>i rc. i \<in> set ids \<Longrightarrow> rc \<in> nw_past w i \<Longrightarrow> good_peer ids S i rc"
    and "\<And>j tk. (j, tk) \<in># nw_tokens w \<Longrightarrow> good_token ids S tk"
    and "\<And>j tk. (j, tk) \<in># nw_tokens w \<Longrightarrow> Min (set ids) \<in> set (map fst (tk_sent_by tk)) \<Longrightarrow> leader_knows w (tk_client tk)"
    and "\<And>cid d s. (cid, d) \<in> set (nw_eofs w) \<Longrightarrow> shard_count d s = cluster_total ids S cid s"
  shows "net_inv w"
  using assms unfolding net_inv_def by blast

lemma net_inv_commit:
  assumes inv: "net_inv w" and i: "i \<in> set ids" and r: "good_result ids S (leader_knows w) i rc r"
    and keep: "i = Min (set ids) \<Longrightarrow> keeps_reports (nw_peer w i) (fst r)"
  shows "net_inv (commit ids i r w)"
proof -
  let ?w = "commit ids i r w" and ?L = "Min (set ids)"
  have mono: "leader_knows w cid \<Longrightarrow> leader_knows ?w cid" for cid
    using keep by (auto simp: leader_knows_def commit_def keeps_reports_def)
  have acts: "list_all (good_action ids S) (snd r)" using r by (simp add: good_result_def)
  have "good_token ids S tk \<and> (?L \<in> set (map fst (tk_sent_by tk)) \<longrightarrow> leader_knows ?w (tk_client tk))"
    if "(j, tk) \<in># nw_tokens ?w" for j tk
  proof (cases "(j, tk) \<in># nw_tokens w")
    case True
    with net_invD(3,4) [OF inv True] mono show ?thesis by blast
  next
    case False
    with that have fw: "Forward tk \<in> set (snd r)" by (auto simp: commit_def deliver_actions_tokens)
    with acts have "good_token ids S tk" by (auto simp: list_all_iff good_action_def)
    moreover from r fw have "slot_ok ids (leader_knows w) i (fst r) tk" by (simp add: good_result_def)
    ultimately show ?thesis
      using mono by (auto simp: slot_ok_def leader_knows_def commit_def split: if_splits)
  qed
  moreover have "shard_count d s = cluster_total ids S cid s" if "(cid, d) \<in> set (nw_eofs ?w)" for cid d s
  proof (cases "(cid, d) \<in> set (nw_eofs w)")
    case True
    then show ?thesis by (rule net_invD(5) [OF inv])
  next
    case False
    with that have "DownstreamEOF cid d \<in> set (snd r)" by (auto simp: commit_def deliver_actions_eofs set_eofs_of)
    with acts have "good_action ids S (DownstreamEOF cid d)" by (simp add: list_all_iff)
    then show ?thesis by (simp add: good_action_def)
  qed
  moreover have "good_peer ids S j rc'" if "j \<in> set ids" "rc' \<in> insert (nw_peer ?w j) (nw_past ?w j)" for j rc'
    using that net_invD(1,2) [OF inv that(1)] r by (auto simp: commit_def good_result_def split: if_splits)
  ultimately show ?thesis by (intro net_invI) auto
qed

lemma net_inv_init: "net_inv (init_net ids)"
proof -
  have "good_peer ids S i (init_rc i (other_ids ids i))" if "i \<in> set ids" for i
  proof -
    have "other_ids ids i = remove1 i ids"
      using distinct_ids by (simp add: other_ids_def distinct_remove1_removeAll removeAll_filter_not_eq) metis
    then have "Suc (length (other_ids ids i)) = length ids"
      using that length_pos_if_in_set [OF that] by (simp add: length_remove1)
    moreover from that have "set (i # other_ids ids i) = set ids" by (auto simp: other_ids_def)
    ultimately show ?thesis
      by (auto simp: good_peer_def init_rc_def client_of_def new_client_def)
  qed
  then show ?thesis by (simp add: net_inv_def init_net_def)
qed

lemma net_inv_step:
  assumes inv: "net_inv w" and step: "net_step crashes ids S w w'"
  shows "net_inv w'"
proof -
  have gp: "good_peer ids S i (nw_peer w i)" if "i \<in> set ids" for i
    using inv that by (simp add: net_inv_def)
  have commit: "net_inv (commit ids i r w)" if "i \<in> set ids" "good_result ids S (leader_knows w) i (nw_peer w i) r" for i r
    using net_inv_commit [OF inv that] that by (auto simp: good_result_def)
  have tok: "good_result ids S (leader_knows w) i (nw_peer w i) (step_peer (S i) (on_token (nw_peer w i) tk))"
    if "i \<in> set ids" "(i, tk) \<in># nw_tokens w" for i tk
  proof -
    from that(2) inv have "good_token ids S tk" "slot_ok ids (leader_knows w) i (nw_peer w i) tk"
      by (auto simp: net_inv_def slot_ok_def leader_knows_def)
    with that gp show ?thesis by (intro good_step_peer good_on_token) auto
  qed
  from step show ?thesis
  proof cases
    case (data i cid)
    then show ?thesis using gp by (auto intro!: commit good_step_peer good_local)
  next
    case (eof i cid e)
    then show ?thesis using gp by (auto intro!: commit good_step_peer good_local)
  next
    case (abort i cid)
    then show ?thesis using gp by (auto intro!: commit good_local)
  next
    case (token i tk)
    let ?w = "w\<lparr>nw_tokens := nw_tokens w - {#(i, tk)#}\<rparr>"
    have "net_inv ?w"
      using net_invD [OF inv] by (intro net_invI) (auto simp: leader_knows_def simp del: set_map dest: in_diffD)
    moreover have "leader_knows ?w = leader_knows w" by (simp add: leader_knows_def fun_eq_iff)
    moreover note g = tok [OF token(2,3)]
    moreover from g have "keeps_reports (nw_peer ?w i) (fst (step_peer (S i) (on_token (nw_peer w i) tk)))"
      by (simp add: good_result_def)
    ultimately have "net_inv (commit ids i (step_peer (S i) (on_token (nw_peer w i) tk)) ?w)"
      using token(2) by (intro net_inv_commit [where rc = "nw_peer w i"]) simp_all
    with token(1) show ?thesis by simp
  next
    case (redelivered i tk)
    then show ?thesis using tok by (auto intro: commit)
  next
    case (crash i rc)
    have "good_result ids S (leader_knows w) i rc (step_peer (S i) (recheck rc))"
      using crash inv by (intro good_step_peer good_recheck) (auto simp: net_inv_def)
    with crash inv show ?thesis by (auto intro: net_inv_commit)
  qed
qed

lemma net_inv_reach: "net_reach crashes ids S (init_net ids) w \<Longrightarrow> net_inv w"
  by (induction rule: net_reach.induct) (auto intro: net_inv_init net_inv_step)

lemma eof_is_cluster_total:
  "net_reach crashes ids S (init_net ids) w \<Longrightarrow> (cid, d) \<in> set (nw_eofs w) \<Longrightarrow>
   shard_count d s = cluster_total ids S cid s"
  by (rule net_invD(5) [OF net_inv_reach])

end

section \<open>One EOF per client between restarts of the leader\<close>

definition resolved :: "ring_completion \<Rightarrow> uuid \<Rightarrow> bool" where
  "resolved rc cid \<longleftrightarrow> rc_phase (client_of rc cid) = DONE \<or> cid |\<in>| rc_aborted rc"

definition closes_once :: "ring_completion \<Rightarrow> ring_completion \<times> action list \<Rightarrow> bool" where
  "closes_once rc r \<longleftrightarrow>
     (\<forall>cid. resolved rc cid \<longrightarrow> resolved (fst r) cid) \<and> distinct (map fst (eofs_of (snd r))) \<and>
     (\<forall>(cid, d)\<in>set (eofs_of (snd r)). \<not> resolved rc cid \<and> resolved (fst r) cid)"

lemma closes_once_advance:
  "tk_client tk |\<notin>| rc_aborted rc \<Longrightarrow> closes_once rc (advance rc tk)"
  by (auto simp: closes_once_def resolved_def client_advance snd_advance closes_def)

lemma closes_once_pre:
  assumes "\<And>cid. resolved rc cid = resolved rc1 cid" and "closes_once rc1 r"
  shows "closes_once rc r"
  using assms by (simp add: closes_once_def)

lemma closes_once_report:
  assumes "cid |\<notin>| rc_aborted rc"
  shows "closes_once rc (report_sent rc cid sent)"
proof (cases "rc_phase (client_of rc cid) = PROCESSING")
  case True
  let ?rc = "put_client cid ((client_of rc cid)\<lparr>rc_sent := sent, rc_phase := EMITTED\<rparr>) (touch_client cid rc)"
  have "resolved rc c = resolved ?rc c" for c using True by (simp add: resolved_def)
  then have "closes_once rc (?rc, [])" "\<And>tk. tk_client tk = cid \<Longrightarrow> closes_once rc (advance ?rc tk)"
    using closes_once_pre [of rc ?rc] closes_once_advance [of _ ?rc] assms by (simp_all add: closes_once_def)
  then show ?thesis using True by (simp add: report_sent_processing Let_def)
qed (simp add: report_sent_done closes_once_def resolved_def)

lemma closes_once_on_token: "closes_once rc (on_token rc tk)"
proof (cases "tk_client tk |\<in>| rc_aborted rc")
  case False
  have "resolved rc c = resolved (touch_client (tk_client tk) rc) c" for c by (simp add: resolved_def)
  with False show ?thesis
    by (simp add: on_token_live closes_once_pre closes_once_advance)
qed (simp add: on_token_aborted closes_once_def)

text \<open>The only action a local event returns is the emission of its own client.\<close>

lemma local_actions:
  "snd (on_data rc cid) \<in> {[], [Emit cid]}" "snd (on_upstream_eof rc cid e) \<in> {[], [Emit cid]}"
  "cid |\<in>| rc_aborted rc \<Longrightarrow> snd (on_data rc cid) = []" "cid |\<in>| rc_aborted rc \<Longrightarrow> snd (on_upstream_eof rc cid e) = []"
  by (simp_all add: on_data_def on_upstream_eof_def snd_maybe Let_def)

lemma run_emit: "run_actions S rc [Emit cid] = report_sent rc cid (S cid)"
  by (simp split: prod.splits)

lemma closes_once_local:
  assumes "\<And>c. resolved rc c = resolved (fst r) c" and "rc_aborted (fst r) = rc_aborted rc"
    and "snd r \<in> {[], [Emit cid]}" and "cid |\<in>| rc_aborted rc \<Longrightarrow> snd r = []"
  shows "closes_once rc (step_peer S r)"
proof (cases "snd r = []")
  case True
  with assms(1) show ?thesis by (simp add: step_peer_def closes_once_def)
next
  case False
  with assms(3) have "snd r = [Emit cid]" by simp
  then have "step_peer S r = report_sent (fst r) cid (S cid)" by (simp only: step_peer_def run_emit)
  moreover have "cid |\<notin>| rc_aborted (fst r)" using assms False by auto
  ultimately show ?thesis using closes_once_pre [OF assms(1) closes_once_report] by simp
qed

lemma closes_once_on_data: "closes_once rc (step_peer S (on_data rc cid))"
  by (rule closes_once_local [where cid = cid]) (rule local_actions | simp add: resolved_def client_on_data)+

lemma closes_once_on_eof: "closes_once rc (step_peer S (on_upstream_eof rc cid e))"
  by (rule closes_once_local [where cid = cid]) (rule local_actions | simp add: resolved_def client_on_eof)+

lemma token_actions: "snd (on_token rc tk) = [] \<or> (\<exists>tk'. snd (on_token rc tk) = [Forward tk']) \<or>
    (\<exists>c d. snd (on_token rc tk) = [DownstreamEOF c d])"
  by (cases "tk_client tk |\<in>| rc_aborted rc") (auto simp: on_token_live on_token_aborted snd_advance)

lemma step_token: "step_peer S (on_token rc tk) = on_token rc tk"
proof -
  obtain rc' as where r: "on_token rc tk = (rc', as)" by fastforce
  then have "as = [] \<or> (\<exists>tk'. as = [Forward tk']) \<or> (\<exists>c d. as = [DownstreamEOF c d])"
    using token_actions [of rc tk] by simp
  with r show ?thesis by (auto simp: step_peer_def)
qed

context ring_barrier
begin

lemma eofs_of_run_other:
  assumes "i \<noteq> Min (set ids)" and "good_peer ids S i rc"
  shows "eofs_of (snd (report_sent rc cid sent)) = []"
  using assms by (cases "rc_phase (client_of rc cid) = PROCESSING")
    (simp_all add: report_sent_processing report_sent_done Let_def good_peer_def)

lemma eofs_of_other_local:
  assumes i: "i \<noteq> Min (set ids)" and good: "good_peer ids S i (fst r)" and as: "snd r \<in> {[], [Emit cid]}"
  shows "eofs_of (snd (step_peer T r)) = []"
  using as eofs_of_run_other [OF i good] by (auto simp: step_peer_def run_emit simp del: run_actions.simps(2))

lemma eofs_of_other_token:
  assumes "i \<noteq> Min (set ids)" and "good_peer ids S i rc" and "good_token ids S tk"
  shows "eofs_of (snd (on_token rc tk)) = []"
  using assms by (cases "tk_client tk |\<in>| rc_aborted rc")
    (auto simp: on_token_live on_token_aborted snd_advance closes_def good_peer_def good_token_def)

definition once_inv :: "ring_net \<Rightarrow> bool" where
  "once_inv w \<longleftrightarrow> distinct (map fst (nw_eofs w)) \<and>
     (\<forall>(cid, d)\<in>set (nw_eofs w). resolved (nw_peer w (Min (set ids))) cid)"

lemma once_inv_commit:
  assumes inv: "once_inv w" and other: "i \<noteq> Min (set ids) \<Longrightarrow> eofs_of (snd r) = []"
    and lead: "i = Min (set ids) \<Longrightarrow> closes_once (nw_peer w i) r"
  shows "once_inv (commit ids i r w)"
proof (cases "i = Min (set ids)")
  case False
  with inv other show ?thesis by (auto simp: once_inv_def commit_def deliver_actions_eofs)
next
  case True
  note c = lead [OF True]
  have new: "\<not> resolved (nw_peer w i) cid" "resolved (fst r) cid" if "(cid, d) \<in> set (eofs_of (snd r))" for cid d
    using c that by (auto simp: closes_once_def)
  have old: "resolved (nw_peer w i) cid" "resolved (fst r) cid" if "(cid, d) \<in> set (nw_eofs w)" for cid d
    using inv c that True by (auto simp: once_inv_def closes_once_def)
  have "set (map fst (nw_eofs w)) \<inter> set (map fst (eofs_of (snd r))) = {}"
    using new(1) old(1) by fastforce
  with inv c have "distinct (map fst (nw_eofs w @ eofs_of (snd r)))"
    by (simp add: once_inv_def closes_once_def)
  with True new old show ?thesis
    by (auto simp: once_inv_def commit_def deliver_actions_eofs)
qed

lemma once_inv_step:
  assumes net: "net_inv w" and inv: "once_inv w" and step: "net_step False ids S w w'"
  shows "once_inv w'"
proof -
  note gp = net_invD(1) [OF net] and gt = net_invD(3) [OF net]
  from step show ?thesis
  proof cases
    case (data i cid)
    have "good_peer ids S i (fst (on_data (nw_peer w i) cid))"
      using good_local(1) [OF gp [OF data(2)]] by (simp add: good_result_def)
    with data show ?thesis
      by (simp only:, intro once_inv_commit [OF inv] eofs_of_other_local [OF _ _ local_actions(1)] closes_once_on_data)
  next
    case (eof i cid e)
    have "good_peer ids S i (fst (on_upstream_eof (nw_peer w i) cid e))"
      using good_local(2) [OF gp [OF eof(2)]] by (simp add: good_result_def)
    with eof show ?thesis
      by (simp only:, intro once_inv_commit [OF inv] eofs_of_other_local [OF _ _ local_actions(2)] closes_once_on_eof)
  next
    case (abort i cid)
    then show ?thesis
      by (auto intro!: once_inv_commit [OF inv] simp: closes_once_def resolved_def)
  next
    case (token i tk)
    have "once_inv (w\<lparr>nw_tokens := nw_tokens w - {#(i, tk)#}\<rparr>)" using inv by (simp add: once_inv_def)
    with token gp [of i] gt [of i tk] show ?thesis
      by (auto simp: step_token intro!: once_inv_commit eofs_of_other_token closes_once_on_token)
  next
    case (redelivered i tk)
    with gp [of i] gt [of i tk] show ?thesis
      by (auto simp: step_token intro!: once_inv_commit [OF inv] eofs_of_other_token closes_once_on_token)
  qed simp
qed

lemma one_eof_per_client:
  "net_reach False ids S (init_net ids) w \<Longrightarrow> distinct (map fst (nw_eofs w))"
proof -
  assume "net_reach False ids S (init_net ids) w"
  then have "net_inv w \<and> once_inv w"
  proof (induction rule: net_reach.induct)
    case start
    show ?case using net_inv_init by (simp add: once_inv_def init_net_def)
  next
    case (step w w')
    then show ?case using net_inv_step once_inv_step by blast
  qed
  then show ?thesis by (simp add: once_inv_def)
qed

end

section \<open>The barrier closes\<close>

lemma other_ids_peers_of:
  assumes "distinct xs" and "k < length xs"
  shows "other_ids xs (xs ! k) = peers_of xs k"
proof -
  have "xs = take k xs @ xs ! k # drop (Suc k) xs" using assms(2) by (rule id_take_nth_drop)
  then have "filter (\<lambda>j. j \<noteq> xs ! k) xs = filter (\<lambda>j. j \<noteq> xs ! k) (take k xs @ xs ! k # drop (Suc k) xs)"
    by simp
  then have "other_ids xs (xs ! k) = filter (\<lambda>j. j \<noteq> xs ! k) (take k xs) @ filter (\<lambda>j. j \<noteq> xs ! k) (drop (Suc k) xs)"
    by (simp only: other_ids_def filter_append filter.simps not_True_eq_False if_False simp_thms)
  moreover have "xs ! k \<notin> set (take k xs)" "xs ! k \<notin> set (drop (Suc k) xs)"
    using notin_peers_of [OF assms] by (auto simp: peers_of_def)
  then have "filter (\<lambda>j. j \<noteq> xs ! k) (take k xs) = take k xs"
    "filter (\<lambda>j. j \<noteq> xs ! k) (drop (Suc k) xs) = drop (Suc k) xs"
    by (intro filter_True ballI, blast)+
  ultimately show ?thesis by (simp only: peers_of_def)
qed

lemma front_of_next:
  assumes "sorted ids" and "distinct ids" and "k < length ids"
  shows "front_of ids (ids ! k) = ids ! (Suc k mod length ids)"
  using front_back_cycle [OF assms, of "other_ids ids (ids ! k)"] other_ids_peers_of [OF assms(2,3)]
  by (simp add: front_of_def)

context ring_barrier
begin

text \<open>The state in which a barrier is due: every peer has reported the client and none dropped
  it, and the leader has not closed it.\<close>

definition barrier_due :: "uuid \<Rightarrow> ring_net \<Rightarrow> bool" where
  "barrier_due cid w \<longleftrightarrow>
     net_inv w \<and> (\<forall>i\<in>set ids. rc_phase (client_of (nw_peer w i) cid) \<noteq> PROCESSING \<and> cid |\<notin>| rc_aborted (nw_peer w i)) \<and>
     rc_phase (client_of (nw_peer w (Min (set ids))) cid) \<noteq> DONE"

lemma token_hop:
  assumes due: "barrier_due cid w" and i: "i \<in> set ids" and tok: "(i, tk) \<in># nw_tokens w" and cid: "tk_client tk = cid"
  shows "(\<exists>w'. net_step False ids S w w' \<and> cid \<in> fst ` set (nw_eofs w')) \<or>
    (\<not> (i = Min (set ids) \<and> set (map fst (tk_sent_by tk)) \<union> {i} = set ids) \<and>
     (\<exists>w' tk'. net_step False ids S w w' \<and> barrier_due cid w' \<and> (front_of ids i, tk') \<in># nw_tokens w' \<and>
      tk_client tk' = cid \<and> set (map fst (tk_sent_by tk')) = insert i (set (map fst (tk_sent_by tk)))))"
proof -
  let ?rc = "nw_peer w i" and ?w = "w\<lparr>nw_tokens := nw_tokens w - {#(i, tk)#}\<rparr>"
  let ?tk = "fill_slot ?rc tk" and ?rc' = "touch_client cid (nw_peer w i)"
  from due i have net: "net_inv w" and ph: "rc_phase (client_of ?rc cid) \<noteq> PROCESSING" and na: "cid |\<notin>| rc_aborted ?rc"
    by (auto simp: barrier_due_def)
  note gp = net_invD(1) [OF net i] and gt = net_invD(3) [OF net tok]
  have keys: "set (map fst (tk_sent_by ?tk)) = insert i (set (map fst (tk_sent_by tk)))"
    using ph cid gp by (simp add: fill_slot_def Let_def good_peer_def keys_dict_set del: set_map)
  have wf: "wf_dict (tk_sent_by ?tk)" using good_token_fill [OF gp i gt] by (simp add: good_token_def)
  have r: "step_peer (S i) (on_token ?rc tk) = advance ?rc' ?tk"
    using na cid step_token [of "S i" ?rc tk] on_token_live [of tk ?rc] by simp
  define w' where "w' = commit ids i (advance ?rc' ?tk) ?w"
  have step: "net_step False ids S w w'"
    using net_step.token [OF i tok, of False S] r by (simp add: w'_def)
  have org: "tk_origin tk = Min (set ids)" using gt by (simp add: good_token_def)
  have node: "rc_node ?rc = i" "rc_n_nodes ?rc = length ids" using gp by (simp_all add: good_peer_def)
  show ?thesis
  proof (cases "closes ?rc' ?tk")
    case True
    then have "cid \<in> fst ` set (nw_eofs w')"
      using cid by (force simp: w'_def commit_def deliver_actions_eofs snd_advance)
    with step show ?thesis by blast
  next
    case False
    have len: "length ids \<le> length (tk_sent_by ?tk)" if "set (map fst (tk_sent_by tk)) \<union> {i} = set ids"
    proof -
      have "length (tk_sent_by ?tk) = card (set ids)" using length_dict [OF wf] keys that by simp
      then show ?thesis using distinct_card [OF distinct_ids] by simp
    qed
    have lead: "rc_phase (client_of ?rc cid) \<noteq> DONE" if "i = Min (set ids)"
      using due that by (simp add: barrier_due_def)
    have nf: "\<not> (i = Min (set ids) \<and> set (map fst (tk_sent_by tk)) \<union> {i} = set ids)"
      using False len org node cid lead by (auto simp: closes_def)
    have fw: "length (tk_sent_by ?tk) < length ids \<or> tk_origin tk \<noteq> i"
    proof (rule ccontr)
      assume "\<not> ?thesis"
      then have "length ids \<le> length (tk_sent_by ?tk)" "i = Min (set ids)" using org by auto
      with False org node cid lead show False by (simp add: closes_def)
    qed
    have "snd (advance ?rc' ?tk) = [Forward ?tk]"
      using False fw node by (simp add: snd_advance)
    then have "(front_of ids i, ?tk) \<in># nw_tokens w'"
      by (simp add: w'_def commit_def)
    moreover have "client_of (fst (advance ?rc' ?tk)) = client_of ?rc"
      using False by (auto simp: client_advance fun_eq_iff)
    then have "barrier_due cid w'"
      using due net_inv_step [OF net step] by (auto simp: barrier_due_def w'_def commit_def)
    ultimately show ?thesis using step nf keys cid by auto
  qed
qed

lemma reach_step: "net_step crashes ids S w w' \<Longrightarrow> net_reach crashes ids S w w'"
  by (rule net_reach.step [OF net_reach.start])

lemma token_travels:
  assumes sorted: "sorted ids" and due: "barrier_due cid w" and k: "k < length ids"
    and tok: "(ids ! k, tk) \<in># nw_tokens w" and cid: "tk_client tk = cid"
  shows "(\<exists>w'. net_reach False ids S w w' \<and> cid \<in> fst ` set (nw_eofs w')) \<or>
    (\<exists>w' tk'. net_reach False ids S w w' \<and> barrier_due cid w' \<and>
      (ids ! ((k + m) mod length ids), tk') \<in># nw_tokens w' \<and> tk_client tk' = cid \<and>
      (\<forall>j<m. ids ! ((k + j) mod length ids) \<in> set (map fst (tk_sent_by tk'))))"
proof (induction m)
  case 0
  have "net_reach False ids S w w" by (rule net_reach.start)
  with due tok cid k show ?case by auto
next
  case (Suc m)
  show ?case
  proof (cases "\<exists>w'. net_reach False ids S w w' \<and> cid \<in> fst ` set (nw_eofs w')")
    case False
    let ?p = "(k + m) mod length ids"
    from False Suc obtain w1 tk1 where w1: "net_reach False ids S w w1" "barrier_due cid w1"
      "(ids ! ?p, tk1) \<in># nw_tokens w1" "tk_client tk1 = cid"
      "\<forall>j<m. ids ! ((k + j) mod length ids) \<in> set (map fst (tk_sent_by tk1))" by blast
    have p: "?p < length ids" using k by (intro mod_less_divisor) linarith
    have ns: "\<not> (\<exists>w'. net_step False ids S w1 w' \<and> cid \<in> fst ` set (nw_eofs w'))"
      using False net_reach.step [OF w1(1)] by blast
    from p have "ids ! ?p \<in> set ids" by simp
    from token_hop [OF w1(2) this w1(3,4)] ns obtain w2 tk2 where
      w2: "net_step False ids S w1 w2" "barrier_due cid w2" "(front_of ids (ids ! ?p), tk2) \<in># nw_tokens w2"
      "tk_client tk2 = cid" "set (map fst (tk_sent_by tk2)) = insert (ids ! ?p) (set (map fst (tk_sent_by tk1)))"
      by blast
    have "front_of ids (ids ! ?p) = ids ! ((k + Suc m) mod length ids)"
      using front_of_next [OF sorted distinct_ids p] by (simp add: mod_Suc_eq)
    moreover have "\<forall>j<Suc m. ids ! ((k + j) mod length ids) \<in> set (map fst (tk_sent_by tk2))"
      using w1(5) w2(5) by (simp add: less_Suc_eq del: set_map)
    ultimately show ?thesis
      using w2 net_reach.step [OF w1(1) w2(1)] by metis
  qed blast
qed

lemma barrier_closes:
  assumes sorted: "sorted ids" and due: "barrier_due cid w"
    and tok: "(i, tk) \<in># nw_tokens w" and i: "i \<in> set ids" and cid: "tk_client tk = cid"
  shows "\<exists>w'. net_reach False ids S w w' \<and> cid \<in> fst ` set (nw_eofs w')"
proof (rule ccontr)
  assume no: "\<not> ?thesis"
  let ?n = "length ids"
  obtain k where k: "k < ?n" and ik: "i = ids ! k" using i by (metis in_set_conv_nth)
  define m where "m = ?n + (?n - k)"
  obtain w1 tk1 where w1: "net_reach False ids S w w1" "barrier_due cid w1"
    "(ids ! ((k + m) mod ?n), tk1) \<in># nw_tokens w1" "tk_client tk1 = cid"
    "\<forall>j<m. ids ! ((k + j) mod ?n) \<in> set (map fst (tk_sent_by tk1))"
    using token_travels [OF sorted due k, of tk m] tok ik cid no by blast
  have "k + m = 2 * ?n" using k by (simp add: m_def)
  then have pos: "(k + m) mod ?n = 0" by simp
  have lead: "ids ! 0 = Min (set ids)"
  proof -
    obtain y ys where "ids = y # ys" using some_peer by (cases ids) auto
    with sorted show ?thesis by (simp add: Min_insert2 eq_Min_iff)
  qed
  have "set ids \<subseteq> set (map fst (tk_sent_by tk1))"
  proof
    fix x assume "x \<in> set ids"
    then obtain p where p: "p < ?n" "x = ids ! p" by (metis in_set_conv_nth)
    define j where "j = (if k \<le> p then p - k else ?n - k + p)"
    have "(k + j) mod ?n = p" "j < m" using p k by (auto simp: j_def m_def)
    with w1(5) p show "x \<in> set (map fst (tk_sent_by tk1))" by blast
  qed
  moreover have "set (map fst (tk_sent_by tk1)) \<subseteq> set ids"
    using net_invD(3) [of w1, OF _ w1(3)] w1(2) by (auto simp: barrier_due_def good_token_def)
  ultimately have all: "set (map fst (tk_sent_by tk1)) = set ids" by (rule equalityI [rotated])
  have i0: "ids ! 0 \<in> set ids" using some_peer by simp
  with all have full: "set (map fst (tk_sent_by tk1)) \<union> {ids ! 0} = set ids" by (simp only: Un_insert_right Un_empty_right insert_absorb)
  from w1(3) pos have t1: "(ids ! 0, tk1) \<in># nw_tokens w1" by simp
  from token_hop [OF w1(2) i0 t1 w1(4)] full lead obtain w2 where
    "net_step False ids S w1 w2" "cid \<in> fst ` set (nw_eofs w2)" by auto
  with w1(1) no net_reach.step show False by blast
qed

end

section \<open>The counts the nodes report\<close>

text \<open>\<open>sent[shard] = sent.get(shard, 0) + 1\<close> for every result sent.\<close>

definition count_shards :: "int list \<Rightarrow> (int, int) dict" where
  "count_shards shards = foldl (\<lambda>sent s. dict_set s (dict_get sent s 0 + 1) sent) [] shards"

lemma count_shards_snoc:
  "count_shards (xs @ [s]) = dict_set s (dict_get (count_shards xs) s 0 + 1) (count_shards xs)"
  by (simp add: count_shards_def)

lemma wf_count_shards [simp]: "wf_dict (count_shards xs)"
  by (induction xs rule: rev_induct) (simp_all add: count_shards_snoc, simp add: count_shards_def)

lemma shard_count_shards [simp]: "shard_count (count_shards xs) s = int (count_list xs s)"
  by (induction xs rule: rev_induct) (auto simp: count_shards_snoc shard_count_def, simp add: count_shards_def)

lemma cluster_ids_props:
  "distinct (cluster_ids n)" "sorted (cluster_ids n)" "length (cluster_ids n) = n"
  "set (cluster_ids n) = int ` {0..<n}"
  by (auto simp: cluster_ids_def distinct_map inj_on_def sorted_map)

interpretation rb: ring_barrier "cluster_ids (Suc n)" "\<lambda>i cid. count_shards (route i cid)"
  for n :: nat and route :: "int \<Rightarrow> uuid \<Rightarrow> int list"
  by unfold_locales (auto simp: cluster_ids_def distinct_map inj_on_def)

lemma cluster_total_routes:
  "cluster_total (cluster_ids n) (\<lambda>i cid. count_shards (route i cid)) cid s =
     (\<Sum>i<n. int (count_list (route (int i) cid) s))"
  by (simp add: cluster_total_def cluster_ids_props sum.reindex atLeast0LessThan)

section \<open>A run of two peers\<close>

text \<open>Both peers report client 7 (peer 0 is the leader and starts the token), and the token goes
  once around the ring.\<close>

definition demo_route :: "int \<Rightarrow> uuid \<Rightarrow> int list" where
  "demo_route i cid = (if i = 0 then [0, 0, 1] else [1, 0])"

abbreviation demo_S :: "int \<Rightarrow> uuid \<Rightarrow> (int, int) dict" where
  "demo_S \<equiv> \<lambda>i cid. count_shards (demo_route i cid)"

definition demo_token :: barrier_token where
  "demo_token = \<lparr>tk_client = 7, tk_origin = 0, tk_sent_by = [(0, [(0, 2), (1, 1)])]\<rparr>"

definition demo_full :: barrier_token where
  "demo_full = \<lparr>tk_client = 7, tk_origin = 0, tk_sent_by = [(0, [(0, 2), (1, 1)]), (1, [(1, 1), (0, 1)])]\<rparr>"

definition demo_reported :: ring_net where
  "demo_reported =
     (let ids = cluster_ids 2; w = init_net ids;
          w = commit ids 1 (step_peer (demo_S 1) (on_upstream_eof (nw_peer w 1) 7 0)) w
      in commit ids 0 (step_peer (demo_S 0) (on_upstream_eof (nw_peer w 0) 7 0)) w)"

definition demo_closed :: ring_net where
  "demo_closed =
     (let ids = cluster_ids 2; w = demo_reported;
          w = commit ids 1 (step_peer (demo_S 1) (on_token (nw_peer w 1) demo_token)) (w\<lparr>nw_tokens := nw_tokens w - {#(1, demo_token)#}\<rparr>)
      in commit ids 0 (step_peer (demo_S 0) (on_token (nw_peer w 0) demo_full)) (w\<lparr>nw_tokens := nw_tokens w - {#(0, demo_full)#}\<rparr>))"

lemma demo_ids: "set (cluster_ids 2) = {0, 1}"
  by code_simp

lemma demo_reported_reach: "net_reach False (cluster_ids 2) demo_S (init_net (cluster_ids 2)) demo_reported"
  unfolding demo_reported_def Let_def
  by (intro net_reach.step [OF _ net_step.eof] net_reach.start) (simp_all add: demo_ids)

lemma demo_reported_token: "(1, demo_token) \<in># nw_tokens demo_reported"
  by code_simp

lemma demo_closed_reach: "net_reach False (cluster_ids 2) demo_S (init_net (cluster_ids 2)) demo_closed"
proof -
  have full: "(0, demo_full) \<in># nw_tokens (commit (cluster_ids 2) 1 (step_peer (demo_S 1) (on_token (nw_peer demo_reported 1) demo_token))
      (demo_reported\<lparr>nw_tokens := nw_tokens demo_reported - {#(1, demo_token)#}\<rparr>))"
    by code_simp
  show ?thesis
    unfolding demo_closed_def Let_def
    by (intro net_reach.step [OF _ net_step.token] demo_reported_reach demo_reported_token full) (simp_all add: demo_ids)
qed

lemma demo_closed_eofs: "nw_eofs demo_closed = [(7, [(0, 3), (1, 2)])]"
  by code_simp

section \<open>Properties\<close>



text \<open>
  Without restarts the barrier of a client closes at most once: no run forwards two EOFs for
  the same client, however often a token is delivered.
\<close>

theorem downstream_eof_once:
  assumes "net_reach False (cluster_ids (Suc n)) (\<lambda>i cid. count_shards (route i cid)) (init_net (cluster_ids (Suc n))) w"
  shows "distinct (map fst (nw_eofs w))"
  using assms by (rule rb.one_eof_per_client)

theorem downstream_eof_once_witness: "distinct (map fst (nw_eofs demo_closed))"
  using downstream_eof_once [of 1 demo_route demo_closed] demo_closed_reach by (simp add: numeral_2_eq_2)

text \<open>
  C10.  The barrier closes: in any state reached, once every peer has reported a client that none
  dropped, and a token for it is at some peer, delivering the token around the ring makes the
  leader forward the EOF, if it has not done so already.
\<close>

theorem barrier_terminates:
  assumes "net_reach crashes (cluster_ids (Suc n)) (\<lambda>i cid. count_shards (route i cid)) (init_net (cluster_ids (Suc n))) w"
    and "\<forall>i\<le>n. rc_phase (client_of (nw_peer w (int i)) cid) \<noteq> PROCESSING \<and> cid |\<notin>| rc_aborted (nw_peer w (int i))"
    and "rc_phase (client_of (nw_peer w 0) cid) \<noteq> DONE"
    and "(int k, tk) \<in># nw_tokens w" and "k \<le> n" and "tk_client tk = cid"
  shows "\<exists>w'. net_reach False (cluster_ids (Suc n)) (\<lambda>i cid. count_shards (route i cid)) w w' \<and>
    cid \<in> fst ` set (nw_eofs w')"
proof -
  have min: "Min (set (cluster_ids (Suc n))) = 0"
    by (simp add: cluster_ids_props, intro Min_eqI) auto
  have mem: "i \<in> set (cluster_ids (Suc n)) \<longleftrightarrow> (\<exists>j\<le>n. i = int j)" for i
    by (auto simp: cluster_ids_props image_iff less_Suc_eq_le atLeast0LessThan Bex_def)
  have "rb.barrier_due n route cid w"
    unfolding rb.barrier_due_def min using assms(2,3) rb.net_inv_reach [OF assms(1)] mem by auto
  moreover have "int k \<in> set (cluster_ids (Suc n))" using assms(5) mem by auto
  ultimately show ?thesis
    using rb.barrier_closes [OF cluster_ids_props(2)] assms(4,6) by blast
qed

theorem barrier_terminates_witness:
  "\<exists>w'. net_reach False (cluster_ids 2) demo_S demo_reported w' \<and> 7 \<in> fst ` set (nw_eofs w')"
proof -
  have ph: "rc_phase (client_of (nw_peer demo_reported 0) 7) = EMITTED" "rc_phase (client_of (nw_peer demo_reported 1) 7) = EMITTED"
    "7 |\<notin>| rc_aborted (nw_peer demo_reported 0)" "7 |\<notin>| rc_aborted (nw_peer demo_reported 1)"
    by code_simp+
  have "rc_phase (client_of (nw_peer demo_reported (int i)) 7) \<noteq> PROCESSING \<and> 7 |\<notin>| rc_aborted (nw_peer demo_reported (int i))"
    if "i \<le> 1" for i
    using that ph by (cases i) auto
  then show ?thesis
    using barrier_terminates [of False 1 demo_route demo_reported 7 1 demo_token] demo_reported_reach
      demo_reported_token ph(1) by (simp add: numeral_2_eq_2 demo_token_def)
qed

end
