(* ===== verification/Data_Model.thy ===== *)
theory Data_Model
  imports Pystr
begin

text \<open>
  The data the pipeline carries (\<open>common/data\<close>, \<open>messages/graph_src\<close>): timestamps with their
  textual form and the positional parser \<open>fast_datetime\<close>, transactions, accounts, and the graph
  nodes and paths of UC4, which Python compares by a concatenated key.
\<close>

section \<open>Timestamps\<close>

record datetime =
  dt_year :: int
  dt_month :: int
  dt_day :: int
  dt_hour :: int
  dt_minute :: int
  dt_second :: int

definition leap_year :: "int \<Rightarrow> bool" where
  "leap_year y \<longleftrightarrow> 4 dvd y \<and> (\<not> 100 dvd y \<or> 400 dvd y)"

definition days_in_month :: "int \<Rightarrow> int \<Rightarrow> int" where
  "days_in_month y m =
     (if m = 2 then (if leap_year y then 29 else 28) else if m \<in> {4, 6, 9, 11} then 30 else 31)"

definition valid_datetime :: "datetime \<Rightarrow> bool" where
  "valid_datetime d \<longleftrightarrow>
     1 \<le> dt_year d \<and> dt_year d \<le> 9999 \<and> 1 \<le> dt_month d \<and> dt_month d \<le> 12 \<and>
     1 \<le> dt_day d \<and> dt_day d \<le> days_in_month (dt_year d) (dt_month d) \<and>
     0 \<le> dt_hour d \<and> dt_hour d < 24 \<and> 0 \<le> dt_minute d \<and> dt_minute d < 60 \<and>
     0 \<le> dt_second d \<and> dt_second d < 60"

text \<open>The constructor \<open>datetime(...)\<close>, and \<open>str\<close> of a value without microseconds.\<close>

definition mk_datetime :: "int \<Rightarrow> int \<Rightarrow> int \<Rightarrow> int \<Rightarrow> int \<Rightarrow> int \<Rightarrow> datetime result" where
  "mk_datetime y mo d h mi s =
     (let t = \<lparr>dt_year = y, dt_month = mo, dt_day = d, dt_hour = h, dt_minute = mi, dt_second = s\<rparr>
      in if valid_datetime t then Inr t else Inl (ValueError ''datetime field out of range''))"

definition datetime_str :: "datetime \<Rightarrow> string" where
  "datetime_str d =
     fixed_digits 10 4 (nat (dt_year d)) @ ''-'' @ fixed_digits 10 2 (nat (dt_month d)) @ ''-'' @
     fixed_digits 10 2 (nat (dt_day d)) @ '' '' @ fixed_digits 10 2 (nat (dt_hour d)) @ '':'' @
     fixed_digits 10 2 (nat (dt_minute d)) @ '':'' @ fixed_digits 10 2 (nat (dt_second d))"

definition pyslice :: "nat \<Rightarrow> nat \<Rightarrow> 'a list \<Rightarrow> 'a list" where
  "pyslice i j s = take (j - i) (drop i s)"

definition fast_datetime :: "string \<Rightarrow> datetime result" where
  "fast_datetime s =
     bind_result (parse_int (pyslice 0 4 s)) (\<lambda>y.
     bind_result (parse_int (pyslice 5 7 s)) (\<lambda>mo.
     bind_result (parse_int (pyslice 8 10 s)) (\<lambda>d.
     bind_result (parse_int (pyslice 11 13 s)) (\<lambda>h.
     bind_result (parse_int (pyslice 14 16 s)) (\<lambda>mi.
     bind_result (if 19 \<le> length s then parse_int (pyslice 17 19 s) else Inr 0) (\<lambda>sec.
       mk_datetime y mo d h mi sec))))))"

text \<open>Python compares datetimes field by field, most significant first.\<close>

definition datetime_key :: "datetime \<Rightarrow> int list" where
  "datetime_key d = [dt_year d, dt_month d, dt_day d, dt_hour d, dt_minute d, dt_second d]"

fun lex_less :: "int list \<Rightarrow> int list \<Rightarrow> bool" where
  "lex_less [] ys = (ys \<noteq> [])"
| "lex_less (x # xs) [] = False"
| "lex_less (x # xs) (y # ys) = (x < y \<or> (x = y \<and> lex_less xs ys))"

definition datetime_less :: "datetime \<Rightarrow> datetime \<Rightarrow> bool" where
  "datetime_less a b = lex_less (datetime_key a) (datetime_key b)"

definition datetime_le :: "datetime \<Rightarrow> datetime \<Rightarrow> bool" where
  "datetime_le a b \<longleftrightarrow> \<not> datetime_less b a"

section \<open>Transactions and accounts\<close>

text \<open>A transaction's timestamp is a \<open>datetime\<close>, or text where a message is rebuilt without parsing
  it.\<close>

datatype tstamp = TTime datetime | TText string

record transaction =
  t_timestamp :: tstamp
  t_from_bank :: string
  t_from_account :: string
  t_to_bank :: string
  t_to_account :: string
  t_amount_received :: amount
  t_receiving_currency :: string
  t_amount_paid :: amount
  t_payment_currency :: string
  t_payment_format :: string

record account =
  a_bank_name :: string
  a_bank_id :: string
  a_account_number :: string
  a_entity_id :: string
  a_entity_name :: string

section \<open>Graph nodes and paths\<close>

record gnode =
  n_bank :: string
  n_account :: string

definition node_key :: "gnode \<Rightarrow> string" where
  "node_key n = n_bank n @ n_account n"

definition node_eq :: "gnode \<Rightarrow> gnode \<Rightarrow> bool" where
  "node_eq a b \<longleftrightarrow> node_key b = node_key a"

definition node_str :: "gnode \<Rightarrow> string" where
  "node_str n = n_bank n @ '','' @ n_account n"

definition node_from_str :: "string \<Rightarrow> gnode result" where
  "node_from_str s =
     (case split_on (CHR '','') s of
        [bank, account] \<Rightarrow> Inr \<lparr>n_bank = bank, n_account = account\<rparr>
      | _ \<Rightarrow> Inl (ValueError ''values to unpack''))"

record gpath =
  p_origin :: gnode
  p_destination :: gnode

definition path_key :: "gpath \<Rightarrow> string" where
  "path_key p = node_key (p_origin p) @ node_key (p_destination p)"

definition path_eq :: "gpath \<Rightarrow> gpath \<Rightarrow> bool" where
  "path_eq a b \<longleftrightarrow> path_key b = path_key a"

definition path_str :: "gpath \<Rightarrow> string" where
  "path_str p = node_str (p_origin p) @ ''_'' @ node_str (p_destination p)"

definition path_from_str :: "string \<Rightarrow> gpath result" where
  "path_from_str s =
     (case split_on (CHR ''_'') s of
        a # b # _ \<Rightarrow>
          bind_result (node_from_str a) (\<lambda>o1. bind_result (node_from_str b) (\<lambda>d. Inr \<lparr>p_origin = o1, p_destination = d\<rparr>))
      | _ \<Rightarrow> Inl IndexError)"

text \<open>
  Python's sets and dicts of such keyed objects: an object equal to one already present does not
  enter a set, and an assignment to a key equal to one already present keeps the key object.
\<close>

definition keyed_add :: "('a \<Rightarrow> string) \<Rightarrow> 'a \<Rightarrow> 'a list \<Rightarrow> 'a list" where
  "keyed_add key x xs = (if key x \<in> set (map key xs) then xs else xs @ [x])"

definition keyed_set :: "('a \<Rightarrow> string) \<Rightarrow> 'a list \<Rightarrow> 'a list" where
  "keyed_set key xs = foldl (\<lambda>acc x. keyed_add key x acc) [] xs"

fun keyed_put :: "('a \<Rightarrow> string) \<Rightarrow> 'a \<Rightarrow> 'v \<Rightarrow> ('a \<times> 'v) list \<Rightarrow> ('a \<times> 'v) list" where
  "keyed_put key k v [] = [(k, v)]"
| "keyed_put key k v ((k', v') # d) =
     (if key k' = key k then (k', v) # d else (k', v') # keyed_put key k v d)"

definition keyed_dict :: "('a \<Rightarrow> string) \<Rightarrow> ('a \<times> 'v) list \<Rightarrow> ('a \<times> 'v) list" where
  "keyed_dict key kvs = foldl (\<lambda>d (k, v). keyed_put key k v d) [] kvs"

fun keyed_get :: "('a \<Rightarrow> string) \<Rightarrow> ('a \<times> 'v) list \<Rightarrow> 'a \<Rightarrow> 'v option" where
  "keyed_get key [] k = None"
| "keyed_get key ((k', v) # d) k = (if key k' = key k then Some v else keyed_get key d k)"

definition key_distinct :: "('a \<Rightarrow> string) \<Rightarrow> 'a list \<Rightarrow> bool" where
  "key_distinct key xs \<longleftrightarrow> distinct (map key xs)"

section \<open>Laws\<close>

lemma keyed_set_id_aux:
  "distinct (map key (acc @ xs)) \<Longrightarrow> foldl (\<lambda>acc x. keyed_add key x acc) acc xs = acc @ xs"
  by (induction xs arbitrary: acc) (auto simp: keyed_add_def)

lemma keyed_set_id: "key_distinct key xs \<Longrightarrow> keyed_set key xs = xs"
  using keyed_set_id_aux [of key "[]" xs] by (simp add: keyed_set_def key_distinct_def)

lemma keyed_put_fresh: "key k \<notin> set (map (key \<circ> fst) d) \<Longrightarrow> keyed_put key k v d = d @ [(k, v)]"
  by (induction key k v d rule: keyed_put.induct) auto

lemma keyed_dict_id_aux:
  "distinct (map (key \<circ> fst) (acc @ kvs)) \<Longrightarrow> foldl (\<lambda>d (k, v). keyed_put key k v d) acc kvs = acc @ kvs"
  by (induction kvs arbitrary: acc) (auto simp: keyed_put_fresh)

lemma keyed_dict_id: "key_distinct key (map fst kvs) \<Longrightarrow> keyed_dict key kvs = kvs"
  using keyed_dict_id_aux [of key "[]" kvs] by (simp add: keyed_dict_def key_distinct_def)

lemma keyed_get_put:
  "keyed_get key (keyed_put key k v d) k' = (if key k' = key k then Some v else keyed_get key d k')"
  by (induction key k v d rule: keyed_put.induct) auto

lemma parse_int_fixed: "0 < k \<Longrightarrow> n < 10 ^ k \<Longrightarrow> parse_int (fixed_digits 10 k n) = Inr (int n)"
proof -
  assume k: "0 < k" and n: "n < 10 ^ k"
  let ?s = "fixed_digits 10 k n"
  have ch: "\<exists>d<16. c = digit_char d" if "c \<in> set ?s" for c
    using fixed_digits_chars [of 10 c k n] that by simp
  then have ns: "\<not> is_space c" if "c \<in> set ?s" for c
    using that digit_char_not_special(3) by blast
  obtain c cs where s: "?s = c # cs" using k length_fixed_digits [of 10 k n] by (cases ?s) auto
  from ch [of c] s digit_char_not_special have "c \<noteq> CHR ''-''" "c \<noteq> CHR ''+''" by auto
  moreover have "strip ?s = ?s" using ns by (rule strip_no_space)
  moreover have "digits_val 10 0 ?s = Some n" using n by (intro digits_val_fixed) auto
  ultimately show ?thesis using s by (simp add: parse_int_def parse_nat_def)
qed

lemma pyslice_append_left: "length xs = i \<Longrightarrow> pyslice i j (xs @ ys) = take (j - i) ys"
  by (simp add: pyslice_def)

lemma pyslice_at: "length xs = i \<Longrightarrow> length ys = j - i \<Longrightarrow> pyslice i j (xs @ ys @ zs) = ys"
  by (simp add: pyslice_def)

lemma fast_datetime_str:
  assumes "valid_datetime d"
  shows "fast_datetime (datetime_str d) = Inr d"
proof -
  have dom: "days_in_month y m \<le> 31" for y m by (simp add: days_in_month_def)
  have b: "0 \<le> dt_year d" "dt_year d < 10 ^ 4" "0 \<le> dt_month d" "dt_month d < 10 ^ 2" "0 \<le> dt_day d" "dt_day d < 10 ^ 2"
    "0 \<le> dt_hour d" "dt_hour d < 10 ^ 2" "0 \<le> dt_minute d" "dt_minute d < 10 ^ 2" "0 \<le> dt_second d" "dt_second d < 10 ^ 2"
    using assms dom [of "dt_year d" "dt_month d"] by (simp_all add: valid_datetime_def)
  have p: "parse_int (fixed_digits 10 k (nat i)) = Inr i" if "0 < k" "0 \<le> i" "i < 10 ^ k" for k i
  proof -
    have "nat i < 10 ^ k" using that by (metis nat_less_iff of_nat_numeral of_nat_power)
    then show ?thesis using parse_int_fixed [OF that(1), of "nat i"] that(2) by simp
  qed
  let ?s = "datetime_str d"
  note D = datetime_str_def
  have s: "pyslice 0 4 ?s = fixed_digits 10 4 (nat (dt_year d))" "pyslice 5 7 ?s = fixed_digits 10 2 (nat (dt_month d))"
    "pyslice 8 10 ?s = fixed_digits 10 2 (nat (dt_day d))" "pyslice 11 13 ?s = fixed_digits 10 2 (nat (dt_hour d))"
    "pyslice 14 16 ?s = fixed_digits 10 2 (nat (dt_minute d))" "pyslice 17 19 ?s = fixed_digits 10 2 (nat (dt_second d))"
    "length ?s = 19"
    by (simp_all add: D pyslice_def del: fixed_digits.simps)
  have "mk_datetime (dt_year d) (dt_month d) (dt_day d) (dt_hour d) (dt_minute d) (dt_second d) = Inr d"
    using assms by (cases d) (simp add: mk_datetime_def Let_def)
  then show ?thesis
    using p [OF _ b(1,2)] p [OF _ b(3,4)] p [OF _ b(5,6)] p [OF _ b(7,8)] p [OF _ b(9,10)] p [OF _ b(11,12)]
    unfolding fast_datetime_def s by simp
qed

end
