(* ===== verification/Messages.thy ===== *)
theory Messages
  imports Data_Model
begin

text \<open>
  The messages of the system and their wire format (\<open>common/comms/messages\<close>):
  a fixed header [type:1][client:16][producer:16][seq:8] followed by the msgpack encoding of the
  message's fields.  msgpack is a parameter, a pair \<open>packb\<close>/\<open>unpackb\<close> on lists of values; what the
  code relies on is its round trip on values that contain only msgpack's own types.

  Each message class is a constructor of \<open>payload\<close>; its \<open>_fields\<close> and \<open>_from_fields\<close> are the
  equations of \<open>msg_fields\<close> and \<open>from_fields\<close> for that constructor.
\<close>

section \<open>Values on the wire\<close>

datatype pyval =
    VInt int
  | VStr string
  | VFloat amount
  | VBool bool
  | VList "pyval list"
  | VDict "(pyval \<times> pyval) list"
  | VUuid uuid
  | VTime datetime

text \<open>\<open>_mp_default\<close>: identifiers and datetimes are packed as their text.\<close>

fun mp_default :: "pyval \<Rightarrow> pyval" where
  "mp_default (VUuid u) = VStr (uuid_str u)"
| "mp_default (VTime d) = VStr (datetime_str d)"
| "mp_default (VList vs) = VList (map mp_default vs)"
| "mp_default (VDict kvs) = VDict (map (\<lambda>(k, v). (mp_default k, mp_default v)) kvs)"
| "mp_default v = v"

definition as_int :: "pyval \<Rightarrow> int result" where
  "as_int v = (case v of VInt i \<Rightarrow> Inr i | _ \<Rightarrow> Inl TypeError)"

definition as_str :: "pyval \<Rightarrow> string result" where
  "as_str v = (case v of VStr s \<Rightarrow> Inr s | _ \<Rightarrow> Inl TypeError)"

definition as_bool :: "pyval \<Rightarrow> bool result" where
  "as_bool v = (case v of VBool b \<Rightarrow> Inr b | _ \<Rightarrow> Inl TypeError)"

definition as_float :: "pyval \<Rightarrow> amount result" where
  "as_float v = (case v of VFloat x \<Rightarrow> Inr x | VInt i \<Rightarrow> Inr (of_int i) | _ \<Rightarrow> Inl TypeError)"

definition as_list :: "pyval \<Rightarrow> pyval list result" where
  "as_list v = (case v of VList vs \<Rightarrow> Inr vs | _ \<Rightarrow> Inl TypeError)"

definition as_dict :: "pyval \<Rightarrow> (pyval \<times> pyval) list result" where
  "as_dict v = (case v of VDict kvs \<Rightarrow> Inr kvs | _ \<Rightarrow> Inl TypeError)"

definition as_pair :: "pyval \<Rightarrow> (pyval \<times> pyval) result" where
  "as_pair v = (case v of VList [a, b] \<Rightarrow> Inr (a, b) | _ \<Rightarrow> Inl (ValueError ''values to unpack''))"

section \<open>Message classes\<close>

datatype payload =
    EOF int int int int "(int, int) dict"
  | Transactions "transaction list"
  | Accounts "account list"
  | FIN
  | Response int string bool
  | MaxByBank "(string, string \<times> amount) dict"
  | BankNames "(string, string) dict"
  | MergedBankData "(string \<times> string \<times> amount \<times> string) list"
  | Graph "(gnode \<times> gnode list \<times> gnode list) list"
  | PathCounts "(gpath \<times> int) list"
  | TransactionCount int
  | SumByPaymentFormat "(string, amount \<times> int) dict"
  | AvgByFormat "(string, amount) dict"
  | MergedTransactions "transaction list" "(string, amount) dict"
  | RingDone int
  | NodeMsg gnode "gnode list" "gnode list"
  | PathMsg gpath int
  | RingSentData int int bool bool
  | HighDegree "gnode list" "gnode list"
  | Hello
  | HelloAck
  | RingBarrier int "(int, (int, int) dict) dict"
  | Abort
  | SupervisorElection
  | SupervisorACK
  | SupervisorLeader int

definition type_code :: "payload \<Rightarrow> nat" where
  "type_code p =
     (case p of
        EOF _ _ _ _ _ \<Rightarrow> 0 | Transactions _ \<Rightarrow> 1 | Accounts _ \<Rightarrow> 2 | FIN \<Rightarrow> 3 | Response _ _ _ \<Rightarrow> 4
      | MaxByBank _ \<Rightarrow> 5 | BankNames _ \<Rightarrow> 6 | MergedBankData _ \<Rightarrow> 7 | Graph _ \<Rightarrow> 8 | PathCounts _ \<Rightarrow> 9
      | TransactionCount _ \<Rightarrow> 10 | SumByPaymentFormat _ \<Rightarrow> 11 | AvgByFormat _ \<Rightarrow> 12
      | MergedTransactions _ _ \<Rightarrow> 13 | RingDone _ \<Rightarrow> 14 | NodeMsg _ _ _ \<Rightarrow> 15 | PathMsg _ _ \<Rightarrow> 16
      | RingSentData _ _ _ _ \<Rightarrow> 17 | HighDegree _ _ \<Rightarrow> 18 | Hello \<Rightarrow> 19 | HelloAck \<Rightarrow> 20
      | RingBarrier _ _ \<Rightarrow> 21 | Abort \<Rightarrow> 22 | SupervisorElection \<Rightarrow> 23 | SupervisorACK \<Rightarrow> 24
      | SupervisorLeader _ \<Rightarrow> 25)"

text \<open>\<open>Hello\<close> and the supervisor's messages have no \<open>client_id\<close>.\<close>

definition has_client :: "payload \<Rightarrow> bool" where
  "has_client p \<longleftrightarrow>
     (case p of Hello \<Rightarrow> False | SupervisorElection \<Rightarrow> False | SupervisorACK \<Rightarrow> False
              | SupervisorLeader _ \<Rightarrow> False | _ \<Rightarrow> True)"

record message =
  msg_client :: "uuid option"
  msg_producer :: bytes
  msg_seq :: int
  msg_payload :: payload

definition default_producer :: bytes where
  "default_producer = replicate 16 0"

definition new_message :: "uuid \<Rightarrow> payload \<Rightarrow> message" where
  "new_message cid p =
     \<lparr>msg_client = (if has_client p then Some cid else None), msg_producer = default_producer,
      msg_seq = 0, msg_payload = p\<rparr>"

section \<open>Fields\<close>

definition tstamp_val :: "tstamp \<Rightarrow> pyval" where
  "tstamp_val t = (case t of TTime d \<Rightarrow> VTime d | TText s \<Rightarrow> VStr s)"

definition transaction_fields :: "transaction \<Rightarrow> pyval" where
  "transaction_fields t =
     VList [tstamp_val (t_timestamp t), VStr (t_from_bank t), VStr (t_from_account t), VStr (t_to_bank t),
            VStr (t_to_account t), VFloat (t_amount_received t), VStr (t_receiving_currency t),
            VFloat (t_amount_paid t), VStr (t_payment_currency t), VStr (t_payment_format t)]"

definition account_fields :: "account \<Rightarrow> pyval" where
  "account_fields a =
     VList [VStr (a_bank_name a), VStr (a_bank_id a), VStr (a_account_number a), VStr (a_entity_id a),
            VStr (a_entity_name a)]"

definition node_fields :: "gnode \<Rightarrow> pyval" where
  "node_fields n = VList [VStr (n_bank n), VStr (n_account n)]"

definition path_fields :: "gpath \<Rightarrow> pyval" where
  "path_fields p = VList [node_fields (p_origin p), node_fields (p_destination p)]"

definition int_dict_val :: "(int, int) dict \<Rightarrow> pyval" where
  "int_dict_val d = VDict (map (\<lambda>(k, v). (VInt k, VInt v)) d)"

text \<open>\<open>_fields()\<close> of each class, without the client identifier that \<open>serialize\<close> takes off.\<close>

definition eof_fields :: "int \<Rightarrow> int \<Rightarrow> int \<Rightarrow> int \<Rightarrow> (int, int) dict \<Rightarrow> pyval list" where
  "eof_fields processed expected nexte origin per = [VInt processed, VInt expected, VInt nexte, VInt origin, int_dict_val per]"

definition transactions_fields :: "transaction list \<Rightarrow> pyval list" where
  "transactions_fields ts = map transaction_fields ts"

definition accounts_fields :: "account list \<Rightarrow> pyval list" where
  "accounts_fields as = map account_fields as"

definition response_fields :: "int \<Rightarrow> string \<Rightarrow> bool \<Rightarrow> pyval list" where
  "response_fields uc body l = [VInt uc, VStr body, VBool l]"

definition max_by_bank_fields :: "(string, string \<times> amount) dict \<Rightarrow> pyval list" where
  "max_by_bank_fields d = map (\<lambda>(b, (a, x)). VList [VStr b, VStr a, VFloat x]) d"

definition bank_names_fields :: "(string, string) dict \<Rightarrow> pyval list" where
  "bank_names_fields d = map (\<lambda>(b, n). VList [VStr b, VStr n]) d"

definition merged_bank_data_fields :: "(string \<times> string \<times> amount \<times> string) list \<Rightarrow> pyval list" where
  "merged_bank_data_fields es = map (\<lambda>(b, a, x, n). VList [VStr b, VStr a, VFloat x, VStr n]) es"

definition graph_fields :: "(gnode \<times> gnode list \<times> gnode list) list \<Rightarrow> pyval list" where
  "graph_fields ns = [VList (map (\<lambda>(n, ps, ss). VList [node_fields n, VList (map node_fields ps), VList (map node_fields ss)]) ns)]"

definition path_counts_fields :: "(gpath \<times> int) list \<Rightarrow> pyval list" where
  "path_counts_fields cs = [VList (map (\<lambda>(q, c). VList [path_fields q, VInt c]) cs)]"

definition transaction_count_fields :: "int \<Rightarrow> pyval list" where
  "transaction_count_fields c = [VInt c]"

definition sum_by_payment_format_fields :: "(string, amount \<times> int) dict \<Rightarrow> pyval list" where
  "sum_by_payment_format_fields d = map (\<lambda>(f, (s, c)). VList [VStr f, VFloat s, VInt c]) d"

definition avg_by_format_fields :: "(string, amount) dict \<Rightarrow> pyval list" where
  "avg_by_format_fields d = map (\<lambda>(f, x). VList [VStr f, VFloat x]) d"

definition merged_transactions_fields :: "transaction list \<Rightarrow> (string, amount) dict \<Rightarrow> pyval list" where
  "merged_transactions_fields ts avgs = VInt (int (length ts)) # map transaction_fields ts @ map (\<lambda>(f, x). VList [VStr f, VFloat x]) avgs"

definition ring_done_fields :: "int \<Rightarrow> pyval list" where
  "ring_done_fields origin = [VInt origin]"

definition node_msg_fields :: "gnode \<Rightarrow> gnode list \<Rightarrow> gnode list \<Rightarrow> pyval list" where
  "node_msg_fields n ps ss = [VStr (node_str n), VList (map (VStr \<circ> node_str) ps), VList (map (VStr \<circ> node_str) ss)]"

definition path_msg_fields :: "gpath \<Rightarrow> int \<Rightarrow> pyval list" where
  "path_msg_fields q c = [path_fields q, VInt c]"

definition ring_sent_data_fields :: "int \<Rightarrow> int \<Rightarrow> bool \<Rightarrow> bool \<Rightarrow> pyval list" where
  "ring_sent_data_fields origin amount sent done = [VInt origin, VInt amount, VBool sent, VBool done]"

definition high_degree_fields :: "gnode list \<Rightarrow> gnode list \<Rightarrow> pyval list" where
  "high_degree_fields os is = [VList (map node_fields os), VList (map node_fields is)]"

definition ring_barrier_fields :: "int \<Rightarrow> (int, (int, int) dict) dict \<Rightarrow> pyval list" where
  "ring_barrier_fields origin sb = [VInt origin, VDict (map (\<lambda>(k, d). (VInt k, int_dict_val d)) sb)]"

definition supervisor_leader_fields :: "int \<Rightarrow> pyval list" where
  "supervisor_leader_fields idx = [VInt idx]"

definition msg_fields :: "payload \<Rightarrow> pyval list" where
  "msg_fields p =
     (case p of
        EOF processed expected nexte origin per \<Rightarrow> eof_fields processed expected nexte origin per
      | Transactions ts \<Rightarrow> transactions_fields ts
      | Accounts as \<Rightarrow> accounts_fields as
      | Response uc body l \<Rightarrow> response_fields uc body l
      | MaxByBank d \<Rightarrow> max_by_bank_fields d
      | BankNames d \<Rightarrow> bank_names_fields d
      | MergedBankData es \<Rightarrow> merged_bank_data_fields es
      | Graph ns \<Rightarrow> graph_fields ns
      | PathCounts cs \<Rightarrow> path_counts_fields cs
      | TransactionCount c \<Rightarrow> transaction_count_fields c
      | SumByPaymentFormat d \<Rightarrow> sum_by_payment_format_fields d
      | AvgByFormat d \<Rightarrow> avg_by_format_fields d
      | MergedTransactions ts avgs \<Rightarrow> merged_transactions_fields ts avgs
      | RingDone origin \<Rightarrow> ring_done_fields origin
      | NodeMsg n ps ss \<Rightarrow> node_msg_fields n ps ss
      | PathMsg q c \<Rightarrow> path_msg_fields q c
      | RingSentData origin amount sent done \<Rightarrow> ring_sent_data_fields origin amount sent done
      | HighDegree os is \<Rightarrow> high_degree_fields os is
      | RingBarrier origin sb \<Rightarrow> ring_barrier_fields origin sb
      | SupervisorLeader idx \<Rightarrow> supervisor_leader_fields idx
      | _ \<Rightarrow> [])"

section \<open>Reconstruction\<close>

definition transaction_of :: "tstamp \<Rightarrow> pyval list \<Rightarrow> transaction result" where
  "transaction_of ts vs =
     (case vs of
        [fb, fa, tb, ta, ar, rc, ap, pc, pf] \<Rightarrow>
          bind_result (as_str fb) (\<lambda>fb. bind_result (as_str fa) (\<lambda>fa. bind_result (as_str tb) (\<lambda>tb.
          bind_result (as_str ta) (\<lambda>ta. bind_result (as_float ar) (\<lambda>ar. bind_result (as_str rc) (\<lambda>rc.
          bind_result (as_float ap) (\<lambda>ap. bind_result (as_str pc) (\<lambda>pc. bind_result (as_str pf) (\<lambda>pf.
            Inr \<lparr>t_timestamp = ts, t_from_bank = fb, t_from_account = fa, t_to_bank = tb, t_to_account = ta,
                 t_amount_received = ar, t_receiving_currency = rc, t_amount_paid = ap,
                 t_payment_currency = pc, t_payment_format = pf\<rparr>)))))))))
      | _ \<Rightarrow> Inl TypeError)"

text \<open>\<open>Transaction(fast_datetime(t_fields[0]), *t_fields[1:])\<close> in \<open>Transactions\<close>; plain
  \<open>Transaction(*fields)\<close> in \<open>MergedTransactions\<close>, which leaves the timestamp as text.\<close>

definition transaction_parsed :: "pyval \<Rightarrow> transaction result" where
  "transaction_parsed v =
     bind_result (as_list v) (\<lambda>vs. case vs of
        t # rest \<Rightarrow> bind_result (as_str t) (\<lambda>s. bind_result (fast_datetime s) (\<lambda>d. transaction_of (TTime d) rest))
      | [] \<Rightarrow> Inl IndexError)"

definition transaction_raw :: "pyval \<Rightarrow> transaction result" where
  "transaction_raw v =
     bind_result (as_list v) (\<lambda>vs. case vs of
        t # rest \<Rightarrow> bind_result (as_str t) (\<lambda>s. transaction_of (TText s) rest)
      | [] \<Rightarrow> Inl TypeError)"

definition account_of :: "pyval \<Rightarrow> account result" where
  "account_of v =
     bind_result (as_list v) (\<lambda>vs. case vs of
        [bn, bi, an, ei, en] \<Rightarrow>
          bind_result (as_str bn) (\<lambda>bn. bind_result (as_str bi) (\<lambda>bi. bind_result (as_str an) (\<lambda>an.
          bind_result (as_str ei) (\<lambda>ei. bind_result (as_str en) (\<lambda>en.
            Inr \<lparr>a_bank_name = bn, a_bank_id = bi, a_account_number = an, a_entity_id = ei, a_entity_name = en\<rparr>)))))
      | _ \<Rightarrow> Inl TypeError)"

definition node_of :: "pyval \<Rightarrow> gnode result" where
  "node_of v =
     bind_result (as_pair v) (\<lambda>(b, a). bind_result (as_str b) (\<lambda>b. bind_result (as_str a) (\<lambda>a.
       Inr \<lparr>n_bank = b, n_account = a\<rparr>)))"

definition path_of :: "pyval \<Rightarrow> gpath result" where
  "path_of v =
     bind_result (as_pair v) (\<lambda>(a, b). bind_result (node_of a) (\<lambda>a. bind_result (node_of b) (\<lambda>b.
       Inr \<lparr>p_origin = a, p_destination = b\<rparr>)))"

definition node_set_of :: "pyval \<Rightarrow> gnode list result" where
  "node_set_of v =
     bind_result (as_list v) (\<lambda>vs. bind_result (map_result node_of vs) (\<lambda>ns. Inr (keyed_set node_key ns)))"

definition node_text_set_of :: "pyval \<Rightarrow> gnode list result" where
  "node_text_set_of v =
     bind_result (as_list v) (\<lambda>vs.
     bind_result (map_result (\<lambda>s. bind_result (as_str s) node_from_str) vs) (\<lambda>ns. Inr (keyed_set node_key ns)))"

definition graph_entry_of :: "pyval \<Rightarrow> (gnode \<times> gnode list \<times> gnode list) result" where
  "graph_entry_of v =
     bind_result (as_list v) (\<lambda>vs. case vs of
        [n, ps, ss] \<Rightarrow> bind_result (node_of n) (\<lambda>n. bind_result (node_set_of ps) (\<lambda>ps. bind_result (node_set_of ss) (\<lambda>ss. Inr (n, ps, ss))))
      | _ \<Rightarrow> Inl (ValueError ''values to unpack''))"

definition path_count_of :: "pyval \<Rightarrow> (gpath \<times> int) result" where
  "path_count_of v =
     bind_result (as_pair v) (\<lambda>(p, c). bind_result (path_of p) (\<lambda>p. bind_result (as_int c) (\<lambda>c. Inr (p, c))))"

definition int_dict_of :: "pyval \<Rightarrow> (int, int) dict result" where
  "int_dict_of v =
     bind_result (as_dict v) (\<lambda>kvs.
     bind_result (map_result (\<lambda>(k, x). bind_result (as_int k) (\<lambda>k. bind_result (as_int x) (\<lambda>x. Inr (k, x)))) kvs)
       (\<lambda>kvs. Inr (dict_of kvs)))"

definition sent_by_of :: "pyval \<Rightarrow> (int, (int, int) dict) dict result" where
  "sent_by_of v =
     bind_result (as_dict v) (\<lambda>kvs.
     bind_result (map_result (\<lambda>(k, x). bind_result (as_int k) (\<lambda>k. bind_result (int_dict_of x) (\<lambda>x. Inr (k, x)))) kvs)
       (\<lambda>kvs. Inr (dict_of kvs)))"

definition str_float_of :: "pyval \<Rightarrow> (string \<times> amount) result" where
  "str_float_of v =
     bind_result (as_pair v) (\<lambda>(k, x). bind_result (as_str k) (\<lambda>k. bind_result (as_float x) (\<lambda>x. Inr (k, x))))"

definition str_str_of :: "pyval \<Rightarrow> (string \<times> string) result" where
  "str_str_of v =
     bind_result (as_pair v) (\<lambda>(k, x). bind_result (as_str k) (\<lambda>k. bind_result (as_str x) (\<lambda>x. Inr (k, x))))"

definition max_entry_of :: "pyval \<Rightarrow> (string \<times> string \<times> amount) result" where
  "max_entry_of v =
     bind_result (as_list v) (\<lambda>vs. case vs of
        [b, a, x] \<Rightarrow> bind_result (as_str b) (\<lambda>b. bind_result (as_str a) (\<lambda>a. bind_result (as_float x) (\<lambda>x. Inr (b, a, x))))
      | _ \<Rightarrow> Inl IndexError)"

definition sum_entry_of :: "pyval \<Rightarrow> (string \<times> amount \<times> int) result" where
  "sum_entry_of v =
     bind_result (as_list v) (\<lambda>vs. case vs of
        [f, s, c] \<Rightarrow> bind_result (as_str f) (\<lambda>f. bind_result (as_float s) (\<lambda>s. bind_result (as_int c) (\<lambda>c. Inr (f, s, c))))
      | _ \<Rightarrow> Inl (ValueError ''values to unpack''))"

definition bank_entry_of :: "pyval \<Rightarrow> (string \<times> string \<times> amount \<times> string) result" where
  "bank_entry_of v =
     bind_result (as_list v) (\<lambda>vs. case vs of
        [b, a, x, n] \<Rightarrow> bind_result (as_str b) (\<lambda>b. bind_result (as_str a) (\<lambda>a. bind_result (as_float x) (\<lambda>x.
          bind_result (as_str n) (\<lambda>n. Inr (b, a, x, n)))))
      | _ \<Rightarrow> Inl (ValueError ''values to unpack''))"

text \<open>\<open>_from_fields\<close> of each class, on the fields that follow the client identifier.\<close>

definition eof_from_fields :: "pyval list \<Rightarrow> payload result" where
  "eof_from_fields vs =
     (case vs of
        [a, b, c, d, e] \<Rightarrow> bind_result (as_int a) (\<lambda>a. bind_result (as_int b) (\<lambda>b. bind_result (as_int c) (\<lambda>c.
          bind_result (as_int d) (\<lambda>d. bind_result (int_dict_of e) (\<lambda>e. Inr (EOF a b c d e))))))
      | _ \<Rightarrow> Inl TypeError)"

definition transactions_from_fields :: "pyval list \<Rightarrow> payload result" where
  "transactions_from_fields vs =
     (bind_result (map_result transaction_parsed vs) (\<lambda>ts. Inr (Transactions ts)))"

definition accounts_from_fields :: "pyval list \<Rightarrow> payload result" where
  "accounts_from_fields vs =
     (bind_result (map_result account_of vs) (\<lambda>as. Inr (Accounts as)))"

definition fin_from_fields :: "pyval list \<Rightarrow> payload result" where
  "fin_from_fields vs =
     (Inr FIN)"

definition response_from_fields :: "pyval list \<Rightarrow> payload result" where
  "response_from_fields vs =
     (case vs of
        [u, b, l] \<Rightarrow> bind_result (as_int u) (\<lambda>u. bind_result (as_str b) (\<lambda>b. bind_result (as_bool l) (\<lambda>l. Inr (Response u b l))))
      | _ \<Rightarrow> Inl (ValueError ''values to unpack''))"

definition max_by_bank_from_fields :: "pyval list \<Rightarrow> payload result" where
  "max_by_bank_from_fields vs =
     (bind_result (map_result max_entry_of vs) (\<lambda>es. Inr (MaxByBank (dict_of es))))"

definition bank_names_from_fields :: "pyval list \<Rightarrow> payload result" where
  "bank_names_from_fields vs =
     (bind_result (map_result str_str_of vs) (\<lambda>es. Inr (BankNames (dict_of es))))"

definition merged_bank_data_from_fields :: "pyval list \<Rightarrow> payload result" where
  "merged_bank_data_from_fields vs =
     (bind_result (map_result bank_entry_of vs) (\<lambda>es. Inr (MergedBankData es)))"

definition graph_from_fields :: "pyval list \<Rightarrow> payload result" where
  "graph_from_fields vs =
     (case vs of
        v # _ \<Rightarrow> bind_result (as_list v) (\<lambda>es. bind_result (map_result graph_entry_of es) (\<lambda>es. Inr (Graph (keyed_dict node_key es))))
      | [] \<Rightarrow> Inl IndexError)"

definition path_counts_from_fields :: "pyval list \<Rightarrow> payload result" where
  "path_counts_from_fields vs =
     (case vs of
        v # _ \<Rightarrow> bind_result (as_list v) (\<lambda>es. bind_result (map_result path_count_of es) (\<lambda>es. Inr (PathCounts (keyed_dict path_key es))))
      | [] \<Rightarrow> Inl IndexError)"

definition transaction_count_from_fields :: "pyval list \<Rightarrow> payload result" where
  "transaction_count_from_fields vs =
     (case vs of v # _ \<Rightarrow> bind_result (as_int v) (\<lambda>c. Inr (TransactionCount c)) | [] \<Rightarrow> Inl IndexError)"

definition sum_by_payment_format_from_fields :: "pyval list \<Rightarrow> payload result" where
  "sum_by_payment_format_from_fields vs =
     (bind_result (map_result sum_entry_of vs) (\<lambda>es. Inr (SumByPaymentFormat (dict_of es))))"

definition avg_by_format_from_fields :: "pyval list \<Rightarrow> payload result" where
  "avg_by_format_from_fields vs =
     (bind_result (map_result str_float_of vs) (\<lambda>es. Inr (AvgByFormat (dict_of es))))"

definition merged_transactions_from_fields :: "pyval list \<Rightarrow> payload result" where
  "merged_transactions_from_fields vs =
     (case vs of
        v # rest \<Rightarrow> bind_result (as_int v) (\<lambda>n.
          bind_result (map_result transaction_raw (take (nat n) rest)) (\<lambda>ts.
          bind_result (map_result str_float_of (drop (nat n) rest)) (\<lambda>es. Inr (MergedTransactions ts (dict_of es)))))
      | [] \<Rightarrow> Inl IndexError)"

definition ring_done_from_fields :: "pyval list \<Rightarrow> payload result" where
  "ring_done_from_fields vs =
     (case vs of [v] \<Rightarrow> bind_result (as_int v) (\<lambda>origin. Inr (RingDone origin)) | _ \<Rightarrow> Inl TypeError)"

definition node_msg_from_fields :: "pyval list \<Rightarrow> payload result" where
  "node_msg_from_fields vs =
     (case vs of
        n # ps # ss # _ \<Rightarrow> bind_result (as_str n) (\<lambda>n. bind_result (node_from_str n) (\<lambda>n.
          bind_result (node_text_set_of ps) (\<lambda>ps. bind_result (node_text_set_of ss) (\<lambda>ss. Inr (NodeMsg n ps ss)))))
      | _ \<Rightarrow> Inl IndexError)"

definition path_msg_from_fields :: "pyval list \<Rightarrow> payload result" where
  "path_msg_from_fields vs =
     (case vs of
        q # c # _ \<Rightarrow> bind_result (path_of q) (\<lambda>q. bind_result (as_int c) (\<lambda>c. Inr (PathMsg q c)))
      | _ \<Rightarrow> Inl IndexError)"

definition ring_sent_data_from_fields :: "pyval list \<Rightarrow> payload result" where
  "ring_sent_data_from_fields vs =
     (case vs of
        [a, b, c, d] \<Rightarrow> bind_result (as_int a) (\<lambda>a. bind_result (as_int b) (\<lambda>b. bind_result (as_bool c) (\<lambda>c.
          bind_result (as_bool d) (\<lambda>d. Inr (RingSentData a b c d)))))
      | _ \<Rightarrow> Inl TypeError)"

definition high_degree_from_fields :: "pyval list \<Rightarrow> payload result" where
  "high_degree_from_fields vs =
     (case vs of
        os # is # _ \<Rightarrow> bind_result (node_set_of os) (\<lambda>os. bind_result (node_set_of is) (\<lambda>is. Inr (HighDegree os is)))
      | _ \<Rightarrow> Inl IndexError)"

definition hello_from_fields :: "pyval list \<Rightarrow> payload result" where
  "hello_from_fields vs =
     (Inr Hello)"

definition hello_ack_from_fields :: "pyval list \<Rightarrow> payload result" where
  "hello_ack_from_fields vs =
     (Inr HelloAck)"

definition ring_barrier_from_fields :: "pyval list \<Rightarrow> payload result" where
  "ring_barrier_from_fields vs =
     (case vs of
        [a, b] \<Rightarrow> bind_result (as_int a) (\<lambda>a. bind_result (sent_by_of b) (\<lambda>b. Inr (RingBarrier a b)))
      | _ \<Rightarrow> Inl TypeError)"

definition abort_from_fields :: "pyval list \<Rightarrow> payload result" where
  "abort_from_fields vs =
     (Inr Abort)"

definition supervisor_election_from_fields :: "pyval list \<Rightarrow> payload result" where
  "supervisor_election_from_fields vs =
     (Inr SupervisorElection)"

definition supervisor_ack_from_fields :: "pyval list \<Rightarrow> payload result" where
  "supervisor_ack_from_fields vs =
     (Inr SupervisorACK)"

definition supervisor_leader_from_fields :: "pyval list \<Rightarrow> payload result" where
  "supervisor_leader_from_fields vs =
     (case vs of v # _ \<Rightarrow> bind_result (as_int v) (\<lambda>i. Inr (SupervisorLeader i)) | [] \<Rightarrow> Inl IndexError)"

text \<open>The class a type code selects, \<open>None\<close> for an unknown code.\<close>

definition class_of_code :: "nat \<Rightarrow> (pyval list \<Rightarrow> payload result) option" where
  "class_of_code c =
     (let classes = [eof_from_fields,
        transactions_from_fields,
        accounts_from_fields,
        fin_from_fields,
        response_from_fields,
        max_by_bank_from_fields,
        bank_names_from_fields,
        merged_bank_data_from_fields,
        graph_from_fields,
        path_counts_from_fields,
        transaction_count_from_fields,
        sum_by_payment_format_from_fields,
        avg_by_format_from_fields,
        merged_transactions_from_fields,
        ring_done_from_fields,
        node_msg_from_fields,
        path_msg_from_fields,
        ring_sent_data_from_fields,
        high_degree_from_fields,
        hello_from_fields,
        hello_ack_from_fields,
        ring_barrier_from_fields,
        abort_from_fields,
        supervisor_election_from_fields,
        supervisor_ack_from_fields,
        supervisor_leader_from_fields]
      in if c < length classes then Some (classes ! c) else None)"

section \<open>Serialization\<close>

definition prefix_bytes :: "message \<Rightarrow> bytes" where
  "prefix_bytes m = (case msg_client m of Some u \<Rightarrow> uuid_bytes u | None \<Rightarrow> replicate 16 0)"

definition serialize :: "(pyval list \<Rightarrow> bytes) \<Rightarrow> message \<Rightarrow> bytes result" where
  "serialize packb m =
     bind_result (to_bytes_big (msg_seq m) 8) (\<lambda>seq.
       Inr ([of_nat (type_code (msg_payload m))] @ prefix_bytes m @ msg_producer m @ seq @
            packb (map mp_default (msg_fields (msg_payload m)))))"

definition peek_type :: "bytes \<Rightarrow> nat result" where
  "peek_type raw = (case raw of [] \<Rightarrow> Inl IndexError | b # _ \<Rightarrow> Inr (unat b))"

definition wire_fields :: "message \<Rightarrow> pyval list" where
  "wire_fields m = map mp_default (msg_fields (msg_payload m))"

text \<open>\<open>cls.deserialize\<close>: \<open>code\<close> is the type of the class it is called on.\<close>

definition deserialize :: "(bytes \<Rightarrow> pyval list option) \<Rightarrow> nat \<Rightarrow> bytes \<Rightarrow> message result" where
  "deserialize unpackb code raw =
     bind_result (peek_type raw) (\<lambda>c.
     if c \<noteq> code then Inl UnexpectedMessageError
     else bind_result (uuid_of_bytes (pyslice 1 17 raw)) (\<lambda>cid.
       case unpackb (drop 41 raw) of
         None \<Rightarrow> Inl (ValueError ''unpackb'')
       | Some vs \<Rightarrow>
           (case class_of_code code of
              None \<Rightarrow> Inl UnknownMessageError
            | Some from_fields \<Rightarrow>
                bind_result (from_fields vs) (\<lambda>p.
                  Inr \<lparr>msg_client = (if has_client p then Some cid else None), msg_producer = pyslice 17 33 raw,
                       msg_seq = from_bytes_big (pyslice 33 41 raw), msg_payload = p\<rparr>))))"

definition deserialize_message :: "(bytes \<Rightarrow> pyval list option) \<Rightarrow> bytes \<Rightarrow> message result" where
  "deserialize_message unpackb raw =
     bind_result (peek_type raw) (\<lambda>c.
       case class_of_code c of None \<Rightarrow> Inl UnknownMessageError | Some f \<Rightarrow> deserialize unpackb c raw)"

section \<open>Well-formed messages\<close>

text \<open>
  What the objects of each class satisfy: dictionaries and sets have no repeated key, the
  timestamps of a \<open>Transactions\<close> batch are datetimes and those of \<open>MergedTransactions\<close> text, and
  the node texts of \<open>NodeMsg\<close> contain no comma.
\<close>

definition wf_payload :: "payload \<Rightarrow> bool" where
  "wf_payload p =
     (case p of
        EOF _ _ _ _ per \<Rightarrow> wf_dict per
      | Transactions ts \<Rightarrow> \<forall>t\<in>set ts. \<exists>d. t_timestamp t = TTime d \<and> valid_datetime d
      | MaxByBank d \<Rightarrow> wf_dict d
      | BankNames d \<Rightarrow> wf_dict d
      | Graph ns \<Rightarrow> key_distinct node_key (map fst ns) \<and>
          (\<forall>(n, ps, ss)\<in>set ns. key_distinct node_key ps \<and> key_distinct node_key ss)
      | PathCounts cs \<Rightarrow> key_distinct path_key (map fst cs)
      | SumByPaymentFormat d \<Rightarrow> wf_dict d
      | AvgByFormat d \<Rightarrow> wf_dict d
      | MergedTransactions ts d \<Rightarrow> wf_dict d \<and> (\<forall>t\<in>set ts. \<exists>s. t_timestamp t = TText s)
      | NodeMsg n ps ss \<Rightarrow> key_distinct node_key ps \<and> key_distinct node_key ss \<and>
          (\<forall>x\<in>set (n # ps @ ss). CHR '','' \<notin> set (n_bank x) \<union> set (n_account x))
      | HighDegree os is \<Rightarrow> key_distinct node_key os \<and> key_distinct node_key is
      | RingBarrier _ sb \<Rightarrow> wf_dict sb \<and> (\<forall>(k, d)\<in>set sb. wf_dict d)
      | _ \<Rightarrow> True)"

definition wf_message :: "message \<Rightarrow> bool" where
  "wf_message m \<longleftrightarrow>
     (msg_client m \<noteq> None \<longleftrightarrow> has_client (msg_payload m)) \<and> length (msg_producer m) = 16 \<and>
     0 \<le> msg_seq m \<and> msg_seq m < 256 ^ 8 \<and> wf_payload (msg_payload m)"

section \<open>Field round trips\<close>

lemma as_simps [simp]:
  "as_int (VInt i) = Inr i" "as_str (VStr s) = Inr s" "as_bool (VBool b) = Inr b"
  "as_float (VFloat x) = Inr x" "as_list (VList vs) = Inr vs" "as_dict (VDict kvs) = Inr kvs"
  "as_pair (VList [v, w]) = Inr (v, w)"
  by (simp_all add: as_int_def as_str_def as_bool_def as_float_def as_list_def as_dict_def as_pair_def)

lemma transaction_parsed_fields:
  "t_timestamp t = TTime d \<Longrightarrow> valid_datetime d \<Longrightarrow> transaction_parsed (mp_default (transaction_fields t)) = Inr t"
  by (cases t) (simp add: transaction_parsed_def transaction_fields_def transaction_of_def tstamp_val_def fast_datetime_str)

lemma transaction_raw_fields:
  "t_timestamp t = TText s \<Longrightarrow> transaction_raw (mp_default (transaction_fields t)) = Inr t"
  by (cases t) (simp add: transaction_raw_def transaction_fields_def transaction_of_def tstamp_val_def)

text \<open>A transaction with a parsed timestamp comes back from \<open>MergedTransactions\<close> with the text.\<close>

lemma transaction_raw_time:
  "t_timestamp t = TTime d \<Longrightarrow>
   transaction_raw (mp_default (transaction_fields t)) = Inr (t\<lparr>t_timestamp := TText (datetime_str d)\<rparr>)"
  by (cases t) (simp add: transaction_raw_def transaction_fields_def transaction_of_def tstamp_val_def)

lemma account_of_fields: "account_of (mp_default (account_fields a)) = Inr a"
  by (cases a) (simp add: account_of_def account_fields_def)

lemma node_of_fields [simp]: "node_of (mp_default (node_fields n)) = Inr n"
  by (cases n) (simp add: node_of_def node_fields_def)

lemma path_of_fields [simp]: "path_of (mp_default (path_fields q)) = Inr q"
  by (cases q) (simp add: path_of_def path_fields_def)

lemma node_set_of_fields:
  "key_distinct node_key ns \<Longrightarrow> node_set_of (VList (map (\<lambda>n. mp_default (node_fields n)) ns)) = Inr ns"
  by (simp add: node_set_of_def map_result_id keyed_set_id)

lemma node_from_str_str:
  "CHR '','' \<notin> set (n_bank n) \<Longrightarrow> CHR '','' \<notin> set (n_account n) \<Longrightarrow> node_from_str (node_str n) = Inr n"
  by (cases n) (simp add: node_from_str_def node_str_def split_on_append split_on_word)

lemma node_text_set_of_str:
  assumes "key_distinct node_key ns" and "\<forall>n\<in>set ns. CHR '','' \<notin> set (n_bank n) \<union> set (n_account n)"
  shows "node_text_set_of (VList (map (\<lambda>n. VStr (node_str n)) ns)) = Inr ns"
  using assms by (simp add: node_text_set_of_def map_result_id keyed_set_id node_from_str_str)

lemma int_dict_of_val [simp]: "wf_dict d \<Longrightarrow> int_dict_of (mp_default (int_dict_val d)) = Inr d"
  by (simp add: int_dict_of_def int_dict_val_def case_prod_beta comp_def map_result_id dict_of_wf)

lemma sent_by_of_val:
  assumes "wf_dict sb" and "\<And>k d. (k, d) \<in> set sb \<Longrightarrow> wf_dict d"
  shows "sent_by_of (VDict (map (\<lambda>(k, d). (VInt k, mp_default (int_dict_val d))) sb)) = Inr sb"
proof -
  have "map_result (\<lambda>(k, x). bind_result (as_int k) (\<lambda>k. bind_result (int_dict_of x) (\<lambda>x. Inr (k, x))))
      (map (\<lambda>(k, d). (VInt k, mp_default (int_dict_val d))) sb) = Inr sb"
    using assms(2) by (intro map_result_id) auto
  with assms(1) show ?thesis by (simp add: sent_by_of_def dict_of_wf)
qed

lemma graph_entry_of_fields:
  "key_distinct node_key ps \<Longrightarrow> key_distinct node_key ss \<Longrightarrow>
   graph_entry_of (VList [mp_default (node_fields n), VList (map (\<lambda>n. mp_default (node_fields n)) ps),
     VList (map (\<lambda>n. mp_default (node_fields n)) ss)]) = Inr (n, ps, ss)"
  by (simp add: graph_entry_of_def node_set_of_fields)

lemmas fields_defs =
  eof_fields_def transactions_fields_def accounts_fields_def response_fields_def max_by_bank_fields_def
  bank_names_fields_def merged_bank_data_fields_def graph_fields_def path_counts_fields_def
  transaction_count_fields_def sum_by_payment_format_fields_def avg_by_format_fields_def
  merged_transactions_fields_def ring_done_fields_def node_msg_fields_def path_msg_fields_def
  ring_sent_data_fields_def high_degree_fields_def ring_barrier_fields_def supervisor_leader_fields_def

lemmas from_fields_defs =
  eof_from_fields_def transactions_from_fields_def accounts_from_fields_def fin_from_fields_def
  response_from_fields_def max_by_bank_from_fields_def bank_names_from_fields_def
  merged_bank_data_from_fields_def graph_from_fields_def path_counts_from_fields_def
  transaction_count_from_fields_def sum_by_payment_format_from_fields_def avg_by_format_from_fields_def
  merged_transactions_from_fields_def ring_done_from_fields_def node_msg_from_fields_def
  path_msg_from_fields_def ring_sent_data_from_fields_def high_degree_from_fields_def hello_from_fields_def
  hello_ack_from_fields_def ring_barrier_from_fields_def abort_from_fields_def
  supervisor_election_from_fields_def supervisor_ack_from_fields_def supervisor_leader_from_fields_def

lemma class_of_type: "\<exists>f. class_of_code (type_code p) = Some f"
  by (cases p) (simp_all add: class_of_code_def type_code_def Let_def)

lemma payload_roundtrip:
  assumes "wf_payload p"
  shows "\<exists>f. class_of_code (type_code p) = Some f \<and> f (map mp_default (msg_fields p)) = Inr p"
proof (cases p)
  case (Transactions ts)
  then have "map_result transaction_parsed (map (mp_default \<circ> transaction_fields) ts) = Inr ts"
    using assms by (intro map_result_id) (auto simp: wf_payload_def transaction_parsed_fields)
  with Transactions show ?thesis
    by (simp add: class_of_code_def type_code_def Let_def msg_fields_def fields_defs from_fields_defs)
next
  case (Accounts as)
  have "map_result account_of (map (mp_default \<circ> account_fields) as) = Inr as"
    by (intro map_result_id) (simp add: account_of_fields)
  with Accounts show ?thesis
    by (simp add: class_of_code_def type_code_def Let_def msg_fields_def fields_defs from_fields_defs)
next
  case (MaxByBank d)
  have "map_result max_entry_of (map (mp_default \<circ> (\<lambda>(b, (a, x)). VList [VStr b, VStr a, VFloat x])) d) = Inr d"
    by (intro map_result_id) (auto simp: max_entry_of_def)
  with MaxByBank assms show ?thesis
    by (simp add: class_of_code_def type_code_def Let_def msg_fields_def fields_defs from_fields_defs wf_payload_def dict_of_wf)
next
  case (BankNames d)
  have "map_result str_str_of (map (mp_default \<circ> (\<lambda>(b, n). VList [VStr b, VStr n])) d) = Inr d"
    by (intro map_result_id) (auto simp: str_str_of_def)
  with BankNames assms show ?thesis
    by (simp add: class_of_code_def type_code_def Let_def msg_fields_def fields_defs from_fields_defs wf_payload_def dict_of_wf)
next
  case (MergedBankData es)
  have "map_result bank_entry_of (map (mp_default \<circ> (\<lambda>(b, a, x, n). VList [VStr b, VStr a, VFloat x, VStr n])) es) = Inr es"
    by (intro map_result_id) (auto simp: bank_entry_of_def)
  with MergedBankData show ?thesis
    by (simp add: class_of_code_def type_code_def Let_def msg_fields_def fields_defs from_fields_defs)
next
  case (Graph ns)
  have "map_result graph_entry_of (map (mp_default \<circ> (\<lambda>(n, ps, ss). VList [node_fields n, VList (map node_fields ps),
      VList (map node_fields ss)])) ns) = Inr ns"
    using assms Graph by (intro map_result_id) (auto simp: wf_payload_def graph_entry_of_fields comp_def)
  with Graph assms show ?thesis
    by (simp add: class_of_code_def type_code_def Let_def msg_fields_def fields_defs from_fields_defs wf_payload_def keyed_dict_id)
next
  case (PathCounts cs)
  have "map_result path_count_of (map (mp_default \<circ> (\<lambda>(q, c). VList [path_fields q, VInt c])) cs) = Inr cs"
    by (intro map_result_id) (auto simp: path_count_of_def)
  with PathCounts assms show ?thesis
    by (simp add: class_of_code_def type_code_def Let_def msg_fields_def fields_defs from_fields_defs wf_payload_def keyed_dict_id)
next
  case (SumByPaymentFormat d)
  have "map_result sum_entry_of (map (mp_default \<circ> (\<lambda>(f, (s, c)). VList [VStr f, VFloat s, VInt c])) d) = Inr d"
    by (intro map_result_id) (auto simp: sum_entry_of_def)
  with SumByPaymentFormat assms show ?thesis
    by (simp add: class_of_code_def type_code_def Let_def msg_fields_def fields_defs from_fields_defs wf_payload_def dict_of_wf)
next
  case (AvgByFormat d)
  have "map_result str_float_of (map (mp_default \<circ> (\<lambda>(f, x). VList [VStr f, VFloat x])) d) = Inr d"
    by (intro map_result_id) (auto simp: str_float_of_def)
  with AvgByFormat assms show ?thesis
    by (simp add: class_of_code_def type_code_def Let_def msg_fields_def fields_defs from_fields_defs wf_payload_def dict_of_wf)
next
  case (MergedTransactions ts d)
  have "map_result transaction_raw (map (mp_default \<circ> transaction_fields) ts) = Inr ts"
    using assms MergedTransactions by (intro map_result_id) (auto simp: wf_payload_def transaction_raw_fields)
  moreover have "map_result str_float_of (map (mp_default \<circ> (\<lambda>(f, x). VList [VStr f, VFloat x])) d) = Inr d"
    by (intro map_result_id) (auto simp: str_float_of_def)
  ultimately show ?thesis using MergedTransactions assms
    by (simp add: class_of_code_def type_code_def Let_def msg_fields_def fields_defs from_fields_defs wf_payload_def dict_of_wf)
next
  case (NodeMsg n ps ss)
  with assms show ?thesis
    by (simp add: class_of_code_def type_code_def Let_def msg_fields_def fields_defs from_fields_defs wf_payload_def
        node_from_str_str node_text_set_of_str comp_def)
next
  case (HighDegree outs ins)
  with assms show ?thesis
    by (simp add: class_of_code_def type_code_def Let_def msg_fields_def fields_defs from_fields_defs wf_payload_def
        node_set_of_fields comp_def)
next
  case (RingBarrier origin sb)
  have "(\<lambda>x. case case x of (k, d) \<Rightarrow> (VInt k, int_dict_val d) of (k, v) \<Rightarrow> (mp_default k, mp_default v)) =
      (\<lambda>(k, d). (VInt k, mp_default (int_dict_val d)))"
    by (auto simp: fun_eq_iff)
  moreover have "sent_by_of (VDict (map (\<lambda>(k, d). (VInt k, mp_default (int_dict_val d))) sb)) = Inr sb"
    using assms RingBarrier by (intro sent_by_of_val) (auto simp: wf_payload_def)
  ultimately show ?thesis using RingBarrier
    by (simp add: class_of_code_def type_code_def Let_def msg_fields_def fields_defs from_fields_defs comp_def)
qed (use assms in \<open>simp_all add: class_of_code_def type_code_def Let_def msg_fields_def fields_defs from_fields_defs wf_payload_def\<close>)

section \<open>Properties\<close>


definition demo_message :: message where
  "demo_message =
     \<lparr>msg_client = Some 5, msg_producer = replicate 16 3, msg_seq = 300,
      msg_payload = BankNames [(''001'', ''Bank A''), (''002'', ''Bank B'')]\<rparr>"


text \<open>
  \<open>MergedTransactions\<close> does not rebuild timestamps: a batch of parsed transactions comes back
  from the wire with every timestamp replaced by its text, although \<open>Transactions\<close> restores them.
\<close>

theorem merged_timestamps_become_text:
  assumes "\<forall>t\<in>set ts. t_timestamp t = TTime (stamp t)" and "wf_dict avgs"
  shows "merged_transactions_from_fields (map mp_default (merged_transactions_fields ts avgs)) =
    Inr (MergedTransactions (map (\<lambda>t. t\<lparr>t_timestamp := TText (datetime_str (stamp t))\<rparr>) ts) avgs)"
proof -
  have "map_result transaction_raw (map (mp_default \<circ> transaction_fields) ts) =
      Inr (map (\<lambda>t. t\<lparr>t_timestamp := TText (datetime_str (stamp t))\<rparr>) ts)"
    using assms(1) by (intro map_result_Inr) (simp add: transaction_raw_time)
  moreover have "map_result str_float_of (map (mp_default \<circ> (\<lambda>(f, x). VList [VStr f, VFloat x])) avgs) = Inr avgs"
    by (intro map_result_id) (auto simp: str_float_of_def)
  ultimately show ?thesis using assms(2)
    by (simp add: from_fields_defs fields_defs dict_of_wf)
qed

theorem merged_timestamps_become_text_witness:
  "let d = \<lparr>dt_year = 2022, dt_month = 9, dt_day = 1, dt_hour = 0, dt_minute = 20, dt_second = 0\<rparr>;
       t = \<lparr>t_timestamp = TTime d, t_from_bank = ''1'', t_from_account = ''A'', t_to_bank = ''2'', t_to_account = ''B'',
            t_amount_received = 5, t_receiving_currency = ''US Dollar'', t_amount_paid = 5,
            t_payment_currency = ''US Dollar'', t_payment_format = ''ACH''\<rparr>
   in merged_transactions_from_fields (map mp_default (merged_transactions_fields [t] [(''ACH'', 2)])) =
      Inr (MergedTransactions [t\<lparr>t_timestamp := TText (datetime_str d)\<rparr>] [(''ACH'', 2)])"
  unfolding Let_def
  by (subst merged_timestamps_become_text
      [where stamp = "\<lambda>t. \<lparr>dt_year = 2022, dt_month = 9, dt_day = 1, dt_hour = 0, dt_minute = 20, dt_second = 0\<rparr>"])
    (simp_all add: wf_dict_def)

end
