(* ===== verification/Stamping.thy ===== *)
theory Stamping
  imports Messages
begin

text \<open>
  The identities messages carry on the wire (\<open>common/comms/middleware/stamping_mom.py\<close>,
  \<open>make_rx_tx.py\<close>, \<open>shard_of\<close> of \<open>ring_node.py\<close>): a \<open>StampingMOM\<close> rewrites the producer and the
  sequence number in the header of every data message it sends.  The inner MOM is the list of
  the byte strings handed to it.  \<open>uuid5\<close> is a parameter.
\<close>

definition counter_next :: "int \<Rightarrow> int \<times> int" where
  "counter_next c = (c + 1, c + 1)"

definition derive_producer_id :: "(string \<Rightarrow> bytes) \<Rightarrow> string \<Rightarrow> int \<Rightarrow> int \<Rightarrow> bytes" where
  "derive_producer_id uuid5 tx_name idx route =
     uuid5 (tx_name @ '':'' @ int_str idx @ '':'' @ int_str route)"

text \<open>\<open>_UNSTAMPED_TYPES\<close>: EOF, ABORT, RING_DONE, RING_SENT_DATA, FIN, HELLO, HELLO_ACK.\<close>

definition unstamped_types :: "nat list" where
  "unstamped_types = [0, 22, 14, 17, 3, 19, 20]"

record stamper =
  st_producer :: bytes
  st_counter :: int
  st_sent :: "bytes list"

definition new_stamper :: "bytes \<Rightarrow> int \<Rightarrow> stamper result" where
  "new_stamper producer counter =
     (if length producer \<noteq> 16 then Inl (ValueError ''producer_id must be 16 bytes'')
      else Inr \<lparr>st_producer = producer, st_counter = counter, st_sent = []\<rparr>)"

definition restore_seq :: "int \<Rightarrow> stamper \<Rightarrow> stamper" where
  "restore_seq v st = st\<lparr>st_counter := v\<rparr>"

definition restamp :: "bytes \<Rightarrow> bytes \<Rightarrow> bytes \<Rightarrow> bytes" where
  "restamp producer seq_bytes raw = take 17 raw @ producer @ seq_bytes @ drop 41 raw"

definition send_stamped :: "bytes \<Rightarrow> bytes \<Rightarrow> int \<Rightarrow> stamper \<Rightarrow> stamper result" where
  "send_stamped raw producer seq st =
     bind_result (peek_type raw) (\<lambda>t.
       if t \<in> set unstamped_types then Inr (st\<lparr>st_sent := st_sent st @ [raw]\<rparr>)
       else bind_result (to_bytes_big seq 8) (\<lambda>sb. Inr (st\<lparr>st_sent := st_sent st @ [restamp producer sb raw]\<rparr>)))"

text \<open>\<open>send\<close>: the counter is advanced before the number is encoded.\<close>

definition send :: "bytes \<Rightarrow> stamper \<Rightarrow> stamper result" where
  "send raw st =
     bind_result (peek_type raw) (\<lambda>t.
       if t \<in> set unstamped_types then Inr (st\<lparr>st_sent := st_sent st @ [raw]\<rparr>)
       else let (c, seq) = counter_next (st_counter st); st = st\<lparr>st_counter := c\<rparr> in
            bind_result (to_bytes_big seq 8) (\<lambda>sb.
              Inr (st\<lparr>st_sent := st_sent st @ [restamp (st_producer st) sb raw]\<rparr>)))"

text \<open>\<open>clone\<close> shares the counter object: two handles to one route keep one sequence.\<close>

definition clone_stamper :: "stamper \<Rightarrow> stamper" where
  "clone_stamper st = st\<lparr>st_sent := []\<rparr>"

text \<open>\<open>make_txs\<close>: one writer for the join's queue, or one per downstream shard.\<close>

definition make_txs :: "(string \<Rightarrow> bytes) \<Rightarrow> int \<Rightarrow> string \<Rightarrow> int \<Rightarrow> stamper list result" where
  "make_txs uuid5 idx tx_name n =
     (if n < 0 then Inl (ValueError ''downstream nodes amount cannot be less than 0'')
      else if n = 0 then map_result (\<lambda>r. new_stamper (derive_producer_id uuid5 tx_name idx r) 0) [0]
      else map_result (\<lambda>r. new_stamper (derive_producer_id uuid5 tx_name idx r) 0) (map int [0..<nat n]))"

definition shard_of :: "bytes \<Rightarrow> int \<Rightarrow> int \<Rightarrow> int result" where
  "shard_of producer seq nshards =
     (if nshards = 0 then Inl ZeroDivisionError
      else Inr ((from_bytes_big (drop (length producer - 4) producer) + seq) mod nshards))"

section \<open>The header\<close>

lemma restamp_header:
  assumes "41 \<le> length raw" and "length producer = 16" and "length sb = 8"
  shows "pyslice 0 1 (restamp producer sb raw) = pyslice 0 1 raw" and "pyslice 1 17 (restamp producer sb raw) = pyslice 1 17 raw"
    and "pyslice 17 33 (restamp producer sb raw) = producer" and "pyslice 33 41 (restamp producer sb raw) = sb"
    and "drop 41 (restamp producer sb raw) = drop 41 raw"
    and "peek_type (restamp producer sb raw) = peek_type raw"
proof -
  have l: "length (take 17 raw) = 17" using assms(1) by simp
  show "pyslice 0 1 (restamp producer sb raw) = pyslice 0 1 raw" "pyslice 1 17 (restamp producer sb raw) = pyslice 1 17 raw"
    using assms by (simp_all add: pyslice_def restamp_def take_drop min_def)
  show "pyslice 17 33 (restamp producer sb raw) = producer" "pyslice 33 41 (restamp producer sb raw) = sb"
    "drop 41 (restamp producer sb raw) = drop 41 raw"
    using assms l by (simp_all add: pyslice_def restamp_def)
  show "peek_type (restamp producer sb raw) = peek_type raw"
    using assms(1) by (cases raw) (simp_all add: peek_type_def restamp_def)
qed

lemma deserialize_restamp:
  assumes "41 \<le> length raw" and "length producer = 16" and "to_bytes_big seq 8 = Inr sb"
    and "deserialize_message unpackb raw = Inr m"
  shows "deserialize_message unpackb (restamp producer sb raw) = Inr (m\<lparr>msg_producer := producer, msg_seq := seq\<rparr>)"
proof -
  note h = restamp_header [OF assms(1,2) to_bytes_big_length [OF assms(3)]]
  have v: "from_bytes_big sb = seq" using from_to_bytes_big [OF assms(3)] .
  obtain t where t: "peek_type raw = Inr t" using assms(1) by (cases raw) (auto simp: peek_type_def)
  obtain f where f: "class_of_code t = Some f"
    using assms(4) t by (cases "class_of_code t") (auto simp: deserialize_message_def)
  from assms(4) t f have "deserialize unpackb t raw = Inr m" by (simp add: deserialize_message_def)
  then have "deserialize unpackb t (restamp producer sb raw) = Inr (m\<lparr>msg_producer := producer, msg_seq := seq\<rparr>)"
    using t f v by (auto simp: deserialize_def h h(2) [unfolded One_nat_def] bind_result_def split: option.splits sum.splits)
  with t f show ?thesis by (simp add: deserialize_message_def h)
qed

fun send_all :: "bytes list \<Rightarrow> stamper \<Rightarrow> stamper result" where
  "send_all [] st = Inr st"
| "send_all (raw # raws) st = bind_result (send raw st) (send_all raws)"

definition is_data :: "bytes \<Rightarrow> bool" where
  "is_data raw = (case peek_type raw of Inl e \<Rightarrow> False | Inr t \<Rightarrow> t \<notin> set unstamped_types)"

lemma send_data:
  assumes "is_data raw" and "0 \<le> st_counter st" and "st_counter st + 1 < 256 ^ 8"
  shows "\<exists>sb. to_bytes_big (st_counter st + 1) 8 = Inr sb \<and>
    send raw st = Inr (st\<lparr>st_counter := st_counter st + 1, st_sent := st_sent st @ [restamp (st_producer st) sb raw]\<rparr>)"
  using assms by (auto simp: is_data_def send_def counter_next_def to_bytes_big_def split: sum.splits)

definition identity_of :: "bytes \<Rightarrow> bytes \<times> int" where
  "identity_of raw = (pyslice 17 33 raw, from_bytes_big (pyslice 33 41 raw))"

lemma send_all_identities:
  assumes "\<And>raw. raw \<in> set raws \<Longrightarrow> is_data raw \<and> 41 \<le> length raw" and "length (st_producer st) = 16"
    and "0 \<le> st_counter st" and "st_counter st + int (length raws) < 256 ^ 8"
  shows "\<exists>st'. send_all raws st = Inr st' \<and> st_counter st' = st_counter st + int (length raws) \<and>
    (\<exists>out. st_sent st' = st_sent st @ out \<and> length out = length raws \<and>
      map identity_of out = map (\<lambda>i. (st_producer st, st_counter st + 1 + int i)) [0..<length raws])"
  using assms
proof (induction raws arbitrary: st)
  case (Cons raw raws)
  have d: "is_data raw" "41 \<le> length raw" using Cons.prems(1) by auto
  obtain sb where sb: "to_bytes_big (st_counter st + 1) 8 = Inr sb"
    "send raw st = Inr (st\<lparr>st_counter := st_counter st + 1, st_sent := st_sent st @ [restamp (st_producer st) sb raw]\<rparr>)"
    using send_data [OF d(1) Cons.prems(3)] Cons.prems(4) by auto
  let ?st = "st\<lparr>st_counter := st_counter st + 1, st_sent := st_sent st @ [restamp (st_producer st) sb raw]\<rparr>"
  obtain st' out where IH: "send_all raws ?st = Inr st'" "st_counter st' = st_counter st + 1 + int (length raws)"
    "st_sent st' = st_sent st @ restamp (st_producer st) sb raw # out" "length out = length raws"
    "map identity_of out = map (\<lambda>i. (st_producer st, st_counter st + 2 + int i)) [0..<length raws]"
    using Cons.IH [of ?st] Cons.prems by auto
  have id: "identity_of (restamp (st_producer st) sb raw) = (st_producer st, st_counter st + 1)"
    using restamp_header(3,4) [OF d(2) Cons.prems(2) to_bytes_big_length [OF sb(1)]] from_to_bytes_big [OF sb(1)]
    by (simp add: identity_of_def)
  have upt: "[0..<Suc (length raws)] = 0 # map Suc [0..<length raws]"
    by (simp add: map_Suc_upt upt_conv_Cons del: upt_Suc)
  have "map identity_of (restamp (st_producer st) sb raw # out) =
      map (\<lambda>i. (st_producer st, st_counter st + 1 + int i)) [0..<length (raw # raws)]"
    using IH(5) id by (simp add: upt comp_def algebra_simps del: upt_Suc)
  with IH sb(2) show ?case by (intro exI [of _ st'] conjI exI [of _ "restamp (st_producer st) sb raw # out"]) auto
qed simp

section \<open>Properties\<close>

text \<open>
  Stamping rewrites the identity and nothing else: a message sent through a stamper reads back
  as the same message with the stamper's producer and the next sequence number.
\<close>

theorem stamped_message_reads_back:
  assumes "deserialize_message unpackb raw = Inr m" and "41 \<le> length raw" and "is_data raw"
    and "length (st_producer st) = 16" and "0 \<le> st_counter st" and "st_counter st + 1 < 256 ^ 8"
  shows "\<exists>st' raw'. send raw st = Inr st' \<and> st_sent st' = st_sent st @ [raw'] \<and> st_counter st' = st_counter st + 1 \<and>
    deserialize_message unpackb raw' = Inr (m\<lparr>msg_producer := st_producer st, msg_seq := st_counter st + 1\<rparr>)"
  using send_data [OF assms(3,5,6)] deserialize_restamp [OF assms(2,4) _ assms(1)] by auto

definition demo_raw :: bytes where
  "demo_raw = 10 # replicate 40 0 @ [7]"

definition demo_stamper :: stamper where
  "demo_stamper = \<lparr>st_producer = replicate 16 4, st_counter = 8, st_sent = []\<rparr>"

theorem stamped_message_reads_back_witness:
  "\<exists>st' raw'. send demo_raw demo_stamper = Inr st' \<and> st_sent st' = st_sent demo_stamper @ [raw'] \<and>
     st_counter st' = st_counter demo_stamper + 1 \<and>
     deserialize_message (\<lambda>bs. Some [VInt 7]) raw' =
       Inr ((new_message 0 (TransactionCount 7))\<lparr>msg_producer := st_producer demo_stamper, msg_seq := st_counter demo_stamper + 1\<rparr>)"
proof (rule stamped_message_reads_back)
  show "deserialize_message (\<lambda>bs. Some [VInt 7]) demo_raw = Inr (new_message 0 (TransactionCount 7))"
    by code_simp
  show "41 \<le> length demo_raw" "is_data demo_raw" "length (st_producer demo_stamper) = 16" "0 \<le> st_counter demo_stamper"
    "st_counter demo_stamper + 1 < 256 ^ 8"
    by code_simp+
qed

text \<open>
  A stamper numbers its data messages consecutively: sending any batch from the counter value
  c stamps the identities (producer, c + 1), (producer, c + 2), ... in order, so no two messages of
  a route share an identity and a node that resumes from a checkpointed counter gives its messages
  the same identities again.
\<close>

theorem stamps_consecutive:
  assumes "\<forall>raw\<in>set raws. is_data raw \<and> 41 \<le> length raw" and "length (st_producer st) = 16"
    and "0 \<le> st_counter st" and "st_counter st + int (length raws) < 256 ^ 8"
  shows "\<exists>st' out. send_all raws st = Inr st' \<and> st_sent st' = st_sent st @ out \<and>
    map identity_of out = map (\<lambda>i. (st_producer st, st_counter st + 1 + int i)) [0..<length raws]"
proof -
  obtain st' out where "send_all raws st = Inr st'" "st_sent st' = st_sent st @ out"
    "map identity_of out = map (\<lambda>i. (st_producer st, st_counter st + 1 + int i)) [0..<length raws]"
    using send_all_identities [of raws st] assms by blast
  then show ?thesis by blast
qed

theorem stamps_consecutive_witness:
  "\<exists>st' out. send_all [demo_raw, demo_raw] demo_stamper = Inr st' \<and> st_sent st' = st_sent demo_stamper @ out \<and>
     map identity_of out = [(replicate 16 4, 9), (replicate 16 4, 10)]"
proof -
  have "\<forall>raw\<in>set [demo_raw, demo_raw]. is_data raw \<and> 41 \<le> length raw" "length (st_producer demo_stamper) = 16"
    "0 \<le> st_counter demo_stamper" "st_counter demo_stamper + int (length [demo_raw, demo_raw]) < 256 ^ 8"
    by code_simp+
  from stamps_consecutive [OF this] show ?thesis by (simp add: demo_stamper_def)
qed

text \<open>
  The 64-bit sequence number is a hard limit: a stamper at its last number cannot send another
  data message, while control messages still pass unchanged and take no number.
\<close>

theorem stamp_overflow:
  assumes "st_counter st = 256 ^ 8 - 1"
  shows "(is_data raw \<longrightarrow> send raw st = Inl OverflowError) \<and>
    (peek_type raw = Inr t \<longrightarrow> t \<in> set unstamped_types \<longrightarrow> send raw st = Inr (st\<lparr>st_sent := st_sent st @ [raw]\<rparr>))"
  using assms by (auto simp: is_data_def send_def counter_next_def to_bytes_big_def split: sum.splits)

theorem stamp_overflow_witness: "send demo_raw (demo_stamper\<lparr>st_counter := 256 ^ 8 - 1\<rparr>) = Inl OverflowError"
proof -
  have "is_data demo_raw" by code_simp
  then show ?thesis using stamp_overflow [of "demo_stamper\<lparr>st_counter := 256 ^ 8 - 1\<rparr>" demo_raw] by simp
qed

end
