(* ===== verification/Transport.thy ===== *)
theory Transport
  imports Stamping
begin

text \<open>
  The framing of the client connection (\<open>common/comms/transport/connection.py\<close>): each message is
  preceded by its length in four big-endian bytes.  TCP delivers the bytes in chunks of its own
  choosing: the receiving side is a list of the chunks still to come, each what one
  \<open>socket.recv\<close> may return at most.
\<close>

record connection =
  cn_running :: bool
  cn_chunks :: "bytes list"

definition conn_send :: "bytes \<Rightarrow> bytes result" where
  "conn_send bs = bind_result (to_bytes_big (int (length bs)) 4) (\<lambda>len. Inr (len @ bs))"

text \<open>\<open>socket.recv(missing)\<close>: at most \<open>missing\<close> bytes of the next chunk; no bytes when the peer has
  closed, which \<open>__recv_exact\<close> turns into an error.\<close>

function recv_exact :: "nat \<Rightarrow> bytes list \<Rightarrow> (bytes \<times> bytes list) result" where
  "recv_exact missing chunks =
     (if missing = 0 then Inr ([], chunks)
      else case chunks of
             [] \<Rightarrow> Inl OSError
           | ch # cs \<Rightarrow>
               if ch = [] then Inl OSError
               else let got = take missing ch;
                        rem = (if length ch \<le> missing then cs else drop missing ch # cs)
                    in bind_result (recv_exact (missing - length got) rem) (\<lambda>(bs, cs'). Inr (got @ bs, cs')))"
  by pat_completeness auto
termination
  by (relation "measure (\<lambda>(missing, chunks). missing)") (auto simp: neq_Nil_conv)

declare recv_exact.simps [simp del]

definition conn_recv :: "connection \<Rightarrow> (bytes \<times> connection) result" where
  "conn_recv c =
     (case bind_result (recv_exact 4 (cn_chunks c)) (\<lambda>(len, cs). recv_exact (nat (from_bytes_big len)) cs) of
        Inl e \<Rightarrow> if cn_running c then Inl e else Inr ([], c)
      | Inr (bs, cs) \<Rightarrow> Inr (bs, c\<lparr>cn_chunks := cs\<rparr>))"

definition conn_close :: "connection \<Rightarrow> connection" where
  "conn_close c = c\<lparr>cn_running := False, cn_chunks := []\<rparr>"

fun recv_many :: "nat \<Rightarrow> connection \<Rightarrow> (bytes list \<times> connection) result" where
  "recv_many 0 c = Inr ([], c)"
| "recv_many (Suc k) c =
     bind_result (conn_recv c) (\<lambda>(bs, c). bind_result (recv_many k c) (\<lambda>(bss, c). Inr (bs # bss, c)))"

section \<open>Reassembly\<close>

lemma recv_exact_concat:
  assumes "n \<le> length (concat chunks)" and "[] \<notin> set chunks"
  shows "\<exists>cs. recv_exact n chunks = Inr (take n (concat chunks), cs) \<and> concat cs = drop n (concat chunks) \<and> [] \<notin> set cs"
  using assms
proof (induction n chunks rule: recv_exact.induct)
  case (1 missing chunks)
  show ?case
  proof (cases "missing = 0 \<or> chunks = []")
    case True
    with 1(2,3) show ?thesis by (auto simp: recv_exact.simps)
  next
    case False
    then obtain ch cs where ch: "chunks = ch # cs" by (cases chunks) auto
    with 1(3) have ne: "ch \<noteq> []" by auto
    let ?got = "take missing ch"
    let ?rem = "if length ch \<le> missing then cs else drop missing ch # cs"
    have "\<exists>cs'. recv_exact (missing - length ?got) ?rem = Inr (take (missing - length ?got) (concat ?rem), cs') \<and>
        concat cs' = drop (missing - length ?got) (concat ?rem) \<and> [] \<notin> set cs'"
      using 1(1) [OF _ ch ne refl refl] False 1(2,3) ch by (auto simp: min_def)
    then obtain cs' where cs': "recv_exact (missing - length ?got) ?rem = Inr (take (missing - length ?got) (concat ?rem), cs')"
      "concat cs' = drop (missing - length ?got) (concat ?rem)" "[] \<notin> set cs'" by blast
    have "recv_exact missing chunks = Inr (?got @ take (missing - length ?got) (concat ?rem), cs')"
      using False ch ne cs'(1) by (subst recv_exact.simps) (simp add: Let_def del: length_take)
    moreover have "?got @ take (missing - length ?got) (concat ?rem) = take missing (concat chunks)"
      "drop (missing - length ?got) (concat ?rem) = drop missing (concat chunks)"
      using ch by (auto simp: min_def)
    ultimately show ?thesis using cs' by auto
  qed
qed

definition frame :: "bytes \<Rightarrow> bytes" where
  "frame bs = be_bytes 4 (length bs) @ bs"

lemma conn_send_frame: "length bs < 256 ^ 4 \<Longrightarrow> conn_send bs = Inr (frame bs)"
  by (simp add: conn_send_def to_bytes_big_def frame_def)

lemma conn_recv_frame:
  assumes "length bs < 256 ^ 4" and "concat chunks = frame bs @ rest" and "[] \<notin> set chunks"
  shows "\<exists>cs. conn_recv \<lparr>cn_running = r, cn_chunks = chunks\<rparr> = Inr (bs, \<lparr>cn_running = r, cn_chunks = cs\<rparr>) \<and>
    concat cs = rest \<and> [] \<notin> set cs"
proof -
  have l4: "length (be_bytes 4 (length bs)) = 4" by (rule length_be_bytes)
  have "4 \<le> length (concat chunks)" using assms(2) l4 by (simp add: frame_def)
  then obtain c1 where c1: "recv_exact 4 chunks = Inr (take 4 (concat chunks), c1)" "concat c1 = drop 4 (concat chunks)" "[] \<notin> set c1"
    using recv_exact_concat [OF _ assms(3)] by blast
  have h: "take 4 (concat chunks) = be_bytes 4 (length bs)" "concat c1 = bs @ rest"
    using assms(2) c1(2) l4 by (simp_all add: frame_def)
  have len: "nat (from_bytes_big (be_bytes 4 (length bs))) = length bs"
    using assms(1) by (simp add: from_bytes_be_bytes)
  obtain c2 where "recv_exact (length bs) c1 = Inr (take (length bs) (concat c1), c2)" "concat c2 = drop (length bs) (concat c1)" "[] \<notin> set c2"
    using recv_exact_concat [OF _ c1(3), of "length bs"] h(2) by auto
  then have c2: "recv_exact (length bs) c1 = Inr (bs, c2)" "concat c2 = rest" "[] \<notin> set c2"
    unfolding h(2) by simp_all
  from c1(1) h(1) have "recv_exact 4 chunks = Inr (be_bytes 4 (length bs), c1)" by simp
  with c2 len show ?thesis by (simp add: conn_recv_def)
qed

lemma recv_many_frames:
  assumes "\<And>bs. bs \<in> set msgs \<Longrightarrow> length bs < 256 ^ 4" and "concat chunks = concat (map frame msgs) @ rest" and "[] \<notin> set chunks"
  shows "\<exists>cs. recv_many (length msgs) \<lparr>cn_running = r, cn_chunks = chunks\<rparr> = Inr (msgs, \<lparr>cn_running = r, cn_chunks = cs\<rparr>) \<and>
    concat cs = rest \<and> [] \<notin> set cs"
  using assms
proof (induction msgs arbitrary: chunks)
  case (Cons m msgs)
  obtain cs where cs: "conn_recv \<lparr>cn_running = r, cn_chunks = chunks\<rparr> = Inr (m, \<lparr>cn_running = r, cn_chunks = cs\<rparr>)"
    "concat cs = concat (map frame msgs) @ rest" "[] \<notin> set cs"
    using conn_recv_frame [of m chunks "concat (map frame msgs) @ rest" r] Cons.prems by auto
  from Cons.IH [OF _ cs(2,3)] Cons.prems(1) cs(1) show ?case by auto
qed auto

section \<open>Properties\<close>

text \<open>
  C17.  Framing survives any segmentation: whatever chunks TCP cuts the stream into, the receiver
  gets back exactly the messages that were sent, one per \<open>recv\<close>, in order, and the bytes that
  follow stay in the stream.
\<close>

theorem framing_roundtrip:
  assumes "\<forall>bs\<in>set msgs. length bs < 2 ^ 32" and "concat chunks = concat (map frame msgs) @ rest" and "[] \<notin> set chunks"
  shows "(\<forall>bs\<in>set msgs. conn_send bs = Inr (frame bs)) \<and>
    (\<exists>cs. recv_many (length msgs) \<lparr>cn_running = r, cn_chunks = chunks\<rparr> = Inr (msgs, \<lparr>cn_running = r, cn_chunks = cs\<rparr>) \<and>
      concat cs = rest)"
proof -
  have b: "length bs < 256 ^ 4" if "bs \<in> set msgs" for bs using assms(1) that by auto
  with recv_many_frames [OF b assms(2,3), of r] show ?thesis using conn_send_frame by blast
qed

theorem framing_roundtrip_witness:
  "\<exists>cs. recv_many (length [[5, 6], [9 :: byte]]) \<lparr>cn_running = True, cn_chunks = [[0, 0], [0, 2, 5], [6, 0, 0, 0], [1, 9, 7]]\<rparr> =
     Inr ([[5, 6], [9]], \<lparr>cn_running = True, cn_chunks = cs\<rparr>) \<and> concat cs = [7]"
proof -
  have "concat [[0, 0], [0, 2, 5], [6, 0, 0, 0], [1, 9, 7]] = concat (map frame [[5, 6], [9]]) @ [7]"
    by code_simp
  moreover have "\<forall>bs\<in>set [[5, 6], [9 :: byte]]. length bs < 2 ^ 32" by simp
  moreover have "[] \<notin> set [[0, 0], [0, 2, 5], [6, 0, 0, 0], [1, 9, 7 :: byte]]" by simp
  ultimately show ?thesis using framing_roundtrip by blast
qed

end
