(* ===== verification/Gateway.thy ===== *)
theory Gateway
  imports Transport
begin

text \<open>
  One client's session at the gateway (\<open>gateway/client_stream_handler.py\<close>,
  \<open>gateway/client_stream_monitor.py\<close>): the reader thread forwards the client's batches to the
  shard queues round robin, stamping the client identifier and the sequence number, and announces
  to each shard how many messages it got; a client that goes away is aborted.  What \<open>conn.recv\<close>
  returns is a list of results; the broker is the list of messages sent to each shard.
\<close>

datatype recv_result = Got bytes | RaisedOS

text \<open>The writers of one stream: one counter shared by every shard.\<close>

record writers =
  w_producer :: bytes
  w_counter :: int
  w_shards :: "bytes list list"

definition new_writers :: "bytes \<Rightarrow> nat \<Rightarrow> writers" where
  "new_writers producer n = \<lparr>w_producer = producer, w_counter = 0, w_shards = replicate n []\<rparr>"

definition shard_send :: "nat \<Rightarrow> bytes \<Rightarrow> writers \<Rightarrow> writers result" where
  "shard_send i raw w =
     bind_result (send raw \<lparr>st_producer = w_producer w, st_counter = w_counter w, st_sent = w_shards w ! i\<rparr>)
       (\<lambda>st. Inr (w\<lparr>w_counter := st_counter st, w_shards := (w_shards w)[i := st_sent st]\<rparr>))"

definition stamp_id :: "uuid \<Rightarrow> bytes \<Rightarrow> bytes" where
  "stamp_id cid raw = pyslice 0 1 raw @ uuid_bytes cid @ drop 17 raw"

definition eof_bytes :: "(pyval list \<Rightarrow> bytes) \<Rightarrow> uuid \<Rightarrow> int \<Rightarrow> bytes result" where
  "eof_bytes packb cid expected = serialize packb (new_message cid (EOF (- 1) expected (- 1) (- 1) []))"

definition abort_bytes :: "(pyval list \<Rightarrow> bytes) \<Rightarrow> uuid \<Rightarrow> bytes result" where
  "abort_bytes packb cid = serialize packb (new_message cid Abort)"

fun send_eofs :: "(pyval list \<Rightarrow> bytes) \<Rightarrow> uuid \<Rightarrow> int list \<Rightarrow> nat list \<Rightarrow> writers \<Rightarrow> writers result" where
  "send_eofs packb cid counts [] w = Inr w"
| "send_eofs packb cid counts (i # is) w =
     bind_result (eof_bytes packb cid (counts ! i)) (\<lambda>raw.
     bind_result (shard_send i raw w) (\<lambda>w. send_eofs packb cid counts is w))"

fun send_aborts :: "(pyval list \<Rightarrow> bytes) \<Rightarrow> uuid \<Rightarrow> nat list \<Rightarrow> writers \<Rightarrow> writers result" where
  "send_aborts packb cid [] w = Inr w"
| "send_aborts packb cid (i # is) w =
     bind_result (abort_bytes packb cid) (\<lambda>raw.
     bind_result (shard_send i raw w) (\<lambda>w. send_aborts packb cid is w))"

text \<open>
  \<open>_forward_sharded\<close>.  The result is the value returned, \<open>None\<close> while the loop still waits for the
  client, with the writers and the results of \<open>recv\<close> not yet consumed; an exception is \<open>Inl\<close> with
  the writers as they are.
\<close>

fun forward_loop ::
  "(pyval list \<Rightarrow> bytes) \<Rightarrow> uuid \<Rightarrow> nat \<Rightarrow> nat \<Rightarrow> int list \<Rightarrow> nat \<Rightarrow> writers \<Rightarrow> recv_result list \<Rightarrow>
   (py_error + bool option) \<times> writers \<times> recv_result list" where
  "forward_loop packb cid dt n counts rr w [] = (Inr None, w, [])"
| "forward_loop packb cid dt n counts rr w (RaisedOS # ins) = (Inl OSError, w, ins)"
| "forward_loop packb cid dt n counts rr w (Got raw # ins) =
     (case peek_type raw of
        Inl e \<Rightarrow> (Inr (Some False), w, ins)
      | Inr t \<Rightarrow>
          if t = 0 then
            (case send_eofs packb cid counts [0..<n] w of
               Inl e \<Rightarrow> (Inl e, w, ins) | Inr w \<Rightarrow> (Inr (Some True), w, ins))
          else if t = dt then
            (if n = 0 then (Inl ZeroDivisionError, w, ins)
             else case shard_send (rr mod n) (stamp_id cid raw) w of
               Inl e \<Rightarrow> (Inl e, w, ins)
             | Inr w \<Rightarrow> forward_loop packb cid dt n (counts[rr mod n := counts ! (rr mod n) + 1]) (rr + 1) w ins)
          else (Inr (Some False), w, ins))"

definition forward_sharded ::
  "(pyval list \<Rightarrow> bytes) \<Rightarrow> uuid \<Rightarrow> nat \<Rightarrow> writers \<Rightarrow> recv_result list \<Rightarrow>
   (py_error + bool option) \<times> writers \<times> recv_result list" where
  "forward_sharded packb cid dt w ins =
     (let n = length (w_shards w) in forward_loop packb cid dt n (replicate n 0) 0 w ins)"

section \<open>The session\<close>

text \<open>\<open>s_error\<close> records an exception that ends the reader thread.\<close>

record session =
  s_id :: uuid
  s_trans :: writers
  s_accs :: writers
  s_to_client :: "bytes list"
  s_registered :: bool
  s_consuming :: bool
  s_closed :: bool
  s_error :: "py_error option"

definition new_session :: "uuid \<Rightarrow> (string \<Rightarrow> bytes) \<Rightarrow> nat \<Rightarrow> nat \<Rightarrow> session" where
  "new_session cid uuid5 ntrans naccs =
     \<lparr>s_id = cid, s_trans = new_writers (derive_producer_id uuid5 (uuid_str cid) 0 0) ntrans,
      s_accs = new_writers (derive_producer_id uuid5 (uuid_str cid) 0 1) naccs,
      s_to_client = [], s_registered = False, s_consuming = False, s_closed = False, s_error = None\<rparr>"

definition close_session :: "session \<Rightarrow> session" where
  "close_session s = s\<lparr>s_closed := True\<rparr>"

definition teardown :: "session \<Rightarrow> session" where
  "teardown s = close_session (s\<lparr>s_registered := False, s_consuming := False\<rparr>)"

definition abort_session :: "(pyval list \<Rightarrow> bytes) \<Rightarrow> session \<Rightarrow> session" where
  "abort_session packb s =
     (case bind_result (send_aborts packb (s_id s) [0..<length (w_shards (s_trans s))] (s_trans s)) (\<lambda>t.
           bind_result (send_aborts packb (s_id s) [0..<length (w_shards (s_accs s))] (s_accs s)) (\<lambda>a. Inr (t, a))) of
        Inl e \<Rightarrow> s\<lparr>s_error := Some e\<rparr>
      | Inr (t, a) \<Rightarrow> teardown (s\<lparr>s_trans := t, s_accs := a\<rparr>))"

text \<open>The part of \<open>_run\<close> after the handshake.\<close>

definition forward_both :: "(pyval list \<Rightarrow> bytes) \<Rightarrow> session \<Rightarrow> recv_result list \<Rightarrow> session" where
  "forward_both packb s ins =
     (let (r1, t, ins) = forward_sharded packb (s_id s) 1 (s_trans s) ins; s = s\<lparr>s_trans := t\<rparr> in
      case r1 of
        Inl OSError \<Rightarrow> s
      | Inl e \<Rightarrow> s\<lparr>s_error := Some e\<rparr>
      | Inr None \<Rightarrow> s
      | Inr (Some False) \<Rightarrow> abort_session packb s
      | Inr (Some True) \<Rightarrow>
          let (r2, a, ins) = forward_sharded packb (s_id s) 2 (s_accs s) ins; s = s\<lparr>s_accs := a\<rparr> in
          case r2 of
            Inl OSError \<Rightarrow> s
          | Inl e \<Rightarrow> s\<lparr>s_error := Some e\<rparr>
          | Inr None \<Rightarrow> s
          | Inr (Some False) \<Rightarrow> abort_session packb s
          | Inr (Some True) \<Rightarrow> s)"

text \<open>\<open>_run\<close>.  \<open>ack_sent\<close> is false when sending the acknowledgement of the handshake fails.\<close>

definition run_session ::
  "(pyval list \<Rightarrow> bytes) \<Rightarrow> (bytes \<Rightarrow> pyval list option) \<Rightarrow> bool \<Rightarrow> session \<Rightarrow> recv_result list \<Rightarrow> session" where
  "run_session packb unpackb ack_sent s ins =
     (case ins of
        [] \<Rightarrow> s
      | RaisedOS # ins \<Rightarrow> teardown s
      | Got raw # ins \<Rightarrow>
          if raw = [] then close_session s
          else case deserialize unpackb 19 raw of
                 Inl e \<Rightarrow> s\<lparr>s_error := Some e\<rparr>
               | Inr m \<Rightarrow>
                   case serialize packb (new_message (s_id s) HelloAck) of
                     Inl e \<Rightarrow> s\<lparr>s_registered := True, s_error := Some e\<rparr>
                   | Inr ack \<Rightarrow>
                       if \<not> ack_sent then teardown (s\<lparr>s_registered := True\<rparr>)
                       else forward_both packb
                         (s\<lparr>s_registered := True, s_to_client := s_to_client s @ [ack], s_consuming := True\<rparr>) ins)"

text \<open>\<open>_deliver_response\<close>: acknowledged only when the bytes are on the wire.\<close>

definition deliver_response :: "bytes \<Rightarrow> bool \<Rightarrow> session \<Rightarrow> session \<times> bool" where
  "deliver_response raw send_ok s =
     (if send_ok then (s\<lparr>s_to_client := s_to_client s @ [raw]\<rparr>, True) else (teardown s, False))"

section \<open>The registry of sessions\<close>

definition monitor_add :: "session \<Rightarrow> (uuid, session) dict \<Rightarrow> (uuid, session) dict" where
  "monitor_add s reg = dict_set (s_id s) s reg"

definition monitor_remove :: "uuid \<Rightarrow> (uuid, session) dict \<Rightarrow> (uuid, session) dict" where
  "monitor_remove cid reg = dict_pop cid reg"

definition monitor_stop_all :: "(uuid, session) dict \<Rightarrow> session list \<times> (uuid, session) dict" where
  "monitor_stop_all reg = (map (\<lambda>(cid, s). close_session (s\<lparr>s_consuming := False\<rparr>)) reg, [])"

section \<open>Round robin\<close>

text \<open>The message of index \<open>j\<close> as it reaches its shard, and the indices of a shard.\<close>

definition stamped_batch :: "uuid \<Rightarrow> bytes \<Rightarrow> bytes list \<Rightarrow> nat \<Rightarrow> bytes" where
  "stamped_batch cid producer raws j = restamp producer (be_bytes 8 (Suc j)) (stamp_id cid (raws ! j))"

definition shard_indices :: "nat \<Rightarrow> nat \<Rightarrow> nat \<Rightarrow> nat list" where
  "shard_indices n k i = filter (\<lambda>j. j mod n = i) [0..<k]"

definition wf_batch :: "nat \<Rightarrow> bytes \<Rightarrow> bool" where
  "wf_batch dt raw \<longleftrightarrow> peek_type raw = Inr dt \<and> 41 \<le> length raw"

lemma stamp_id_props:
  assumes "41 \<le> length raw"
  shows "peek_type (stamp_id cid raw) = peek_type raw" and "length (stamp_id cid raw) = length raw"
    and "pyslice 1 17 (stamp_id cid raw) = uuid_bytes cid" and "drop 17 (stamp_id cid raw) = drop 17 raw"
  using assms by (cases raw; auto simp: stamp_id_def pyslice_def peek_type_def)+

lemma shard_send_batch:
  assumes "wf_batch dt raw" and "dt \<notin> set unstamped_types" and "w_counter w = int j" and "Suc j < 256 ^ 8"
  shows "shard_send i (stamp_id cid raw) w =
    Inr (w\<lparr>w_counter := int (Suc j),
           w_shards := (w_shards w)[i := w_shards w ! i @ [restamp (w_producer w) (be_bytes 8 (Suc j)) (stamp_id cid raw)]]\<rparr>)"
proof -
  have "peek_type (stamp_id cid raw) = Inr dt" using assms(1) by (simp add: wf_batch_def stamp_id_props)
  moreover have "to_bytes_big (int j + 1) 8 = Inr (be_bytes 8 (Suc j))"
    using assms(4) by (simp add: to_bytes_big_def nat_add_distrib)
  ultimately show ?thesis
    using assms(2,3) by (simp add: shard_send_def send_def counter_next_def add.commute)
qed

text \<open>The state after \<open>k\<close> batches.\<close>

definition rr_state :: "uuid \<Rightarrow> bytes \<Rightarrow> nat \<Rightarrow> bytes list \<Rightarrow> writers \<Rightarrow> int list \<Rightarrow> bool" where
  "rr_state cid producer n raws w counts \<longleftrightarrow>
     w_producer w = producer \<and> w_counter w = int (length raws) \<and> length (w_shards w) = n \<and> length counts = n \<and>
     (\<forall>i<n. w_shards w ! i = map (stamped_batch cid producer raws) (shard_indices n (length raws) i) \<and>
            counts ! i = int (length (shard_indices n (length raws) i)))"

lemma shard_indices_snoc:
  "shard_indices n (Suc k) i = shard_indices n k i @ (if k mod n = i then [k] else [])"
  by (simp add: shard_indices_def)

lemma stamped_batch_snoc:
  "map (stamped_batch cid producer (raws @ [raw])) (shard_indices n (length raws) i) =
   map (stamped_batch cid producer raws) (shard_indices n (length raws) i)"
  by (rule map_cong) (auto simp: stamped_batch_def shard_indices_def nth_append)

lemma rr_step:
  assumes st: "rr_state cid producer n raws w counts" and raw: "wf_batch dt raw" "dt \<notin> set unstamped_types"
    and n: "0 < n" and lim: "Suc (length raws) < 256 ^ 8"
  shows "\<exists>w'. shard_send (length raws mod n) (stamp_id cid raw) w = Inr w' \<and>
    rr_state cid producer n (raws @ [raw]) w' (counts[length raws mod n := counts ! (length raws mod n) + 1])"
proof -
  let ?i = "length raws mod n"
  from st have w: "w_counter w = int (length raws)" "w_producer w = producer" "length (w_shards w) = n" "length counts = n"
    and sh: "\<And>i. i < n \<Longrightarrow> w_shards w ! i = map (stamped_batch cid producer raws) (shard_indices n (length raws) i)"
    and ct: "\<And>i. i < n \<Longrightarrow> counts ! i = int (length (shard_indices n (length raws) i))"
    by (auto simp: rr_state_def)
  have i: "?i < n" using n by simp
  let ?w = "w\<lparr>w_counter := int (Suc (length raws)),
      w_shards := (w_shards w)[?i := w_shards w ! ?i @ [restamp producer (be_bytes 8 (Suc (length raws))) (stamp_id cid raw)]]\<rparr>"
  have "shard_send ?i (stamp_id cid raw) w = Inr ?w"
    using shard_send_batch [OF raw w(1) lim] w(2) by simp
  moreover have "rr_state cid producer n (raws @ [raw]) ?w (counts[?i := counts ! ?i + 1])"
    using w sh ct i
    by (auto simp: rr_state_def shard_indices_snoc stamped_batch_snoc nth_list_update)
      (auto simp: stamped_batch_def)
  ultimately show ?thesis by blast
qed

lemma forward_batches:
  assumes "rr_state cid producer n raws w counts" and "\<And>raw. raw \<in> set nxt \<Longrightarrow> wf_batch dt raw"
    and "dt \<notin> set unstamped_types" and "0 < n" and "length raws + length nxt < 256 ^ 8"
  shows "\<exists>w' counts'. rr_state cid producer n (raws @ nxt) w' counts' \<and>
    forward_loop packb cid dt n counts (length raws) w (map Got nxt @ ins) =
    forward_loop packb cid dt n counts' (length raws + length nxt) w' ins"
  using assms
proof (induction nxt arbitrary: raws w counts)
  case (Cons raw nxt)
  have raw: "wf_batch dt raw" and dt: "dt \<noteq> 0" using Cons.prems(2,3) by (auto simp: unstamped_types_def)
  obtain w1 where w1: "shard_send (length raws mod n) (stamp_id cid raw) w = Inr w1"
    "rr_state cid producer n (raws @ [raw]) w1 (counts[length raws mod n := counts ! (length raws mod n) + 1])"
    using rr_step [OF Cons.prems(1) raw Cons.prems(3,4)] Cons.prems(5) by auto
  from Cons.IH [OF w1(2)] Cons.prems obtain w' counts' where
    "rr_state cid producer n ((raws @ [raw]) @ nxt) w' counts'"
    "forward_loop packb cid dt n (counts[length raws mod n := counts ! (length raws mod n) + 1]) (length (raws @ [raw])) w1 (map Got nxt @ ins) =
     forward_loop packb cid dt n counts' (length (raws @ [raw]) + length nxt) w' ins" by auto
  with w1(1) raw dt Cons.prems(4) show ?case by (auto simp: wf_batch_def)
qed auto

section \<open>The end of a stream\<close>

lemma eof_bytes_ok: "\<exists>raw. eof_bytes packb cid e = Inr raw \<and> peek_type raw = Inr 0"
  by (simp add: eof_bytes_def serialize_def new_message_def to_bytes_big_def type_code_def peek_type_def)

lemma shard_send_control:
  "peek_type raw = Inr t \<Longrightarrow> t \<in> set unstamped_types \<Longrightarrow>
   shard_send i raw w = Inr (w\<lparr>w_shards := (w_shards w)[i := w_shards w ! i @ [raw]]\<rparr>)"
  by (simp add: shard_send_def send_def)

lemma send_eofs_shards:
  assumes "distinct is" and "\<And>i. i \<in> set is \<Longrightarrow> i < length (w_shards w)"
  shows "\<exists>w'. send_eofs packb cid counts is w = Inr w' \<and> length (w_shards w') = length (w_shards w) \<and>
    (\<forall>j<length (w_shards w). if j \<in> set is then \<exists>raw. eof_bytes packb cid (counts ! j) = Inr raw \<and> w_shards w' ! j = w_shards w ! j @ [raw]
       else w_shards w' ! j = w_shards w ! j)"
  using assms
proof (induction "is" arbitrary: w)
  case (Cons i "is")
  obtain raw where raw: "eof_bytes packb cid (counts ! i) = Inr raw" "peek_type raw = Inr 0" using eof_bytes_ok by blast
  let ?w = "w\<lparr>w_shards := (w_shards w)[i := w_shards w ! i @ [raw]]\<rparr>"
  have s: "shard_send i raw w = Inr ?w" using raw(2) by (simp add: shard_send_control unstamped_types_def)
  from Cons.IH [of ?w] Cons.prems obtain w' where w': "send_eofs packb cid counts is ?w = Inr w'"
    "length (w_shards w') = length (w_shards w)"
    "\<forall>j<length (w_shards w). if j \<in> set is then \<exists>raw. eof_bytes packb cid (counts ! j) = Inr raw \<and> w_shards w' ! j = w_shards ?w ! j @ [raw]
       else w_shards w' ! j = w_shards ?w ! j" by auto
  have "send_eofs packb cid counts (i # is) w = Inr w'" using raw s w'(1) by simp
  moreover have "if j \<in> set (i # is) then \<exists>raw. eof_bytes packb cid (counts ! j) = Inr raw \<and> w_shards w' ! j = w_shards w ! j @ [raw]
       else w_shards w' ! j = w_shards w ! j" if "j < length (w_shards w)" for j
    using w'(3) [rule_format, OF that] Cons.prems raw(1) that
    by (cases "j = i") (auto simp: nth_list_update split: if_splits)
  ultimately show ?case using w'(2) by blast
qed auto

lemma forward_sharded_complete:
  assumes raws: "\<And>raw. raw \<in> set raws \<Longrightarrow> wf_batch dt raw" and dt: "dt \<notin> set unstamped_types" and n: "0 < n"
    and lim: "length raws < 256 ^ 8" and eof: "peek_type e = Inr 0"
  shows "\<exists>w'. forward_sharded packb cid dt (new_writers producer n) (map Got raws @ Got e # ins) = (Inr (Some True), w', ins) \<and>
    (\<forall>i<n. \<exists>raw. eof_bytes packb cid (int (length (shard_indices n (length raws) i))) = Inr raw \<and>
       w_shards w' ! i = map (stamped_batch cid producer raws) (shard_indices n (length raws) i) @ [raw])"
proof -
  have "rr_state cid producer n [] (new_writers producer n) (replicate n 0)"
    by (simp add: rr_state_def new_writers_def shard_indices_def)
  from forward_batches [OF this, of raws dt packb "Got e # ins"] raws dt n lim obtain w counts where
    st: "rr_state cid producer n raws w counts" and
    run: "forward_loop packb cid dt n (replicate n 0) 0 (new_writers producer n) (map Got raws @ Got e # ins) =
      forward_loop packb cid dt n counts (length raws) w (Got e # ins)"
    by (simp only: list.size add_0 append_Nil) blast
  from st have len: "length (w_shards w) = n" and
    sh: "\<And>i. i < n \<Longrightarrow> w_shards w ! i = map (stamped_batch cid producer raws) (shard_indices n (length raws) i)" and
    ct: "\<And>i. i < n \<Longrightarrow> counts ! i = int (length (shard_indices n (length raws) i))" by (auto simp: rr_state_def)
  obtain w' where w': "send_eofs packb cid counts [0..<n] w = Inr w'"
    "\<forall>j<n. \<exists>raw. eof_bytes packb cid (counts ! j) = Inr raw \<and> w_shards w' ! j = w_shards w ! j @ [raw]"
    using send_eofs_shards [of "[0..<n]" w packb cid counts] len by auto
  have "forward_sharded packb cid dt (new_writers producer n) (map Got raws @ Got e # ins) = (Inr (Some True), w', ins)"
    using run eof w'(1) by (simp add: forward_sharded_def new_writers_def)
  with w'(2) sh ct show ?thesis by auto
qed

lemma shard_indices_partition:
  assumes "0 < n"
  shows "mset (concat (map (shard_indices n k) [0..<n])) = mset [0..<k]"
proof -
  have "(\<Sum>i\<in>{0..<n}. mset (shard_indices n k i)) = mset [0..<k]"
  proof (induction k)
    case 0
    show ?case by (simp add: shard_indices_def)
  next
    case (Suc k)
    have "(\<Sum>i\<in>{0..<n}. mset (shard_indices n (Suc k) i)) =
        (\<Sum>i\<in>{0..<n}. mset (shard_indices n k i) + (if k mod n = i then {#k#} else {#}))"
      by (intro sum.cong) (auto simp: shard_indices_snoc)
    also have "\<dots> = mset [0..<k] + {#k#}"
      using assms by (simp add: sum.distrib Suc)
    finally show ?case by simp
  qed
  then show ?thesis by (simp add: mset_concat interv_sum_list_conv_sum_set_nat)
qed

section \<open>Properties\<close>

text \<open>
  C18.  The gateway forwards a complete stream exactly: every batch reaches exactly one shard, as
  the client sent it but with the gateway's client identifier and the stream's next sequence
  number, in order, and each shard's EOF announces exactly the batches that shard got.
\<close>

theorem gateway_forwards_exactly:
  assumes "\<forall>raw\<in>set raws. wf_batch dt raw" and "dt \<in> {1, 2}" and "0 < n" and "length raws < 256 ^ 8"
    and "peek_type e = Inr 0"
  shows "\<exists>w'. forward_sharded packb cid dt (new_writers producer n) (map Got raws @ Got e # ins) = (Inr (Some True), w', ins) \<and>
    (\<forall>i<n. \<exists>eof. eof_bytes packb cid (int (length (shard_indices n (length raws) i))) = Inr eof \<and>
       w_shards w' ! i = map (stamped_batch cid producer raws) (shard_indices n (length raws) i) @ [eof]) \<and>
    mset (concat (map (shard_indices n (length raws)) [0..<n])) = mset [0..<length raws]"
proof -
  have "dt \<notin> set unstamped_types" using assms(2) by (auto simp: unstamped_types_def)
  then show ?thesis
    using forward_sharded_complete [of raws dt n e packb cid producer ins] shard_indices_partition [OF assms(3)] assms by blast
qed

definition demo_batches :: "bytes list" where
  "demo_batches = [1 # replicate 41 0, 1 # replicate 41 5, 1 # replicate 41 6]"

theorem gateway_forwards_exactly_witness:
  "\<exists>w'. forward_sharded (\<lambda>_. []) 9 1 (new_writers (replicate 16 2) 2) (map Got demo_batches @ Got [0] # [RaisedOS]) =
      (Inr (Some True), w', [RaisedOS]) \<and>
    (\<forall>i<2. \<exists>eof. eof_bytes (\<lambda>_. []) 9 (int (length (shard_indices 2 (length demo_batches) i))) = Inr eof \<and>
       w_shards w' ! i = map (stamped_batch 9 (replicate 16 2) demo_batches) (shard_indices 2 (length demo_batches) i) @ [eof]) \<and>
    mset (concat (map (shard_indices 2 (length demo_batches)) [0..<2])) = mset [0..<length demo_batches]"
  by (rule gateway_forwards_exactly) (simp_all add: wf_batch_def peek_type_def demo_batches_def)

text \<open>
  A client that vanishes during its upload is not aborted.  The peer's closing of the socket
  makes \<open>recv\<close> raise while the connection is running, and the reader thread ends on that exception:
  nothing is sent to any shard beyond the batches received, no Abort among it, and the session
  stays registered, with its response consumer running and its socket open.
\<close>

theorem vanished_client_not_aborted:
  assumes "\<forall>raw\<in>set raws. wf_batch 1 raw" and "length raws < 256 ^ 8" and "0 < length (w_shards (s_trans s))"
    and "s_trans s = new_writers producer n" and "s_registered s" and "s_consuming s" and "\<not> s_closed s"
  shows "conn_recv \<lparr>cn_running = True, cn_chunks = []\<rparr> = Inl OSError \<and>
    (let s' = forward_both packb s (map Got raws @ RaisedOS # ins) in
       s_registered s' \<and> s_consuming s' \<and> \<not> s_closed s' \<and> s_accs s' = s_accs s \<and>
       (\<forall>i<n. w_shards (s_trans s') ! i = map (stamped_batch (s_id s) producer raws) (shard_indices n (length raws) i)))"
proof -
  have n: "0 < n" and len: "length (w_shards (s_trans s)) = n" using assms(3,4) by (simp_all add: new_writers_def)
  have "rr_state (s_id s) producer n [] (new_writers producer n) (replicate n 0)"
    by (simp add: rr_state_def new_writers_def shard_indices_def)
  from forward_batches [OF this, of raws 1, where packb = packb and ins = "RaisedOS # ins"] n assms(1,2) obtain w counts where
    st: "rr_state (s_id s) producer n raws w counts" and
    run: "forward_loop packb (s_id s) 1 n (replicate n 0) 0 (new_writers producer n) (map Got raws @ RaisedOS # ins) =
      forward_loop packb (s_id s) 1 n counts (length raws) w (RaisedOS # ins)" by (auto simp: unstamped_types_def)
  have "forward_sharded packb (s_id s) 1 (s_trans s) (map Got raws @ RaisedOS # ins) = (Inl OSError, w, ins)"
    using run len assms(4) by (simp add: forward_sharded_def)
  moreover have "conn_recv \<lparr>cn_running = True, cn_chunks = []\<rparr> = Inl OSError"
    by (simp add: conn_recv_def recv_exact.simps)
  ultimately show ?thesis
    using st assms(5-7) by (simp add: forward_both_def rr_state_def Let_def)
qed

definition demo_session :: session where
  "demo_session = (new_session 9 (\<lambda>_. replicate 16 2) 2 1)\<lparr>s_registered := True, s_consuming := True\<rparr>"

theorem vanished_client_not_aborted_witness:
  "let s' = forward_both (\<lambda>_. []) demo_session (map Got demo_batches @ RaisedOS # []) in s_registered s' \<and> \<not> s_closed s'"
  using vanished_client_not_aborted [of demo_batches demo_session "replicate 16 2" 2 "\<lambda>_. []" "[]"]
  by (simp add: wf_batch_def peek_type_def demo_batches_def demo_session_def new_session_def new_writers_def
      derive_producer_id_def Let_def)

end
