(* ===== verification/Client.thy ===== *)
theory Client
  imports Transport
begin

text \<open>
  The client (\<open>client/client.py\<close>, \<open>client/parser\<close>): the CSV parsers, the split of the transactions
  file into byte ranges read by worker processes, the batching, the draining of the workers'
  queue, and the collection of the responses.  Files are strings of 8-bit characters.
\<close>

section \<open>Parsers\<close>

definition normal_bank :: "string \<Rightarrow> string result" where
  "normal_bank s = bind_result (parse_int s) (\<lambda>i. Inr (int_str i))"

definition parse_transaction :: "string \<Rightarrow> transaction result" where
  "parse_transaction line =
     (case split_on (CHR '','') (rstrip_newlines line) of
        [ts, fb, fa, tb, ta, ar, rc, ap, pc, pf, label] \<Rightarrow>
          bind_result (fast_datetime ts) (\<lambda>d. bind_result (normal_bank fb) (\<lambda>fb. bind_result (normal_bank tb) (\<lambda>tb.
          bind_result (parse_float ar) (\<lambda>ar. bind_result (parse_float ap) (\<lambda>ap.
            Inr \<lparr>t_timestamp = TTime d, t_from_bank = fb, t_from_account = fa, t_to_bank = tb, t_to_account = ta,
                 t_amount_received = ar, t_receiving_currency = rc, t_amount_paid = ap,
                 t_payment_currency = pc, t_payment_format = pf\<rparr>)))))
      | _ \<Rightarrow> Inl (ValueError ''values to unpack''))"

definition parse_account :: "string \<Rightarrow> account result" where
  "parse_account line =
     (case split_on (CHR '','') (rstrip_newlines line) of
        [bn, bi, an, ei, en] \<Rightarrow>
          bind_result (normal_bank bi) (\<lambda>bi.
            Inr \<lparr>a_bank_name = bn, a_bank_id = bi, a_account_number = an, a_entity_id = ei, a_entity_name = en\<rparr>)
      | _ \<Rightarrow> Inl (ValueError ''values to unpack''))"

section \<open>Byte ranges\<close>

text \<open>\<open>f.readline()\<close> at a position: the line up to and including the newline, and what follows.\<close>

fun readline :: "string \<Rightarrow> string \<times> string" where
  "readline [] = ([], [])"
| "readline (c # cs) = (if c = CHR 0x0A then ([c], cs) else let (l, r) = readline cs in (c # l, r))"

lemma readline_append: "readline s = (l, r) \<Longrightarrow> l @ r = s"
  by (induction s arbitrary: l) (auto split: if_splits prod.splits)

lemma readline_nonempty: "s \<noteq> [] \<Longrightarrow> readline s = (l, r) \<Longrightarrow> l \<noteq> []"
  by (cases s) (auto split: if_splits prod.splits)

lemma readline_shorter: "s \<noteq> [] \<Longrightarrow> readline s = (l, r) \<Longrightarrow> length r < length s"
  using readline_append [of s l r] readline_nonempty [of s l r] by (cases l) auto

text \<open>The loop of \<open>_transactions_worker\<close>: \<open>pos\<close> is \<open>f.tell()\<close>.\<close>

function read_range :: "string \<Rightarrow> nat \<Rightarrow> nat \<Rightarrow> string list" where
  "read_range rest pos stop =
     (if pos < stop then
        (if rest = [] then []
         else let (l, r) = readline rest in l # read_range r (pos + length l) stop)
      else [])"
  by pat_completeness auto
termination
  by (relation "measure (\<lambda>(rest, pos, stop). length rest)") (auto, metis readline_shorter)

declare read_range.simps [simp del]

definition worker_lines :: "string \<Rightarrow> nat \<Rightarrow> nat \<Rightarrow> string list" where
  "worker_lines file start stop =
     (let (l, r) = readline (drop start file) in read_range r (start + length l) stop)"

definition worker_bounds :: "nat \<Rightarrow> nat \<Rightarrow> (nat \<times> nat) list" where
  "worker_bounds sz n = map (\<lambda>i. (i * sz div n, (i + 1) * sz div n)) [0..<n]"

text \<open>Batches of at most \<open>BATCH_SIZE\<close> parsed lines; a line that does not parse ends the worker.\<close>

fun batch_loop :: "nat \<Rightarrow> (string \<Rightarrow> 'a result) \<Rightarrow> 'a list \<Rightarrow> string list \<Rightarrow> 'a list list result" where
  "batch_loop sz parse batch [] = Inr (if batch = [] then [] else [batch])"
| "batch_loop sz parse batch (line # ls) =
     bind_result (parse line) (\<lambda>x.
       let batch = batch @ [x] in
       if sz \<le> length batch
       then bind_result (batch_loop sz parse [] ls) (\<lambda>bs. Inr (batch # bs))
       else batch_loop sz parse batch ls)"

definition transactions_worker :: "nat \<Rightarrow> string \<Rightarrow> nat \<Rightarrow> nat \<Rightarrow> transaction list list result" where
  "transactions_worker sz file start stop = batch_loop sz parse_transaction [] (worker_lines file start stop)"

text \<open>\<open>_send_accounts_batched\<close>: the header line is skipped, the rest is one range.\<close>

definition accounts_batches :: "nat \<Rightarrow> string \<Rightarrow> account list list result" where
  "accounts_batches sz file = batch_loop sz parse_account [] (worker_lines file 0 (length file))"

section \<open>Draining the queue\<close>

datatype queue_event = QBatch bytes | QDone | QTimeout

text \<open>
  The loop of \<open>_send_transactions_parallel\<close>: the batches sent, the count returned, and whether every
  worker had finished.
\<close>

fun drain_queue :: "nat \<Rightarrow> nat \<Rightarrow> int \<Rightarrow> queue_event list \<Rightarrow> bytes list \<times> int \<times> bool" where
  "drain_queue n finished cnt evs =
     (if n \<le> finished then ([], cnt, True)
      else case evs of
             [] \<Rightarrow> ([], cnt, False)
           | QTimeout # es \<Rightarrow> ([], cnt, False)
           | QDone # es \<Rightarrow> drain_queue n (finished + 1) cnt es
           | QBatch b # es \<Rightarrow> (let (bs, c, ok) = drain_queue n finished (cnt + 1) es in (b # bs, c, ok)))"

text \<open>What \<open>_run\<close> sends after the handshake: the transaction batches, an EOF with the count
  returned, the account batches, and their EOF.\<close>

definition client_uploads :: "(pyval list \<Rightarrow> bytes) \<Rightarrow> nat \<Rightarrow> queue_event list \<Rightarrow> bytes list \<Rightarrow> bytes list result" where
  "client_uploads packb n evs accs =
     (let (bs, cnt, ok) = drain_queue n 0 0 evs in
      bind_result (serialize packb (new_message 0 (EOF (- 1) cnt (- 1) (- 1) []))) (\<lambda>e1.
      bind_result (serialize packb (new_message 0 (EOF (- 1) (int (length accs)) (- 1) (- 1) []))) (\<lambda>e2.
        Inr (bs @ e1 # accs @ [e2]))))"

section \<open>Responses\<close>

record response =
  rp_uc :: int
  rp_body :: string
  rp_last :: bool

text \<open>\<open>_receive_and_write_responses\<close>: the text written so far per use case, the completed ones, and
  the output file once \<open>nresponses\<close> are complete.\<close>

fun collect_responses :: "nat \<Rightarrow> (int, string) dict \<Rightarrow> int fset \<Rightarrow> response list \<Rightarrow> (int, string) dict option" where
  "collect_responses nresponses files completed rs =
     (if nresponses \<le> fcard completed then Some files
      else case rs of
             [] \<Rightarrow> None
           | r # rs \<Rightarrow>
               let files = dict_set (rp_uc r) (dict_get files (rp_uc r) [] @ rp_body r) files;
                   completed = (if rp_last r then finsert (rp_uc r) completed else completed)
               in collect_responses nresponses files completed rs)"

definition write_responses :: "(int, string) dict \<Rightarrow> string" where
  "write_responses files = concat (map (\<lambda>uc. dict_get files uc []) (sort (map fst files)))"

declare drain_queue.simps [simp del] collect_responses.simps [simp del]

section \<open>Which lines a worker reads\<close>

text \<open>The lines of a file with the offsets they start at.\<close>

function line_offsets :: "nat \<Rightarrow> string \<Rightarrow> (nat \<times> string) list" where
  "line_offsets pos s =
     (if s = [] then [] else let (l, r) = readline s in (pos, l) # line_offsets (pos + length l) r)"
  by pat_completeness auto
termination
  by (relation "measure (\<lambda>(pos, s). length s)") (auto, metis readline_shorter)

declare line_offsets.simps [simp del]

lemma line_offsets_Nil [simp]: "line_offsets pos [] = []"
  by (simp add: line_offsets.simps)

lemma line_offsets_ge: "(x, l) \<in> set (line_offsets pos s) \<Longrightarrow> pos \<le> x"
proof (induction pos s rule: line_offsets.induct)
  case (1 pos s)
  obtain l' r where lr: "readline s = (l', r)" by fastforce
  show ?case
  proof (cases "s = []")
    case False
    with 1(2) lr have "(x, l) = (pos, l') \<or> (x, l) \<in> set (line_offsets (pos + length l') r)"
      by (simp add: line_offsets.simps [of pos s])
    then show ?thesis using 1(1) [OF False lr [symmetric] refl] by auto
  qed (use 1(2) in simp)
qed

lemma read_range_offsets: "read_range s pos stop = map snd (filter (\<lambda>(x, l). x < stop) (line_offsets pos s))"
proof (induction s pos stop rule: read_range.induct)
  case (1 s pos stop)
  obtain l r where lr: "readline s = (l, r)" by fastforce
  show ?case
  proof (cases "pos < stop \<and> s \<noteq> []")
    case True
    with 1 [OF _ _ lr [symmetric] refl] lr show ?thesis
      by (simp add: read_range.simps [of s] line_offsets.simps [of pos s])
  next
    case False
    have "filter (\<lambda>(x, l). x < stop) (line_offsets pos s) = []" if "\<not> pos < stop"
      using that line_offsets_ge by (fastforce simp: filter_empty_conv)
    with False show ?thesis by (subst read_range.simps) auto
  qed
qed

lemma readline_drop_inside:
  assumes "readline s = (l, r)" and "k < length l"
  shows "readline (drop k s) = (drop k l, r)"
  using assms
proof (induction k arbitrary: s l)
  case (Suc k)
  then obtain c cs where s: "s = c # cs" by (cases s) auto
  obtain l1 r1 where lr: "readline cs = (l1, r1)" by fastforce
  from Suc.prems s lr have "c \<noteq> CHR 0x0A" "l = c # l1" "r = r1" by (auto split: if_splits)
  with Suc.IH [of cs l1] lr Suc.prems(2) s show ?case by simp
qed simp

lemma skip_to_next_line:
  assumes "readline (drop k s) = (l, r)"
  shows "line_offsets (pos + k + length l) r = filter (\<lambda>(x, _). pos + k < x) (line_offsets pos s)"
  using assms
proof (induction pos s arbitrary: k rule: line_offsets.induct)
  case (1 pos s)
  obtain l0 r0 where lr: "readline s = (l0, r0)" by fastforce
  show ?case
  proof (cases "s = []")
    case True
    with 1(2) show ?thesis by simp
  next
    case False
    have s: "s = l0 @ r0" using readline_append [OF lr] by simp
    have off: "line_offsets pos s = (pos, l0) # line_offsets (pos + length l0) r0"
      using False lr by (simp add: line_offsets.simps [of pos s])
    show ?thesis
    proof (cases "k < length l0")
      case True
      then have "l = drop k l0" "r = r0" using readline_drop_inside [OF lr True] 1(2) by auto
      moreover have "filter (\<lambda>(x, _). pos + k < x) (line_offsets (pos + length l0) r0) = line_offsets (pos + length l0) r0"
        using line_offsets_ge True by (fastforce intro: filter_True)
      ultimately show ?thesis using True off by simp
    next
      case False2: False
      then have "readline (drop (k - length l0) r0) = (l, r)" using 1(2) s by simp
      from 1(1) [OF False lr [symmetric] refl this] False2 off show ?thesis by simp
    qed
  qed
qed

lemma worker_lines_offsets:
  "worker_lines file start stop = map snd (filter (\<lambda>(x, l). start < x \<and> x < stop) (line_offsets 0 file))"
proof -
  obtain l r where lr: "readline (drop start file) = (l, r)" by fastforce
  have "line_offsets (start + length l) r = filter (\<lambda>(x, _). start < x) (line_offsets 0 file)"
    using skip_to_next_line [OF lr, of 0] by simp
  then have "worker_lines file start stop =
      map snd (filter (\<lambda>(x, l). x < stop) (filter (\<lambda>(x, _). start < x) (line_offsets 0 file)))"
    using lr by (simp add: worker_lines_def read_range_offsets)
  also have "filter (\<lambda>(x, l). x < stop) (filter (\<lambda>(x, _). start < x) (line_offsets 0 file)) =
      filter (\<lambda>(x, l). start < x \<and> x < stop) (line_offsets 0 file)"
    by (subst filter_filter, rule filter_cong) auto
  finally show ?thesis .
qed

lemma line_offsets_lt: "(x, l) \<in> set (line_offsets pos s) \<Longrightarrow> x < pos + length s"
proof (induction pos s rule: line_offsets.induct)
  case (1 pos s)
  obtain l' r where lr: "readline s = (l', r)" by fastforce
  show ?case
  proof (cases "s = []")
    case False
    have s: "s = l' @ r" using readline_append [OF lr] by simp
    from False 1(2) lr have "x = pos \<or> (x, l) \<in> set (line_offsets (pos + length l') r)"
      by (auto simp: line_offsets.simps [of pos s])
    moreover have "0 < length s" using False by simp
    ultimately show ?thesis using 1(1) [OF False lr [symmetric] refl] s by auto
  qed (use 1(2) in simp)
qed

lemma filter_mset_disjoint:
  "(\<And>x. \<not> (P x \<and> Q x)) \<Longrightarrow> filter_mset P M + filter_mset Q M = filter_mset (\<lambda>x. P x \<or> Q x) M"
  by (induction M) auto

lemma ranges_cover:
  assumes mono: "\<And>i j. i \<le> j \<Longrightarrow> b i \<le> (b j :: nat)"
  shows "mset (concat (map (\<lambda>i. filter (\<lambda>(x, l). b i < x \<and> x < b (Suc i)) xs) [0..<k])) =
    filter_mset (\<lambda>(x, l). b 0 \<le> x \<and> x < b k \<and> x \<notin> b ` {0..<k}) (mset xs)"
proof (induction k)
  case 0
  show ?case by auto
next
  case (Suc k)
  have m: "b 0 \<le> b k" "b k \<le> b (Suc k)" "\<And>i. i < k \<Longrightarrow> b i \<le> b k" using mono by auto
  have "mset (concat (map (\<lambda>i. filter (\<lambda>(x, l). b i < x \<and> x < b (Suc i)) xs) [0..<Suc k])) =
      filter_mset (\<lambda>(x, l). b 0 \<le> x \<and> x < b k \<and> x \<notin> b ` {0..<k}) (mset xs) +
      filter_mset (\<lambda>(x, l). b k < x \<and> x < b (Suc k)) (mset xs)"
    using Suc by simp
  also have "\<dots> = filter_mset (\<lambda>y. (case y of (x, l) \<Rightarrow> b 0 \<le> x \<and> x < b k \<and> x \<notin> b ` {0..<k}) \<or>
      (case y of (x, l) \<Rightarrow> b k < x \<and> x < b (Suc k))) (mset xs)"
    by (rule filter_mset_disjoint) auto
  also have "\<dots> = filter_mset (\<lambda>(x, l). b 0 \<le> x \<and> x < b (Suc k) \<and> x \<notin> b ` {0..<Suc k}) (mset xs)"
    using m by (intro filter_mset_cong) (fastforce simp: less_Suc_eq)+
  finally show ?case .
qed

section \<open>Properties\<close>

text \<open>
  C19.  The byte ranges of the workers read every line of the transactions file at most once, and
  lose exactly the lines that start on a boundary: each line whose offset is not the start of a
  range is read by exactly one worker, and a line that starts where a range begins (the header at
  offset 0, and any line a boundary happens to fall on) is read by none.
\<close>

theorem workers_read_lines:
  assumes "0 < n"
  shows "mset (concat (map (\<lambda>(s, e). worker_lines file s e) (worker_bounds (length file) n))) =
    mset (map snd (filter (\<lambda>(x, l). x \<notin> fst ` set (worker_bounds (length file) n)) (line_offsets 0 file)))"
proof -
  let ?b = "\<lambda>i. i * length file div n" and ?xs = "line_offsets 0 file"
  have starts: "fst ` set (worker_bounds (length file) n) = ?b ` {0..<n}"
    by (simp add: worker_bounds_def image_image comp_def)
  have "concat (map (\<lambda>(s, e). worker_lines file s e) (worker_bounds (length file) n)) =
      map snd (concat (map (\<lambda>i. filter (\<lambda>(x, l). ?b i < x \<and> x < ?b (Suc i)) ?xs) [0..<n]))"
    by (simp add: worker_bounds_def worker_lines_offsets map_concat comp_def)
  then have "mset (concat (map (\<lambda>(s, e). worker_lines file s e) (worker_bounds (length file) n))) =
      image_mset snd (filter_mset (\<lambda>(x, l). ?b 0 \<le> x \<and> x < ?b n \<and> x \<notin> ?b ` {0..<n}) (mset ?xs))"
    using ranges_cover [of ?b ?xs n] by (simp add: div_le_mono mult_le_mono)
  also have "filter_mset (\<lambda>(x, l). ?b 0 \<le> x \<and> x < ?b n \<and> x \<notin> ?b ` {0..<n}) (mset ?xs) =
      filter_mset (\<lambda>(x, l). x \<notin> ?b ` {0..<n}) (mset ?xs)"
    using assms line_offsets_lt [where pos = 0 and s = "file"] by (intro filter_mset_cong) auto
  finally show ?thesis by (simp add: starts)
qed

text \<open>A header and three lines a, b, c of two characters: the boundary of two workers falls on b.\<close>

definition demo_file :: string where
  "demo_file = [CHR ''h'', CHR 0x0A, CHR ''a'', CHR 0x0A, CHR ''b'', CHR 0x0A, CHR ''c'', CHR 0x0A]"

theorem workers_read_lines_witness:
  "mset (concat (map (\<lambda>(s, e). worker_lines demo_file s e) (worker_bounds (length demo_file) 2))) =
     {#[CHR ''a'', CHR 0x0A], [CHR ''c'', CHR 0x0A]#}"
proof -
  have "mset (map snd (filter (\<lambda>(x, l). x \<notin> fst ` set (worker_bounds (length demo_file) 2)) (line_offsets 0 demo_file))) =
      {#[CHR ''a'', CHR 0x0A], [CHR ''c'', CHR 0x0A]#}"
    by code_simp
  with workers_read_lines [of 2 demo_file] show ?thesis by simp
qed

text \<open>
  The EOF of the transactions does not wait for the workers: when the queue stays empty for
  its timeout, whatever workers are still running, the client announces the batches sent so far
  as the whole upload and goes on to the accounts.
\<close>

theorem timeout_truncates_upload:
  assumes "evs = map QBatch bs @ QTimeout # es" and "0 < n" and "int (length bs) < 256 ^ 8"
  shows "drain_queue n 0 0 evs = (bs, int (length bs), False) \<and>
    (\<exists>e1 e2. serialize packb (new_message 0 (EOF (- 1) (int (length bs)) (- 1) (- 1) [])) = Inr e1 \<and>
       client_uploads packb n evs accs = Inr (bs @ e1 # accs @ [e2]))"
proof -
  have "drain_queue n 0 c (map QBatch bs @ QTimeout # es) = (bs, c + int (length bs), False)" for c
    using assms(2) by (induction bs arbitrary: c) (simp_all add: drain_queue.simps)
  then have d: "drain_queue n 0 0 evs = (bs, int (length bs), False)" using assms(1) by simp
  have "\<exists>raw. serialize packb (new_message 0 (EOF (- 1) e (- 1) (- 1) [])) = Inr raw" for e
    by (simp add: serialize_def new_message_def to_bytes_big_def)
  then obtain e1 e2 where "serialize packb (new_message 0 (EOF (- 1) (int (length bs)) (- 1) (- 1) [])) = Inr e1"
    "serialize packb (new_message 0 (EOF (- 1) (int (length accs)) (- 1) (- 1) [])) = Inr e2" by blast
  with d show ?thesis by (simp add: client_uploads_def)
qed

theorem timeout_truncates_upload_witness:
  "drain_queue 4 0 0 (map QBatch [[1], [2]] @ QTimeout # [QBatch [3], QDone]) = ([[1], [2]], 2, False)"
  using timeout_truncates_upload [of _ "[[1], [2]]" "[QBatch [3], QDone]" 4 "\<lambda>_. []" "[]"] by simp

section \<open>What the parser yields\<close>

lemma split_on_no_sep: "w \<in> set (split_on sep s) \<Longrightarrow> sep \<notin> set w"
proof (induction sep s arbitrary: w rule: split_on.induct)
  case (2 sep c cs)
  obtain v vs where "split_on sep cs = v # vs" using split_on_ne [of sep cs] by (cases "split_on sep cs") blast+
  with 2 show ?case by (auto split: if_splits)
qed simp

lemma mk_datetime_valid: "mk_datetime y mo d h mi sec = Inr t \<Longrightarrow> valid_datetime t"
  by (auto simp: mk_datetime_def Let_def split: if_splits)

lemma fast_datetime_valid: "fast_datetime s = Inr t \<Longrightarrow> valid_datetime t"
  by (auto simp: fast_datetime_def bind_result_eq_Inr dest: mk_datetime_valid)

text \<open>
  C20.  What the client's parser accepts is well-typed: from any line, a transaction it returns has a
  calendar date and time as its timestamp (not text), bank ids in normal form (parsing and printing
  them again changes nothing, so equal banks are equal texts), and no comma in any account, currency
  or format, which is what UC4's node texts rely on.
\<close>

theorem parsed_transaction_typed:
  assumes "parse_transaction line = Inr t"
  shows "(\<exists>d. t_timestamp t = TTime d \<and> valid_datetime d) \<and>
    normal_bank (t_from_bank t) = Inr (t_from_bank t) \<and> normal_bank (t_to_bank t) = Inr (t_to_bank t) \<and>
    (\<forall>f\<in>{t_from_account t, t_to_account t, t_receiving_currency t, t_payment_currency t, t_payment_format t}. CHR '','' \<notin> set f)"
proof -
  obtain ts fb fa tb ta ar rc ap pc pf label where f: "split_on (CHR '','') (rstrip_newlines line) = [ts, fb, fa, tb, ta, ar, rc, ap, pc, pf, label]"
    using assms by (auto simp: parse_transaction_def split: list.splits)
  have sep: "CHR '','' \<notin> set w" if "w \<in> {fa, ta, rc, pc, pf}" for w
    using split_on_no_sep [of w "CHR '',''" "rstrip_newlines line"] that unfolding f by auto
  have bank: "normal_bank v = Inr v" if "normal_bank w = Inr v" for w v
    using that by (auto simp: normal_bank_def bind_result_eq_Inr)
  from assms obtain d fb' tb' ar' ap' where t: "fast_datetime ts = Inr d" "normal_bank fb = Inr fb'" "normal_bank tb = Inr tb'"
    "t = \<lparr>t_timestamp = TTime d, t_from_bank = fb', t_from_account = fa, t_to_bank = tb', t_to_account = ta,
          t_amount_received = ar', t_receiving_currency = rc, t_amount_paid = ap', t_payment_currency = pc, t_payment_format = pf\<rparr>"
    unfolding parse_transaction_def f list.case bind_result_eq_Inr by blast
  show ?thesis
    using fast_datetime_valid [OF t(1)] bank [OF t(2)] bank [OF t(3)] sep unfolding t(4) by simp
qed

theorem parsed_transaction_typed_witness:
  "\<exists>t. parse_transaction ''2022/09/01 00:20,010,A,10,B,2,US Dollar,2,US Dollar,Wire,0'' = Inr t \<and>
     t_from_bank t = ''10'' \<and> normal_bank (t_from_bank t) = Inr (t_from_bank t)"
proof -
  have p: "split_on (CHR '','') (rstrip_newlines ''2022/09/01 00:20,010,A,10,B,2,US Dollar,2,US Dollar,Wire,0'') =
      [''2022/09/01 00:20'', ''010'', ''A'', ''10'', ''B'', ''2'', ''US Dollar'', ''2'', ''US Dollar'', ''Wire'', ''0'']"
    "fast_datetime ''2022/09/01 00:20'' = Inr \<lparr>dt_year = 2022, dt_month = 9, dt_day = 1, dt_hour = 0, dt_minute = 20, dt_second = 0\<rparr>"
    "normal_bank ''010'' = Inr ''10''" "normal_bank ''10'' = Inr ''10''" "parse_float ''2'' = Inr 2"
    by code_simp+
  obtain t where "parse_transaction ''2022/09/01 00:20,010,A,10,B,2,US Dollar,2,US Dollar,Wire,0'' = Inr t" "t_from_bank t = ''10''"
    unfolding parse_transaction_def p list.case bind_result_simps by simp
  with parsed_transaction_typed [OF this(1)] show ?thesis by blast
qed

end
