(* ===== verification/Filters.thy ===== *)
theory Filters
  imports Messages
begin

text \<open>
  The filter functions (\<open>filter/filter_fns\<close>).  A simple filter fixes \<open>_keep\<close> and inherits the
  template method \<open>FilterFn.filter\<close>; three filters override \<open>filter\<close>.  A comparison or method call
  that Python would refuse (a timestamp left as text, a message without transactions) is an error
  value.

  The properties: every simple filter keeps exactly the transactions its specification names, in
  order; the exclusive datetime window of UC4 and UC5 is the inclusive date window of UC3's first
  period, and the two periods of UC3 split the first fifteen days of the month.
\<close>

section \<open>Constants\<close>

definition target_currency :: string where
  "target_currency = ''US Dollar''"

definition day_time :: "int \<Rightarrow> datetime" where
  "day_time d = \<lparr>dt_year = 2022, dt_month = 9, dt_day = d, dt_hour = 0, dt_minute = 0, dt_second = 0\<rparr>"

text \<open>\<open>datetime.date()\<close> and the order of dates.\<close>

type_synonym date = "int \<times> int \<times> int"

definition date_of :: "datetime \<Rightarrow> date" where
  "date_of d = (dt_year d, dt_month d, dt_day d)"

definition date_le :: "date \<Rightarrow> date \<Rightarrow> bool" where
  "date_le a b = (case (a, b) of ((y, m, d), (y', m', d')) \<Rightarrow>
     y < y' \<or> (y = y' \<and> (m < m' \<or> (m = m' \<and> d \<le> d'))))"

definition timestamp_date :: "tstamp \<Rightarrow> date result" where
  "timestamp_date s = (case s of TTime d \<Rightarrow> Inr (date_of d) | TText _ \<Rightarrow> Inl AttributeError)"

text \<open>\<open>lo <= ts < hi\<close> on a timestamp; a \<open>str\<close> is not comparable with a \<open>datetime\<close>.\<close>

definition in_window :: "datetime \<Rightarrow> datetime \<Rightarrow> tstamp \<Rightarrow> bool result" where
  "in_window lo hi s =
     (case s of TTime d \<Rightarrow> Inr (datetime_le lo d \<and> datetime_less d hi) | TText _ \<Rightarrow> Inl TypeError)"

section \<open>The filters\<close>

text \<open>\<open>_keep\<close> of the simple filters; \<open>and\<close> does not evaluate its right side when the left is false.\<close>

definition keep_uc1 :: "transaction \<Rightarrow> bool result" where
  "keep_uc1 t = Inr (t_payment_currency t = target_currency \<and> t_amount_paid t < 50)"

definition keep_uc2 :: "transaction \<Rightarrow> bool result" where
  "keep_uc2 t = Inr (t_payment_currency t = target_currency)"

definition keep_period :: "date \<times> date \<Rightarrow> transaction \<Rightarrow> bool result" where
  "keep_period period t =
     (if t_payment_currency t = target_currency
      then bind_result (timestamp_date (t_timestamp t))
             (\<lambda>d. Inr (date_le (fst period) d \<and> date_le d (snd period)))
      else Inr False)"

definition period_A :: "date \<times> date" where
  "period_A = ((2022, 9, 1), (2022, 9, 5))"

definition period_B :: "date \<times> date" where
  "period_B = ((2022, 9, 6), (2022, 9, 15))"

definition keep_uc4 :: "transaction \<Rightarrow> bool result" where
  "keep_uc4 t =
     (if t_payment_currency t = target_currency
      then in_window (day_time 1) (day_time 6) (t_timestamp t) else Inr False)"

definition keep_uc5 :: "transaction \<Rightarrow> bool result" where
  "keep_uc5 t =
     (if t_payment_format t \<in> {''Wire'', ''ACH''}
      then in_window (day_time 1) (day_time 6) (t_timestamp t) else Inr False)"

definition keep_uc5_amount :: "transaction \<Rightarrow> bool result" where
  "keep_uc5_amount t = Inr (t_amount_paid t < 1)"

text \<open>\<open>el.transactions\<close> and \<open>el.client_id\<close>.\<close>

definition transactions_of :: "message \<Rightarrow> transaction list result" where
  "transactions_of m =
     (case msg_payload m of
        Transactions ts \<Rightarrow> Inr ts
      | MergedTransactions ts _ \<Rightarrow> Inr ts
      | _ \<Rightarrow> Inl AttributeError)"

definition client_of_msg :: "message \<Rightarrow> uuid result" where
  "client_of_msg m = (case msg_client m of Some c \<Rightarrow> Inr c | None \<Rightarrow> Inl AttributeError)"

fun filter_list :: "('a \<Rightarrow> bool result) \<Rightarrow> 'a list \<Rightarrow> 'a list result" where
  "filter_list keep [] = Inr []"
| "filter_list keep (t # ts) =
     bind_result (keep t) (\<lambda>b. bind_result (filter_list keep ts) (\<lambda>r. Inr (if b then t # r else r)))"

definition filter_simple :: "(transaction \<Rightarrow> bool result) \<Rightarrow> message \<Rightarrow> message result" where
  "filter_simple keep el =
     bind_result (transactions_of el) (\<lambda>ts.
     bind_result (filter_list keep ts) (\<lambda>filtered.
     bind_result (client_of_msg el) (\<lambda>cid. Inr (new_message cid (Transactions filtered)))))"

definition filter_promiscuous :: "message \<Rightarrow> message result" where
  "filter_promiscuous el = Inr el"

definition filter_uc3_avg :: "message \<Rightarrow> message result" where
  "filter_uc3_avg el =
     (case msg_payload el of
        MergedTransactions ts avgs \<Rightarrow>
          bind_result (client_of_msg el) (\<lambda>cid. Inr (new_message cid (Transactions
            (filter (\<lambda>t. case dict_lookup avgs (t_payment_format t) of
                           None \<Rightarrow> False | Some a \<Rightarrow> t_amount_paid t < 1 / 100 * a) ts))))
      | _ \<Rightarrow> Inl AttributeError)"

definition min_path_count :: int where
  "min_path_count = 5"

definition filter_uc4_path :: "message \<Rightarrow> message result" where
  "filter_uc4_path el =
     (case msg_payload el of
        PathCounts cs \<Rightarrow>
          bind_result (client_of_msg el) (\<lambda>cid. Inr (new_message cid (PathCounts
            (filter (\<lambda>(p, c). min_path_count \<le> c) cs))))
      | _ \<Rightarrow> Inl AttributeError)"

datatype filter_fn =
    Promiscuous | UC1Filter | UC2Filter | UC3FilterPeriodA | UC3FilterPeriodB | UC3AvgFilter
  | UC4Filter | UC4PathFilter | UC5Filter | UC5AmountFilter

definition filter_msg :: "filter_fn \<Rightarrow> message \<Rightarrow> message result" where
  "filter_msg f =
     (case f of
        Promiscuous \<Rightarrow> filter_promiscuous
      | UC1Filter \<Rightarrow> filter_simple keep_uc1
      | UC2Filter \<Rightarrow> filter_simple keep_uc2
      | UC3FilterPeriodA \<Rightarrow> filter_simple (keep_period period_A)
      | UC3FilterPeriodB \<Rightarrow> filter_simple (keep_period period_B)
      | UC3AvgFilter \<Rightarrow> filter_uc3_avg
      | UC4Filter \<Rightarrow> filter_simple keep_uc4
      | UC4PathFilter \<Rightarrow> filter_uc4_path
      | UC5Filter \<Rightarrow> filter_simple keep_uc5
      | UC5AmountFilter \<Rightarrow> filter_simple keep_uc5_amount)"

section \<open>Specification\<close>

text \<open>What each simple filter is to keep, in terms of calendar days.\<close>

definition on_days :: "int \<Rightarrow> int \<Rightarrow> transaction \<Rightarrow> bool" where
  "on_days lo hi t \<longleftrightarrow>
     (\<exists>d. t_timestamp t = TTime d \<and> dt_year d = 2022 \<and> dt_month d = 9 \<and> lo \<le> dt_day d \<and> dt_day d \<le> hi)"

definition is_usd :: "transaction \<Rightarrow> bool" where
  "is_usd t \<longleftrightarrow> t_payment_currency t = ''US Dollar''"

fun filter_spec :: "filter_fn \<Rightarrow> transaction \<Rightarrow> bool" where
  "filter_spec UC1Filter t \<longleftrightarrow> is_usd t \<and> t_amount_paid t < 50"
| "filter_spec UC2Filter t \<longleftrightarrow> is_usd t"
| "filter_spec UC3FilterPeriodA t \<longleftrightarrow> is_usd t \<and> on_days 1 5 t"
| "filter_spec UC3FilterPeriodB t \<longleftrightarrow> is_usd t \<and> on_days 6 15 t"
| "filter_spec UC4Filter t \<longleftrightarrow> is_usd t \<and> on_days 1 5 t"
| "filter_spec UC5Filter t \<longleftrightarrow> (t_payment_format t = ''Wire'' \<or> t_payment_format t = ''ACH'') \<and> on_days 1 5 t"
| "filter_spec UC5AmountFilter t \<longleftrightarrow> t_amount_paid t < 1"
| "filter_spec _ t \<longleftrightarrow> True"

definition simple_filters :: "filter_fn set" where
  "simple_filters = {UC1Filter, UC2Filter, UC3FilterPeriodA, UC3FilterPeriodB, UC4Filter, UC5Filter, UC5AmountFilter}"

text \<open>A timestamp as the parsers produce it.\<close>

definition timed :: "transaction \<Rightarrow> bool" where
  "timed t \<longleftrightarrow> (\<exists>d. t_timestamp t = TTime d \<and> valid_datetime d)"

lemma window_days:
  assumes "valid_datetime d"
  shows "datetime_le (day_time 1) d \<and> datetime_less d (day_time 6) \<longleftrightarrow>
         dt_year d = 2022 \<and> dt_month d = 9 \<and> 1 \<le> dt_day d \<and> dt_day d \<le> 5"
  using assms by (auto simp: datetime_le_def datetime_less_def datetime_key_def day_time_def valid_datetime_def)

lemma in_window_days:
  "timed t \<Longrightarrow> in_window (day_time 1) (day_time 6) (t_timestamp t) = Inr (on_days 1 5 t)"
  using window_days by (auto simp: timed_def in_window_def on_days_def)

lemma keep_period_days:
  "timed t \<Longrightarrow> keep_period ((2022, 9, lo), (2022, 9, hi)) t = Inr (is_usd t \<and> on_days lo hi t)"
  by (auto simp: timed_def keep_period_def timestamp_date_def date_of_def date_le_def on_days_def is_usd_def target_currency_def)

lemma filter_list_filter:
  "(\<And>t. t \<in> set ts \<Longrightarrow> keep t = Inr (P t)) \<Longrightarrow> filter_list keep ts = Inr (filter P ts)"
  by (induction ts) auto

lemmas keep_defs = keep_uc1_def keep_uc2_def keep_uc4_def keep_uc5_def keep_uc5_amount_def
  period_A_def period_B_def is_usd_def target_currency_def

lemma filter_msg_simple:
  assumes "f \<in> simple_filters" "\<And>t. t \<in> set ts \<Longrightarrow> timed t"
  shows "filter_msg f \<lparr>msg_client = Some cid, msg_producer = p, msg_seq = n, msg_payload = Transactions ts\<rparr> =
         Inr (new_message cid (Transactions (filter (filter_spec f) ts)))"
proof -
  have "\<exists>keep. filter_msg f = filter_simple keep \<and> (\<forall>t. timed t \<longrightarrow> keep t = Inr (filter_spec f t))"
    using assms(1) unfolding simple_filters_def
    by (auto simp: filter_msg_def keep_defs in_window_days keep_period_days)
  then obtain keep where k: "filter_msg f = filter_simple keep" "\<And>t. timed t \<Longrightarrow> keep t = Inr (filter_spec f t)" by blast
  have "filter_list keep ts = Inr (filter (filter_spec f) ts)"
    using assms(2) k(2) by (intro filter_list_filter) blast
  with k(1) show ?thesis by (simp add: filter_simple_def transactions_of_def client_of_msg_def)
qed

section \<open>Properties\<close>

text \<open>
  Each simple filter, on a batch whose timestamps are datetimes, returns a batch for the same
  client with exactly the transactions of its specification, in order: UC1 the US-dollar payments
  below 50, UC2 the US-dollar payments, UC3 and UC4 those of their calendar days (UC4's exclusive
  upper datetime bound is UC3's inclusive last day), UC5 the wire and ACH payments of the first
  five days and the amounts below 1.
\<close>

theorem filters_keep_exactly:
  assumes "f \<in> simple_filters" "\<forall>t\<in>set ts. timed t"
    and "msg_client m = Some cid" "msg_payload m = Transactions ts"
  shows "filter_msg f m = Inr (new_message cid (Transactions (filter (filter_spec f) ts)))"
  using filter_msg_simple [OF assms(1), of ts cid "msg_producer m" "msg_seq m"] assms(2-4) by (cases m) simp

definition demo_transaction :: "int \<Rightarrow> amount \<Rightarrow> transaction" where
  "demo_transaction d a =
     \<lparr>t_timestamp = TTime (day_time d), t_from_bank = ''1'', t_from_account = ''A'', t_to_bank = ''2'', t_to_account = ''B'',
      t_amount_received = a, t_receiving_currency = ''US Dollar'', t_amount_paid = a,
      t_payment_currency = ''US Dollar'', t_payment_format = ''Wire''\<rparr>"

lemma timed_demo: "1 \<le> d \<Longrightarrow> d \<le> 30 \<Longrightarrow> timed (demo_transaction d a)"
  by (simp add: timed_def demo_transaction_def day_time_def valid_datetime_def days_in_month_def)

theorem filters_keep_exactly_witness:
  "filter_msg UC4Filter (new_message 7 (Transactions [demo_transaction 5 3, demo_transaction 6 4])) =
   Inr (new_message 7 (Transactions [demo_transaction 5 3]))"
proof -
  have "filter (filter_spec UC4Filter) [demo_transaction 5 3, demo_transaction 6 4] = [demo_transaction 5 3]"
    by (simp add: on_days_def is_usd_def demo_transaction_def day_time_def)
  then show ?thesis
    using filters_keep_exactly [of UC4Filter "[demo_transaction 5 3, demo_transaction 6 4]"
        "new_message 7 (Transactions [demo_transaction 5 3, demo_transaction 6 4])" 7]
    by (simp add: simple_filters_def timed_demo new_message_def has_client_def)
qed

text \<open>
  The two periods of UC3 split the first half of the month: a US-dollar payment of the days 1
  to 15 passes exactly one of the two period filters, any other payment passes neither.
\<close>

theorem periods_partition:
  assumes "timed t"
  shows "\<exists>a b. keep_period period_A t = Inr a \<and> keep_period period_B t = Inr b \<and> \<not> (a \<and> b) \<and>
           (a \<or> b \<longleftrightarrow> is_usd t \<and> on_days 1 15 t)"
  using assms unfolding period_A_def period_B_def
  by (auto simp: keep_period_days on_days_def)

theorem periods_partition_witness:
  "timed (demo_transaction 6 2) \<and>
   (\<exists>a b. keep_period period_A (demo_transaction 6 2) = Inr a \<and> keep_period period_B (demo_transaction 6 2) = Inr b \<and>
      \<not> (a \<and> b) \<and> (a \<or> b \<longleftrightarrow> is_usd (demo_transaction 6 2) \<and> on_days 1 15 (demo_transaction 6 2)))"
  using timed_demo [of 6 2] periods_partition [of "demo_transaction 6 2"] by simp

end
