(* ===== verification/Group_By.thy ===== *)
theory Group_By
  imports Filters
begin

text \<open>
  The group-by functions of UC2, UC3 and UC5 (\<open>group_by/group_by_fns\<close>): each turns one batch into
  partial results with the affinity that chooses their downstream shard.  Python's \<open>hash\<close> is a
  parameter, the record \<open>pyhash\<close>: the nodes run with a fixed hash seed, so all of them compute the
  same function.  The graph group-by of UC4 is in \<open>Graphs\<close>, the currency conversion in \<open>Conversion\<close>.
\<close>

record pyhash =
  h_str :: "string \<Rightarrow> int"
  h_uuid :: "uuid \<Rightarrow> int"
  h_ident :: "bytes \<Rightarrow> int \<Rightarrow> int"

definition affinity_shards :: int where
  "affinity_shards = 10"

section \<open>Dictionaries split by affinity\<close>

text \<open>The loop over a dict's items that fills a \<open>defaultdict\<close> of per-shard dicts.\<close>

definition shard_dict :: "('k \<Rightarrow> int) \<Rightarrow> ('k, 'v) dict \<Rightarrow> (int, ('k, 'v) dict) dict" where
  "shard_dict h d =
     foldl (\<lambda>aff (k, v). dict_set (h k) (dict_set k v (dict_get aff (h k) [])) aff) [] d"

lemma shard_dict_snoc:
  "shard_dict h (d @ [(k, v)]) =
     dict_set (h k) (dict_set k v (dict_get (shard_dict h d) (h k) [])) (shard_dict h d)"
  by (simp add: shard_dict_def)

lemma wf_shard_dict [simp]: "wf_dict (shard_dict h d)"
  by (induction d rule: rev_induct) (auto simp: shard_dict_snoc, simp add: shard_dict_def)

lemma shard_dict_lookup:
  "wf_dict d \<Longrightarrow> map_of (dict_get (shard_dict h d) i []) k = (if h k = i then map_of d k else None)"
proof (induction d rule: rev_induct)
  case Nil
  then show ?case by (simp add: shard_dict_def)
next
  case (snoc x d)
  obtain k' v where x: "x = (k', v)" by (cases x)
  from snoc.prems have wf: "wf_dict d" and fresh: "k' \<notin> set (map fst d)" by (auto simp: wf_dict_def x)
  from fresh have "map_of d k' = None" by (simp add: map_of_eq_None_iff)
  then show ?case using snoc.IH [OF wf] by (auto simp: x shard_dict_snoc map_add_def split: option.splits)
qed

lemma shard_dict_keys: "set (map fst (shard_dict h d)) = h ` set (map fst d)"
proof (induction d rule: rev_induct)
  case Nil
  then show ?case by (simp add: shard_dict_def)
next
  case (snoc x d)
  then show ?case by (cases x) (simp add: shard_dict_snoc keys_dict_set del: set_map)
qed

lemma shard_dict_parts:
  "(i, p) \<in> set (shard_dict h d) \<Longrightarrow> dict_get (shard_dict h d) i [] = p"
  using wf_shard_dict [of h d] by (simp add: dict_get_def wf_dict_def map_of_is_SomeI)

lemma wf_shard_part: "wf_dict (dict_get (shard_dict h d) i [])"
proof (induction d arbitrary: i rule: rev_induct)
  case Nil
  then show ?case by (simp add: shard_dict_def)
next
  case (snoc x d)
  then show ?case by (cases x) (auto simp: shard_dict_snoc)
qed

lemma shard_dict_sound:
  assumes "wf_dict d" "(i, p) \<in> set (shard_dict h d)" "(k, v) \<in> set p"
  shows "h k = i \<and> (k, v) \<in> set d"
proof -
  have "map_of p k = Some v"
    using wf_shard_part [of h d i] assms(3) shard_dict_parts [OF assms(2)] by (simp add: wf_dict_def map_of_is_SomeI)
  with shard_dict_lookup [OF assms(1), of h i k] shard_dict_parts [OF assms(2)]
  have "h k = i" "map_of d k = Some v" by (auto split: if_splits)
  then show ?thesis by (blast dest: map_of_SomeD)
qed

lemma shard_dict_complete:
  assumes "wf_dict d" "(k, v) \<in> set d"
  shows "\<exists>p. (h k, p) \<in> set (shard_dict h d) \<and> (k, v) \<in> set p"
proof -
  have "h k \<in> set (map fst (shard_dict h d))"
    unfolding shard_dict_keys using assms(2) by force
  then obtain p where p: "(h k, p) \<in> set (shard_dict h d)" by auto
  have "map_of d k = Some v" using assms by (simp add: wf_dict_def)
  with shard_dict_lookup [OF assms(1), of h "h k" k] shard_dict_parts [OF p] have "map_of p k = Some v" by simp
  with p show ?thesis by (auto dest: map_of_SomeD)
qed

section \<open>UC2\<close>

text \<open>The keep-the-larger step, shared in form by the group-by, the aggregate and the merge: a
  strictly larger amount replaces the entry of its bank.\<close>

definition max_step :: "(string, string \<times> amount) dict \<Rightarrow> string \<times> string \<times> amount \<Rightarrow> (string, string \<times> amount) dict" where
  "max_step d e =
     (case e of (bank, acc, x) \<Rightarrow>
        (case dict_lookup d bank of
           None \<Rightarrow> dict_set bank (acc, x) d
         | Some (_, y) \<Rightarrow> if x > y then dict_set bank (acc, x) d else d))"

definition max_update :: "(string, string \<times> amount) dict \<Rightarrow> (string \<times> string \<times> amount) list \<Rightarrow> (string, string \<times> amount) dict" where
  "max_update d es = foldl max_step d es"

definition max_entry :: "transaction \<Rightarrow> string \<times> string \<times> amount" where
  "max_entry t = (t_from_bank t, t_from_account t, t_amount_paid t)"

definition group_uc2_max :: "pyhash \<Rightarrow> transaction list \<Rightarrow> ((string, string \<times> amount) dict \<times> int) list" where
  "group_uc2_max h ts =
     map (\<lambda>(aff, d). (d, aff))
       (shard_dict (\<lambda>bank. h_str h bank mod affinity_shards) (max_update [] (map max_entry ts)))"

definition group_uc2_names :: "pyhash \<Rightarrow> account list \<Rightarrow> ((string, string) dict \<times> int) list" where
  "group_uc2_names h accs =
     map (\<lambda>(aff, d). (d, aff))
       (shard_dict (\<lambda>bank. h_str h bank mod affinity_shards)
         (dict_of (map (\<lambda>a. (a_bank_id a, a_bank_name a)) accs)))"

section \<open>UC3\<close>

definition sum_add :: "(string, amount \<times> int) dict \<Rightarrow> string \<times> amount \<times> int \<Rightarrow> (string, amount \<times> int) dict" where
  "sum_add d e =
     (case e of (f, s, c) \<Rightarrow>
        dict_set f (fst (dict_get d f (0, 0)) + s, snd (dict_get d f (0, 0)) + c) d)"

definition sum_update :: "(string, amount \<times> int) dict \<Rightarrow> (string \<times> amount \<times> int) list \<Rightarrow> (string, amount \<times> int) dict" where
  "sum_update d es = foldl sum_add d es"

definition group_uc3_sum :: "pyhash \<Rightarrow> transaction list \<Rightarrow> ((string, amount \<times> int) dict \<times> int) list" where
  "group_uc3_sum h ts =
     map (\<lambda>(f, s, c). ([(f, s, c)], h_str h f))
       (sum_update [] (map (\<lambda>t. (t_payment_format t, t_amount_paid t, 1)) ts))"

section \<open>UC5\<close>

definition group_uc5_count :: "pyhash \<Rightarrow> uuid \<Rightarrow> transaction list \<Rightarrow> (int \<times> int) list" where
  "group_uc5_count h cid ts = [(int (length ts), h_uuid h cid)]"

section \<open>On messages\<close>

text \<open>The functions as the controller calls them: the messages they build for the input's client.\<close>

datatype group_by_fn = UC2MaxAmountGroupBy | UC2BankNamesGroupBy | UC3SumGroupBy | UC5CountGroupBy

definition group_by_msg :: "group_by_fn \<Rightarrow> pyhash \<Rightarrow> message \<Rightarrow> (message \<times> int) list result" where
  "group_by_msg f h m =
     bind_result (client_of_msg m) (\<lambda>cid.
       case (f, msg_payload m) of
         (UC2MaxAmountGroupBy, Transactions ts) \<Rightarrow>
           Inr (map (\<lambda>(d, a). (new_message cid (MaxByBank d), a)) (group_uc2_max h ts))
       | (UC2BankNamesGroupBy, Accounts as) \<Rightarrow>
           Inr (map (\<lambda>(d, a). (new_message cid (BankNames d), a)) (group_uc2_names h as))
       | (UC3SumGroupBy, Transactions ts) \<Rightarrow>
           Inr (map (\<lambda>(d, a). (new_message cid (SumByPaymentFormat d), a)) (group_uc3_sum h ts))
       | (UC5CountGroupBy, Transactions ts) \<Rightarrow>
           Inr (map (\<lambda>(n, a). (new_message cid (TransactionCount n), a)) (group_uc5_count h cid ts))
       | _ \<Rightarrow> Inl AttributeError)"

section \<open>Laws of the maximum\<close>

text \<open>An entry of a bank is a largest one among a set of candidates.\<close>

definition is_max_entry :: "(string \<times> string \<times> amount) set \<Rightarrow> string \<Rightarrow> (string \<times> amount) option \<Rightarrow> bool" where
  "is_max_entry S bank r \<longleftrightarrow>
     (case r of None \<Rightarrow> \<forall>e\<in>S. fst e \<noteq> bank
              | Some (acc, x) \<Rightarrow> (bank, acc, x) \<in> S \<and> (\<forall>acc' y. (bank, acc', y) \<in> S \<longrightarrow> y \<le> x))"

lemma wf_max_step [simp]: "wf_dict d \<Longrightarrow> wf_dict (max_step d e)"
  by (auto simp: max_step_def split: prod.splits option.splits)

lemma wf_max_update [simp]: "wf_dict d \<Longrightarrow> wf_dict (max_update d es)"
  by (induction es arbitrary: d) (simp_all add: max_update_def)

lemma max_step_spec:
  assumes "\<And>b. is_max_entry S b (map_of d b)"
  shows "is_max_entry (insert e S) b (map_of (max_step d e) b)"
proof -
  obtain bank acc x where e: "e = (bank, acc, x)" by (cases e)
  show ?thesis
  proof (cases "map_of d bank")
    case None
    with assms [of bank] assms [of b] show ?thesis
      by (fastforce simp: e max_step_def is_max_entry_def split: option.splits)
  next
    case (Some ay)
    obtain a y where ay: "ay = (a, y)" by (cases ay)
    have m: "(bank, a, y) \<in> S" "\<And>acc' z. (bank, acc', z) \<in> S \<Longrightarrow> z \<le> y"
      using assms [of bank] by (auto simp: is_max_entry_def Some ay)
    show ?thesis
      using assms [of b] m
      by (cases "b = bank") (fastforce simp: e max_step_def is_max_entry_def Some ay split: option.splits)+
  qed
qed

lemma max_update_spec:
  "(\<And>b. is_max_entry S b (map_of d b)) \<Longrightarrow> is_max_entry (S \<union> set es) b (map_of (max_update d es) b)"
proof (induction es arbitrary: d S)
  case Nil
  then show ?case by (simp add: max_update_def)
next
  case (Cons e es)
  from Cons.IH [of "insert e S" "max_step d e"] max_step_spec [OF Cons.prems]
  show ?case by (simp add: max_update_def)
qed

lemma max_update_Nil: "is_max_entry (set es) b (map_of (max_update [] es) b)"
  using max_update_spec [of "{}" "[]" es b] by (simp add: is_max_entry_def)

text \<open>A maximum over selected representatives is a maximum over everything they represent.\<close>

lemma is_max_entry_trans:
  assumes "is_max_entry S bank r" "\<And>e. e \<in> S \<Longrightarrow> fst e = bank \<Longrightarrow> e \<in> T"
    and "\<And>acc y. (bank, acc, y) \<in> T \<Longrightarrow> \<exists>acc' z. (bank, acc', z) \<in> S \<and> y \<le> z"
  shows "is_max_entry T bank r"
proof (cases r)
  case None
  with assms(1,3) show ?thesis by (fastforce simp: is_max_entry_def)
next
  case (Some ax)
  obtain a x where ax: "ax = (a, x)" by (cases ax)
  from assms(1) have m: "(bank, a, x) \<in> S" "\<And>acc' z. (bank, acc', z) \<in> S \<Longrightarrow> z \<le> x"
    by (auto simp: is_max_entry_def Some ax)
  have "y \<le> x" if "(bank, acc, y) \<in> T" for acc y
    using assms(3) [OF that] m(2) by (meson order_trans)
  with m(1) assms(2) show ?thesis by (simp add: is_max_entry_def Some ax)
qed

lemma is_max_entry_found:
  "is_max_entry S bank r \<Longrightarrow> (bank, acc, y) \<in> S \<Longrightarrow> \<exists>acc' z. r = Some (acc', z) \<and> y \<le> z"
  unfolding is_max_entry_def by (cases r) (auto dest: bspec)

section \<open>Laws of the sums\<close>

definition entry_sum :: "string \<Rightarrow> (string \<times> amount \<times> int) list \<Rightarrow> amount \<times> int" where
  "entry_sum f es =
     (sum_list (map (fst \<circ> snd) (filter (\<lambda>e. fst e = f) es)),
      sum_list (map (snd \<circ> snd) (filter (\<lambda>e. fst e = f) es)))"

lemma wf_sum_add [simp]: "wf_dict d \<Longrightarrow> wf_dict (sum_add d e)"
  by (auto simp: sum_add_def split: prod.splits)

lemma wf_sum_update [simp]: "wf_dict d \<Longrightarrow> wf_dict (sum_update d es)"
  by (induction es arbitrary: d) (simp_all add: sum_update_def)

lemma sum_update_get:
  "dict_get (sum_update d es) f (0, 0) =
     (fst (dict_get d f (0, 0)) + fst (entry_sum f es), snd (dict_get d f (0, 0)) + snd (entry_sum f es))"
proof (induction es arbitrary: d)
  case Nil
  then show ?case by (simp add: sum_update_def entry_sum_def)
next
  case (Cons e es)
  obtain g s c where "e = (g, s, c)" by (cases e)
  with Cons [of "sum_add d e"] show ?case
    by (simp add: sum_update_def entry_sum_def sum_add_def)
qed

lemma sum_update_keys: "set (map fst (sum_update d es)) = set (map fst d) \<union> fst ` set es"
proof (induction es arbitrary: d)
  case Nil
  then show ?case by (simp add: sum_update_def)
next
  case (Cons e es)
  obtain g s c where "e = (g, s, c)" by (cases e)
  with Cons [of "sum_add d e"] show ?case
    by (simp add: sum_update_def sum_add_def keys_dict_set del: set_map)
qed

end
