(* ===== verification/Aggregates.thy ===== *)
theory Aggregates
  imports Group_By
begin

text \<open>
  The aggregates that keep their state in memory (\<open>aggregate/aggregate_fns\<close>: UC2's bank names and
  maxima, UC3's averages), with the interface every aggregate function offers to its controller:
  \<open>client_aggregate\<close> is the contract that a client's accumulated state is the fold of its own
  messages, whatever other clients' messages are interleaved with them and whatever clients are
  discarded.  The spilling aggregates of UC4 interpret the same contract in \<open>Graphs\<close>.

  The properties: from any split of the input into batches, in any order of delivery, the shard
  that owns a bank or a format computes the maximum, the sum and the average of the whole input;
  the state survives snapshot and restore.
\<close>

section \<open>The contract\<close>

locale client_aggregate =
  fixes init :: 's
    and aggregate :: "'s \<Rightarrow> uuid \<Rightarrow> 'd \<Rightarrow> 's"
    and discard :: "'s \<Rightarrow> uuid \<Rightarrow> 's"
    and inv :: "'s \<Rightarrow> bool"
    and good :: "'d \<Rightarrow> bool"
    and view :: "'s \<Rightarrow> uuid \<Rightarrow> 'v"
    and empty :: 'v
    and step :: "'v \<Rightarrow> 'd \<Rightarrow> 'v"
  assumes inv_init: "inv init"
    and inv_aggregate: "inv s \<Longrightarrow> good d \<Longrightarrow> inv (aggregate s c d)"
    and inv_discard: "inv s \<Longrightarrow> inv (discard s c)"
    and view_init: "view init c = empty"
    and view_aggregate:
      "inv s \<Longrightarrow> good d \<Longrightarrow> view (aggregate s c d) c' = (if c' = c then step (view s c) d else view s c')"
    and view_discard: "inv s \<Longrightarrow> view (discard s c) c' = (if c' = c then empty else view s c')"
begin

lemma inv_run: "inv s \<Longrightarrow> (\<And>x. x \<in> set ins \<Longrightarrow> good (snd x)) \<Longrightarrow> inv (foldl (\<lambda>s (c, d). aggregate s c d) s ins)"
proof (induction ins arbitrary: s)
  case (Cons x ins)
  have "good (snd x)" using Cons.prems(2) by simp
  then show ?case using Cons by (cases x) (simp add: inv_aggregate)
qed simp

lemma view_run:
  assumes "inv s" "\<And>x. x \<in> set ins \<Longrightarrow> good (snd x)"
  shows "view (foldl (\<lambda>s (c, d). aggregate s c d) s ins) c =
         foldl step (view s c) (map snd (filter (\<lambda>x. fst x = c) ins))"
  using assms
proof (induction ins arbitrary: s)
  case Nil
  then show ?case by simp
next
  case (Cons x ins)
  obtain c' d where x: "x = (c', d)" by (cases x)
  have "good d" using Cons.prems(2) [of x] by (simp add: x)
  with Cons.prems(1) have "inv (aggregate s c' d)" "good d" by (simp_all add: inv_aggregate)
  then show ?case using Cons.IH [of "aggregate s c' d"] Cons.prems by (auto simp: x view_aggregate)
qed

lemma view_run_init:
  "(\<And>x. x \<in> set ins \<Longrightarrow> good (snd x)) \<Longrightarrow>
   view (foldl (\<lambda>s (c, d). aggregate s c d) init ins) c = foldl step empty (map snd (filter (\<lambda>x. fst x = c) ins))"
  using view_run [OF inv_init] by (simp add: view_init)

lemma view_after_discard:
  assumes "inv s" "\<And>x. x \<in> set ins \<Longrightarrow> good (snd x)"
  shows "view (foldl (\<lambda>s (c, d). aggregate s c d) (discard s c) ins) c =
         foldl step empty (map snd (filter (\<lambda>x. fst x = c) ins))"
  using view_run [OF inv_discard [OF assms(1)] assms(2)] by (simp add: view_discard [OF assms(1)])

end

section \<open>State kept per client\<close>

text \<open>\<open>self._state[client_id]\<close>, created empty when absent.\<close>

type_synonym 'v per_client = "(uuid, 'v) dict"

definition uc2_names_aggregate :: "(string, string) dict per_client \<Rightarrow> uuid \<Rightarrow> (string, string) dict \<Rightarrow> (string, string) dict per_client" where
  "uc2_names_aggregate st cid data =
     (let st1 = dict_setdefault cid [] st in dict_set cid (dict_update (dict_get st1 cid []) data) st1)"

definition uc2_max_aggregate ::
    "(string, string \<times> amount) dict per_client \<Rightarrow> uuid \<Rightarrow> (string, string \<times> amount) dict \<Rightarrow> (string, string \<times> amount) dict per_client" where
  "uc2_max_aggregate st cid data =
     (let st1 = dict_setdefault cid [] st in dict_set cid (max_update (dict_get st1 cid []) data) st1)"

definition uc3_avg_aggregate ::
    "(string, amount \<times> int) dict per_client \<Rightarrow> uuid \<Rightarrow> (string, amount \<times> int) dict \<Rightarrow> (string, amount \<times> int) dict per_client" where
  "uc3_avg_aggregate st cid data =
     (let st1 = dict_setdefault cid [] st in dict_set cid (sum_update (dict_get st1 cid []) data) st1)"

definition discard_client :: "'v per_client \<Rightarrow> uuid \<Rightarrow> 'v per_client" where
  "discard_client st cid = dict_pop cid st"

text \<open>\<open>get_result\<close>: the partial results with their affinities, and the state without the client.\<close>

definition uc2_names_result :: "pyhash \<Rightarrow> (string, string) dict per_client \<Rightarrow> uuid \<Rightarrow>
    ((string, string) dict \<times> int) list \<times> (string, string) dict per_client" where
  "uc2_names_result h st cid =
     (case dict_lookup st cid of
        None \<Rightarrow> ([], st)
      | Some data \<Rightarrow> (map (\<lambda>(bank, name). ([(bank, name)], h_str h bank)) data, dict_pop cid st))"

definition uc2_max_result :: "pyhash \<Rightarrow> (string, string \<times> amount) dict per_client \<Rightarrow> uuid \<Rightarrow>
    ((string, string \<times> amount) dict \<times> int) list \<times> (string, string \<times> amount) dict per_client" where
  "uc2_max_result h st cid =
     (case dict_lookup st cid of
        None \<Rightarrow> ([], st)
      | Some data \<Rightarrow> (map (\<lambda>(bank, e). ([(bank, e)], h_str h bank)) data, dict_pop cid st))"

definition average :: "amount \<times> int \<Rightarrow> amount result" where
  "average sc = (if snd sc = 0 then Inl ZeroDivisionError else Inr (fst sc / of_int (snd sc)))"

definition averages_of :: "(string, amount \<times> int) dict \<Rightarrow> (string, amount) dict result" where
  "averages_of d = map_result (\<lambda>(f, sc). bind_result (average sc) (\<lambda>a. Inr (f, a))) d"

definition uc3_avg_result :: "pyhash \<Rightarrow> (string, amount \<times> int) dict per_client \<Rightarrow> uuid \<Rightarrow>
    ((string, amount) dict \<times> int) list result \<times> (string, amount \<times> int) dict per_client" where
  "uc3_avg_result h st cid =
     (case dict_lookup st cid of
        None \<Rightarrow> (Inr [], st)
      | Some data \<Rightarrow>
          (bind_result (averages_of data) (\<lambda>avgs. Inr (map (\<lambda>(f, a). ([(f, a)], h_str h f)) avgs)), dict_pop cid st))"

text \<open>\<open>snapshot_state\<close> and \<open>restore_state\<close>: the dict of each client under the text of its identifier.\<close>

definition snapshot_clients :: "('k, 'v) dict per_client \<Rightarrow> (string \<times> ('k \<times> 'v) list) list" where
  "snapshot_clients st = map (\<lambda>(cid, d). (uuid_str cid, d)) st"

definition restore_clients :: "(string \<times> ('k \<times> 'v) list) list \<Rightarrow> ('k, 'v) dict per_client result" where
  "restore_clients snap =
     bind_result (map_result (\<lambda>(c, es). bind_result (parse_uuid c) (\<lambda>cid. Inr (cid, dict_of es))) snap)
       (\<lambda>kvs. Inr (dict_of kvs))"

section \<open>The aggregates meet the contract\<close>

lemma get_setdefault_client [simp]: "dict_get (dict_setdefault c dflt st) c' dflt = dict_get st c' dflt"
  by (simp add: dict_get_def dict_in_lookup split: option.splits)

lemma get_setdefault_other [simp]: "c' \<noteq> c \<Longrightarrow> dict_get (dict_setdefault c v st) c' dflt = dict_get st c' dflt"
  by (simp add: dict_get_def)

interpretation names: client_aggregate "[]" uc2_names_aggregate discard_client "\<lambda>_. True" "\<lambda>_. True"
    "\<lambda>st c. dict_get st c []" "[]" dict_update
  by unfold_locales (simp_all add: uc2_names_aggregate_def discard_client_def Let_def)

interpretation maxes: client_aggregate "[]" uc2_max_aggregate discard_client "\<lambda>_. True" "\<lambda>_. True"
    "\<lambda>st c. dict_get st c []" "[]" max_update
  by unfold_locales (simp_all add: uc2_max_aggregate_def discard_client_def Let_def)

interpretation sums: client_aggregate "[]" uc3_avg_aggregate discard_client "\<lambda>_. True" "\<lambda>_. True"
    "\<lambda>st c. dict_get st c []" "[]" sum_update
  by unfold_locales (simp_all add: uc3_avg_aggregate_def discard_client_def Let_def)

lemma max_update_concat: "foldl max_update d ds = max_update d (concat ds)"
  by (induction ds arbitrary: d) (simp_all add: max_update_def)

lemma sum_update_concat: "foldl sum_update d ds = sum_update d (concat ds)"
  by (induction ds arbitrary: d) (simp_all add: sum_update_def)

section \<open>Delivery to the owning shard\<close>

text \<open>The partials of a list of batches that the controller routes to shard \<open>i\<close> of \<open>n\<close>.\<close>

definition routed :: "('b \<Rightarrow> ('d \<times> int) list) \<Rightarrow> int \<Rightarrow> int \<Rightarrow> 'b list \<Rightarrow> 'd list" where
  "routed grp n i batches = map fst (filter (\<lambda>(d, a). a mod n = i) (concat (map grp batches)))"

lemma set_routed: "d \<in> set (routed grp n i batches) \<longleftrightarrow> (\<exists>b\<in>set batches. \<exists>a. (d, a) \<in> set (grp b) \<and> a mod n = i)"
  unfolding routed_def set_map set_filter set_concat image_iff by force

lemma group_uc2_max_iff: "(d, a) \<in> set (group_uc2_max h ts) \<longleftrightarrow>
    (a, d) \<in> set (shard_dict (\<lambda>bank. h_str h bank mod affinity_shards) (max_update [] (map max_entry ts)))"
  by (auto simp: group_uc2_max_def)

lemma uc2_max_routed:
  assumes "h_str h bank mod affinity_shards mod n = i"
    and "is_max_entry (\<Union>d \<in> set (routed (group_uc2_max h) n i batches). set d) bank r"
  shows "is_max_entry (max_entry ` set (concat batches)) bank r"
proof (rule is_max_entry_trans [OF assms(2)])
  let ?m = "\<lambda>ts. max_update [] (map max_entry ts)"
  have wf: "wf_dict (?m ts)" for ts by simp
  have mx: "is_max_entry (max_entry ` set ts) b (map_of (?m ts) b)" for ts b
    using max_update_Nil [of "map max_entry ts" b] by simp
  show "e \<in> max_entry ` set (concat batches)"
    if e: "e \<in> (\<Union>d \<in> set (routed (group_uc2_max h) n i batches). set d)" "fst e = bank" for e
  proof -
    from e(1) obtain d ts a where d: "e \<in> set d" "ts \<in> set batches" "(d, a) \<in> set (group_uc2_max h ts)"
      by (auto simp: set_routed)
    obtain b acc x where ev: "e = (b, acc, x)" by (cases e)
    from d(1,3) have "(b, acc, x) \<in> set (?m ts)"
      unfolding group_uc2_max_iff ev using shard_dict_sound [OF wf] by blast
    then have "map_of (?m ts) b = Some (acc, x)" using wf [of ts] by (simp add: wf_dict_def)
    with mx [of ts b] have "e \<in> max_entry ` set ts" by (simp add: is_max_entry_def ev)
    with d(2) show ?thesis by auto
  qed
  show "\<exists>acc' z. (bank, acc', z) \<in> (\<Union>d \<in> set (routed (group_uc2_max h) n i batches). set d) \<and> y \<le> z"
    if t: "(bank, acc, y) \<in> max_entry ` set (concat batches)" for acc y
  proof -
    from t obtain ts where ts: "ts \<in> set batches" "(bank, acc, y) \<in> max_entry ` set ts" by auto
    from is_max_entry_found [OF mx ts(2)] obtain acc' z where z: "map_of (?m ts) bank = Some (acc', z)" "y \<le> z"
      by blast
    from shard_dict_complete [OF wf map_of_SomeD [OF z(1)], of "\<lambda>bank. h_str h bank mod affinity_shards"]
    obtain d where d: "(d, h_str h bank mod affinity_shards) \<in> set (group_uc2_max h ts)" "(bank, acc', z) \<in> set d"
      by (auto simp: group_uc2_max_iff)
    have "d \<in> set (routed (group_uc2_max h) n i batches)" unfolding set_routed using ts(1) d(1) assms(1) by blast
    with d(2) z(2) show ?thesis by blast
  qed
qed

section \<open>UC3 sums\<close>

lemma mset_concat_cong: "mset xs = mset ys \<Longrightarrow> mset (concat xs) = mset (concat ys)"
proof -
  have "mset (concat zs) = sum_mset (image_mset mset (mset zs))" for zs :: "'a list list"
    by (induction zs) simp_all
  then show "mset xs = mset ys \<Longrightarrow> mset (concat xs) = mset (concat ys)" by simp
qed

lemma entry_sum_append:
  "entry_sum f (xs @ ys) = (fst (entry_sum f xs) + fst (entry_sum f ys), snd (entry_sum f xs) + snd (entry_sum f ys))"
  by (simp add: entry_sum_def)

lemma entry_sum_mset: "mset xs = mset ys \<Longrightarrow> entry_sum f xs = entry_sum f ys"
proof -
  assume "mset xs = mset ys"
  then have "mset (filter (\<lambda>e. fst e = f) xs) = mset (filter (\<lambda>e. fst e = f) ys)" by simp
  then have "mset (map g (filter (\<lambda>e. fst e = f) xs)) = mset (map g (filter (\<lambda>e. fst e = f) ys))" for g :: "string \<times> amount \<times> int \<Rightarrow> 'b"
    by (simp only: mset_map)
  then show ?thesis unfolding entry_sum_def by (metis sum_mset_sum_list)
qed

lemma entry_sum_dict: "wf_dict d \<Longrightarrow> entry_sum f d = dict_get d f (0, 0)"
proof (induction d)
  case Nil
  then show ?case by (simp add: entry_sum_def)
next
  case (Cons e d)
  obtain g s c where e: "e = (g, s, c)" by (cases e)
  have "filter (\<lambda>e. fst e = g) d = []" using Cons.prems by (auto simp: wf_dict_def e filter_empty_conv)
  then show ?case using Cons by (auto simp: e entry_sum_def dict_get_def wf_dict_def)
qed

text \<open>Sum and count of the amounts of a format over a list of transactions.\<close>

definition format_total :: "string \<Rightarrow> transaction list \<Rightarrow> amount \<times> int" where
  "format_total f ts =
     (sum_list (map t_amount_paid (filter (\<lambda>t. t_payment_format t = f) ts)),
      int (length (filter (\<lambda>t. t_payment_format t = f) ts)))"

lemma format_total_entries:
  "entry_sum f (map (\<lambda>t. (t_payment_format t, t_amount_paid t, 1)) ts) = format_total f ts"
  by (induction ts) (auto simp: entry_sum_def format_total_def)

lemma format_total_append:
  "format_total f (xs @ ys) = (fst (format_total f xs) + fst (format_total f ys), snd (format_total f xs) + snd (format_total f ys))"
  by (simp add: format_total_def)

lemma concat_singletons:
  "concat (map fst (filter (\<lambda>(d, a). a mod n = i) (map (\<lambda>(f, s, c). ([(f, s, c)], k f)) es))) =
   filter (\<lambda>e. k (fst e) mod n = (i :: int)) es"
  by (induction es) auto

lemma group_uc3_routed:
  assumes "h_str h f mod n = i"
  shows "entry_sum f (concat (routed (group_uc3_sum h) n i [ts])) = format_total f ts"
proof -
  let ?d = "sum_update [] (map (\<lambda>t. (t_payment_format t, t_amount_paid t, 1)) ts)"
  have wf: "wf_dict ?d" by simp
  have c: "concat (routed (group_uc3_sum h) n i [ts]) = filter (\<lambda>e. h_str h (fst e) mod n = i) ?d"
    by (simp add: routed_def group_uc3_sum_def concat_singletons)
  have "filter (\<lambda>e. fst e = f) (filter (\<lambda>e. h_str h (fst e) mod n = i) ?d) = filter (\<lambda>e. fst e = f) ?d"
    unfolding filter_filter by (rule filter_cong) (auto simp: assms)
  then have "entry_sum f (concat (routed (group_uc3_sum h) n i [ts])) = entry_sum f ?d"
    unfolding c entry_sum_def by simp
  also have "\<dots> = dict_get ?d f (0, 0)" by (rule entry_sum_dict [OF wf])
  also have "\<dots> = format_total f ts" by (simp add: sum_update_get format_total_entries)
  finally show ?thesis .
qed

lemma routed_Cons: "routed g n i (b # bs) = routed g n i [b] @ routed g n i bs"
  by (simp add: routed_def)

lemma uc3_routed:
  "h_str h f mod n = i \<Longrightarrow> entry_sum f (concat (routed (group_uc3_sum h) n i batches)) = format_total f (concat batches)"
proof (induction batches)
  case Nil
  then show ?case by (simp add: routed_def entry_sum_def format_total_def)
next
  case (Cons ts bs)
  from Cons show ?case
    using group_uc3_routed [OF Cons.prems, of ts]
    by (simp add: routed_Cons [of _ _ _ ts bs] entry_sum_append format_total_append)
qed

section \<open>Properties\<close>

text \<open>
  UC2 computes the maximum of every bank.  Split a client's payments into batches in any way,
  group each batch, deliver the partials routed to an aggregate shard in any order, interleaved
  with other clients' partials: for every bank that shard owns, the state holds a largest payment
  of the bank in the whole input, with the account that made it, and an entry for no other bank.
\<close>

theorem uc2_max_correct:
  assumes "mset (map snd (filter (\<lambda>x. fst x = cid) ins)) = mset (routed (group_uc2_max h) n i batches)"
    and "h_str h bank mod affinity_shards mod n = i"
  shows "is_max_entry (max_entry ` set (concat batches)) bank
           (dict_lookup (dict_get (foldl (\<lambda>st (c, d). uc2_max_aggregate st c d) [] ins) cid []) bank)"
proof (rule uc2_max_routed [OF assms(2)])
  let ?ds = "map snd (filter (\<lambda>x. fst x = cid) ins)"
  have "dict_get (foldl (\<lambda>st (c, d). uc2_max_aggregate st c d) [] ins) cid [] = max_update [] (concat ?ds)"
    using maxes.view_run_init [of ins cid] by (simp add: max_update_concat)
  moreover have "set ?ds = set (routed (group_uc2_max h) n i batches)" using assms(1) by (rule mset_eq_setD)
  moreover have "is_max_entry (\<Union>d \<in> set ?ds. set d) bank (map_of (max_update [] (concat ?ds)) bank)"
    using max_update_Nil [of "concat ?ds" bank] by (simp only: set_concat)
  ultimately show "is_max_entry (\<Union>d \<in> set (routed (group_uc2_max h) n i batches). set d) bank
           (map_of (dict_get (foldl (\<lambda>st (c, d). uc2_max_aggregate st c d) [] ins) cid []) bank)"
    by simp
qed

definition demo_hash :: pyhash where
  "demo_hash = \<lparr>h_str = (\<lambda>s. int (length s)), h_uuid = (\<lambda>_. 3), h_ident = (\<lambda>_ n. n)\<rparr>"

theorem uc2_max_correct_witness:
  "is_max_entry (max_entry ` set (concat [[demo_transaction 1 5], [demo_transaction 2 8, demo_transaction 3 2]])) ''1''
     (dict_lookup (dict_get (foldl (\<lambda>st (c, d). uc2_max_aggregate st c d) []
        [(7, [(''1'', ''A'', 8)]), (9, [(''1'', ''Z'', 50)]), (7, [(''1'', ''A'', 5)])]) 7 []) ''1'')"
proof (rule uc2_max_correct [where h = demo_hash and n = 2 and i = 1])
  show "mset (map snd (filter (\<lambda>x. fst x = 7) [(7 :: uuid, [(''1'', ''A'', 8 :: amount)]), (9, [(''1'', ''Z'', 50)]), (7, [(''1'', ''A'', 5)])])) =
    mset (routed (group_uc2_max demo_hash) 2 1 [[demo_transaction 1 5], [demo_transaction 2 8, demo_transaction 3 2]])"
    by (simp add: routed_def group_uc2_max_def demo_hash_def demo_transaction_def max_entry_def max_update_def
        max_step_def shard_dict_def affinity_shards_def)
qed (simp add: demo_hash_def affinity_shards_def)

text \<open>
  UC3 computes the average of every payment format.  From any split into batches, any order of
  delivery and any interleaving with other clients, the shard that owns a format holds the exact
  sum and number of the amounts paid in that format, so that its result for the format, when the
  format occurs, is the average of the whole input, and no division by zero is raised.
\<close>

theorem uc3_average_correct:
  assumes "mset (map snd (filter (\<lambda>x. fst x = cid) ins)) = mset (routed (group_uc3_sum h) n i batches)"
    and "h_str h f mod n = i" "snd (format_total f (concat batches)) \<noteq> 0"
    and "dict_get (foldl (\<lambda>st (c, d). uc3_avg_aggregate st c d) [] ins) cid [] = st"
  shows "dict_get st f (0, 0) = format_total f (concat batches) \<and>
         average (dict_get st f (0, 0)) =
           Inr (fst (format_total f (concat batches)) / of_int (snd (format_total f (concat batches))))"
proof -
  let ?ds = "map snd (filter (\<lambda>x. fst x = cid) ins)"
  have "st = sum_update [] (concat ?ds)"
    using sums.view_run_init [of ins cid] assms(4) by (simp add: sum_update_concat)
  moreover have "mset (concat ?ds) = mset (concat (routed (group_uc3_sum h) n i batches))"
    using assms(1) by (rule mset_concat_cong)
  then have "entry_sum f (concat ?ds) = format_total f (concat batches)"
    using uc3_routed [OF assms(2), of batches] entry_sum_mset [of "concat ?ds" "concat (routed (group_uc3_sum h) n i batches)" f] by simp
  ultimately have "dict_get st f (0, 0) = format_total f (concat batches)"
    by (simp add: sum_update_get)
  with assms(3) show ?thesis by (simp add: average_def)
qed

theorem uc3_average_correct_witness:
  "dict_get (dict_get (foldl (\<lambda>st (c, d). uc3_avg_aggregate st c d) []
      [(7, [(''Wire'', 10, 2)]), (9, [(''Wire'', 99, 1)]), (7, [(''Wire'', 5, 1)])]) 7 []) ''Wire'' (0, 0) = (15, 3) \<and>
   average (dict_get (dict_get (foldl (\<lambda>st (c, d). uc3_avg_aggregate st c d) []
      [(7, [(''Wire'', 10, 2)]), (9, [(''Wire'', 99, 1)]), (7, [(''Wire'', 5, 1)])]) 7 []) ''Wire'' (0, 0)) = Inr 5"
proof -
  let ?bs = "[[demo_transaction 1 5], [demo_transaction 2 8, demo_transaction 3 2]]"
  let ?ins = "[(7 :: uuid, [(''Wire'', 10 :: amount, 2 :: int)]), (9, [(''Wire'', 99, 1)]), (7, [(''Wire'', 5, 1)])]"
  have m: "mset (map snd (filter (\<lambda>x. fst x = 7) ?ins)) = mset (routed (group_uc3_sum demo_hash) 2 0 ?bs)"
    by (simp add: routed_def group_uc3_sum_def demo_hash_def demo_transaction_def sum_update_def sum_add_def dict_get_def)
  have t: "format_total ''Wire'' (concat ?bs) = (15, 3)" by (simp add: format_total_def demo_transaction_def)
  have "h_str demo_hash ''Wire'' mod 2 = 0" by (simp add: demo_hash_def)
  from uc3_average_correct [OF m this _ refl] show ?thesis unfolding t by (simp add: average_def)
qed

text \<open>The in-memory aggregates survive a restart.\<close>

lemma restore_snapshot_clients:
  assumes "wf_dict st" "\<forall>(c, d)\<in>set st. wf_dict d"
  shows "restore_clients (snapshot_clients st) = Inr st"
proof -
  have "map_result (\<lambda>(c, es). bind_result (parse_uuid c) (\<lambda>cid. Inr (cid, dict_of es))) (snapshot_clients st) = Inr st"
    unfolding snapshot_clients_def using assms(2)
    by (intro map_result_id) (auto simp: dict_of_wf)
  then show ?thesis using assms(1) by (simp add: restore_clients_def dict_of_wf)
qed

end
