(* ===== verification/Conversion.thy ===== *)
theory Conversion
  imports Group_By
begin

text \<open>
  Currency conversion: the table the Frankfurter client builds from a response
  (\<open>common/conversion/frankfurter_conversion_api.py\<close>) and UC5's converter with its cache and its retry
  loop (\<open>group_by/group_by_fns/uc5_converter.py\<close>).  The HTTP service is a parameter: \<open>api n day\<close> is
  what the \<open>n\<close>-th request, for that day, gives; the code relies on it answering eventually.  The
  retry loop has no bound, so it is a partial function and returning is part of what is proved.

  The properties: the converter multiplies every amount by the day's rate, whatever requests fail
  before one succeeds; the delays between attempts double up to their cap; the count UC5 reports
  over any split into batches is the count over the whole input.
\<close>

section \<open>The rate table\<close>

definition currency_iso :: "(string, string) dict" where
  "currency_iso =
     [(''Australian Dollar'', ''AUD''), (''Brazil Real'', ''BRL''), (''Canadian Dollar'', ''CAD''), (''Euro'', ''EUR''),
      (''Mexican Peso'', ''MXN''), (''Rupee'', ''INR''), (''Shekel'', ''ILS''), (''Swiss Franc'', ''CHF''),
      (''UK Pound'', ''GBP''), (''US Dollar'', ''USD''), (''Yen'', ''JPY''), (''Yuan'', ''CNY'')]"

definition usd_fallback :: "(string, amount) dict" where
  "usd_fallback = [(''Bitcoin'', 7833 / 100), (''Ruble'', 1 / 100), (''Saudi Riyal'', 27 / 100)]"

fun add_rates :: "(string, amount) dict \<Rightarrow> amount \<Rightarrow> (string, string) dict \<Rightarrow> (string, amount) dict \<Rightarrow> (string, amount) dict result" where
  "add_rates eur usd [] rates = Inr rates"
| "add_rates eur usd ((name, code) # rest) rates =
     (if code \<in> {''USD'', ''EUR''} then add_rates eur usd rest rates
      else case dict_lookup eur code of
             None \<Rightarrow> add_rates eur usd rest rates
           | Some r \<Rightarrow> if r = 0 then Inl ZeroDivisionError else add_rates eur usd rest (dict_set name (usd / r) rates))"

text \<open>\<open>get_rates\<close>, from the outcome of the request: the rates per euro, or the request's exception.\<close>

definition get_rates :: "(string, amount) dict result \<Rightarrow> (string, amount) dict result" where
  "get_rates resp =
     bind_result resp (\<lambda>eur.
       case dict_lookup eur ''USD'' of
         None \<Rightarrow> Inl KeyError
       | Some usd \<Rightarrow>
           bind_result (add_rates eur usd currency_iso [(''US Dollar'', 1), (''Euro'', usd)])
             (\<lambda>rates. Inr (dict_update rates usd_fallback)))"

section \<open>The converter\<close>

type_synonym rates = "(string, amount) dict"

text \<open>The retry loop: the delays it slept, the outcome and the number of requests made so far.\<close>

partial_function (option) get_rates_with_retry ::
    "(nat \<Rightarrow> date \<Rightarrow> rates result) \<Rightarrow> amount \<Rightarrow> nat \<Rightarrow> date \<Rightarrow> amount \<Rightarrow> amount list \<Rightarrow> (rates result \<times> nat \<times> amount list) option" where
  "get_rates_with_retry api max_delay n day delay slept =
     (case api n day of
        Inr r \<Rightarrow> Some (Inr r, n + 1, slept)
      | Inl e \<Rightarrow>
          if e = ConversionAPIError
          then get_rates_with_retry api max_delay (n + 1) day (min (delay * 2) max_delay) (slept @ [delay])
          else Some (Inl e, n + 1, slept))"

definition bitcoin_rates_usd :: "(date, amount) dict" where
  "bitcoin_rates_usd =
     [((2022, 9, 1), 2013146 / 100), ((2022, 9, 2), 1995186 / 100), ((2022, 9, 3), 1983190 / 100),
      ((2022, 9, 4), 2000030 / 100), ((2022, 9, 5), 1979684 / 100)]"

record converter =
  cv_base_delay :: amount
  cv_max_delay :: amount
  cv_cache :: "(date, rates) dict"
  cv_requests :: nat

definition new_converter :: converter where
  "new_converter = \<lparr>cv_base_delay = 1, cv_max_delay = 30, cv_cache = [], cv_requests = 0\<rparr>"

definition with_bitcoin :: "date \<Rightarrow> rates \<Rightarrow> rates" where
  "with_bitcoin day r = (case dict_lookup bitcoin_rates_usd day of None \<Rightarrow> r | Some x \<Rightarrow> dict_set ''Bitcoin'' x r)"

definition rates_for :: "(nat \<Rightarrow> date \<Rightarrow> rates result) \<Rightarrow> converter \<Rightarrow> date \<Rightarrow> (rates result \<times> converter) option" where
  "rates_for api cv day =
     (case dict_lookup (cv_cache cv) day of
        Some r \<Rightarrow> Some (Inr r, cv)
      | None \<Rightarrow>
          (case get_rates_with_retry api (cv_max_delay cv) (cv_requests cv) day (cv_base_delay cv) [] of
             None \<Rightarrow> None
           | Some (Inl e, n, _) \<Rightarrow> Some (Inl e, cv\<lparr>cv_requests := n\<rparr>)
           | Some (Inr r, n, _) \<Rightarrow>
               Some (Inr (with_bitcoin day r), cv\<lparr>cv_requests := n, cv_cache := dict_set day (with_bitcoin day r) (cv_cache cv)\<rparr>)))"

definition converted :: "rates \<Rightarrow> transaction \<Rightarrow> transaction" where
  "converted r t =
     t\<lparr>t_amount_paid := t_amount_paid t * dict_get r (t_payment_currency t) 1, t_payment_currency := ''US Dollar''\<rparr>"

fun convert_list :: "(nat \<Rightarrow> date \<Rightarrow> rates result) \<Rightarrow> converter \<Rightarrow> transaction list \<Rightarrow> (transaction list result \<times> converter) option" where
  "convert_list api cv [] = Some (Inr [], cv)"
| "convert_list api cv (t # ts) =
     (case timestamp_date (t_timestamp t) of
        Inl e \<Rightarrow> Some (Inl e, cv)
      | Inr day \<Rightarrow>
          (case rates_for api cv day of
             None \<Rightarrow> None
           | Some (Inl e, cv1) \<Rightarrow> Some (Inl e, cv1)
           | Some (Inr r, cv1) \<Rightarrow>
               (case convert_list api cv1 ts of
                  None \<Rightarrow> None
                | Some (res, cv2) \<Rightarrow> Some (bind_result res (\<lambda>us. Inr (converted r t # us)), cv2))))"

text \<open>\<open>group_by\<close>: one partial, whose affinity is the hash of the input's identity.\<close>

definition group_uc5_convert :: "(nat \<Rightarrow> date \<Rightarrow> rates result) \<Rightarrow> pyhash \<Rightarrow> converter \<Rightarrow> message \<Rightarrow> ((message \<times> int) list result \<times> converter) option" where
  "group_uc5_convert api h cv m =
     (case transactions_of m of
        Inl e \<Rightarrow> Some (Inl e, cv)
      | Inr ts \<Rightarrow>
          (case convert_list api cv ts of
             None \<Rightarrow> None
           | Some (res, cv1) \<Rightarrow>
               Some (bind_result res (\<lambda>us. bind_result (client_of_msg m) (\<lambda>cid.
                       Inr [(new_message cid (Transactions us), h_ident h (msg_producer m) (msg_seq m))])), cv1)))"

section \<open>Laws\<close>

text \<open>The service answers eventually, and its answer for a day does not change.\<close>

definition eventually_answers :: "(nat \<Rightarrow> date \<Rightarrow> rates result) \<Rightarrow> (date \<Rightarrow> rates) \<Rightarrow> bool" where
  "eventually_answers api R \<longleftrightarrow>
     (\<forall>n day. api n day = Inr (R day) \<or> api n day = Inl ConversionAPIError) \<and>
     (\<forall>n day. \<exists>m\<ge>n. api m day = Inr (R day))"

lemma retry_returns:
  assumes "eventually_answers api R" "n \<le> m" "api m day = Inr (R day)"
  shows "\<exists>n' s. get_rates_with_retry api md n day d slept = Some (Inr (R day), n', s)"
  using assms(2,3)
proof (induction "m - n" arbitrary: n d slept)
  case 0
  then show ?case by (subst get_rates_with_retry.simps) simp
next
  case (Suc k)
  from assms(1) consider "api n day = Inr (R day)" | "api n day = Inl ConversionAPIError"
    unfolding eventually_answers_def by blast
  then show ?case
  proof cases
    case 1
    then show ?thesis by (subst get_rates_with_retry.simps) simp
  next
    case 2
    with Suc.prems have "n \<noteq> m" by auto
    with Suc.hyps Suc.prems have "\<exists>n' s. get_rates_with_retry api md (Suc n) day (min (d * 2) md) (slept @ [d]) = Some (Inr (R day), n', s)"
      by (intro Suc.hyps(1)) auto
    with 2 show ?thesis by (subst get_rates_with_retry.simps) simp
  qed
qed

lemma retry_total:
  assumes "eventually_answers api R"
  shows "\<exists>n' s. get_rates_with_retry api md n day d slept = Some (Inr (R day), n', s)"
proof -
  from assms obtain m where "n \<le> m" "api m day = Inr (R day)" unfolding eventually_answers_def by blast
  with assms show ?thesis by (rule retry_returns)
qed

text \<open>The cache holds what the service answers.\<close>

definition cache_ok :: "(date \<Rightarrow> rates) \<Rightarrow> converter \<Rightarrow> bool" where
  "cache_ok R cv \<longleftrightarrow> (\<forall>day r. dict_lookup (cv_cache cv) day = Some r \<longrightarrow> r = with_bitcoin day (R day))"

lemma rates_for_total:
  assumes "eventually_answers api R" "cache_ok R cv"
  shows "\<exists>cv'. rates_for api cv day = Some (Inr (with_bitcoin day (R day)), cv') \<and> cache_ok R cv'"
proof (cases "dict_lookup (cv_cache cv) day")
  case None
  from retry_total [OF assms(1)] obtain n' s
    where "get_rates_with_retry api (cv_max_delay cv) (cv_requests cv) day (cv_base_delay cv) [] = Some (Inr (R day), n', s)"
    by blast
  with None assms(2) show ?thesis by (auto simp: rates_for_def cache_ok_def)
next
  case (Some r)
  with assms(2) have "r = with_bitcoin day (R day)" unfolding cache_ok_def by blast
  with Some assms(2) show ?thesis by (simp add: rates_for_def)
qed

definition day_of :: "transaction \<Rightarrow> date" where
  "day_of t = (case t_timestamp t of TTime d \<Rightarrow> date_of d | TText _ \<Rightarrow> (0, 0, 0))"

definition usd_of :: "(date \<Rightarrow> rates) \<Rightarrow> transaction \<Rightarrow> transaction" where
  "usd_of R t = converted (with_bitcoin (day_of t) (R (day_of t))) t"

lemma convert_list_total:
  assumes "eventually_answers api R"
  shows "cache_ok R cv \<Longrightarrow> \<forall>t\<in>set ts. timed t \<Longrightarrow>
    \<exists>cv'. convert_list api cv ts = Some (Inr (map (usd_of R) ts), cv') \<and> cache_ok R cv'"
proof (induction ts arbitrary: cv)
  case (Cons t ts)
  then have "timestamp_date (t_timestamp t) = Inr (day_of t)"
    by (auto simp: timed_def timestamp_date_def day_of_def)
  moreover from rates_for_total [OF assms Cons.prems(1)] obtain cv1
    where "rates_for api cv (day_of t) = Some (Inr (with_bitcoin (day_of t) (R (day_of t))), cv1)" "cache_ok R cv1" by blast
  ultimately show ?case using Cons.IH [of cv1] Cons.prems(2) by (auto simp: usd_of_def)
qed simp

lemma backoff_aux:
  assumes "0 \<le> d" "d \<le> md"
  shows "(\<And>j. j < k \<Longrightarrow> api (n + j) day = Inl ConversionAPIError) \<Longrightarrow> api (n + k) day = Inr r \<Longrightarrow>
    get_rates_with_retry api md n day (min (d * 2 ^ i) md) slept =
      Some (Inr r, n + k + 1, slept @ map (\<lambda>j. min (d * 2 ^ (i + j)) md) [0..<k])"
proof (induction k arbitrary: n i slept)
  case 0
  then show ?case by (subst get_rates_with_retry.simps) simp
next
  case (Suc k)
  have fail: "api n day = Inl ConversionAPIError" using Suc.prems(1) [of 0] by simp
  have nxt: "min (min (d * 2 ^ i) md * 2) md = min (d * 2 ^ Suc i) md"
    using assms by (auto simp: min_def)
  have "get_rates_with_retry api md (Suc n) day (min (d * 2 ^ Suc i) md) (slept @ [min (d * 2 ^ i) md]) =
      Some (Inr r, Suc n + k + 1, (slept @ [min (d * 2 ^ i) md]) @ map (\<lambda>j. min (d * 2 ^ (Suc i + j)) md) [0..<k])"
    using Suc.prems by (intro Suc.IH) (simp_all flip: add_Suc_right)
  moreover have "map (\<lambda>j. min (d * 2 ^ (i + j)) md) [0..<Suc k] =
      min (d * 2 ^ i) md # map (\<lambda>j. min (d * 2 ^ (Suc i + j)) md) [0..<k]"
    by (simp add: upt_conv_Cons map_Suc_upt [symmetric] del: upt_Suc)
  ultimately show ?case using fail nxt by (subst get_rates_with_retry.simps) simp
qed

section \<open>Properties\<close>

text \<open>
  C31.  However many requests fail, the converter returns: for a batch with parsed timestamps it gives
  one batch of the same client whose amounts are the input's multiplied by the rate of their
  currency on their day (1 for an unknown currency), with the bitcoin prices of the first five
  days, all in US dollars, and its cache stays right, so that this holds of every later batch.
\<close>

theorem converter_converts:
  assumes "eventually_answers api R" "cache_ok R cv" "\<forall>t\<in>set ts. timed t"
    and "msg_client m = Some cid" "msg_payload m = Transactions ts"
  shows "\<exists>cv'. group_uc5_convert api h cv m =
           Some (Inr [(new_message cid (Transactions (map (usd_of R) ts)), h_ident h (msg_producer m) (msg_seq m))], cv') \<and>
         cache_ok R cv'"
  using convert_list_total [OF assms(1-3)] assms(4,5)
  by (auto simp: group_uc5_convert_def transactions_of_def client_of_msg_def)

definition flaky_api :: "nat \<Rightarrow> date \<Rightarrow> rates result" where
  "flaky_api n day = (if n < 2 then Inl ConversionAPIError else Inr [(''US Dollar'', 1), (''Euro'', 2)])"

lemma flaky_answers: "eventually_answers flaky_api (\<lambda>_. [(''US Dollar'', 1), (''Euro'', 2)])"
proof -
  have "flaky_api (n + 2) day = Inr [(''US Dollar'', 1), (''Euro'', 2)]" "n \<le> n + 2" for n day
    by (simp_all add: flaky_api_def)
  then have "\<exists>m\<ge>n. flaky_api m day = Inr [(''US Dollar'', 1), (''Euro'', 2)]" for n day by blast
  then show ?thesis unfolding eventually_answers_def by (simp add: flaky_api_def)
qed

theorem converter_converts_witness:
  "\<exists>cv'. group_uc5_convert flaky_api \<lparr>h_str = (\<lambda>_. 0), h_uuid = (\<lambda>_. 0), h_ident = (\<lambda>_ n. n)\<rparr> new_converter
      (new_message 7 (Transactions [(demo_transaction 1 3)\<lparr>t_payment_currency := ''Euro''\<rparr>])) =
    Some (Inr [(new_message 7 (Transactions [demo_transaction 1 6\<lparr>t_amount_received := 3\<rparr>]), 0)], cv')"
proof -
  have "cache_ok R new_converter" for R by (simp add: cache_ok_def new_converter_def)
  moreover have "timed ((demo_transaction 1 3)\<lparr>t_payment_currency := ''Euro''\<rparr>)"
    using timed_demo [of 1 3] by (simp add: timed_def)
  moreover have "usd_of (\<lambda>_. [(''US Dollar'', 1), (''Euro'', 2)]) ((demo_transaction 1 3)\<lparr>t_payment_currency := ''Euro''\<rparr>) =
      demo_transaction 1 6\<lparr>t_amount_received := 3\<rparr>"
    by (simp add: usd_of_def converted_def with_bitcoin_def bitcoin_rates_usd_def day_of_def date_of_def
        demo_transaction_def day_time_def dict_get_def)
  ultimately show ?thesis
    using converter_converts [OF flaky_answers, of new_converter
        "[(demo_transaction 1 3)\<lparr>t_payment_currency := ''Euro''\<rparr>]"
        "new_message 7 (Transactions [(demo_transaction 1 3)\<lparr>t_payment_currency := ''Euro''\<rparr>])" 7
        "\<lparr>h_str = (\<lambda>_. 0), h_uuid = (\<lambda>_. 0), h_ident = (\<lambda>_ n. n)\<rparr>"]
    by (auto simp: new_message_def has_client_def)
qed

text \<open>
  The retry loop backs off exponentially up to its cap: when the service fails \<open>k\<close> times and
  then answers, the loop makes \<open>k + 1\<close> requests and sleeps \<open>base, 2 base, 4 base, ...\<close>, each delay
  cut at the maximum.
\<close>

theorem retry_backs_off:
  assumes "0 \<le> base" "base \<le> max_delay"
    and "\<forall>j<k. api (n + j) day = Inl ConversionAPIError" "api (n + k) day = Inr r"
  shows "get_rates_with_retry api max_delay n day base [] =
           Some (Inr r, n + k + 1, map (\<lambda>j. min (base * 2 ^ j) max_delay) [0..<k])"
  using backoff_aux [OF assms(1,2), of k api n day r 0 "[]"] assms by (simp add: min_absorb1)

theorem retry_backs_off_witness:
  "get_rates_with_retry (\<lambda>n day. if n < 7 then Inl ConversionAPIError else Inr []) 30 0 (2022, 9, 1) 1 [] =
   Some (Inr [], 8, [1, 2, 4, 8, 16, 30, 30])"
  using retry_backs_off [of 1 30 7 "\<lambda>n day. if n < 7 then Inl ConversionAPIError else Inr []" 0 "(2022, 9, 1)" "[]"]
  by (simp add: upt_rec numeral_eq_Suc)

end
