(* ===== verification/Json.thy ===== *)
theory Json
  imports Pystr
begin

text \<open>
  The part of Python's \<open>json\<close> the spills use: \<open>dumps\<close> and \<open>loads\<close> on strings, numbers and nested
  lists, in the default format (\<open>ensure_ascii\<close>, separators \<open>", "\<close>).  The text of a float is a parameter,
  as amounts are exact rationals here: what is used of \<open>repr\<close> is that it is a number token with a
  point that reads back as the float.  The round trip is what every spilled line rests on, and a
  dumped text has no newline, so that one value is one line.
\<close>

section \<open>Values\<close>

datatype json = JStr string | JInt int | JFloat amount | JList "json list"

definition json_char :: "char \<Rightarrow> string" where
  "json_char c =
     (let n = of_char c :: nat in
      if c = CHR 0x22 \<or> c = CHR 0x5C then [CHR 0x5C, c]
      else if c = CHR 0x0A then [CHR 0x5C, CHR ''n'']
      else if c = CHR 0x0D then [CHR 0x5C, CHR ''r'']
      else if c = CHR 0x09 then [CHR 0x5C, CHR ''t'']
      else if c = CHR 0x08 then [CHR 0x5C, CHR ''b'']
      else if c = CHR 0x0C then [CHR 0x5C, CHR ''f'']
      else if n < 32 \<or> 126 < n then [CHR 0x5C, CHR ''u''] @ fixed_digits 16 4 n
      else [c])"

fun json_join :: "string list \<Rightarrow> string" where
  "json_join [] = []"
| "json_join [w] = w"
| "json_join (w # ws) = w @ '', '' @ json_join ws"

fun json_dumps :: "(amount \<Rightarrow> string) \<Rightarrow> json \<Rightarrow> string" where
  "json_dumps repr (JStr s) = CHR 0x22 # concat (map json_char s) @ [CHR 0x22]"
| "json_dumps repr (JInt i) = int_str i"
| "json_dumps repr (JFloat x) = repr x"
| "json_dumps repr (JList vs) = ''['' @ json_join (map (json_dumps repr) vs) @ '']''"

section \<open>Parsing\<close>

definition skip_ws :: "string \<Rightarrow> string" where
  "skip_ws s = dropWhile (\<lambda>c. of_char c \<in> {9, 10, 13, 32 :: nat}) s"

definition escaped :: "char \<Rightarrow> char option" where
  "escaped e =
     (if e = CHR ''n'' then Some (CHR 0x0A) else if e = CHR ''r'' then Some (CHR 0x0D)
      else if e = CHR ''t'' then Some (CHR 0x09) else if e = CHR ''b'' then Some (CHR 0x08)
      else if e = CHR ''f'' then Some (CHR 0x0C)
      else if e = CHR 0x22 \<or> e = CHR 0x5C \<or> e = CHR 0x2F then Some e else None)"

function json_string :: "string \<Rightarrow> (string \<times> string) option" where
  "json_string s =
     (case s of
        [] \<Rightarrow> None
      | c # r \<Rightarrow>
          if c = CHR 0x22 then Some ([], r)
          else if c = CHR 0x5C then
            (case r of
               [] \<Rightarrow> None
             | e # r1 \<Rightarrow>
                 if e = CHR ''u'' then
                   (if length r1 < 4 then None
                    else case digits_val 16 0 (take 4 r1) of
                           None \<Rightarrow> None
                         | Some n \<Rightarrow> map_option (\<lambda>(t, q). (char_of n # t, q)) (json_string (drop 4 r1)))
                 else (case escaped e of
                         None \<Rightarrow> None
                       | Some x \<Rightarrow> map_option (\<lambda>(t, q). (x # t, q)) (json_string r1)))
          else if (of_char c :: nat) < 32 then None
          else map_option (\<lambda>(t, q). (c # t, q)) (json_string r))"
  by pat_completeness auto
termination by (relation "measure length") auto

declare json_string.simps [simp del]

definition num_char :: "char \<Rightarrow> bool" where
  "num_char c \<longleftrightarrow> c \<in> set ''0123456789+-.eE''"

definition json_number :: "string \<Rightarrow> (json \<times> string) option" where
  "json_number s =
     (let tok = takeWhile num_char s; rest = dropWhile num_char s in
      if \<exists>c\<in>set tok. c \<in> set ''.eE''
      then (case parse_float tok of Inl _ \<Rightarrow> None | Inr x \<Rightarrow> Some (JFloat x, rest))
      else (case parse_int tok of Inl _ \<Rightarrow> None | Inr i \<Rightarrow> Some (JInt i, rest)))"

fun json_value :: "nat \<Rightarrow> string \<Rightarrow> (json \<times> string) option"
  and json_items :: "nat \<Rightarrow> string \<Rightarrow> (json list \<times> string) option" where
  "json_value 0 s = None"
| "json_value (Suc n) s =
     (case skip_ws s of
        [] \<Rightarrow> None
      | c # r \<Rightarrow>
          if c = CHR 0x22 then map_option (\<lambda>(t, q). (JStr t, q)) (json_string r)
          else if c = CHR ''['' then
            (case skip_ws r of
               [] \<Rightarrow> None
             | d # q \<Rightarrow> if d = CHR '']'' then Some (JList [], q)
                        else map_option (\<lambda>(vs, q). (JList vs, q)) (json_items n r))
          else json_number (c # r))"
| "json_items 0 s = None"
| "json_items (Suc n) s =
     (case json_value n s of
        None \<Rightarrow> None
      | Some (v, r) \<Rightarrow>
          (case skip_ws r of
             [] \<Rightarrow> None
           | d # q \<Rightarrow> if d = CHR '','' then map_option (\<lambda>(vs, q). (v # vs, q)) (json_items n q)
                      else if d = CHR '']'' then Some ([v], q) else None))"

text \<open>The depth of the recursion is bounded by the length of the text.\<close>

definition json_loads :: "string \<Rightarrow> json result" where
  "json_loads s =
     (case json_value (2 * length s) s of
        None \<Rightarrow> Inl (ValueError ''JSONDecodeError'')
      | Some (v, r) \<Rightarrow> if skip_ws r = [] then Inr v else Inl (ValueError ''JSONDecodeError''))"

section \<open>Round trip\<close>

lemma char_less_256: "(of_char c :: nat) < 256"
  by (metis of_char_mod_256 mod_less_divisor zero_less_numeral)

lemma json_string_char:
  "json_string (json_char c @ s) = map_option (\<lambda>(t, q). (c # t, q)) (json_string s)"
proof (cases "c \<in> {CHR 0x22, CHR 0x5C, CHR 0x0A, CHR 0x0D, CHR 0x09, CHR 0x08, CHR 0x0C}")
  case True
  then show ?thesis by (auto simp: json_char_def Let_def escaped_def json_string.simps [of "_ # _"])
next
  case False
  show ?thesis
  proof (cases "(of_char c :: nat) < 32 \<or> 126 < (of_char c :: nat)")
    case True
    have "digits_val 16 0 (fixed_digits 16 4 (of_char c :: nat)) = Some (of_char c)"
      by (intro digits_val_fixed) (simp_all add: order_less_trans [OF char_less_256])
    with True False show ?thesis
      by (simp add: json_char_def Let_def json_string.simps [of "_ # _"] del: fixed_digits.simps)
  next
    case no: False
    with False show ?thesis by (simp add: json_char_def Let_def json_string.simps [of "_ # _"])
  qed
qed

lemma json_string_dumped: "json_string (concat (map json_char s) @ CHR 0x22 # r) = Some (s, r)"
  by (induction s) (simp_all add: json_string_char, simp add: json_string.simps)

text \<open>What is used of the text of a float.\<close>

definition float_text :: "(amount \<Rightarrow> string) \<Rightarrow> amount \<Rightarrow> bool" where
  "float_text repr x \<longleftrightarrow>
     parse_float (repr x) = Inr x \<and> (\<forall>c\<in>set (repr x). num_char c) \<and> CHR ''.'' \<in> set (repr x)"

fun json_ok :: "(amount \<Rightarrow> string) \<Rightarrow> json \<Rightarrow> bool" where
  "json_ok repr (JFloat x) \<longleftrightarrow> float_text repr x"
| "json_ok repr (JList vs) \<longleftrightarrow> (\<forall>v\<in>set vs. json_ok repr v)"
| "json_ok repr _ \<longleftrightarrow> True"

definition stops :: "string \<Rightarrow> bool" where
  "stops r \<longleftrightarrow> (case r of [] \<Rightarrow> True | c # _ \<Rightarrow> \<not> num_char c)"

lemma takeWhile_stop: "(\<forall>c\<in>set t. num_char c) \<Longrightarrow> stops r \<Longrightarrow> takeWhile num_char (t @ r) = t \<and> dropWhile num_char (t @ r) = r"
  by (cases r) (auto simp: stops_def takeWhile_append dropWhile_append)

lemma nat_str_digits: "c \<in> set (nat_str n) \<Longrightarrow> c \<in> set ''0123456789''"
proof (induction n rule: nat_str.induct)
  case (1 n)
  have d: "digit_char m \<in> set ''0123456789''" if "m < 10" for m
  proof -
    have "\<forall>m\<in>set [0..<10]. digit_char m \<in> set ''0123456789''" by code_simp
    with that show ?thesis by simp
  qed
  show ?case
  proof (cases "n < 10")
    case True
    then have "c = digit_char n" using 1(2) by (subst (asm) nat_str.simps) simp
    then show ?thesis using d [OF True] by simp
  next
    case False
    then have "c \<in> set (nat_str (n div 10)) \<or> c = digit_char (n mod 10)"
      using 1(2) by (subst (asm) nat_str.simps) auto
    then show ?thesis using 1(1) [OF False] d [of "n mod 10"] by auto
  qed
qed

lemma int_str_chars: "c \<in> set (int_str i) \<Longrightarrow> num_char c \<and> c \<notin> set ''.eE''"
proof -
  have ok: "\<forall>c\<in>set ''-0123456789''. num_char c \<and> c \<notin> set ''.eE''" by code_simp
  have sub: "set ''0123456789'' \<subseteq> set ''-0123456789''" by code_simp
  have "set (nat_str n) \<subseteq> set ''-0123456789''" for n using nat_str_digits sub by blast
  moreover have "CHR ''-'' \<in> set ''-0123456789''" by simp
  ultimately have "set (int_str i) \<subseteq> set ''-0123456789''"
    unfolding int_str_def by (simp del: set_simps add: list.set(2))
  with ok show "c \<in> set (int_str i) \<Longrightarrow> num_char c \<and> c \<notin> set ''.eE''" by blast
qed

lemma json_number_int: "stops r \<Longrightarrow> json_number (int_str i @ r) = Some (JInt i, r)"
proof -
  assume r: "stops r"
  have "takeWhile num_char (int_str i @ r) = int_str i \<and> dropWhile num_char (int_str i @ r) = r"
    using int_str_chars r by (intro takeWhile_stop) blast+
  moreover have "\<not> (\<exists>c\<in>set (int_str i). c \<in> set ''.eE'')" using int_str_chars by blast
  ultimately show ?thesis by (simp add: json_number_def)
qed

lemma json_number_float: "float_text repr x \<Longrightarrow> stops r \<Longrightarrow> json_number (repr x @ r) = Some (JFloat x, r)"
proof -
  assume x: "float_text repr x" and r: "stops r"
  then have "takeWhile num_char (repr x @ r) = repr x \<and> dropWhile num_char (repr x @ r) = r"
    by (intro takeWhile_stop) (auto simp: float_text_def)
  moreover have "\<exists>c\<in>set (repr x). c \<in> set ''.eE''" using x by (auto simp: float_text_def)
  ultimately show ?thesis using x by (simp add: json_number_def float_text_def)
qed

text \<open>The first character of a dumped value decides the branch of the parser.\<close>

lemma num_char_facts: "num_char c \<Longrightarrow> c \<noteq> CHR 0x22 \<and> c \<noteq> CHR ''['' \<and> c \<noteq> CHR '']'' \<and> of_char c \<notin> {9, 10, 13, 32 :: nat}"
  by (auto simp: num_char_def)

lemma int_str_ne: "int_str i \<noteq> []"
  by (simp add: int_str_def)

lemma skip_ws_num: "t \<noteq> [] \<Longrightarrow> (\<forall>c\<in>set t. num_char c) \<Longrightarrow> skip_ws (t @ r) = t @ r"
  using num_char_facts by (cases t) (auto simp: skip_ws_def)

lemma json_value_number:
  assumes "t \<noteq> []" "\<forall>c\<in>set t. num_char c"
  shows "json_value (Suc n) (t @ r) = json_number (t @ r)"
proof -
  obtain c t' where t: "t = c # t'" using assms(1) by (cases t) auto
  then show ?thesis using skip_ws_num [OF assms, of r] num_char_facts [of c] assms(2) by simp
qed

fun json_fuel :: "json \<Rightarrow> nat" where
  "json_fuel (JList vs) = 2 + sum_list (map (\<lambda>v. json_fuel v + 1) vs)"
| "json_fuel _ = 1"

lemma dumps_head:
  assumes "json_ok repr v"
  shows "\<exists>c t. json_dumps repr v = c # t \<and> c \<noteq> CHR '']'' \<and> of_char c \<notin> {9, 10, 13, 32 :: nat}"
proof (cases v)
  case (JInt i)
  then show ?thesis using int_str_ne [of i] int_str_chars [of _ i] num_char_facts by (cases "int_str i") auto
next
  case (JFloat x)
  with assms have "repr x \<noteq> []" "\<forall>c\<in>set (repr x). num_char c" by (auto simp: float_text_def)
  then show ?thesis using JFloat num_char_facts by (cases "repr x") auto
qed auto

lemma stops_sep: "stops (CHR '','' # r)" "stops (CHR '']'' # r)"
  by (simp_all add: stops_def num_char_def)

lemma json_items_dumped:
  assumes "\<And>v n r. v \<in> set vs \<Longrightarrow> json_fuel v \<le> n \<Longrightarrow> stops r \<Longrightarrow> json_value n (json_dumps repr v @ r) = Some (v, r)"
    and "vs \<noteq> []" "sum_list (map (\<lambda>v. json_fuel v + 1) vs) \<le> n"
    and "lead \<in> {[], '' ''}" "\<And>v. v \<in> set vs \<Longrightarrow> json_ok repr v"
  shows "json_items n (lead @ json_join (map (json_dumps repr) vs) @ CHR '']'' # r) = Some (vs, r)"
  using assms
proof (induction vs arbitrary: n lead)
  case (Cons v vs)
  from Cons.prems(3) obtain m where n: "n = Suc m" by (cases n) auto
  have lead: "json_value m (lead @ json_dumps repr v @ q) = json_value m (json_dumps repr v @ q)" for q
  proof -
    obtain c t where "json_dumps repr v = c # t" "of_char c \<notin> {9, 10, 13, 32 :: nat}"
      using dumps_head [of repr v] Cons.prems(5) by auto
    then have "skip_ws (lead @ json_dumps repr v @ q) = skip_ws (json_dumps repr v @ q)"
      using Cons.prems(4) by (auto simp: skip_ws_def)
    then show ?thesis by (cases m) simp_all
  qed
  have v: "json_value m (json_dumps repr v @ q) = Some (v, q)" if "stops q" for q
    using Cons.prems(1) [of v m q] Cons.prems(3) that by (simp add: n)
  show ?case
  proof (cases vs)
    case Nil
    have "json_value m (lead @ json_dumps repr v @ CHR '']'' # r) = Some (v, CHR '']'' # r)"
      unfolding lead by (rule v) (rule stops_sep)
    then show ?thesis using Nil by (simp add: n skip_ws_def)
  next
    case (Cons w ws)
    let ?rest = "json_join (map (json_dumps repr) vs)"
    have "json_value m (lead @ json_dumps repr v @ CHR '','' # '' '' @ ?rest @ CHR '']'' # r) =
        Some (v, CHR '','' # '' '' @ ?rest @ CHR '']'' # r)"
      unfolding lead by (rule v) (rule stops_sep)
    moreover have "json_items m ('' '' @ ?rest @ CHR '']'' # r) = Some (vs, r)"
      using Cons.prems Cons by (intro Cons.IH) (auto simp: n)
    moreover have "json_join (map (json_dumps repr) (v # vs)) = json_dumps repr v @ CHR '','' # '' '' @ ?rest"
      using Cons by simp
    ultimately show ?thesis by (simp add: n skip_ws_def)
  qed
qed simp

lemma json_value_dumped:
  "json_ok repr v \<Longrightarrow> json_fuel v \<le> n \<Longrightarrow> stops r \<Longrightarrow> json_value n (json_dumps repr v @ r) = Some (v, r)"
proof (induction v arbitrary: n r)
  case (JStr s)
  then obtain m where "n = Suc m" by (cases n) auto
  then show ?case by (simp add: skip_ws_def json_string_dumped)
next
  case (JInt i)
  then obtain m where n: "n = Suc m" by (cases n) auto
  have "\<forall>c\<in>set (int_str i). num_char c" using int_str_chars by blast
  from json_value_number [OF int_str_ne this, of m r] JInt(3) show ?case by (simp add: n json_number_int)
next
  case (JFloat x)
  then obtain m where n: "n = Suc m" by (cases n) auto
  from JFloat(1) have "repr x \<noteq> []" "\<forall>c\<in>set (repr x). num_char c" by (auto simp: float_text_def)
  from json_value_number [OF this, of m r] JFloat(1,3) show ?case by (simp add: n json_number_float)
next
  case (JList vs)
  from JList(3) obtain m where n: "n = Suc m" by (cases n) auto
  show ?case
  proof (cases vs)
    case Nil
    then show ?thesis by (simp add: n skip_ws_def)
  next
    case (Cons v ws)
    from JList(2) have ok: "json_ok repr u" if "u \<in> set vs" for u using that by simp
    obtain c t where c: "json_dumps repr v = c # t" "c \<noteq> CHR '']''" "of_char c \<notin> {9, 10, 13, 32 :: nat}"
      using dumps_head [of repr v] ok Cons by auto
    obtain t' where j: "json_join (map (json_dumps repr) vs) = c # t'"
      using c(1) Cons by (cases ws) auto
    have "json_items m ([] @ json_join (map (json_dumps repr) vs) @ CHR '']'' # r) = Some (vs, r)"
      using JList(1,3) ok Cons by (intro json_items_dumped) (auto simp: n)
    with c(2,3) show ?thesis by (simp add: n skip_ws_def j)
  qed
qed

lemma json_join_length:
  "vs \<noteq> [] \<Longrightarrow> length (json_join (map f vs)) + 2 = sum_list (map (\<lambda>v. length (f v) + 2) vs)"
proof (induction vs)
  case (Cons v vs)
  then show ?case by (cases vs) auto
qed simp

lemma json_fuel_le: "json_ok repr v \<Longrightarrow> json_fuel v \<le> 2 * length (json_dumps repr v)"
proof (induction v)
  case (JList vs)
  have sums: "sum_list (map (\<lambda>v. json_fuel v + 1) ws) + 3 * length ws \<le> 2 * sum_list (map (\<lambda>v. length (json_dumps repr v) + 2) ws)"
    if "\<forall>v\<in>set ws. json_fuel v \<le> 2 * length (json_dumps repr v)" for ws
    using that by (induction ws) auto
  have "\<forall>v\<in>set vs. json_fuel v \<le> 2 * length (json_dumps repr v)" using JList by simp
  from sums [OF this] show ?case
  proof (cases vs)
    case (Cons u us)
    then have "length (json_join (map (json_dumps repr) vs)) + 2 = sum_list (map (\<lambda>v. length (json_dumps repr v) + 2) vs)"
      by (intro json_join_length) simp
    moreover have "1 \<le> length vs" using Cons by simp
    ultimately show ?thesis using sums [of vs] JList by simp
  qed simp
next
  case (JInt i)
  then show ?case using int_str_ne [of i] by (cases "int_str i") auto
next
  case (JFloat x)
  then have "repr x \<noteq> []" by (auto simp: float_text_def)
  then show ?case by (cases "repr x") auto
qed simp

lemma json_roundtrip: "json_ok repr v \<Longrightarrow> json_loads (json_dumps repr v) = Inr v"
  using json_value_dumped [of repr v "2 * length (json_dumps repr v)" "[]"] json_fuel_le [of repr v]
  by (simp add: json_loads_def stops_def skip_ws_def)

text \<open>One dumped value is one line.\<close>

lemma fixed_digits_no_newline: "CHR 0x0A \<notin> set (fixed_digits 16 k n)"
proof
  assume "CHR 0x0A \<in> set (fixed_digits 16 k n)"
  then obtain d where "d < 16" "CHR 0x0A = digit_char d" using fixed_digits_chars [of 16 "CHR 0x0A" k n] by auto
  then have "\<not> is_space (CHR 0x0A)" using digit_char_not_special(3) by simp
  then show False by (simp add: is_space_def)
qed

lemma json_char_no_newline: "CHR 0x0A \<notin> set (json_char c)"
  using fixed_digits_no_newline [of 4 "of_char c"]
  by (auto simp: json_char_def Let_def simp del: fixed_digits.simps)

lemma num_char_no_newline: "num_char c \<Longrightarrow> c \<noteq> CHR 0x0A"
  by (auto simp: num_char_def)

lemma json_join_chars: "set (json_join ws) \<subseteq> \<Union> (set ` set ws) \<union> set '', ''"
  by (induction ws rule: json_join.induct) auto

lemma json_dumps_one_line: "json_ok repr v \<Longrightarrow> CHR 0x0A \<notin> set (json_dumps repr v)"
proof (induction v)
  case (JStr s)
  then show ?case using json_char_no_newline by auto
next
  case (JInt i)
  then show ?case using int_str_chars num_char_no_newline by auto
next
  case (JFloat x)
  then show ?case using num_char_no_newline by (auto simp: float_text_def)
next
  case (JList vs)
  then show ?case using json_join_chars [of "map (json_dumps repr) vs"] by auto
qed

end
