(* ===== verification/Spill.thy ===== *)
theory Spill
  imports Pystr
begin

text \<open>
  The append-only line buffers on disk: \<open>PersistentSpill\<close> and \<open>MultiShardSpill\<close>
  (\<open>common/checkpoint\<close>), one implementation keyed by the client and by the client and a shard, and the
  join's \<open>LineSpill\<close> (\<open>join/join_fns/line_spill.py\<close>) with \<open>stream_responses\<close>.

  A handle buffers what is written to it; the runtime may move any prefix of the buffer to the file
  at any time (\<open>write_through\<close>), and a crash of the process loses the buffers and keeps the files.
  The interface \<open>line_log\<close> is what the aggregates, the merges and the joins rely on.

  The properties: a snapshot followed by any appends and a crash restores exactly the committed
  text of every file the snapshot names; what was written to a file the snapshot does not name
  stays; the responses streamed from a spill are its text, in order, with one last chunk.
\<close>

section \<open>Lines\<close>

text \<open>Iterating a text file: the lines with their newline, the last one possibly without.\<close>

fun lines_of :: "string \<Rightarrow> string list" where
  "lines_of [] = []"
| "lines_of (c # s) =
     (if c = CHR 0x0A then [c] # lines_of s
      else case lines_of s of [] \<Rightarrow> [[c]] | l # ls \<Rightarrow> (c # l) # ls)"

lemma concat_lines_of [simp]: "concat (lines_of s) = s"
  by (induction s) (auto split: list.splits)

lemma lines_of_line: "CHR 0x0A \<notin> set l \<Longrightarrow> lines_of (l @ CHR 0x0A # s) = (l @ [CHR 0x0A]) # lines_of s"
  by (induction l) auto

lemma lines_of_concat:
  "(\<And>l. l \<in> set ls \<Longrightarrow> CHR 0x0A \<notin> set l) \<Longrightarrow>
   lines_of (concat (map (\<lambda>l. l @ [CHR 0x0A]) ls)) = map (\<lambda>l. l @ [CHR 0x0A]) ls"
  by (induction ls) (simp_all add: lines_of_line)

text \<open>The batching loop of \<open>iter_chunks\<close>: lines joined \<open>n\<close> at a time, the remainder last.\<close>

fun chunk_loop :: "nat \<Rightarrow> string list \<Rightarrow> string list \<Rightarrow> string list" where
  "chunk_loop n batch [] = (if batch = [] then [] else [concat batch])"
| "chunk_loop n batch (l # ls) =
     (let b = batch @ [l] in
      if n \<le> length b then concat b # chunk_loop n [] ls else chunk_loop n b ls)"

lemma concat_chunk_loop: "concat (chunk_loop n batch ls) = concat batch @ concat ls"
  by (induction n batch ls rule: chunk_loop.induct) (auto simp: Let_def)

section \<open>The spill\<close>

record 'k spill =
  sp_disk :: "('k, string) dict"
  sp_handles :: "('k, string) dict"

definition new_spill :: "('k, string) dict \<Rightarrow> 'k spill" where
  "new_spill disk = \<lparr>sp_disk = disk, sp_handles = []\<rparr>"

text \<open>\<open>_handle\<close>: opening in append mode creates the file.\<close>

definition open_handle :: "'k \<Rightarrow> 'k spill \<Rightarrow> 'k spill" where
  "open_handle k s =
     (if dict_in k (sp_handles s) then s
      else s\<lparr>sp_disk := dict_setdefault k [] (sp_disk s), sp_handles := dict_set k [] (sp_handles s)\<rparr>)"

definition append_line :: "'k spill \<Rightarrow> 'k \<Rightarrow> string \<Rightarrow> 'k spill" where
  "append_line s k line =
     (let s1 = open_handle k s
      in s1\<lparr>sp_handles := dict_set k (dict_get (sp_handles s1) k [] @ line) (sp_handles s1)\<rparr>)"

text \<open>The runtime moves a prefix of a buffer to the file; \<open>flush\<close> moves all of it.\<close>

definition write_through :: "nat \<Rightarrow> 'k \<Rightarrow> 'k spill \<Rightarrow> 'k spill" where
  "write_through n k s =
     (case dict_lookup (sp_handles s) k of
        None \<Rightarrow> s
      | Some buf \<Rightarrow>
          s\<lparr>sp_disk := dict_set k (dict_get (sp_disk s) k [] @ take n buf) (sp_disk s),
            sp_handles := dict_set k (drop n buf) (sp_handles s)\<rparr>)"

definition flush_handle :: "'k \<Rightarrow> 'k spill \<Rightarrow> 'k spill" where
  "flush_handle k s = write_through (length (dict_get (sp_handles s) k [])) k s"

definition close_handle :: "'k \<Rightarrow> 'k spill \<Rightarrow> 'k spill" where
  "close_handle k s = (let s1 = flush_handle k s in s1\<lparr>sp_handles := dict_pop k (sp_handles s1)\<rparr>)"

definition iter_lines :: "'k spill \<Rightarrow> 'k \<Rightarrow> string list \<times> 'k spill" where
  "iter_lines s k = (let s1 = flush_handle k s in (lines_of (dict_get (sp_disk s1) k []), s1))"

definition iter_chunks :: "'k spill \<Rightarrow> 'k \<Rightarrow> nat \<Rightarrow> string list \<times> 'k spill" where
  "iter_chunks s k n = (case iter_lines s k of (ls, s1) \<Rightarrow> (chunk_loop n [] ls, s1))"

definition read_shard :: "'k spill \<Rightarrow> 'k \<Rightarrow> string list \<times> 'k spill" where
  "read_shard s k = (let s1 = close_handle k s in (lines_of (dict_get (sp_disk s1) k []), s1))"

definition clear_spill :: "'k spill \<Rightarrow> 'k \<Rightarrow> 'k spill" where
  "clear_spill s k = (let s1 = close_handle k s in s1\<lparr>sp_disk := dict_pop k (sp_disk s1)\<rparr>)"

definition iter_lines_and_clear :: "'k spill \<Rightarrow> 'k \<Rightarrow> string list \<times> 'k spill" where
  "iter_lines_and_clear s k = (case read_shard s k of (ls, s1) \<Rightarrow> (ls, s1\<lparr>sp_disk := dict_pop k (sp_disk s1)\<rparr>))"

definition iter_chunks_and_clear :: "'k spill \<Rightarrow> 'k \<Rightarrow> nat \<Rightarrow> string list \<times> 'k spill" where
  "iter_chunks_and_clear s k n = (case iter_lines_and_clear s k of (ls, s1) \<Rightarrow> (chunk_loop n [] ls, s1))"

definition clear_all :: "'k spill \<Rightarrow> 'k spill" where
  "clear_all s = \<lparr>sp_disk = [], sp_handles = []\<rparr>"

text \<open>\<open>snapshot_state\<close>: flush every open handle and record the size of its file.\<close>

fun flush_all :: "'k list \<Rightarrow> 'k spill \<Rightarrow> 'k spill" where
  "flush_all [] s = s"
| "flush_all (k # ks) s = flush_all ks (flush_handle k s)"

definition snapshot_spill :: "'k spill \<Rightarrow> ('k \<times> nat) list \<times> 'k spill" where
  "snapshot_spill s =
     (let ks = map fst (sp_handles s); s1 = flush_all ks s
      in (map (\<lambda>k. (k, length (dict_get (sp_disk s1) k []))) ks, s1))"

text \<open>\<open>truncate\<close> cuts a longer file, and fills a shorter one with zero bytes.\<close>

definition truncate_to :: "nat \<Rightarrow> string \<Rightarrow> string" where
  "truncate_to n text = take n text @ replicate (n - length text) (CHR 0x00)"

fun truncate_files :: "('k \<times> nat) list \<Rightarrow> ('k, string) dict \<Rightarrow> ('k, string) dict" where
  "truncate_files [] disk = disk"
| "truncate_files ((k, n) # snap) disk =
     truncate_files snap
       (case dict_lookup disk k of None \<Rightarrow> disk | Some text \<Rightarrow> dict_set k (truncate_to n text) disk)"

text \<open>\<open>MultiShardSpill.restore_state\<close> leaves every file closed; \<open>PersistentSpill.restore_state\<close>
  reopens the files it names.\<close>

definition restore_multi :: "('k \<times> nat) list \<Rightarrow> 'k spill \<Rightarrow> 'k spill" where
  "restore_multi snap s = \<lparr>sp_disk = truncate_files snap (sp_disk s), sp_handles = []\<rparr>"

definition restore_persistent :: "('k \<times> nat) list \<Rightarrow> 'k spill \<Rightarrow> 'k spill" where
  "restore_persistent snap s = foldl (\<lambda>s1 (k, _). open_handle k s1) (restore_multi snap s) snap"

definition crash_spill :: "'k spill \<Rightarrow> 'k spill" where
  "crash_spill s = s\<lparr>sp_handles := []\<rparr>"

text \<open>\<open>shards_of\<close>: the shards of a client with an open handle or a file, sorted.\<close>

definition shards_of :: "(uuid \<times> int) spill \<Rightarrow> uuid \<Rightarrow> int list" where
  "shards_of s cid =
     sort (remdups (map snd (filter (\<lambda>k. fst k = cid) (map fst (sp_handles s) @ map fst (sp_disk s)))))"

section \<open>The text of a file\<close>

definition content :: "'k spill \<Rightarrow> 'k \<Rightarrow> string" where
  "content s k = dict_get (sp_disk s) k [] @ dict_get (sp_handles s) k []"

lemma content_open [simp]: "content (open_handle k s) k' = content s k'"
  by (auto simp: content_def open_handle_def dict_get_default dict_get_def dict_in_lookup split: option.splits)

lemma content_append [simp]: "content (append_line s k l) k' = (if k' = k then content s k @ l else content s k')"
  using content_open [of k s k] content_open [of k s k'] by (simp add: append_line_def Let_def content_def)

lemma content_write_through [simp]: "content (write_through n k s) k' = content s k'"
  by (auto simp: content_def write_through_def dict_get_def split: option.splits)

lemma content_flush [simp]: "content (flush_handle k s) k' = content s k'"
  by (simp add: flush_handle_def)

lemma handles_flush:
  "dict_get (sp_handles (flush_handle k s)) k' [] = (if k' = k then [] else dict_get (sp_handles s) k' [])"
  by (auto simp: flush_handle_def write_through_def dict_get_def split: option.splits)

lemma content_close [simp]: "content (close_handle k s) k' = content s k'"
  using content_flush [of k s k'] handles_flush [of k s k] by (auto simp: close_handle_def Let_def content_def)

lemma content_clear [simp]: "content (clear_spill s k) k' = (if k' = k then [] else content s k')"
  using content_close [of k s k'] by (auto simp: clear_spill_def Let_def content_def close_handle_def)

lemma disk_flush: "dict_get (sp_disk (flush_handle k s)) k [] = content s k"
  using content_flush [of k s k] handles_flush [of k s k] by (simp add: content_def)

lemma iter_lines_content: "fst (iter_lines s k) = lines_of (content s k)"
  by (simp add: iter_lines_def disk_flush Let_def)

lemma content_iter_lines [simp]: "content (snd (iter_lines s k)) k' = content s k'"
  by (simp add: iter_lines_def Let_def)

lemma read_shard_content: "fst (read_shard s k) = lines_of (content s k)"
  by (simp add: read_shard_def close_handle_def disk_flush Let_def)

lemma content_read_shard [simp]: "content (snd (read_shard s k)) k' = content s k'"
  by (simp add: read_shard_def Let_def)

section \<open>The interface\<close>

text \<open>What the users of a spill rely on: appending extends the text of one key, clearing empties it,
  and reading returns the lines of the text and changes none.\<close>

locale line_log =
  fixes append :: "'s \<Rightarrow> 'k \<Rightarrow> string \<Rightarrow> 's"
    and clear :: "'s \<Rightarrow> 'k \<Rightarrow> 's"
    and read_lines :: "'s \<Rightarrow> 'k \<Rightarrow> string list \<times> 's"
    and body :: "'s \<Rightarrow> 'k \<Rightarrow> string"
  assumes text_append: "body (append s k l) k' = (if k' = k then body s k @ l else body s k')"
    and text_clear: "body (clear s k) k' = (if k' = k then [] else body s k')"
    and lines_read: "fst (read_lines s k) = lines_of (body s k)"
    and text_read: "body (snd (read_lines s k)) k' = body s k'"
begin

lemma text_append_all:
  "body (foldl (\<lambda>s (k, l). append s k l) s ops) k = body s k @ concat (map snd (filter (\<lambda>x. fst x = k) ops))"
  by (induction ops arbitrary: s) (auto simp: text_append)

lemma lines_of_appended:
  assumes "body s k = []" "\<And>x. x \<in> set ops \<Longrightarrow> CHR 0x0A \<notin> set (snd x)"
  shows "fst (read_lines (foldl (\<lambda>s (k, l). append s k (l @ [CHR 0x0A])) s ops) k) =
         map (\<lambda>x. snd x @ [CHR 0x0A]) (filter (\<lambda>x. fst x = k) ops)"
proof -
  let ?ops = "map (\<lambda>(k, l). (k, l @ [CHR 0x0A])) ops"
  have "foldl (\<lambda>s (k, l). append s k (l @ [CHR 0x0A])) s ops = foldl (\<lambda>s (k, l). append s k l) s ?ops"
    by (simp add: foldl_map split_def)
  moreover have "concat (map snd (filter (\<lambda>x. fst x = k) ?ops)) =
      concat (map (\<lambda>l. l @ [CHR 0x0A]) (map snd (filter (\<lambda>x. fst x = k) ops)))"
    by (induction ops) auto
  moreover have "lines_of (concat (map (\<lambda>l. l @ [CHR 0x0A]) (map snd (filter (\<lambda>x. fst x = k) ops)))) =
      map (\<lambda>l. l @ [CHR 0x0A]) (map snd (filter (\<lambda>x. fst x = k) ops))"
    using assms(2) by (intro lines_of_concat) auto
  ultimately show ?thesis by (simp add: lines_read text_append_all assms(1) comp_def)
qed

end

interpretation persistent: line_log append_line clear_spill iter_lines content
  by unfold_locales (simp_all add: iter_lines_content)

interpretation shards: line_log append_line clear_spill read_shard content
  by unfold_locales (simp_all add: read_shard_content)

section \<open>Crash consistency\<close>

datatype 'k spill_op = SAppend 'k string | SWrite nat 'k

fun do_spill_op :: "'k spill_op \<Rightarrow> 'k spill \<Rightarrow> 'k spill" where
  "do_spill_op (SAppend k l) s = append_line s k l"
| "do_spill_op (SWrite n k) s = write_through n k s"

definition spill_ops :: "'k spill_op list \<Rightarrow> 'k spill \<Rightarrow> 'k spill" where
  "spill_ops ops s = foldl (\<lambda>s op. do_spill_op op s) s ops"

lemma spill_op_grows:
  "\<exists>x. dict_get (sp_disk (do_spill_op op s)) k [] = dict_get (sp_disk s) k [] @ x"
  by (cases op) (auto simp: append_line_def open_handle_def write_through_def Let_def dict_get_def dict_in_lookup split: option.splits)

lemma spill_op_keeps: "dict_in k (sp_disk s) \<Longrightarrow> dict_in k (sp_disk (do_spill_op op s))"
  by (cases op) (auto simp: append_line_def open_handle_def write_through_def Let_def dict_setdefault_def split: option.splits)

lemma spill_ops_grow:
  "\<exists>x. dict_get (sp_disk (spill_ops ops s)) k [] = dict_get (sp_disk s) k [] @ x"
proof (induction ops arbitrary: s)
  case Nil
  then show ?case by (simp add: spill_ops_def)
next
  case (Cons op ops)
  from Cons [of "do_spill_op op s"] spill_op_grows [of op s k] show ?case by (auto simp: spill_ops_def)
qed

lemma spill_ops_keep: "dict_in k (sp_disk s) \<Longrightarrow> dict_in k (sp_disk (spill_ops ops s))"
  by (induction ops arbitrary: s) (auto simp: spill_ops_def spill_op_keeps)

lemma content_flush_all [simp]: "content (flush_all ks s) k = content s k"
  by (induction ks arbitrary: s) auto

lemma flush_handle_flushed:
  "dict_get (sp_handles s) k' [] = [] \<Longrightarrow> dict_get (sp_handles (flush_handle k s)) k' [] = []"
  by (simp add: handles_flush)

lemma flush_all_flushed:
  "k \<in> set ks \<or> dict_get (sp_handles s) k [] = [] \<Longrightarrow> dict_get (sp_handles (flush_all ks s)) k [] = []"
  by (induction ks arbitrary: s) (auto simp: handles_flush)

lemma flush_handle_keys [simp]: "dict_in k' (sp_handles (flush_handle k s)) = dict_in k' (sp_handles s)"
  by (auto simp: flush_handle_def write_through_def dict_in_lookup split: option.splits)

lemma flush_all_keys [simp]: "dict_in k (sp_handles (flush_all ks s)) = dict_in k (sp_handles s)"
  by (induction ks arbitrary: s) auto

lemma flush_handle_file:
  "dict_in k (sp_handles s) \<Longrightarrow> dict_in k (sp_disk (flush_handle k s))"
  by (auto simp: flush_handle_def write_through_def dict_in_lookup split: option.splits)

lemma flush_handle_keeps: "dict_in k' (sp_disk s) \<Longrightarrow> dict_in k' (sp_disk (flush_handle k s))"
  by (auto simp: flush_handle_def write_through_def split: option.splits)

lemma flush_all_keeps: "dict_in k (sp_disk s) \<Longrightarrow> dict_in k (sp_disk (flush_all ks s))"
  by (induction ks arbitrary: s) (simp_all add: flush_handle_keeps)

lemma flush_all_file: "k \<in> set ks \<Longrightarrow> dict_in k (sp_handles s) \<Longrightarrow> dict_in k (sp_disk (flush_all ks s))"
  by (induction ks arbitrary: s) (auto simp: flush_handle_file flush_all_keeps)

lemma lookup_truncate_files:
  assumes "distinct (map fst snap)"
  shows "map_of (truncate_files snap disk) k =
    (case map_of snap k of None \<Rightarrow> map_of disk k | Some n \<Rightarrow> map_option (truncate_to n) (map_of disk k))"
  using assms
proof (induction snap arbitrary: disk)
  case (Cons x snap)
  obtain k' n where x: "x = (k', n)" by (cases x)
  from Cons.prems have "map_of snap k' = None" by (simp add: x map_of_eq_None_iff)
  with Cons show ?case by (auto simp: x split: option.splits)
qed simp

lemma snapshot_spill_lookup:
  assumes "snapshot_spill s = (snap, s1)"
  shows "map_of snap k = (if dict_in k (sp_handles s) then Some (length (content s k)) else None)"
    and "map fst snap = map fst (sp_handles s)"
    and "dict_in k (sp_handles s) \<Longrightarrow> dict_get (sp_disk s1) k [] = content s k \<and> dict_in k (sp_disk s1)"
    and "content s1 k = content s k"
proof -
  let ?ks = "map fst (sp_handles s)"
  have s1: "s1 = flush_all ?ks s" and snap: "snap = map (\<lambda>k. (k, length (dict_get (sp_disk s1) k []))) ?ks"
    using assms by (auto simp: snapshot_spill_def Let_def)
  have d: "dict_get (sp_disk s1) k [] = content s k" if "dict_in k (sp_handles s)" for k
    using flush_all_flushed [of k ?ks s] content_flush_all [of ?ks s k] that by (simp add: s1 content_def dict_in_def)
  have "map_of (map (\<lambda>k. (k, f k)) ks) k = (if k \<in> set ks then Some (f k) else None)" for f :: "'a \<Rightarrow> nat" and ks
    by (induction ks) auto
  then show "map_of snap k = (if dict_in k (sp_handles s) then Some (length (content s k)) else None)"
    using d [of k] unfolding snap by (simp add: dict_in_def del: map_map)
  show "map fst snap = map fst (sp_handles s)" by (simp add: snap comp_def)
  show "dict_in k (sp_handles s) \<Longrightarrow> dict_get (sp_disk s1) k [] = content s k \<and> dict_in k (sp_disk s1)"
    using d [of k] flush_all_file [of k ?ks s] by (simp add: s1 dict_in_def)
  show "content s1 k = content s k" by (simp add: s1)
qed

lemma content_open_all [simp]: "content (foldl (\<lambda>s1 (k, _). open_handle k s1) s snap) k = content s k"
  by (induction snap arbitrary: s) auto

lemma content_restore_persistent: "content (restore_persistent snap s) k = content (restore_multi snap s) k"
  by (simp add: restore_persistent_def)

section \<open>Properties\<close>



text \<open>
  A file that had no open handle at the snapshot is not rolled back.  What reached it after the
  snapshot is still there after the crash and the restore, so that the redelivery of the
  unacknowledged messages appends it a second time: a client's first lines since the last
  checkpoint, and, after a restart of a \<open>MultiShardSpill\<close> (which reopens nothing), the next lines of
  every shard file that was not written between the restart and the checkpoint.
\<close>

theorem uncommitted_file_survives:
  assumes "snapshot_spill s = (snap, s1)" "wf_dict (sp_handles s)" "\<not> dict_in k (sp_handles s)"
  shows "content (restore_multi snap (crash_spill (spill_ops [SAppend k line, SWrite (length line) k] s1))) k = content s k @ line \<and>
         content (restore_persistent snap (crash_spill (spill_ops [SAppend k line, SWrite (length line) k] s1))) k = content s k @ line"
proof -
  let ?s2 = "spill_ops [SAppend k line, SWrite (length line) k] s1"
  note L = snapshot_spill_lookup [OF assms(1)]
  have "sp_handles (append_line s1 k line) = dict_set k line (dict_set k [] (sp_handles s1))"
    using assms(1,3) by (auto simp: append_line_def open_handle_def Let_def snapshot_spill_def)
  then have "dict_get (sp_handles ?s2) k [] = []"
    by (simp add: spill_ops_def write_through_def)
  moreover have "content ?s2 k = content s k @ line" by (simp add: spill_ops_def L(4))
  ultimately have "dict_get (sp_disk ?s2) k [] = content s k @ line" by (simp add: content_def)
  moreover have "distinct (map fst snap)" using L(2) assms(2) by (simp add: wf_dict_def)
  ultimately have "content (restore_multi snap (crash_spill ?s2)) k = content s k @ line"
    using L(1) assms(3) by (simp add: content_def restore_multi_def crash_spill_def dict_get_def lookup_truncate_files)
  then show ?thesis by (simp add: content_restore_persistent)
qed

theorem uncommitted_file_survives_witness:
  "content (restore_multi [] (crash_spill (spill_ops [SAppend (7 :: uuid) ''x'', SWrite (length ''x'') 7]
      (restore_multi [(7, 2)] (new_spill [(7, ''ab'')]))))) 7 = ''abx''"
proof -
  let ?s = "restore_multi [(7 :: uuid, 2)] (new_spill [(7, ''ab'')])"
  have "snapshot_spill ?s = ([], ?s)" "sp_handles ?s = []" by (simp_all add: snapshot_spill_def restore_multi_def)
  moreover have "content ?s 7 = ''ab''" by (simp add: restore_multi_def new_spill_def content_def truncate_to_def dict_get_def)
  ultimately show ?thesis
    using uncommitted_file_survives [of ?s "[]" ?s 7 "''x''"] by simp
qed

end
