(* ===== verification/Keyed.thy ===== *)
theory Keyed
  imports Data_Model
begin

text \<open>
  Python's sets and dicts of objects that compare by a key (\<open>Node\<close>, \<open>Path\<close>): the mutating operations
  the graph functions use on top of the lookups of \<open>Data_Model\<close>, and what they compute on objects
  whose keys do not collide.  There an insertion-ordered set is a distinct list and a dict a finite
  map; without that hypothesis two objects with one key are one object to the program.
\<close>

section \<open>Operations\<close>

text \<open>\<open>s.update(t)\<close> on sets; \<open>d[k] = f(d.get(k, dflt))\<close> on dicts, which keeps the first key object.\<close>

definition keyed_union :: "('a \<Rightarrow> string) \<Rightarrow> 'a list \<Rightarrow> 'a list \<Rightarrow> 'a list" where
  "keyed_union key xs ys = foldl (\<lambda>acc x. keyed_add key x acc) xs ys"

fun keyed_mod :: "('a \<Rightarrow> string) \<Rightarrow> 'a \<Rightarrow> ('v \<Rightarrow> 'v) \<Rightarrow> 'v \<Rightarrow> ('a \<times> 'v) list \<Rightarrow> ('a \<times> 'v) list" where
  "keyed_mod key k f dflt [] = [(k, f dflt)]"
| "keyed_mod key k f dflt ((k', v) # d) =
     (if key k' = key k then (k', f v) # d else (k', v) # keyed_mod key k f dflt d)"

definition keyed_inter :: "('a \<Rightarrow> string) \<Rightarrow> 'a list \<Rightarrow> 'a list \<Rightarrow> 'a list" where
  "keyed_inter key xs ys = filter (\<lambda>x. key x \<in> set (map key ys)) xs"

section \<open>On objects without collisions\<close>

lemma key_mem_iff: "inj_on key N \<Longrightarrow> x \<in> N \<Longrightarrow> set xs \<subseteq> N \<Longrightarrow> key x \<in> set (map key xs) \<longleftrightarrow> x \<in> set xs"
  by (auto dest: inj_onD)

lemma keyed_add_set:
  assumes "inj_on key N" "x \<in> N" "set xs \<subseteq> N"
  shows "set (keyed_add key x xs) = insert x (set xs)"
  using key_mem_iff [OF assms] by (auto simp: keyed_add_def)

lemma keyed_add_distinct:
  assumes "inj_on key N" "x \<in> N" "set xs \<subseteq> N" "distinct xs"
  shows "distinct (keyed_add key x xs)"
  using key_mem_iff [OF assms(1-3)] assms(4) by (auto simp: keyed_add_def)

lemma keyed_union_set:
  assumes "inj_on key N" "set ys \<subseteq> N" "set xs \<subseteq> N"
  shows "set (keyed_union key xs ys) = set xs \<union> set ys \<and> (distinct xs \<longrightarrow> distinct (keyed_union key xs ys))"
  using assms(2,3)
proof (induction ys arbitrary: xs)
  case Nil
  then show ?case by (simp add: keyed_union_def)
next
  case (Cons y ys)
  have s: "set (keyed_add key y xs) = insert y (set xs)" "distinct xs \<longrightarrow> distinct (keyed_add key y xs)"
    using keyed_add_set [OF assms(1)] keyed_add_distinct [OF assms(1)] Cons.prems by auto
  with Cons.IH [of "keyed_add key y xs"] Cons.prems show ?case by (auto simp: keyed_union_def)
qed

lemma keyed_inter_set:
  assumes "inj_on key N" "set xs \<subseteq> N" "set ys \<subseteq> N"
  shows "set (keyed_inter key xs ys) = set xs \<inter> set ys"
  using key_mem_iff [OF assms(1) _ assms(3)] assms(2) by (auto simp: keyed_inter_def)

lemma keyed_inter_distinct: "distinct xs \<Longrightarrow> distinct (keyed_inter key xs ys)"
  by (simp add: keyed_inter_def)

text \<open>A keyed dict on such objects is an association list with distinct keys.\<close>

lemma keyed_mod_keys:
  assumes "inj_on key N" "k \<in> N" "fst ` set d \<subseteq> N"
  shows "fst ` set (keyed_mod key k f dflt d) = insert k (fst ` set d)"
  using assms(3)
proof (induction d)
  case (Cons x d)
  obtain k' v where x: "x = (k', v)" by (cases x)
  show ?case
  proof (cases "key k' = key k")
    case True
    with Cons.prems assms(1,2) have "k' = k" by (auto simp: x dest: inj_onD)
    then show ?thesis by (simp add: x)
  next
    case False
    with Cons show ?thesis by (auto simp: x)
  qed
qed simp

lemma keyed_mod_distinct:
  assumes "inj_on key N" "k \<in> N" "fst ` set d \<subseteq> N" "distinct (map fst d)"
  shows "distinct (map fst (keyed_mod key k f dflt d))"
  using assms(3,4)
proof (induction d)
  case (Cons x d)
  obtain k' v where x: "x = (k', v)" by (cases x)
  have keys: "fst ` set (keyed_mod key k f dflt d) = insert k (fst ` set d)"
    using Cons.prems by (intro keyed_mod_keys [OF assms(1,2)]) auto
  then have "key k' \<noteq> key k \<Longrightarrow> k' \<notin> fst ` set (keyed_mod key k f dflt d)"
    using Cons.prems by (auto simp: x)
  with Cons show ?case by (auto simp: x)
qed simp

lemma keyed_mod_lookup:
  assumes "inj_on key N" "k \<in> N" "fst ` set d \<subseteq> N"
  shows "map_of (keyed_mod key k f dflt d) k' =
    (if k' = k then Some (f (case map_of d k of None \<Rightarrow> dflt | Some v \<Rightarrow> v)) else map_of d k')"
  using assms(3)
proof (induction d)
  case (Cons x d)
  obtain j v where x: "x = (j, v)" by (cases x)
  have "key j = key k \<longleftrightarrow> j = k" using Cons.prems assms(1,2) by (auto simp: x dest: inj_onD)
  with Cons show ?case by (auto simp: x)
qed simp

lemma keyed_put_mod: "keyed_put key k v d = keyed_mod key k (\<lambda>_. v) v d"
  by (induction key k v d rule: keyed_put.induct) simp_all

lemma keyed_get_map_of:
  assumes "inj_on key N" "k \<in> N" "fst ` set d \<subseteq> N"
  shows "keyed_get key d k = map_of d k"
  using assms(3)
proof (induction d)
  case (Cons x d)
  obtain j v where x: "x = (j, v)" by (cases x)
  have "key j = key k \<longleftrightarrow> j = k" using Cons.prems assms(1,2) by (auto simp: x dest: inj_onD)
  with Cons show ?case by (auto simp: x)
qed simp

section \<open>Collisions\<close>

text \<open>Node keys are unambiguous when the account numbers have one length, as in the dataset.\<close>

lemma node_key_inj_fixed: "inj_on node_key {n. length (n_account n) = k}"
  by (rule inj_onI) (auto simp: node_key_def append_eq_append_conv)

end
