(* ===== verification/Spilled_Items.thy ===== *)
theory Spilled_Items
  imports Spill Json
begin

text \<open>
  What the UC4 aggregates share: items written as lines to the shard file their hash chooses, and read
  back shard by shard.  The interface \<open>item_codec\<close> is a line format with its round trip; inside it,
  the items read over all shards of a client are exactly the items appended, each file's in order,
  whichever items share a shard.
\<close>

section \<open>Writing and reading\<close>

text \<open>\<open>by_shard\<close>: a \<open>defaultdict(list)\<close> filled in the order of the items.\<close>

definition by_shard :: "('i \<Rightarrow> int) \<Rightarrow> 'i list \<Rightarrow> (int, 'i list) dict" where
  "by_shard shard items = foldl (\<lambda>d i. dict_set (shard i) (dict_get d (shard i) [] @ [i]) d) [] items"

definition newline :: string where
  "newline = [CHR 0x0A]"

definition append_items :: "('i \<Rightarrow> string) \<Rightarrow> (uuid \<times> int) spill \<Rightarrow> uuid \<Rightarrow> int \<Rightarrow> 'i list \<Rightarrow> (uuid \<times> int) spill" where
  "append_items enc s cid sh items = foldl (\<lambda>s i. append_line s (cid, sh) (enc i @ newline)) s items"

definition spill_items :: "('i \<Rightarrow> int) \<Rightarrow> ('i \<Rightarrow> string) \<Rightarrow> (uuid \<times> int) spill \<Rightarrow> uuid \<Rightarrow> 'i list \<Rightarrow> (uuid \<times> int) spill" where
  "spill_items shard enc s cid items =
     foldl (\<lambda>s (sh, is). append_items enc s cid sh is) s (by_shard shard items)"

text \<open>The same without grouping, in the order of the items.\<close>

definition append_each :: "('i \<Rightarrow> int) \<Rightarrow> ('i \<Rightarrow> string) \<Rightarrow> (uuid \<times> int) spill \<Rightarrow> uuid \<Rightarrow> 'i list \<Rightarrow> (uuid \<times> int) spill" where
  "append_each shard enc s cid items = foldl (\<lambda>s i. append_line s (cid, shard i) (enc i @ newline)) s items"

text \<open>Reading the shards of a client one after the other, decoding every line.\<close>

fun read_shards :: "(string \<Rightarrow> 'i result) \<Rightarrow> (uuid \<times> int) spill \<Rightarrow> uuid \<Rightarrow> int list \<Rightarrow> 'i list list result \<times> (uuid \<times> int) spill" where
  "read_shards dec s cid [] = (Inr [], s)"
| "read_shards dec s cid (sh # shs) =
     (case read_shard s (cid, sh) of
        (ls, s1) \<Rightarrow>
          (case map_result dec ls of
             Inl e \<Rightarrow> (Inl e, s1)
           | Inr items \<Rightarrow>
               (case read_shards dec s1 cid shs of
                  (r, s2) \<Rightarrow> (bind_result r (\<lambda>rest. Inr (items # rest)), s2))))"

text \<open>\<open>MultiShardSpill.clear\<close>: every open handle and every file of the client.\<close>

definition clear_client :: "(uuid \<times> int) spill \<Rightarrow> uuid \<Rightarrow> (uuid \<times> int) spill" where
  "clear_client s cid = foldl (\<lambda>s sh. clear_spill s (cid, sh)) s (shards_of s cid)"

section \<open>Files\<close>

lemma by_shard_snoc:
  "by_shard shard (xs @ [i]) = dict_set (shard i) (dict_get (by_shard shard xs) (shard i) [] @ [i]) (by_shard shard xs)"
  by (simp add: by_shard_def)

lemma by_shard_get: "dict_get (by_shard shard xs) sh [] = filter (\<lambda>i. shard i = sh) xs"
proof (induction xs rule: rev_induct)
  case Nil
  then show ?case by (simp add: by_shard_def)
next
  case (snoc i xs)
  then show ?case by (auto simp: by_shard_snoc)
qed

lemma wf_by_shard: "wf_dict (by_shard shard xs)"
proof (induction xs rule: rev_induct)
  case Nil
  then show ?case by (simp add: by_shard_def)
next
  case (snoc i xs)
  then show ?case by (simp add: by_shard_snoc)
qed

lemma content_append_items:
  "content (append_items enc s cid sh items) k =
     content s k @ (if k = (cid, sh) then concat (map (\<lambda>i. enc i @ newline) items) else [])"
  unfolding append_items_def
proof (induction items arbitrary: s)
  case (Cons i items)
  from Cons [of "append_line s (cid, sh) (enc i @ newline)"] show ?case by simp
qed simp

lemma content_spill_groups:
  "distinct (map fst d) \<Longrightarrow>
   content (foldl (\<lambda>s (sh, is). append_items enc s cid sh is) s d) (c, sh) =
     content s (c, sh) @ (if c = cid then concat (map (\<lambda>i. enc i @ newline) (dict_get d sh [])) else [])"
proof (induction d arbitrary: s)
  case (Cons x d)
  obtain sh' its where x: "x = (sh', its)" by (cases x)
  have "dict_get d sh' [] = []" using Cons.prems by (intro dict_get_default) (auto simp: x dict_in_def)
  with Cons show ?case by (auto simp: x content_append_items dict_get_Cons)
qed simp

lemma content_spill_items:
  "content (spill_items shard enc s cid items) (c, sh) =
     content s (c, sh) @ (if c = cid then concat (map (\<lambda>i. enc i @ newline) (filter (\<lambda>i. shard i = sh) items)) else [])"
  using content_spill_groups [of "by_shard shard items"] wf_by_shard [of shard items]
  by (simp add: spill_items_def wf_dict_def by_shard_get)

lemma content_append_each:
  "content (append_each shard enc s cid items) (c, sh) =
     content s (c, sh) @ (if c = cid then concat (map (\<lambda>i. enc i @ newline) (filter (\<lambda>i. shard i = sh) items)) else [])"
  unfolding append_each_def
proof (induction items arbitrary: s)
  case (Cons i items)
  from Cons [of "append_line s (cid, shard i) (enc i @ newline)"] show ?case by auto
qed simp

lemma shards_of_complete: "content s (c, sh) \<noteq> [] \<Longrightarrow> sh \<in> set (shards_of s c)"
proof -
  assume "content s (c, sh) \<noteq> []"
  then have "dict_in (c, sh) (sp_handles s) \<or> dict_in (c, sh) (sp_disk s)"
    using dict_get_default by (fastforce simp: content_def)
  then have "(c, sh) \<in> set (map fst (sp_handles s) @ map fst (sp_disk s))" by (auto simp: dict_in_def)
  then show ?thesis unfolding shards_of_def set_sort set_remdups set_map set_filter by force
qed

lemma distinct_shards_of [simp]: "distinct (shards_of s c)"
  by (simp add: shards_of_def)

lemma content_clear_client [simp]: "content (clear_client s c) (c', sh) = (if c' = c then [] else content s (c', sh))"
proof -
  have "content (foldl (\<lambda>s sh. clear_spill s (c, sh)) s shs) (c', sh) =
      (if c' = c \<and> sh \<in> set shs then [] else content s (c', sh))" for s shs
    by (induction shs arbitrary: s) auto
  then show ?thesis using shards_of_complete [of s c sh] by (auto simp: clear_client_def)
qed

section \<open>The interface\<close>

locale item_codec =
  fixes enc :: "'i \<Rightarrow> string"
    and dec :: "string \<Rightarrow> 'i result"
    and shard :: "'i \<Rightarrow> int"
    and good :: "'i \<Rightarrow> bool"
  assumes dec_enc: "good i \<Longrightarrow> dec (enc i @ newline) = Inr i"
    and one_line: "good i \<Longrightarrow> CHR 0x0A \<notin> set (enc i)"
begin

lemma lines_of_items:
  "(\<And>i. i \<in> set xs \<Longrightarrow> good i) \<Longrightarrow>
   lines_of (concat (map (\<lambda>i. enc i @ newline) xs)) = map (\<lambda>i. enc i @ newline) xs"
proof -
  assume "\<And>i. i \<in> set xs \<Longrightarrow> good i"
  then have "CHR 0x0A \<notin> set l" if "l \<in> set (map enc xs)" for l using that one_line by auto
  from lines_of_concat [of "map enc xs", OF this] show ?thesis by (simp add: newline_def comp_def)
qed

lemma read_items:
  assumes "content s (c, sh) = concat (map (\<lambda>i. enc i @ newline) xs)" "\<And>i. i \<in> set xs \<Longrightarrow> good i"
  shows "map_result dec (fst (read_shard s (c, sh))) = Inr xs"
  using assms by (simp add: read_shard_content lines_of_items dec_enc map_result_id)

text \<open>The files of a client hold the lines of a list of items.\<close>

definition holds :: "(uuid \<times> int) spill \<Rightarrow> uuid \<Rightarrow> 'i list \<Rightarrow> bool" where
  "holds s c xs \<longleftrightarrow>
     (\<forall>i\<in>set xs. good i) \<and>
     (\<forall>sh. content s (c, sh) = concat (map (\<lambda>i. enc i @ newline) (filter (\<lambda>i. shard i = sh) xs)))"

lemma holds_spill:
  "holds s c xs \<Longrightarrow> (\<And>i. i \<in> set ys \<Longrightarrow> good i) \<Longrightarrow> holds (spill_items shard enc s c ys) c (xs @ ys)"
  by (auto simp: holds_def content_spill_items)

lemma holds_spill_other: "holds s c' xs \<Longrightarrow> c' \<noteq> c \<Longrightarrow> holds (spill_items shard enc s c ys) c' xs"
  by (auto simp: holds_def content_spill_items)

lemma holds_append_each:
  "holds s c xs \<Longrightarrow> (\<And>i. i \<in> set ys \<Longrightarrow> good i) \<Longrightarrow> holds (append_each shard enc s c ys) c (xs @ ys)"
  "holds s c' xs \<Longrightarrow> c' \<noteq> c \<Longrightarrow> holds (append_each shard enc s c ys) c' xs"
  by (auto simp: holds_def content_append_each)

lemma holds_lines:
  assumes "holds s c xs"
  shows "(\<exists>sh l. l \<in> set (lines_of (content s (c, sh))) \<and> dec l = Inr e) \<longleftrightarrow> e \<in> set xs"
proof -
  have good: "\<And>i. i \<in> set xs \<Longrightarrow> good i" using assms by (simp add: holds_def)
  have l: "lines_of (content s (c, sh)) = map (\<lambda>i. enc i @ newline) (filter (\<lambda>i. shard i = sh) xs)" for sh
    using assms lines_of_items [of "filter (\<lambda>i. shard i = sh) xs"] good by (simp add: holds_def)
  show ?thesis unfolding l using dec_enc good by fastforce
qed

lemma holds_clear: "holds (clear_client s c) c []"
  by (simp add: holds_def)

lemma holds_clear_other: "holds s c' xs \<Longrightarrow> c' \<noteq> c \<Longrightarrow> holds (clear_client s c) c' xs"
  by (simp add: holds_def)

lemma holds_read [simp]: "holds (snd (read_shard s k)) c xs = holds s c xs"
  by (simp add: holds_def)

lemma read_shards_items:
  "holds s c xs \<Longrightarrow> \<exists>s1. read_shards dec s c shs = (Inr (map (\<lambda>sh. filter (\<lambda>i. shard i = sh) xs) shs), s1) \<and>
     (\<forall>k. content s1 k = content s k)"
proof (induction shs arbitrary: s)
  case (Cons sh shs)
  obtain ls s1 where r: "read_shard s (c, sh) = (ls, s1)" by (cases "read_shard s (c, sh)")
  have "map_result dec ls = Inr (filter (\<lambda>i. shard i = sh) xs)"
    using read_items [of s c sh "filter (\<lambda>i. shard i = sh) xs"] Cons.prems by (auto simp: holds_def r)
  moreover have "holds s1 c xs" using Cons.prems holds_read [of s "(c, sh)" c xs] by (simp add: r)
  moreover have "content s1 k = content s k" for k using content_read_shard [of s "(c, sh)" k] by (simp add: r)
  ultimately show ?case using Cons.IH [of s1] by (auto simp: r)
qed simp

lemma holds_shards: "holds s c xs \<Longrightarrow> i \<in> set xs \<Longrightarrow> shard i \<in> set (shards_of s c)"
proof -
  assume h: "holds s c xs" and i: "i \<in> set xs"
  then have "i \<in> set (filter (\<lambda>j. shard j = shard i) xs)" by simp
  then have "content s (c, shard i) \<noteq> []" using h by (auto simp: holds_def newline_def)
  then show ?thesis by (rule shards_of_complete)
qed

lemma filter_shards_mset:
  "distinct shs \<Longrightarrow> (\<And>i. i \<in> set xs \<Longrightarrow> shard i \<in> set shs) \<Longrightarrow>
   mset (concat (map (\<lambda>sh. filter (\<lambda>i. shard i = sh) xs) shs)) = mset xs"
proof (induction xs)
  case Nil
  then show ?case by (induction shs) auto
next
  case (Cons x xs)
  have one: "distinct shs \<Longrightarrow> mset (concat (map (\<lambda>sh. filter (\<lambda>i. shard i = sh) (x # xs)) shs)) =
      (if shard x \<in> set shs then {#x#} else {#}) + mset (concat (map (\<lambda>sh. filter (\<lambda>i. shard i = sh) xs) shs))" for shs
    by (induction shs) auto
  from one [OF Cons.prems(1)] Cons show ?case by simp
qed

lemma read_all:
  assumes "holds s c xs"
  shows "\<exists>groups s1. read_shards dec s c (shards_of s c) = (Inr groups, s1) \<and> mset (concat groups) = mset xs \<and>
    groups = map (\<lambda>sh. filter (\<lambda>i. shard i = sh) xs) (shards_of s c) \<and> (\<forall>k. content s1 k = content s k)"
  using read_shards_items [OF assms, of "shards_of s c"] filter_shards_mset [OF distinct_shards_of holds_shards [OF assms]]
  by auto

end

section \<open>Lines of JSON\<close>

lemma json_roundtrip_line: "json_ok repr v \<Longrightarrow> json_loads (json_dumps repr v @ newline) = Inr v"
  using json_value_dumped [of repr v "2 * length (json_dumps repr v @ newline)" newline] json_fuel_le [of repr v]
  by (simp add: json_loads_def stops_def skip_ws_def newline_def num_char_def)

end
