(* ===== verification/Graphs.thy ===== *)
theory Graphs
  imports Aggregates Keyed Spilled_Items
begin

text \<open>
  UC4's graph: the group-by that builds a batch's graph (\<open>group_by_fns/uc4_compute_graph.py\<close>,
  \<open>messages/graph.py\<close>) and the aggregate that unites the batches' graphs, spilling to disk
  (\<open>aggregate_fns/uc4_aggregate_graph.py\<close>).  A graph maps a node to its predecessors and successors;
  the aggregate's two dicts \<open>_preds\<close> and \<open>_succs\<close> always have the same keys in the same order (both
  are created and extended together), and are one dict of pairs here.

  The view of a graph is its two relations.  The aggregate interprets \<open>client_aggregate\<close>: what it
  has for a client, in memory and on disk together, is the union of the client's graphs.  Its result
  has every node once, with all its predecessors and successors, however often it spilled.
\<close>

section \<open>Graphs\<close>

type_synonym graph = "(gnode \<times> gnode list \<times> gnode list) list"

definition add_origin :: "graph \<Rightarrow> gnode \<Rightarrow> gnode \<Rightarrow> graph" where
  "add_origin g node origin = keyed_mod node_key node (\<lambda>(p, s). (keyed_add node_key origin p, s)) ([], []) g"

definition add_destination :: "graph \<Rightarrow> gnode \<Rightarrow> gnode \<Rightarrow> graph" where
  "add_destination g node dest = keyed_mod node_key node (\<lambda>(p, s). (p, keyed_add node_key dest s)) ([], []) g"

definition from_node :: "transaction \<Rightarrow> gnode" where
  "from_node t = \<lparr>n_bank = t_from_bank t, n_account = t_from_account t\<rparr>"

definition to_node :: "transaction \<Rightarrow> gnode" where
  "to_node t = \<lparr>n_bank = t_to_bank t, n_account = t_to_account t\<rparr>"

definition compute_graph :: "transaction list \<Rightarrow> graph" where
  "compute_graph ts =
     foldl (\<lambda>g t. add_destination (add_origin g (to_node t) (from_node t)) (from_node t) (to_node t)) [] ts"

text \<open>\<open>setdefault(node, set()).update(...)\<close> on both components.\<close>

definition graph_merge :: "graph \<Rightarrow> gnode \<times> gnode list \<times> gnode list \<Rightarrow> graph" where
  "graph_merge g e =
     (case e of (n, p, s) \<Rightarrow>
        keyed_mod node_key n (\<lambda>(p0, s0). (keyed_union node_key p0 p, keyed_union node_key s0 s)) ([], []) g)"

text \<open>The shards of a batch's graph: a node not yet in its shard is stored as it is.\<close>

definition shard_graph :: "pyhash \<Rightarrow> int \<Rightarrow> graph \<Rightarrow> (int, graph) dict" where
  "shard_graph h m g =
     foldl (\<lambda>aff (n, p, s).
       (let i = h_str h (node_key n) mod m; sg = dict_get aff i []
        in dict_set i (if node_key n \<in> set (map (node_key \<circ> fst) sg) then graph_merge sg (n, p, s) else sg @ [(n, p, s)]) aff))
       [] g"

definition group_uc4_graph :: "pyhash \<Rightarrow> transaction list \<Rightarrow> (graph \<times> int) list" where
  "group_uc4_graph h ts = map (\<lambda>(aff, g). (g, aff)) (shard_graph h 50 (compute_graph ts))"

section \<open>The aggregate\<close>

record graph_agg =
  ga_mem :: "graph per_client"
  ga_spill :: "(uuid \<times> int) spill"

definition new_graph_agg :: graph_agg where
  "new_graph_agg = \<lparr>ga_mem = [], ga_spill = new_spill []\<rparr>"

definition graph_line :: "gnode \<times> gnode list \<times> gnode list \<Rightarrow> string" where
  "graph_line e =
     (case e of (n, p, s) \<Rightarrow>
        json_dumps (\<lambda>_. []) (JList [JStr (node_str n), JList (map (JStr \<circ> node_str) p), JList (map (JStr \<circ> node_str) s)]))"

definition json_str :: "json \<Rightarrow> string result" where
  "json_str v = (case v of JStr s \<Rightarrow> Inr s | _ \<Rightarrow> Inl AttributeError)"

definition json_node :: "json \<Rightarrow> gnode result" where
  "json_node v = bind_result (json_str v) node_from_str"

definition json_node_set :: "json \<Rightarrow> gnode list result" where
  "json_node_set v =
     (case v of JList vs \<Rightarrow> bind_result (map_result json_node vs) (\<lambda>ns. Inr (keyed_set node_key ns))
              | _ \<Rightarrow> Inl TypeError)"

definition graph_of_line :: "string \<Rightarrow> (gnode \<times> gnode list \<times> gnode list) result" where
  "graph_of_line line =
     bind_result (json_loads line) (\<lambda>v.
       case v of
         JList (a # b # c # _) \<Rightarrow>
           bind_result (json_node a) (\<lambda>n. bind_result (json_node_set b) (\<lambda>p. bind_result (json_node_set c) (\<lambda>s. Inr (n, p, s))))
       | JList _ \<Rightarrow> Inl IndexError
       | _ \<Rightarrow> Inl TypeError)"

definition graph_shard :: "pyhash \<Rightarrow> gnode \<times> gnode list \<times> gnode list \<Rightarrow> int" where
  "graph_shard h e = h_str h (node_str (fst e)) mod 500"

definition graph_spill_to_disk :: "pyhash \<Rightarrow> graph_agg \<Rightarrow> uuid \<Rightarrow> graph_agg" where
  "graph_spill_to_disk h st cid =
     \<lparr>ga_mem = dict_pop cid (ga_mem st),
      ga_spill = spill_items (graph_shard h) graph_line (ga_spill st) cid (dict_get (ga_mem st) cid [])\<rparr>"

text \<open>\<open>SPILL_THRESHOLD\<close> is 100 000 nodes; the results hold for every threshold.\<close>

definition graph_aggregate :: "pyhash \<Rightarrow> nat \<Rightarrow> graph_agg \<Rightarrow> uuid \<Rightarrow> graph \<Rightarrow> graph_agg" where
  "graph_aggregate h threshold st cid g =
     (let mem = foldl graph_merge (dict_get (ga_mem st) cid []) g;
          st1 = st\<lparr>ga_mem := dict_set cid mem (ga_mem st)\<rparr>
      in if threshold \<le> length mem then graph_spill_to_disk h st1 cid else st1)"

definition graph_discard :: "graph_agg \<Rightarrow> uuid \<Rightarrow> graph_agg" where
  "graph_discard st cid = \<lparr>ga_mem = dict_pop cid (ga_mem st), ga_spill = clear_client (ga_spill st) cid\<rparr>"

definition split_affinity :: "pyhash \<Rightarrow> int \<Rightarrow> graph \<Rightarrow> (graph \<times> int) list" where
  "split_affinity h m g =
     map (\<lambda>(aff, g). (g, aff))
       (foldl (\<lambda>aff (n, e). dict_set (h_str h (node_key n) mod m) (keyed_put node_key n e (dict_get aff (h_str h (node_key n) mod m) [])) aff)
         [] g)"

definition graph_result :: "pyhash \<Rightarrow> graph_agg \<Rightarrow> uuid \<Rightarrow> (graph \<times> int) list result \<times> graph_agg" where
  "graph_result h st cid =
     (let st1 = (if dict_in cid (ga_mem st) then graph_spill_to_disk h st cid else st)
      in case read_shards graph_of_line (ga_spill st1) cid (shards_of (ga_spill st1) cid) of
           (r, sp) \<Rightarrow>
             (bind_result r (\<lambda>groups. Inr (concat (map (\<lambda>es. split_affinity h 100 (foldl graph_merge [] es)) groups))),
              \<lparr>ga_mem = dict_pop cid (ga_mem st1), ga_spill = sp\<rparr>))"

text \<open>\<open>snapshot_state\<close> spills every client first, so that the checkpoint is the sizes of the files.\<close>

definition graph_snapshot :: "pyhash \<Rightarrow> graph_agg \<Rightarrow> ((uuid \<times> int) \<times> nat) list \<times> graph_agg" where
  "graph_snapshot h st =
     (let st1 = foldl (graph_spill_to_disk h) st (map fst (ga_mem st))
      in case snapshot_spill (ga_spill st1) of (snap, sp) \<Rightarrow> (snap, st1\<lparr>ga_spill := sp\<rparr>))"

definition graph_restore :: "((uuid \<times> int) \<times> nat) list \<Rightarrow> graph_agg \<Rightarrow> graph_agg" where
  "graph_restore snap st = \<lparr>ga_mem = [], ga_spill = restore_multi snap (ga_spill st)\<rparr>"

definition graph_clear_stale :: "graph_agg \<Rightarrow> graph_agg" where
  "graph_clear_stale st = st\<lparr>ga_spill := clear_all (ga_spill st)\<rparr>"

section \<open>Views\<close>

definition pred_pairs :: "graph \<Rightarrow> (gnode \<times> gnode) set" where
  "pred_pairs g = (\<Union>(n, p, s)\<in>set g. {n} \<times> set p)"

definition succ_pairs :: "graph \<Rightarrow> (gnode \<times> gnode) set" where
  "succ_pairs g = (\<Union>(n, p, s)\<in>set g. {n} \<times> set s)"

type_synonym gview = "(gnode \<times> gnode) set \<times> (gnode \<times> gnode) set"

definition gview :: "graph \<Rightarrow> gview" where
  "gview g = (pred_pairs g, succ_pairs g)"

definition view_union :: "gview \<Rightarrow> gview \<Rightarrow> gview" where
  "view_union a b = (fst a \<union> fst b, snd a \<union> snd b)"

text \<open>Nodes whose keys and texts are unambiguous: account numbers of one length, no comma.\<close>

definition clean_node :: "nat \<Rightarrow> gnode \<Rightarrow> bool" where
  "clean_node k n \<longleftrightarrow> length (n_account n) = k \<and> CHR '','' \<notin> set (n_bank n) \<and> CHR '','' \<notin> set (n_account n)"

definition clean_entry :: "nat \<Rightarrow> gnode \<times> gnode list \<times> gnode list \<Rightarrow> bool" where
  "clean_entry k e \<longleftrightarrow>
     (case e of (n, p, s) \<Rightarrow> clean_node k n \<and> (\<forall>a\<in>set p. clean_node k a) \<and> (\<forall>c\<in>set s. clean_node k c) \<and>
        distinct p \<and> distinct s \<and> (p \<noteq> [] \<or> s \<noteq> []))"

definition clean_graph :: "nat \<Rightarrow> graph \<Rightarrow> bool" where
  "clean_graph k g \<longleftrightarrow> (\<forall>e\<in>set g. clean_entry k e) \<and> distinct (map fst g)"

lemma clean_inj: "inj_on node_key {n. clean_node k n}"
  by (rule inj_on_subset [OF node_key_inj_fixed [of k]]) (auto simp: clean_node_def)

lemma gview_Nil [simp]: "gview [] = ({}, {})"
  by (simp add: gview_def pred_pairs_def succ_pairs_def)

lemma gview_append: "gview (xs @ ys) = view_union (gview xs) (gview ys)"
  by (simp add: gview_def view_union_def pred_pairs_def succ_pairs_def)

lemma view_union_simps [simp]: "view_union ({}, {}) v = v" "view_union v ({}, {}) = v" "view_union v v = v"
  by (simp_all add: view_union_def)

lemma view_union_assoc: "view_union (view_union a b) c = view_union a (view_union b c)"
  by (simp add: view_union_def Un_assoc)

lemma view_union_commute: "view_union a b = view_union b a"
  by (simp add: view_union_def Un_commute)

lemma gview_mset: "set xs = set ys \<Longrightarrow> gview xs = gview ys"
  by (simp add: gview_def pred_pairs_def succ_pairs_def)

lemma gview_concat_cong: "set (concat xss) = set ys \<Longrightarrow> gview (concat xss) = gview ys"
  by (rule gview_mset)

text \<open>The pairs of one node, in a graph with distinct nodes.\<close>

lemma pair_iff:
  "(n, a) \<in> pred_pairs g \<longleftrightarrow> (\<exists>p s. (n, p, s) \<in> set g \<and> a \<in> set p)"
  "(n, c) \<in> succ_pairs g \<longleftrightarrow> (\<exists>p s. (n, p, s) \<in> set g \<and> c \<in> set s)"
  unfolding pred_pairs_def succ_pairs_def by force+

lemma pairs_lookup:
  assumes "distinct (map fst g)"
  shows "(n, a) \<in> pred_pairs g \<longleftrightarrow> (\<exists>p s. map_of g n = Some (p, s) \<and> a \<in> set p)"
    and "(n, c) \<in> succ_pairs g \<longleftrightarrow> (\<exists>p s. map_of g n = Some (p, s) \<and> c \<in> set s)"
  unfolding map_of_eq_Some_iff [OF assms] pair_iff by blast+

text \<open>One entry, merged into a graph.\<close>

lemma clean_entryI:
  "clean_node k n \<Longrightarrow> set p \<subseteq> {n. clean_node k n} \<Longrightarrow> set s \<subseteq> {n. clean_node k n} \<Longrightarrow> distinct p \<Longrightarrow> distinct s \<Longrightarrow>
   set p \<noteq> {} \<or> set s \<noteq> {} \<Longrightarrow> clean_entry k (n, p, s)"
  by (auto simp: clean_entry_def)

lemma clean_entryD:
  assumes "clean_entry k (n, p, s)"
  shows "clean_node k n" "set p \<subseteq> {n. clean_node k n}" "set s \<subseteq> {n. clean_node k n}" "distinct p" "distinct s"
    "set p \<noteq> {} \<or> set s \<noteq> {}"
  using assms by (auto simp: clean_entry_def)

lemma clean_graphD:
  assumes "clean_graph k g"
  shows "distinct (map fst g)" "fst ` set g \<subseteq> {n. clean_node k n}" "map_of g n = Some (p, s) \<Longrightarrow> clean_entry k (n, p, s)"
  using assms clean_entryD(1) by (fastforce simp: clean_graph_def dest: map_of_SomeD)+

lemma graph_merge_lookup:
  assumes "clean_graph k g" "clean_entry k (n, p, s)"
  shows "distinct (map fst (graph_merge g (n, p, s)))"
    and "x \<noteq> n \<Longrightarrow> map_of (graph_merge g (n, p, s)) x = map_of g x"
    and "\<exists>p1 s1. map_of (graph_merge g (n, p, s)) n = Some (p1, s1) \<and> clean_entry k (n, p1, s1) \<and>
           set p1 = (case map_of g n of None \<Rightarrow> {} | Some (p0, s0) \<Rightarrow> set p0) \<union> set p \<and>
           set s1 = (case map_of g n of None \<Rightarrow> {} | Some (p0, s0) \<Rightarrow> set s0) \<union> set s"
proof -
  note inj = clean_inj [of k] and E = clean_entryD [OF assms(2)] and G = clean_graphD [OF assms(1)]
  have n: "n \<in> {n. clean_node k n}" using E(1) by simp
  show "distinct (map fst (graph_merge g (n, p, s)))"
    using keyed_mod_distinct [OF inj n G(2,1)] by (simp add: graph_merge_def)
  show "x \<noteq> n \<Longrightarrow> map_of (graph_merge g (n, p, s)) x = map_of g x"
    using keyed_mod_lookup [OF inj n G(2)] by (simp add: graph_merge_def)
  define v0 where "v0 = (case map_of g n of None \<Rightarrow> ([], []) | Some v \<Rightarrow> v)"
  obtain p0 s0 where v0: "v0 = (p0, s0)" by (cases v0)
  have old: "set p0 \<subseteq> {n. clean_node k n}" "set s0 \<subseteq> {n. clean_node k n}" "distinct p0" "distinct s0"
    using clean_entryD [OF G(3), of n p0 s0] v0 by (cases "map_of g n"; auto simp: v0_def)+
  have new: "map_of (graph_merge g (n, p, s)) n = Some (keyed_union node_key p0 p, keyed_union node_key s0 s)"
    using keyed_mod_lookup [OF inj n G(2), of "\<lambda>(p0, s0). (keyed_union node_key p0 p, keyed_union node_key s0 s)" "([], [])" n] v0
    by (simp add: graph_merge_def v0_def)
  have P: "set (keyed_union node_key p0 p) = set p0 \<union> set p" "distinct (keyed_union node_key p0 p)"
    and S: "set (keyed_union node_key s0 s) = set s0 \<union> set s" "distinct (keyed_union node_key s0 s)"
    using keyed_union_set [OF inj E(2) old(1)] keyed_union_set [OF inj E(3) old(2)] old(3,4) by auto
  have "clean_entry k (n, keyed_union node_key p0 p, keyed_union node_key s0 s)"
    using E(1-3,6) old(1,2) P S by (intro clean_entryI) auto
  moreover have "set p0 = (case map_of g n of None \<Rightarrow> {} | Some (p0, s0) \<Rightarrow> set p0)"
    "set s0 = (case map_of g n of None \<Rightarrow> {} | Some (p0, s0) \<Rightarrow> set s0)"
    using v0 by (simp_all add: v0_def split: option.splits)
  ultimately show "\<exists>p1 s1. map_of (graph_merge g (n, p, s)) n = Some (p1, s1) \<and> clean_entry k (n, p1, s1) \<and>
           set p1 = (case map_of g n of None \<Rightarrow> {} | Some (p0, s0) \<Rightarrow> set p0) \<union> set p \<and>
           set s1 = (case map_of g n of None \<Rightarrow> {} | Some (p0, s0) \<Rightarrow> set s0) \<union> set s"
    using new P(1) S(1) by (intro exI [of _ "keyed_union node_key p0 p"] exI [of _ "keyed_union node_key s0 s"]) simp
qed

lemma graph_merge_clean:
  assumes "clean_graph k g" "clean_entry k e"
  shows "clean_graph k (graph_merge g e) \<and> gview (graph_merge g e) = view_union (gview g) (gview [e])"
proof -
  obtain n p s where e: "e = (n, p, s)" by (cases e)
  let ?g' = "graph_merge g e"
  note L = graph_merge_lookup [OF assms(1) assms(2) [unfolded e], folded e]
  obtain p1 s1 where new: "map_of ?g' n = Some (p1, s1)" "clean_entry k (n, p1, s1)"
    "set p1 = (case map_of g n of None \<Rightarrow> {} | Some (p0, s0) \<Rightarrow> set p0) \<union> set p"
    "set s1 = (case map_of g n of None \<Rightarrow> {} | Some (p0, s0) \<Rightarrow> set s0) \<union> set s" using L(3) by blast
  have "clean_entry k (x, p0, s0)" if "(x, p0, s0) \<in> set ?g'" for x p0 s0
  proof -
    have m: "map_of ?g' x = Some (p0, s0)" using that L(1) by simp
    show ?thesis
      using m new(1,2) L(2) [of x] clean_graphD(3) [OF assms(1), of x p0 s0] by (cases "x = n") simp_all
  qed
  then have c: "clean_graph k ?g'" using L(1) unfolding clean_graph_def by auto
  have d: "distinct (map fst g)" by (rule clean_graphD(1) [OF assms(1)])
  have "(x, a) \<in> pred_pairs ?g' \<longleftrightarrow> (x, a) \<in> pred_pairs g \<or> x = n \<and> a \<in> set p" for x a
    unfolding pairs_lookup [OF L(1)] pairs_lookup [OF d]
    using new(1,3) L(2) [of x] by (cases "x = n"; cases "map_of g n") auto
  moreover have "(x, a) \<in> succ_pairs ?g' \<longleftrightarrow> (x, a) \<in> succ_pairs g \<or> x = n \<and> a \<in> set s" for x a
    unfolding pairs_lookup [OF L(1)] pairs_lookup [OF d]
    using new(1,4) L(2) [of x] by (cases "x = n"; cases "map_of g n") auto
  moreover have "gview [e] = ({n} \<times> set p, {n} \<times> set s)" by (simp add: gview_def pred_pairs_def succ_pairs_def e)
  ultimately have "gview ?g' = view_union (gview g) (gview [e])" by (auto simp: gview_def view_union_def)
  with c show ?thesis by simp
qed

lemma graph_merges_clean:
  "clean_graph k g \<Longrightarrow> \<forall>e\<in>set es. clean_entry k e \<Longrightarrow>
   clean_graph k (foldl graph_merge g es) \<and> gview (foldl graph_merge g es) = view_union (gview g) (gview es)"
proof (induction es arbitrary: g)
  case (Cons e es)
  from graph_merge_clean [OF Cons.prems(1), of e] Cons.prems(2)
  have m: "clean_graph k (graph_merge g e)" "gview (graph_merge g e) = view_union (gview g) (gview [e])" by auto
  have "gview (e # es) = view_union (gview [e]) (gview es)" using gview_append [of "[e]" es] by simp
  with Cons.IH [OF m(1)] Cons.prems(2) m(2) show ?case by (simp add: view_union_assoc)
qed simp

lemma clean_graph_Nil [simp]: "clean_graph k []"
  by (simp add: clean_graph_def)

section \<open>Spilled entries\<close>

lemma clean_node_from_str: "clean_node k n \<Longrightarrow> node_from_str (node_str n) = Inr n"
  by (simp add: clean_node_def node_from_str_def node_str_def split_on_append split_on_word)

lemma json_node_set_clean:
  assumes "set p \<subseteq> {n. clean_node k n}" "distinct p"
  shows "json_node_set (JList (map (JStr \<circ> node_str) p)) = Inr p"
proof -
  have "map_result json_node (map (JStr \<circ> node_str) p) = Inr p"
    using assms(1) by (intro map_result_id) (auto simp: json_node_def json_str_def clean_node_from_str)
  moreover have "key_distinct node_key p"
    unfolding key_distinct_def using assms inj_on_subset [OF clean_inj assms(1)] by (simp add: distinct_map)
  ultimately show ?thesis by (simp add: json_node_set_def keyed_set_id)
qed

lemma graph_line_roundtrip: "clean_entry k e \<Longrightarrow> graph_of_line (graph_line e @ newline) = Inr e"
proof -
  assume c: "clean_entry k e"
  obtain n p s where e: "e = (n, p, s)" by (cases e)
  note E = clean_entryD [OF c [unfolded e]]
  have "json_loads (graph_line e @ newline) =
      Inr (JList [JStr (node_str n), JList (map (JStr \<circ> node_str) p), JList (map (JStr \<circ> node_str) s)])"
    unfolding graph_line_def e by (simp only: prod.case, rule json_roundtrip_line) simp
  with E show ?thesis
    by (simp add: graph_of_line_def e json_node_set_clean) (simp add: json_node_def json_str_def clean_node_from_str)
qed

interpretation gl: item_codec graph_line graph_of_line "graph_shard h" "clean_entry k" for h k
proof
  show "clean_entry k e \<Longrightarrow> graph_of_line (graph_line e @ newline) = Inr e" for e by (rule graph_line_roundtrip)
  show "CHR 0x0A \<notin> set (graph_line e)" for e
    unfolding graph_line_def by (cases e) (simp only: prod.case, rule json_dumps_one_line, simp)
qed

definition disk_view :: "(uuid \<times> int) spill \<Rightarrow> uuid \<Rightarrow> gview" where
  "disk_view sp c =
     ({(n, a). \<exists>sh l p s. l \<in> set (lines_of (content sp (c, sh))) \<and> graph_of_line l = Inr (n, p, s) \<and> a \<in> set p},
      {(n, b). \<exists>sh l p s. l \<in> set (lines_of (content sp (c, sh))) \<and> graph_of_line l = Inr (n, p, s) \<and> b \<in> set s})"

lemma disk_view_holds: "gl.holds h k sp c xs \<Longrightarrow> disk_view sp c = gview xs"
proof -
  assume h: "gl.holds h k sp c xs"
  note D = gl.holds_lines [OF h]
  have "(n, a) \<in> fst (disk_view sp c) \<longleftrightarrow> (n, a) \<in> pred_pairs xs" for n a
    unfolding disk_view_def pair_iff using D by (auto, blast+)
  moreover have "(n, a) \<in> snd (disk_view sp c) \<longleftrightarrow> (n, a) \<in> succ_pairs xs" for n a
    unfolding disk_view_def pair_iff using D by (auto, blast+)
  ultimately show ?thesis unfolding gview_def by (auto simp: prod_eq_iff)
qed

section \<open>The aggregate meets its contract\<close>

definition graph_view :: "graph_agg \<Rightarrow> uuid \<Rightarrow> gview" where
  "graph_view st c = view_union (gview (dict_get (ga_mem st) c [])) (disk_view (ga_spill st) c)"

definition graph_inv :: "pyhash \<Rightarrow> nat \<Rightarrow> graph_agg \<Rightarrow> bool" where
  "graph_inv h k st \<longleftrightarrow> (\<forall>c. \<exists>xs. gl.holds h k (ga_spill st) c xs) \<and> (\<forall>c. clean_graph k (dict_get (ga_mem st) c []))"

lemma graph_spill_inv:
  assumes "graph_inv h k st"
  shows "graph_inv h k (graph_spill_to_disk h st cid) \<and> graph_view (graph_spill_to_disk h st cid) c = graph_view st c"
proof -
  let ?m = "dict_get (ga_mem st) cid []"
  let ?sp = "spill_items (graph_shard h) graph_line (ga_spill st) cid ?m"
  from assms have h: "\<And>c. \<exists>xs. gl.holds h k (ga_spill st) c xs" and m: "\<And>c. clean_graph k (dict_get (ga_mem st) c [])"
    by (auto simp: graph_inv_def)
  from h obtain X where X: "\<And>c. gl.holds h k (ga_spill st) c (X c)" by metis
  have new: "gl.holds h k ?sp cid (X cid @ ?m)"
    using m [of cid] by (intro gl.holds_spill [OF X]) (simp add: clean_graph_def)
  have other: "gl.holds h k ?sp c (X c)" if "c \<noteq> cid" for c using gl.holds_spill_other [OF X that] .
  have "\<exists>xs. gl.holds h k ?sp c xs" for c using new other by (cases "c = cid") auto
  with m have "graph_inv h k (graph_spill_to_disk h st cid)"
    by (auto simp: graph_inv_def graph_spill_to_disk_def)
  moreover have "graph_view (graph_spill_to_disk h st cid) c = graph_view st c"
    using disk_view_holds [OF new] disk_view_holds [OF other, of c] disk_view_holds [OF X, of c]
    by (cases "c = cid") (simp_all add: graph_view_def graph_spill_to_disk_def gview_append view_union_commute)
  ultimately show ?thesis by blast
qed

lemma graph_mem_inv:
  assumes "graph_inv h k st" "clean_graph k g"
  shows "graph_inv h k (st\<lparr>ga_mem := dict_set cid (foldl graph_merge (dict_get (ga_mem st) cid []) g) (ga_mem st)\<rparr>) \<and>
    graph_view (st\<lparr>ga_mem := dict_set cid (foldl graph_merge (dict_get (ga_mem st) cid []) g) (ga_mem st)\<rparr>) c =
      (if c = cid then view_union (graph_view st c) (gview g) else graph_view st c)"
proof -
  have "clean_graph k (dict_get (ga_mem st) cid [])" using assms(1) by (simp add: graph_inv_def)
  from graph_merges_clean [OF this, of g] assms(2)
  have m: "clean_graph k (foldl graph_merge (dict_get (ga_mem st) cid []) g)"
    "gview (foldl graph_merge (dict_get (ga_mem st) cid []) g) = view_union (gview (dict_get (ga_mem st) cid [])) (gview g)"
    by (auto simp: clean_graph_def)
  have "view_union (view_union a b) c = view_union (view_union a c) b" for a b c
    by (simp add: view_union_assoc view_union_commute [of b c])
  with m assms(1) show ?thesis by (auto simp: graph_inv_def graph_view_def)
qed

interpretation graphs: client_aggregate new_graph_agg "graph_aggregate h threshold" graph_discard "graph_inv h k"
    "clean_graph k" graph_view "({}, {})" "\<lambda>v g. view_union v (gview g)" for h threshold k
proof
  have e: "gl.holds h k (new_spill []) c []" for c
    by (simp add: gl.holds_def content_def new_spill_def)
  then show "graph_inv h k new_graph_agg" by (auto simp: graph_inv_def new_graph_agg_def)
  show "graph_view new_graph_agg c = ({}, {})" for c
    using disk_view_holds [OF e] by (simp add: graph_view_def new_graph_agg_def)
  show "graph_inv h k st \<Longrightarrow> clean_graph k g \<Longrightarrow> graph_inv h k (graph_aggregate h threshold st cid g)" for st g cid
    using graph_mem_inv [of h k st g cid] graph_spill_inv by (auto simp: graph_aggregate_def Let_def)
  show "graph_inv h k st \<Longrightarrow> clean_graph k g \<Longrightarrow> graph_view (graph_aggregate h threshold st cid g) c =
      (if c = cid then view_union (graph_view st cid) (gview g) else graph_view st c)" for st g cid c
    using graph_mem_inv [of h k st g cid c] graph_spill_inv by (auto simp: graph_aggregate_def Let_def)
  show "graph_inv h k st \<Longrightarrow> graph_inv h k (graph_discard st cid)" for st cid
    unfolding graph_inv_def graph_discard_def
    using gl.holds_clear gl.holds_clear_other by (auto, metis)
  show "graph_inv h k st \<Longrightarrow> graph_view (graph_discard st cid) c = (if c = cid then ({}, {}) else graph_view st c)" for st cid c
    using disk_view_holds [OF gl.holds_clear]
    by (auto simp: graph_view_def graph_discard_def disk_view_def)
qed

section \<open>Building a graph\<close>

lemma add_origin_merge: "add_origin g n a = graph_merge g (n, [a], [])"
  by (simp add: add_origin_def graph_merge_def keyed_union_def)

lemma add_destination_merge: "add_destination g n b = graph_merge g (n, [], [b])"
  by (simp add: add_destination_def graph_merge_def keyed_union_def)

definition edge_entries :: "transaction \<Rightarrow> graph" where
  "edge_entries t = [(to_node t, [from_node t], []), (from_node t, [], [to_node t])]"

lemma compute_graph_merges: "compute_graph ts = foldl graph_merge [] (concat (map edge_entries ts))"
proof -
  have "foldl (\<lambda>g t. add_destination (add_origin g (to_node t) (from_node t)) (from_node t) (to_node t)) g ts =
      foldl graph_merge g (concat (map edge_entries ts))" for g
    by (induction ts arbitrary: g) (simp_all add: edge_entries_def add_origin_merge add_destination_merge)
  then show ?thesis by (simp add: compute_graph_def)
qed

definition clean_transaction :: "nat \<Rightarrow> transaction \<Rightarrow> bool" where
  "clean_transaction k t \<longleftrightarrow> clean_node k (from_node t) \<and> clean_node k (to_node t)"

text \<open>The edges of a list of payments.\<close>

definition edges :: "transaction list \<Rightarrow> (gnode \<times> gnode) set" where
  "edges ts = (\<lambda>t. (from_node t, to_node t)) ` set ts"

lemma gview_edges: "gview (concat (map edge_entries ts)) = ((edges ts)\<inverse>, edges ts)"
  by (auto simp: gview_def pred_pairs_def succ_pairs_def edges_def edge_entries_def)

lemma compute_graph_clean:
  assumes "\<forall>t\<in>set ts. clean_transaction k t"
  shows "clean_graph k (compute_graph ts)" "gview (compute_graph ts) = ((edges ts)\<inverse>, edges ts)"
proof -
  have "\<forall>e\<in>set (concat (map edge_entries ts)). clean_entry k e"
    using assms by (auto simp: edge_entries_def clean_transaction_def clean_entry_def)
  from graph_merges_clean [OF clean_graph_Nil this]
  show "clean_graph k (compute_graph ts)" "gview (compute_graph ts) = ((edges ts)\<inverse>, edges ts)"
    by (simp_all add: compute_graph_merges gview_edges)
qed

section \<open>Splitting a graph\<close>

lemma clean_fresh_key:
  assumes "clean_graph k (g @ [(n, e)])" "fst ` set d \<subseteq> fst ` set g"
  shows "node_key n \<notin> set (map (node_key \<circ> fst) d)" "n \<notin> set (map fst d)"
proof -
  have sub: "fst ` set g \<subseteq> {n. clean_node k n}" "n \<in> {n. clean_node k n}" "n \<notin> fst ` set g"
    using clean_graphD(1,2) [OF assms(1)] by auto
  with assms(2) show "n \<notin> set (map fst d)" by auto
  show "node_key n \<notin> set (map (node_key \<circ> fst) d)"
  proof
    assume "node_key n \<in> set (map (node_key \<circ> fst) d)"
    then obtain x where "x \<in> fst ` set d" "node_key n = node_key x" by auto
    then have "x \<in> fst ` set g" "clean_node k x" using assms(2) sub(1) by blast+
    with sub(2,3) inj_onD [OF clean_inj [of k], of n x] \<open>node_key n = node_key x\<close> show False by auto
  qed
qed

lemma clean_graph_prefix: "clean_graph k (g @ g') \<Longrightarrow> clean_graph k g"
  by (simp add: clean_graph_def)

lemma shard_part_keys:
  assumes "wf_dict g"
  shows "fst ` set (dict_get (shard_dict f g) i []) \<subseteq> fst ` set g"
proof
  fix x assume "x \<in> fst ` set (dict_get (shard_dict f g) i [])"
  then have "map_of (dict_get (shard_dict f g) i []) x \<noteq> None" by (simp add: map_of_eq_None_iff)
  then have "map_of g x \<noteq> None" using shard_dict_lookup [OF assms, of f i x] by (auto split: if_splits)
  then show "x \<in> fst ` set g" by (simp add: map_of_eq_None_iff)
qed

lemma shard_graph_snoc:
  "shard_graph h m (g @ [(n, p, s)]) =
     (let i = h_str h (node_key n) mod m; sg = dict_get (shard_graph h m g) i []
      in dict_set i (if node_key n \<in> set (map (node_key \<circ> fst) sg) then graph_merge sg (n, p, s) else sg @ [(n, p, s)])
           (shard_graph h m g))"
  unfolding shard_graph_def by simp

lemma shard_graph_dict:
  "clean_graph k g \<Longrightarrow> shard_graph h m g = shard_dict (\<lambda>n. h_str h (node_key n) mod m) g"
proof (induction g rule: rev_induct)
  case Nil
  then show ?case by (simp add: shard_graph_def shard_dict_def)
next
  case (snoc x g)
  obtain n e where x: "x = (n, e)" by (cases x)
  let ?f = "\<lambda>n. h_str h (node_key n) mod m"
  have IH: "shard_graph h m g = shard_dict ?f g" using snoc clean_graph_prefix by blast
  have "wf_dict g" using clean_graphD(1) [OF snoc.prems] by (simp add: wf_dict_def)
  note sub = shard_part_keys [OF this, of ?f "?f n"]
  note F = clean_fresh_key [OF snoc.prems [unfolded x] sub]
  have "shard_graph h m (g @ [x]) = dict_set (?f n) (dict_get (shard_graph h m g) (?f n) [] @ [(n, e)]) (shard_graph h m g)"
    using F(1) by (cases e) (simp only: x shard_graph_snoc Let_def IH if_False)
  moreover have "dict_set n e (dict_get (shard_dict ?f g) (?f n) []) = dict_get (shard_dict ?f g) (?f n) [] @ [(n, e)]"
    using F(2) by (intro dict_set_fresh)
  ultimately show ?case by (simp add: x shard_dict_snoc IH)
qed

lemma split_affinity_dict:
  "clean_graph k g \<Longrightarrow> split_affinity h m g = map (\<lambda>(aff, g). (g, aff)) (shard_dict (\<lambda>n. h_str h (node_key n) mod m) g)"
proof -
  let ?f = "\<lambda>n. h_str h (node_key n) mod m"
  let ?step = "\<lambda>aff (n, e). dict_set (?f n) (keyed_put node_key n e (dict_get aff (?f n) [])) aff"
  have "clean_graph k g \<Longrightarrow> foldl ?step [] g = shard_dict ?f g"
  proof (induction g rule: rev_induct)
    case Nil
    then show ?case by (simp add: shard_dict_def)
  next
    case (snoc x g)
    obtain n e where x: "x = (n, e)" by (cases x)
    have IH: "foldl ?step [] g = shard_dict ?f g" using snoc clean_graph_prefix by blast
    have "wf_dict g" using clean_graphD(1) [OF snoc.prems] by (simp add: wf_dict_def)
    note sub = shard_part_keys [OF this, of ?f "?f n"]
    note F = clean_fresh_key [OF snoc.prems [unfolded x] sub]
    show ?case using keyed_put_fresh [OF F(1)] dict_set_fresh [OF F(2)] by (simp add: x IH shard_dict_snoc)
  qed
  then show "clean_graph k g \<Longrightarrow> ?thesis" by (simp add: split_affinity_def)
qed

lemma shard_dict_union:
  assumes "wf_dict g"
  shows "set (concat (map snd (shard_dict f g))) = set g"
proof
  show "set (concat (map snd (shard_dict f g))) \<subseteq> set g"
  proof
    fix e assume "e \<in> set (concat (map snd (shard_dict f g)))"
    then obtain i p where "(i, p) \<in> set (shard_dict f g)" "e \<in> set p" by auto
    then show "e \<in> set g" using shard_dict_sound [OF assms] by (cases e) blast
  qed
  show "set g \<subseteq> set (concat (map snd (shard_dict f g)))"
  proof
    fix e assume "e \<in> set g"
    then obtain p where "(f (fst e), p) \<in> set (shard_dict f g)" "e \<in> set p"
      using shard_dict_complete [OF assms, of "fst e" "snd e" f] by auto
    then show "e \<in> set (concat (map snd (shard_dict f g)))" by force
  qed
qed

lemma shard_dict_distinct:
  assumes "wf_dict g"
  shows "distinct (map fst (concat (map snd (shard_dict f g))))"
proof (rule distinct_tagged [where f = f])
  show "distinct (map fst (shard_dict f g))" using wf_shard_dict [of f g] by (simp add: wf_dict_def)
  show "\<forall>(i, p)\<in>set (shard_dict f g). distinct (map fst p) \<and> (\<forall>x\<in>set p. f (fst x) = i)"
  proof clarify
    fix i p assume p: "(i, p) \<in> set (shard_dict f g)"
    have "distinct (map fst p)" using wf_shard_part [of f g i] shard_dict_parts [OF p] by (simp add: wf_dict_def)
    moreover have "\<forall>x\<in>set p. f (fst x) = i" using shard_dict_sound [OF assms p] by auto
    ultimately show "distinct (map fst p) \<and> (\<forall>x\<in>set p. f (fst x) = i)" by blast
  qed
qed

lemma split_affinity_clean:
  assumes "clean_graph k g"
  shows "clean_graph k (concat (map fst (split_affinity h m g)))"
    and "set (concat (map fst (split_affinity h m g))) = set g"
proof -
  let ?f = "\<lambda>n. h_str h (node_key n) mod m"
  let ?d = "shard_dict ?f g"
  have wf: "wf_dict g" using clean_graphD(1) [OF assms] by (simp add: wf_dict_def)
  have e: "concat (map fst (split_affinity h m g)) = concat (map snd ?d)"
    by (simp add: split_affinity_dict [OF assms] comp_def split_def)
  show s: "set (concat (map fst (split_affinity h m g))) = set g" unfolding e by (rule shard_dict_union [OF wf])
  note shard_dict_distinct [OF wf, of ?f]
  with assms s show "clean_graph k (concat (map fst (split_affinity h m g)))" unfolding clean_graph_def e [symmetric] by blast
qed

section \<open>The result\<close>

lemma graph_merges_keys:
  assumes "clean_graph k g" "\<forall>e\<in>set es. clean_entry k e"
  shows "fst ` set (foldl graph_merge g es) = fst ` set g \<union> fst ` set es"
  using assms
proof (induction es arbitrary: g)
  case (Cons e es)
  obtain n p s where e: "e = (n, p, s)" by (cases e)
  have n: "n \<in> {n. clean_node k n}" using Cons.prems(2) by (simp add: e clean_entry_def)
  have "fst ` set (graph_merge g e) = insert n (fst ` set g)"
    using keyed_mod_keys [OF clean_inj n clean_graphD(2) [OF Cons.prems(1)]] by (simp add: graph_merge_def e)
  moreover have "clean_graph k (graph_merge g e)" using graph_merge_clean [OF Cons.prems(1)] Cons.prems(2) by simp
  ultimately show ?case using Cons.IH Cons.prems(2) by (simp add: e)
qed simp

lemma graph_groups:
  assumes "gl.holds h k sp c xs"
    and "R = concat (map (\<lambda>es. split_affinity h m (foldl graph_merge [] es)) (map (\<lambda>sh. filter (\<lambda>i. graph_shard h i = sh) xs) (shards_of sp c)))"
  shows "clean_graph k (concat (map fst R))" "gview (concat (map fst R)) = gview xs"
proof -
  let ?es = "\<lambda>sh. filter (\<lambda>i. graph_shard h i = sh) xs"
  let ?g = "\<lambda>sh. foldl graph_merge [] (?es sh)"
  let ?c = "\<lambda>sh. concat (map fst (split_affinity h m (?g sh)))"
  have good: "\<forall>e\<in>set xs. clean_entry k e" using assms(1) by (simp add: gl.holds_def)
  then have ge: "\<forall>e\<in>set (?es sh). clean_entry k e" for sh by simp
  have m: "clean_graph k (?g sh)" "gview (?g sh) = gview (?es sh)" "fst ` set (?g sh) = fst ` set (?es sh)" for sh
    using graph_merges_clean [OF clean_graph_Nil ge, of sh] graph_merges_keys [OF clean_graph_Nil ge, of sh] by simp_all
  note C = split_affinity_clean [OF m(1), of h m]
  have R: "concat (map fst R) = concat (map snd (map (\<lambda>sh. (sh, ?c sh)) (shards_of sp c)))"
  proof -
    have "concat (map fst (concat (map f ys))) = concat (map (\<lambda>y. concat (map fst (f y))) ys)"
      for f :: "int \<Rightarrow> (graph \<times> int) list" and ys by (induction ys) auto
    then show ?thesis unfolding assms(2) by (simp add: comp_def)
  qed
  have "distinct (map fst (concat (map snd (map (\<lambda>sh. (sh, ?c sh)) (shards_of sp c)))))"
  proof (rule distinct_tagged [where f = "\<lambda>n. h_str h (node_str n) mod 500"])
    show "distinct (map fst (map (\<lambda>sh. (sh, ?c sh)) (shards_of sp c)))" by (simp add: comp_def)
    have "fst ` set (?c sh) = fst ` set (?es sh)" for sh using C(2) [of sh] m(3) [of sh] by simp
    then have "h_str h (node_str (fst x)) mod 500 = sh" if "x \<in> set (?c sh)" for x sh
      using that by (fastforce simp: graph_shard_def)
    moreover have "distinct (map fst (?c sh))" for sh using C(1) by (rule clean_graphD(1))
    ultimately show "\<forall>(i, p)\<in>set (map (\<lambda>sh. (sh, ?c sh)) (shards_of sp c)).
        distinct (map fst p) \<and> (\<forall>x\<in>set p. h_str h (node_str (fst x)) mod 500 = i)" by auto
  qed
  moreover have "\<forall>e\<in>set (concat (map fst R)). clean_entry k e" using C(1) by (auto simp: R clean_graph_def)
  ultimately show "clean_graph k (concat (map fst R))" unfolding clean_graph_def R by blast
  have cv: "gview (concat (map f shs)) = gview (concat (map f' shs))" if "\<And>sh. gview (f sh) = gview (f' sh)" for f f' :: "int \<Rightarrow> graph" and shs
    using that by (induction shs) (simp_all add: gview_append)
  have "gview (?c sh) = gview (?es sh)" for sh using gview_mset [OF C(2)] m(2) by simp
  then have "gview (concat (map fst R)) = gview (concat (map ?es (shards_of sp c)))" using cv [of ?c ?es] by (simp add: R comp_def)
  also have "\<dots> = gview xs"
    by (rule gview_mset) (use gl.holds_shards [OF assms(1)] in auto)
  finally show "gview (concat (map fst R)) = gview xs" .
qed

lemma graph_result_view:
  assumes "graph_inv h k st"
  shows "\<exists>R st'. graph_result h st c = (Inr R, st') \<and> clean_graph k (concat (map fst R)) \<and>
    gview (concat (map fst R)) = graph_view st c"
proof -
  define st1 where "st1 = (if dict_in c (ga_mem st) then graph_spill_to_disk h st c else st)"
  have i1: "graph_inv h k st1" "graph_view st1 c = graph_view st c"
    using graph_spill_inv [OF assms] assms by (auto simp: st1_def)
  then obtain xs where xs: "gl.holds h k (ga_spill st1) c xs" by (auto simp: graph_inv_def)
  have mem: "dict_get (ga_mem st1) c [] = []"
    by (auto simp: st1_def graph_spill_to_disk_def dict_get_default)
  from gl.read_all [OF xs] obtain s1
    where r: "read_shards graph_of_line (ga_spill st1) c (shards_of (ga_spill st1) c) =
      (Inr (map (\<lambda>sh. filter (\<lambda>i. graph_shard h i = sh) xs) (shards_of (ga_spill st1) c)), s1)" by auto
  from graph_groups [OF xs refl, of 100] r show ?thesis
    using disk_view_holds [OF xs] i1(2) mem by (simp add: graph_result_def st1_def [symmetric] graph_view_def Let_def)
qed

section \<open>Properties\<close>

lemma fold_views: "foldl (\<lambda>v g. view_union v (gview g)) v ds = view_union v (gview (concat ds))"
  by (induction ds arbitrary: v) (simp_all add: gview_append view_union_assoc)

lemma group_uc4_entries:
  assumes "\<forall>t\<in>set ts. clean_transaction k t"
  shows "(\<exists>g aff. (g, aff) \<in> set (group_uc4_graph h ts) \<and> aff mod N = i \<and> (n, e) \<in> set g) \<longleftrightarrow>
    (n, e) \<in> set (compute_graph ts) \<and> h_str h (node_key n) mod 50 mod N = i"
proof -
  note C = compute_graph_clean(1) [OF assms]
  have wf: "wf_dict (compute_graph ts)" using clean_graphD(1) [OF C] by (simp add: wf_dict_def)
  have g: "(g, aff) \<in> set (group_uc4_graph h ts) \<longleftrightarrow>
      (aff, g) \<in> set (shard_dict (\<lambda>n. h_str h (node_key n) mod 50) (compute_graph ts))" for g aff
    by (auto simp: group_uc4_graph_def shard_graph_dict [OF C])
  show ?thesis unfolding g using shard_dict_sound [OF wf] shard_dict_complete [OF wf] by fast
qed

text \<open>The part of a relation whose first components a shard owns.\<close>

definition owned :: "pyhash \<Rightarrow> int \<Rightarrow> int \<Rightarrow> gnode \<Rightarrow> bool" where
  "owned h N i n \<longleftrightarrow> h_str h (node_key n) mod 50 mod N = i"

lemma routed_graphs_view:
  assumes "\<forall>t\<in>set (concat batches). clean_transaction k t"
  shows "gview (concat (routed (group_uc4_graph h) N i batches)) =
    ({(n, a). owned h N i n \<and> (a, n) \<in> edges (concat batches)}, {(n, b). owned h N i n \<and> (n, b) \<in> edges (concat batches)})"
proof -
  have mem: "(n, e) \<in> set (concat (routed (group_uc4_graph h) N i batches)) \<longleftrightarrow>
      (\<exists>ts\<in>set batches. (n, e) \<in> set (compute_graph ts) \<and> owned h N i n)" for n e
  proof -
    have "(n, e) \<in> set (concat (routed (group_uc4_graph h) N i batches)) \<longleftrightarrow>
        (\<exists>ts\<in>set batches. \<exists>g aff. (g, aff) \<in> set (group_uc4_graph h ts) \<and> aff mod N = i \<and> (n, e) \<in> set g)"
      unfolding set_concat UN_iff Bex_def set_routed by blast
    also have "\<dots> \<longleftrightarrow> (\<exists>ts\<in>set batches. (n, e) \<in> set (compute_graph ts) \<and> owned h N i n)"
      using group_uc4_entries [of _ k h N i n e] assms unfolding owned_def by (intro bex_cong) auto
    finally show ?thesis .
  qed
  have cg: "pred_pairs (compute_graph ts) = (edges ts)\<inverse>" "succ_pairs (compute_graph ts) = edges ts" if "ts \<in> set batches" for ts
    using compute_graph_clean(2) [of ts k] assms that by (auto simp: gview_def)
  have ed: "edges (concat batches) = (\<Union>ts\<in>set batches. edges ts)" by (auto simp: edges_def)
  have "(n, a) \<in> pred_pairs (concat (routed (group_uc4_graph h) N i batches)) \<longleftrightarrow> owned h N i n \<and> (a, n) \<in> edges (concat batches)" for n a
    using cg(1) unfolding pair_iff mem ed by (fastforce simp: set_eq_iff pair_iff)
  moreover have "(n, b) \<in> succ_pairs (concat (routed (group_uc4_graph h) N i batches)) \<longleftrightarrow> owned h N i n \<and> (n, b) \<in> edges (concat batches)" for n b
    using cg(2) unfolding pair_iff mem ed by (fastforce simp: set_eq_iff pair_iff)
  ultimately show ?thesis by (auto simp: gview_def)
qed

text \<open>What a graph worker answers.\<close>

lemma graph_worker:
  assumes "mset (map snd (filter (\<lambda>x. fst x = cid) ins)) = mset (routed (group_uc4_graph h) N i batches)"
    and "\<forall>x\<in>set ins. clean_graph k (snd x)" "\<forall>t\<in>set (concat batches). clean_transaction k t"
  shows "\<exists>R st'. graph_result h (foldl (\<lambda>st (c, g). graph_aggregate h threshold st c g) new_graph_agg ins) cid = (Inr R, st') \<and>
    clean_graph k (concat (map fst R)) \<and>
    gview (concat (map fst R)) = ({(n, a). owned h N i n \<and> (a, n) \<in> edges (concat batches)},
      {(n, b). owned h N i n \<and> (n, b) \<in> edges (concat batches)})"
proof -
  let ?st = "foldl (\<lambda>st (c, g). graph_aggregate h threshold st c g) new_graph_agg ins"
  let ?ds = "map snd (filter (\<lambda>x. fst x = cid) ins)"
  have inv: "graph_inv h k ?st" using assms(2) by (intro graphs.inv_run graphs.inv_init) blast
  have "graph_view ?st cid = gview (concat ?ds)"
    using graphs.view_run_init [of ins k h threshold cid] assms(2) by (simp add: fold_views)
  also have "\<dots> = gview (concat (routed (group_uc4_graph h) N i batches))"
    by (rule gview_mset) (use mset_eq_setD [OF assms(1)] in \<open>simp only: set_concat\<close>)
  also note routed_graphs_view [OF assms(3)]
  finally have v: "graph_view ?st cid = ({(n, a). owned h N i n \<and> (a, n) \<in> edges (concat batches)},
      {(n, b). owned h N i n \<and> (n, b) \<in> edges (concat batches)})" .
  with graph_result_view [OF inv, of cid] show ?thesis by metis
qed

text \<open>
  C21.  UC4's aggregate delivers the complete graph of the payments.  From any split of a client's
  payments into batches, any order of delivery of the graphs routed to a shard, any interleaving
  with other clients and any spill threshold, its result has every node at most once, and the
  predecessors and successors it gives are exactly the payments into and out of the nodes the shard
  owns, none lost and none repeated by the spilling.
\<close>

theorem uc4_graph_complete:
  assumes "mset (map snd (filter (\<lambda>x. fst x = cid) ins)) = mset (routed (group_uc4_graph h) N i batches)"
    and "\<forall>x\<in>set ins. clean_graph k (snd x)" "\<forall>t\<in>set (concat batches). clean_transaction k t"
  shows "\<exists>R st'. graph_result h (foldl (\<lambda>st (c, g). graph_aggregate h threshold st c g) new_graph_agg ins) cid = (Inr R, st') \<and>
    distinct (map fst (concat (map fst R))) \<and>
    pred_pairs (concat (map fst R)) = {(n, a). owned h N i n \<and> (a, n) \<in> edges (concat batches)} \<and>
    succ_pairs (concat (map fst R)) = {(n, b). owned h N i n \<and> (n, b) \<in> edges (concat batches)}"
  using graph_worker [OF assms, of threshold] by (auto simp: gview_def clean_graph_def)

definition demo_payment :: "string \<Rightarrow> string \<Rightarrow> transaction" where
  "demo_payment a b = (demo_transaction 1 1)\<lparr>t_from_account := a, t_to_account := b, t_to_bank := ''1''\<rparr>"

theorem uc4_graph_complete_witness:
  "\<exists>R st'. graph_result demo_hash (foldl (\<lambda>st (c, g). graph_aggregate demo_hash 1 st c g) new_graph_agg
      [(7, compute_graph [demo_payment ''A'' ''B'']), (7, compute_graph [demo_payment ''B'' ''C'', demo_payment ''A'' ''B''])]) 7 = (Inr R, st') \<and>
    distinct (map fst (concat (map fst R))) \<and>
    pred_pairs (concat (map fst R)) =
      {(n, a). owned demo_hash 2 0 n \<and> (a, n) \<in> edges (concat [[demo_payment ''A'' ''B''], [demo_payment ''B'' ''C'', demo_payment ''A'' ''B'']])} \<and>
    succ_pairs (concat (map fst R)) =
      {(n, b). owned demo_hash 2 0 n \<and> (n, b) \<in> edges (concat [[demo_payment ''A'' ''B''], [demo_payment ''B'' ''C'', demo_payment ''A'' ''B'']])}"
proof (rule uc4_graph_complete [where k = 1])
  have c: "clean_transaction 1 (demo_payment [x] [y])" if "x \<noteq> CHR '',''" "y \<noteq> CHR '',''" for x y
    using that by (simp add: clean_transaction_def clean_node_def from_node_def to_node_def demo_payment_def demo_transaction_def)
  then show t: "\<forall>t\<in>set (concat [[demo_payment ''A'' ''B''], [demo_payment ''B'' ''C'', demo_payment ''A'' ''B'']]). clean_transaction 1 t"
    by simp
  from c show "\<forall>x\<in>set [(7 :: uuid, compute_graph [demo_payment ''A'' ''B'']), (7, compute_graph [demo_payment ''B'' ''C'', demo_payment ''A'' ''B''])].
      clean_graph 1 (snd x)"
    using compute_graph_clean(1) [of _ 1] by simp
  have "routed (group_uc4_graph demo_hash) 2 0 [[demo_payment ''A'' ''B''], [demo_payment ''B'' ''C'', demo_payment ''A'' ''B'']] =
      [compute_graph [demo_payment ''A'' ''B''], compute_graph [demo_payment ''B'' ''C'', demo_payment ''A'' ''B'']]"
    by code_simp
  then show "mset (map snd (filter (\<lambda>x. fst x = 7) [(7 :: uuid, compute_graph [demo_payment ''A'' ''B'']),
      (7, compute_graph [demo_payment ''B'' ''C'', demo_payment ''A'' ''B''])])) =
    mset (routed (group_uc4_graph demo_hash) 2 0 [[demo_payment ''A'' ''B''], [demo_payment ''B'' ''C'', demo_payment ''A'' ''B'']])"
    by simp
qed

end
