(* ===== verification/Degree.thy ===== *)
theory Degree
  imports Graphs
begin

text \<open>
  UC4's degree filter (\<open>aggregate_fns/uc4_degree.py\<close>): per node the distinct neighbours, counted up
  to five and forgotten beyond, spilled and merged again under the same cap.  What survives the
  cap is whether a node has five distinct neighbours, and with fewer, which ones: the view keeps
  exactly that, and the aggregate interprets \<open>client_aggregate\<close> with it.
\<close>

definition min_degree :: nat where
  "min_degree = 5"

section \<open>The aggregate\<close>

text \<open>\<open>_capped_update\<close>: neighbours are added until the bucket is full.\<close>

fun capped_add :: "string list \<Rightarrow> string list \<Rightarrow> string list" where
  "capped_add bucket [] = bucket"
| "capped_add bucket (x # xs) =
     (if min_degree \<le> length bucket then bucket
      else capped_add (if x \<in> set bucket then bucket else bucket @ [x]) xs)"

definition capped_update :: "(string, string list) dict \<Rightarrow> string \<Rightarrow> string list \<Rightarrow> (string, string list) dict" where
  "capped_update store node neighbors = dict_set node (capped_add (dict_get store node []) neighbors) store"

record degree_agg =
  dg_out :: "(string, string list) dict per_client"
  dg_in :: "(string, string list) dict per_client"
  dg_spill :: "(uuid \<times> int) spill"

definition new_degree_agg :: degree_agg where
  "new_degree_agg = \<lparr>dg_out = [], dg_in = [], dg_spill = new_spill []\<rparr>"

type_synonym degree_item = "string \<times> string list \<times> string list"

definition degree_line :: "degree_item \<Rightarrow> string" where
  "degree_line i =
     (case i of (n, out, inn) \<Rightarrow> json_dumps (\<lambda>_. []) (JList [JStr n, JList (map JStr out), JList (map JStr inn)]))"

definition json_str_set :: "json \<Rightarrow> string list result" where
  "json_str_set v = (case v of JList vs \<Rightarrow> bind_result (map_result json_str vs) (\<lambda>ss. Inr (remdups ss)) | _ \<Rightarrow> Inl TypeError)"

definition degree_of_line :: "string \<Rightarrow> degree_item result" where
  "degree_of_line line =
     bind_result (json_loads line) (\<lambda>v.
       case v of
         JList (a # b # c # _) \<Rightarrow>
           bind_result (json_str a) (\<lambda>n. bind_result (json_str_set b) (\<lambda>out. bind_result (json_str_set c) (\<lambda>inn. Inr (n, out, inn))))
       | JList _ \<Rightarrow> Inl IndexError
       | _ \<Rightarrow> Inl TypeError)"

definition degree_shard :: "pyhash \<Rightarrow> degree_item \<Rightarrow> int" where
  "degree_shard h i = h_str h (fst i) mod 500"

text \<open>The items of a client in memory, over the keys of both dicts.\<close>

definition degree_items :: "(string, string list) dict \<Rightarrow> (string, string list) dict \<Rightarrow> degree_item list" where
  "degree_items out inn = map (\<lambda>n. (n, dict_get out n [], dict_get inn n [])) (remdups (map fst out @ map fst inn))"

definition degree_spill_to_disk :: "pyhash \<Rightarrow> degree_agg \<Rightarrow> uuid \<Rightarrow> degree_agg" where
  "degree_spill_to_disk h st cid =
     \<lparr>dg_out = dict_pop cid (dg_out st), dg_in = dict_pop cid (dg_in st),
      dg_spill = append_each (degree_shard h) degree_line (dg_spill st) cid
        (degree_items (dict_get (dg_out st) cid []) (dict_get (dg_in st) cid []))\<rparr>"

definition strs :: "gnode list \<Rightarrow> string list" where
  "strs ns = remdups (map node_str ns)"

definition degree_aggregate :: "pyhash \<Rightarrow> nat \<Rightarrow> degree_agg \<Rightarrow> uuid \<Rightarrow> graph \<Rightarrow> degree_agg" where
  "degree_aggregate h threshold st cid g =
     (let out = foldl (\<lambda>d (n, p, s). capped_update d (node_str n) (strs s)) (dict_get (dg_out st) cid []) g;
          inn = foldl (\<lambda>d (n, p, s). capped_update d (node_str n) (strs p)) (dict_get (dg_in st) cid []) g;
          st1 = st\<lparr>dg_out := dict_set cid out (dg_out st), dg_in := dict_set cid inn (dg_in st)\<rparr>
      in if threshold \<le> length out then degree_spill_to_disk h st1 cid else st1)"

definition degree_discard :: "degree_agg \<Rightarrow> uuid \<Rightarrow> degree_agg" where
  "degree_discard st cid =
     \<lparr>dg_out = dict_pop cid (dg_out st), dg_in = dict_pop cid (dg_in st), dg_spill = clear_client (dg_spill st) cid\<rparr>"

definition full_nodes :: "(string, string list) dict \<Rightarrow> gnode list result" where
  "full_nodes d =
     bind_result (map_result (\<lambda>(n, s). node_from_str n) (filter (\<lambda>(n, s). min_degree \<le> length s) d))
       (\<lambda>ns. Inr (keyed_set node_key ns))"

text \<open>\<open>get_result\<close>: one \<open>HighDegree\<close> message with the nodes of full buckets, affinity 0.\<close>

definition degree_result :: "pyhash \<Rightarrow> degree_agg \<Rightarrow> uuid \<Rightarrow> ((gnode list \<times> gnode list) \<times> int) list result \<times> degree_agg" where
  "degree_result h st cid =
     (let st1 = (if dict_in cid (dg_out st) then degree_spill_to_disk h st cid else st)
      in case read_shards degree_of_line (dg_spill st1) cid (shards_of (dg_spill st1) cid) of
           (r, sp) \<Rightarrow>
             (bind_result r (\<lambda>groups.
                let items = concat groups;
                    out = foldl (\<lambda>d (n, o1, i). capped_update d n o1) [] items;
                    inn = foldl (\<lambda>d (n, o1, i). capped_update d n i) [] items
                in bind_result (full_nodes out) (\<lambda>hi_out. bind_result (full_nodes inn) (\<lambda>hi_in. Inr [((hi_out, hi_in), 0)]))),
              st1\<lparr>dg_spill := sp\<rparr>))"

definition degree_snapshot :: "pyhash \<Rightarrow> degree_agg \<Rightarrow> ((uuid \<times> int) \<times> nat) list \<times> degree_agg" where
  "degree_snapshot h st =
     (let st1 = foldl (degree_spill_to_disk h) st (map fst (dg_out st))
      in case snapshot_spill (dg_spill st1) of (snap, sp) \<Rightarrow> (snap, st1\<lparr>dg_spill := sp\<rparr>))"

definition degree_restore :: "((uuid \<times> int) \<times> nat) list \<Rightarrow> degree_agg \<Rightarrow> degree_agg" where
  "degree_restore snap st = \<lparr>dg_out = [], dg_in = [], dg_spill = restore_multi snap (dg_spill st)\<rparr>"

section \<open>Capped sets\<close>

definition cap :: "string set \<Rightarrow> string set option" where
  "cap S = (if min_degree \<le> card S then None else Some S)"

definition cap_union :: "string set option \<Rightarrow> string set option \<Rightarrow> string set option" where
  "cap_union a b = (case (a, b) of (Some A, Some B) \<Rightarrow> cap (A \<union> B) | _ \<Rightarrow> None)"

lemma cap_Un: "finite A \<Longrightarrow> finite B \<Longrightarrow> cap (A \<union> B) = cap_union (cap A) (cap B)"
  using card_mono [of "A \<union> B" A] card_mono [of "A \<union> B" B] by (auto simp: cap_def cap_union_def)

lemma capped_add_distinct: "distinct b \<Longrightarrow> distinct (capped_add b xs)"
  by (induction b xs rule: capped_add.induct) auto

lemma capped_add_cap: "distinct b \<Longrightarrow> cap (set (capped_add b xs)) = cap (set b \<union> set xs)"
proof (induction b xs rule: capped_add.induct)
  case (2 bucket x xs)
  show ?case
  proof (cases "min_degree \<le> length bucket")
    case True
    then have "min_degree \<le> card (set bucket)" using 2(2) by (simp add: distinct_card)
    moreover have "card (set bucket) \<le> card (set bucket \<union> set (x # xs))" by (intro card_mono) auto
    ultimately show ?thesis using True by (simp add: cap_def)
  next
    case False
    let ?b = "if x \<in> set bucket then bucket else bucket @ [x]"
    have "cap (set (capped_add ?b xs)) = cap (set ?b \<union> set xs)" using 2 False by (intro 2(1)) auto
    moreover have "set ?b \<union> set xs = set bucket \<union> set (x # xs)" by auto
    ultimately show ?thesis using False by simp
  qed
qed simp

lemma cap_full: "distinct b \<Longrightarrow> min_degree \<le> length b \<longleftrightarrow> cap (set b) = None"
  by (simp add: cap_def distinct_card)

text \<open>The neighbours of a node over a list of items.\<close>

definition nbrs :: "('a \<Rightarrow> string) \<Rightarrow> ('a \<Rightarrow> string list) \<Rightarrow> 'a list \<Rightarrow> string \<Rightarrow> string set" where
  "nbrs node f xs n = (\<Union>x\<in>set (filter (\<lambda>x. node x = n) xs). set (f x))"

lemma nbrs_Cons: "nbrs node f (x # xs) n = (if node x = n then set (f x) else {}) \<union> nbrs node f xs n"
  by (auto simp: nbrs_def)

lemma nbrs_append: "nbrs node f (xs @ ys) n = nbrs node f xs n \<union> nbrs node f ys n"
  by (auto simp: nbrs_def)

lemma finite_nbrs [simp]: "finite (nbrs node f xs n)"
  by (simp add: nbrs_def)

definition buckets_ok :: "(string, string list) dict \<Rightarrow> bool" where
  "buckets_ok d \<longleftrightarrow> wf_dict d \<and> (\<forall>n. distinct (dict_get d n []))"

lemma buckets_ok_Nil [simp]: "buckets_ok []"
  by (simp add: buckets_ok_def)

lemma capped_fold:
  "buckets_ok d \<Longrightarrow> buckets_ok (foldl (\<lambda>d x. capped_update d (node x) (f x)) d xs) \<and>
   cap (set (dict_get (foldl (\<lambda>d x. capped_update d (node x) (f x)) d xs) n [])) = cap (set (dict_get d n []) \<union> nbrs node f xs n)"
proof (induction xs arbitrary: d)
  case Nil
  then show ?case by (simp add: nbrs_def)
next
  case (Cons x xs)
  let ?d = "capped_update d (node x) (f x)"
  have ok: "buckets_ok ?d" using Cons.prems by (auto simp: buckets_ok_def capped_update_def capped_add_distinct)
  have d: "distinct (dict_get d n [])" for n using Cons.prems by (simp add: buckets_ok_def)
  have "cap (set (dict_get ?d n [])) = cap (set (dict_get d n []) \<union> (if node x = n then set (f x) else {}))"
    using capped_add_cap [OF d] by (auto simp: capped_update_def)
  then have "cap (set (dict_get ?d n []) \<union> nbrs node f xs n) = cap (set (dict_get d n []) \<union> nbrs node f (x # xs) n)"
    unfolding nbrs_Cons Un_assoc [symmetric] by (simp add: cap_Un)
  with Cons.IH [OF ok] show ?case by simp
qed

section \<open>Spilled items\<close>

definition good_item :: "degree_item \<Rightarrow> bool" where
  "good_item i \<longleftrightarrow> distinct (fst (snd i)) \<and> distinct (snd (snd i))"

lemma json_str_set_distinct: "distinct ss \<Longrightarrow> json_str_set (JList (map JStr ss)) = Inr ss"
  using map_result_id [of ss json_str JStr] by (simp add: json_str_set_def json_str_def)

lemma degree_line_roundtrip: "good_item i \<Longrightarrow> degree_of_line (degree_line i @ newline) = Inr i"
proof -
  assume g: "good_item i"
  obtain n ot inn where i: "i = (n, ot, inn)" by (cases i)
  have "json_loads (degree_line i @ newline) = Inr (JList [JStr n, JList (map JStr ot), JList (map JStr inn)])"
    unfolding degree_line_def i by (simp only: prod.case, rule json_roundtrip_line) simp
  with g show ?thesis by (simp add: degree_of_line_def i good_item_def json_str_set_distinct) (simp add: json_str_def)
qed

interpretation dl: item_codec degree_line degree_of_line "degree_shard h" good_item for h
proof
  show "good_item i \<Longrightarrow> degree_of_line (degree_line i @ newline) = Inr i" for i by (rule degree_line_roundtrip)
  show "CHR 0x0A \<notin> set (degree_line i)" for i
    unfolding degree_line_def by (cases i) (simp only: prod.case, rule json_dumps_one_line, simp)
qed

abbreviation out_of :: "degree_item \<Rightarrow> string list" where
  "out_of i \<equiv> fst (snd i)"

abbreviation in_of :: "degree_item \<Rightarrow> string list" where
  "in_of i \<equiv> snd (snd i)"

definition disk_nbrs :: "(degree_item \<Rightarrow> string list) \<Rightarrow> (uuid \<times> int) spill \<Rightarrow> uuid \<Rightarrow> string \<Rightarrow> string set" where
  "disk_nbrs f sp c n =
     {x. \<exists>i. (\<exists>sh l. l \<in> set (lines_of (content sp (c, sh))) \<and> degree_of_line l = Inr i) \<and> fst i = n \<and> x \<in> set (f i)}"

lemma disk_nbrs_holds: "dl.holds h sp c xs \<Longrightarrow> disk_nbrs f sp c n = nbrs fst f xs n"
proof -
  assume h: "dl.holds h sp c xs"
  have "x \<in> disk_nbrs f sp c n \<longleftrightarrow> (\<exists>i\<in>set xs. fst i = n \<and> x \<in> set (f i))" for x
    unfolding disk_nbrs_def mem_Collect_eq dl.holds_lines [OF h] by blast
  moreover have "x \<in> nbrs fst f xs n \<longleftrightarrow> (\<exists>i\<in>set xs. fst i = n \<and> x \<in> set (f i))" for x
    unfolding nbrs_def set_filter UN_iff mem_Collect_eq Bex_def by blast
  ultimately show ?thesis by blast
qed

lemma nbrs_items:
  "nbrs fst out_of (degree_items ot inn) n = set (dict_get ot n [])"
  "nbrs fst in_of (degree_items ot inn) n = set (dict_get inn n [])"
proof -
  have e: "n \<in> set (map fst ot @ map fst inn) \<or> dict_get ot n [] = [] \<and> dict_get inn n [] = []"
    using dict_get_default [of n ot "[]"] dict_get_default [of n inn "[]"] by (auto simp: dict_in_def)
  have "nbrs fst f (map (\<lambda>n. (n, g n)) ks) n = (if n \<in> set ks then set (f (n, g n)) else {})"
    for f :: "degree_item \<Rightarrow> string list" and g ks by (induction ks) (auto simp: nbrs_def)
  then show "nbrs fst out_of (degree_items ot inn) n = set (dict_get ot n [])"
    "nbrs fst in_of (degree_items ot inn) n = set (dict_get inn n [])"
    using e unfolding degree_items_def by (auto simp del: set_append set_map)
qed

section \<open>The aggregate meets its contract\<close>

type_synonym dview = "(string \<Rightarrow> string set option) \<times> (string \<Rightarrow> string set option)"

definition degree_view :: "degree_agg \<Rightarrow> uuid \<Rightarrow> dview" where
  "degree_view st c =
     ((\<lambda>n. cap (set (dict_get (dict_get (dg_out st) c []) n []) \<union> disk_nbrs out_of (dg_spill st) c n)),
      (\<lambda>n. cap (set (dict_get (dict_get (dg_in st) c []) n []) \<union> disk_nbrs in_of (dg_spill st) c n)))"

definition succ_nbrs :: "graph \<Rightarrow> string \<Rightarrow> string set" where
  "succ_nbrs g = nbrs (\<lambda>(n, p, s). node_str n) (\<lambda>(n, p, s). strs s) g"

definition pred_nbrs :: "graph \<Rightarrow> string \<Rightarrow> string set" where
  "pred_nbrs g = nbrs (\<lambda>(n, p, s). node_str n) (\<lambda>(n, p, s). strs p) g"

definition degree_step :: "dview \<Rightarrow> graph \<Rightarrow> dview" where
  "degree_step v g = ((\<lambda>n. cap_union (fst v n) (cap (succ_nbrs g n))), (\<lambda>n. cap_union (snd v n) (cap (pred_nbrs g n))))"

definition degree_inv :: "pyhash \<Rightarrow> degree_agg \<Rightarrow> bool" where
  "degree_inv h st \<longleftrightarrow>
     (\<forall>c. \<exists>xs. dl.holds h (dg_spill st) c xs) \<and>
     (\<forall>c. buckets_ok (dict_get (dg_out st) c []) \<and> buckets_ok (dict_get (dg_in st) c [])) \<and>
     (\<forall>c. dict_in c (dg_out st) \<longleftrightarrow> dict_in c (dg_in st))"

lemma degree_spill_inv:
  assumes "degree_inv h st"
  shows "degree_inv h (degree_spill_to_disk h st cid) \<and> degree_view (degree_spill_to_disk h st cid) c = degree_view st c"
proof -
  let ?o = "dict_get (dg_out st) cid []" and ?i = "dict_get (dg_in st) cid []"
  let ?sp = "append_each (degree_shard h) degree_line (dg_spill st) cid (degree_items ?o ?i)"
  from assms have ok: "\<And>c. buckets_ok (dict_get (dg_out st) c []) \<and> buckets_ok (dict_get (dg_in st) c [])"
    by (simp add: degree_inv_def)
  from assms obtain X where X: "\<And>c. dl.holds h (dg_spill st) c (X c)" unfolding degree_inv_def by metis
  have "good_item x" if "x \<in> set (degree_items ?o ?i)" for x
    using that ok [of cid] by (auto simp: degree_items_def good_item_def buckets_ok_def)
  then have new: "dl.holds h ?sp cid (X cid @ degree_items ?o ?i)" by (rule dl.holds_append_each(1) [OF X])
  have other: "dl.holds h ?sp c (X c)" if "c \<noteq> cid" for c by (rule dl.holds_append_each(2) [OF X that])
  have "\<exists>xs. dl.holds h ?sp c xs" for c using new other by (cases "c = cid") auto
  with ok assms have "degree_inv h (degree_spill_to_disk h st cid)"
    by (auto simp: degree_inv_def degree_spill_to_disk_def)
  moreover have "degree_view (degree_spill_to_disk h st cid) c = degree_view st c"
  proof (cases "c = cid")
    case True
    then show ?thesis
      by (simp add: degree_view_def degree_spill_to_disk_def disk_nbrs_holds [OF new] disk_nbrs_holds [OF X]
          nbrs_append nbrs_items Un_commute)
  next
    case False
    then show ?thesis
      by (simp add: degree_view_def degree_spill_to_disk_def disk_nbrs_holds [OF other [OF False]] disk_nbrs_holds [OF X])
  qed
  ultimately show ?thesis by blast
qed

lemma capped_graph_fold:
  assumes "buckets_ok d"
  shows "buckets_ok (foldl (\<lambda>d (n, p, s). capped_update d (node_str n) (f p s)) d g)"
    and "cap (set (dict_get (foldl (\<lambda>d (n, p, s). capped_update d (node_str n) (f p s)) d g) x [])) =
      cap (set (dict_get d x []) \<union> nbrs (\<lambda>(n, p, s). node_str n) (\<lambda>(n, p, s). f p s) g x)"
  using capped_fold [OF assms, of "\<lambda>(n, p, s). node_str n" "\<lambda>(n, p, s). f p s" g x] by (simp_all add: split_def)

lemma degree_mem_inv:
  assumes "degree_inv h st"
    and "ot = foldl (\<lambda>d (n, p, s). capped_update d (node_str n) (strs s)) (dict_get (dg_out st) cid []) g"
    and "inn = foldl (\<lambda>d (n, p, s). capped_update d (node_str n) (strs p)) (dict_get (dg_in st) cid []) g"
  shows "degree_inv h (st\<lparr>dg_out := dict_set cid ot (dg_out st), dg_in := dict_set cid inn (dg_in st)\<rparr>) \<and>
    degree_view (st\<lparr>dg_out := dict_set cid ot (dg_out st), dg_in := dict_set cid inn (dg_in st)\<rparr>) c =
      (if c = cid then degree_step (degree_view st c) g else degree_view st c)"
proof -
  have ok: "\<And>c. buckets_ok (dict_get (dg_out st) c [])" "\<And>c. buckets_ok (dict_get (dg_in st) c [])"
    using assms(1) by (simp_all add: degree_inv_def)
  note O = capped_graph_fold [OF ok(1) [of cid], of "\<lambda>p s. strs s" g, folded assms(2)]
  note I = capped_graph_fold [OF ok(2) [of cid], of "\<lambda>p s. strs p" g, folded assms(3)]
  from assms(1) obtain X where X: "\<And>c. dl.holds h (dg_spill st) c (X c)" unfolding degree_inv_def by metis
  have fin: "finite (disk_nbrs f (dg_spill st) c n)" for f n c by (simp add: disk_nbrs_holds [OF X])
  have "degree_view (st\<lparr>dg_out := dict_set cid ot (dg_out st), dg_in := dict_set cid inn (dg_in st)\<rparr>) cid =
      degree_step (degree_view st cid) g"
  proof -
    have "cap (A \<union> B) = cap_union (cap (C \<union> B)) (cap D)" if "cap A = cap (C \<union> D)" "finite A" "finite B" "finite C" "finite D"
      for A B C D
    proof -
      have "cap (A \<union> B) = cap ((C \<union> D) \<union> B)" using that by (simp add: cap_Un [of A B] cap_Un [of "C \<union> D" B])
      also have "\<dots> = cap ((C \<union> B) \<union> D)" by (simp add: Un_ac)
      finally show ?thesis using that by (simp add: cap_Un [of "C \<union> B" D])
    qed
    note R = this
    show ?thesis
      unfolding degree_view_def degree_step_def succ_nbrs_def pred_nbrs_def
      by (simp, intro conjI ext; rule R) (simp_all add: O I fin)
  qed
  moreover have "degree_inv h (st\<lparr>dg_out := dict_set cid ot (dg_out st), dg_in := dict_set cid inn (dg_in st)\<rparr>)"
    using assms(1) ok O(1) I(1) by (simp add: degree_inv_def)
  ultimately show ?thesis by (simp add: degree_view_def)
qed

interpretation degrees: client_aggregate new_degree_agg "degree_aggregate h threshold" degree_discard "degree_inv h"
    "\<lambda>_. True" degree_view "((\<lambda>_. Some {}), (\<lambda>_. Some {}))" degree_step for h threshold
proof
  have e: "dl.holds h (new_spill []) c []" for c
    by (simp add: dl.holds_def content_def new_spill_def)
  then show "degree_inv h new_degree_agg" by (auto simp: degree_inv_def new_degree_agg_def)
  show "degree_view new_degree_agg c = ((\<lambda>_. Some {}), (\<lambda>_. Some {}))" for c
    by (simp add: degree_view_def new_degree_agg_def disk_nbrs_holds [OF e] nbrs_def cap_def min_degree_def)
  show "degree_inv h st \<Longrightarrow> True \<Longrightarrow> degree_inv h (degree_aggregate h threshold st cid g)" for st g cid
    using degree_mem_inv [OF _ refl refl, of h st cid g] degree_spill_inv by (simp add: degree_aggregate_def Let_def)
  show "degree_inv h st \<Longrightarrow> True \<Longrightarrow> degree_view (degree_aggregate h threshold st cid g) c =
      (if c = cid then degree_step (degree_view st cid) g else degree_view st c)" for st g cid c
    using degree_mem_inv [OF _ refl refl, of h st cid g c] degree_spill_inv by (auto simp: degree_aggregate_def Let_def)
  show "degree_inv h st \<Longrightarrow> degree_inv h (degree_discard st cid)" for st cid
    unfolding degree_inv_def degree_discard_def
    using dl.holds_clear dl.holds_clear_other by (auto, metis)
  show "degree_inv h st \<Longrightarrow> degree_view (degree_discard st cid) c =
      (if c = cid then ((\<lambda>_. Some {}), (\<lambda>_. Some {})) else degree_view st c)" for st cid c
    by (auto simp: degree_view_def degree_discard_def disk_nbrs_holds [OF dl.holds_clear] nbrs_def cap_def min_degree_def
        disk_nbrs_def)
qed

section \<open>The result\<close>

lemma degree_result_view:
  assumes "degree_inv h st"
  shows "\<exists>ot inn st'. degree_result h st c =
      (bind_result (full_nodes ot) (\<lambda>hi_out. bind_result (full_nodes inn) (\<lambda>hi_in. Inr [((hi_out, hi_in), 0)])), st') \<and>
    buckets_ok ot \<and> buckets_ok inn \<and>
    (\<forall>n. cap (set (dict_get ot n [])) = fst (degree_view st c) n) \<and> (\<forall>n. cap (set (dict_get inn n [])) = snd (degree_view st c) n)"
proof -
  define st1 where "st1 = (if dict_in c (dg_out st) then degree_spill_to_disk h st c else st)"
  have i1: "degree_inv h st1" "degree_view st1 c = degree_view st c"
    using degree_spill_inv [OF assms] assms by (auto simp: st1_def)
  from i1(1) obtain xs where xs: "dl.holds h (dg_spill st1) c xs" unfolding degree_inv_def by blast
  have mem: "dict_get (dg_out st1) c [] = []" "dict_get (dg_in st1) c [] = []"
    using assms dict_get_default [of c "dg_in st" "[]"] dict_get_default [of c "dg_out st" "[]"]
    by (auto simp: st1_def degree_spill_to_disk_def degree_inv_def)
  from dl.read_all [OF xs] obtain groups s1
    where r: "read_shards degree_of_line (dg_spill st1) c (shards_of (dg_spill st1) c) = (Inr groups, s1)"
      and g: "mset (concat groups) = mset xs" by blast
  let ?ot = "foldl (\<lambda>d (n, o1, i). capped_update d n o1) [] (concat groups)"
  let ?in = "foldl (\<lambda>d (n, o1, i). capped_update d n i) [] (concat groups)"
  have f: "foldl (\<lambda>d (n, o1, i). capped_update d n (k o1 i)) [] ys = foldl (\<lambda>d x. capped_update d (fst x) (k (out_of x) (in_of x))) [] ys"
    for k and ys :: "degree_item list" by (simp add: split_def)
  have n: "nbrs fst k (concat groups) x = nbrs fst k xs x" for k :: "degree_item \<Rightarrow> string list" and x
    using mset_eq_setD [OF g] by (simp add: nbrs_def)
  have O: "buckets_ok ?ot" "cap (set (dict_get ?ot x [])) = cap (nbrs fst out_of xs x)" for x
    using capped_fold [of "[]" fst out_of "concat groups" x] f [of "\<lambda>o1 i. o1" "concat groups"] n [of out_of x] by simp_all
  have I: "buckets_ok ?in" "cap (set (dict_get ?in x [])) = cap (nbrs fst in_of xs x)" for x
    using capped_fold [of "[]" fst in_of "concat groups" x] f [of "\<lambda>o1 i. i" "concat groups"] n [of in_of x] by simp_all
  have v: "degree_view st c = (\<lambda>x. cap (nbrs fst out_of xs x), \<lambda>x. cap (nbrs fst in_of xs x))"
  proof -
    have "degree_view st1 c = (\<lambda>x. cap (nbrs fst out_of xs x), \<lambda>x. cap (nbrs fst in_of xs x))"
      unfolding degree_view_def mem by (simp add: disk_nbrs_holds [OF xs])
    then show ?thesis by (simp add: i1(2))
  qed
  have "degree_result h st c =
      (bind_result (full_nodes ?ot) (\<lambda>hi_out. bind_result (full_nodes ?in) (\<lambda>hi_in. Inr [((hi_out, hi_in), 0)])), st1\<lparr>dg_spill := s1\<rparr>)"
    by (simp add: degree_result_def st1_def [symmetric] r Let_def)
  with O I v show ?thesis by (intro exI [of _ ?ot] exI [of _ ?in] exI [of _ "st1\<lparr>dg_spill := s1\<rparr>"]) simp
qed

lemma full_nodes_clean:
  assumes "buckets_ok d" "\<And>n. cap (set (dict_get d n [])) = None \<Longrightarrow> \<exists>m. clean_node k m \<and> n = node_str m"
  shows "\<exists>ns. full_nodes d = Inr ns \<and> distinct ns \<and> set ns = {m. clean_node k m \<and> cap (set (dict_get d (node_str m) [])) = None}"
proof -
  let ?fs = "filter (\<lambda>(n, s). min_degree \<le> length s) d"
  have full: "(n, s) \<in> set ?fs \<Longrightarrow> cap (set (dict_get d n [])) = None \<and> dict_get d n [] = s" for n s
  proof -
    assume a: "(n, s) \<in> set ?fs"
    then have "map_of d n = Some s" using assms(1) by (auto simp: buckets_ok_def wf_dict_def)
    then have "dict_get d n [] = s" by (simp add: dict_get_def)
    moreover have "distinct (dict_get d n [])" using assms(1) by (simp add: buckets_ok_def)
    ultimately show ?thesis using a cap_full [of s] by auto
  qed
  define node where "node x = (SOME m. clean_node k m \<and> fst x = node_str m)" for x :: "string \<times> string list"
  have node: "clean_node k (node x) \<and> fst x = node_str (node x)" if "x \<in> set ?fs" for x
    unfolding node_def by (rule someI_ex) (use assms(2) [of "fst x"] full [of "fst x" "snd x"] that in auto)
  have r: "map_result (\<lambda>(n, s). node_from_str n) ?fs = Inr (map node ?fs)"
  proof -
    have "(\<lambda>(n, s). node_from_str n) (id x) = Inr (node x)" if "x \<in> set ?fs" for x
      using node [OF that] clean_node_from_str [of k "node x"] by (simp add: split_def)
    from map_result_Inr [of ?fs "\<lambda>(n, s). node_from_str n" id node, OF this] show ?thesis by (simp only: list.map_id id_apply map_ident list.map_ident)
  qed
  have sub: "set (map node ?fs) \<subseteq> {n. clean_node k n}" using node by auto
  have ku: "keyed_set node_key ms = keyed_union node_key [] ms" for ms by (simp add: keyed_set_def keyed_union_def)
  from keyed_union_set [OF clean_inj sub, of "[]"]
  have s: "set (keyed_set node_key (map node ?fs)) = node ` set ?fs" "distinct (keyed_set node_key (map node ?fs))"
    by (simp_all add: ku)
  have "node ` set ?fs = {m. clean_node k m \<and> cap (set (dict_get d (node_str m) [])) = None}"
  proof (intro set_eqI iffI)
    fix m assume "m \<in> node ` set ?fs"
    then obtain x where x: "x \<in> set ?fs" "m = node x" by blast
    with node [OF x(1)] full [of "fst x" "snd x"] show "m \<in> {m. clean_node k m \<and> cap (set (dict_get d (node_str m) [])) = None}"
      by auto
  next
    fix m assume m: "m \<in> {m. clean_node k m \<and> cap (set (dict_get d (node_str m) [])) = None}"
    let ?s = "dict_get d (node_str m) []"
    have "distinct ?s" using assms(1) by (simp add: buckets_ok_def)
    with m have l: "min_degree \<le> length ?s" by (simp add: cap_full)
    then have "dict_in (node_str m) d"
      using dict_get_default [of "node_str m" d "[]"] by (cases "dict_in (node_str m) d") (simp_all add: min_degree_def)
    then have "(node_str m, ?s) \<in> set d" by (metis dict_in_get map_of_SomeD)
    with l have x: "(node_str m, ?s) \<in> set ?fs" by simp
    with node [OF x] m clean_node_from_str show "m \<in> node ` set ?fs" by (metis (mono_tags, lifting) fst_conv imageI mem_Collect_eq sum.inject(2))
  qed
  with r s show ?thesis by (simp add: full_nodes_def)
qed

section \<open>Properties\<close>

lemma node_str_inj: "inj_on node_str {n. clean_node k n}"
  using clean_node_from_str by (metis (mono_tags, lifting) inj_onI mem_Collect_eq sum.inject(2))

lemma nbrs_pairs:
  assumes "\<forall>e\<in>set g. clean_entry k e" "clean_node k n"
  shows "succ_nbrs g (node_str n) = node_str ` {b. (n, b) \<in> succ_pairs g}"
    and "pred_nbrs g (node_str n) = node_str ` {a. (n, a) \<in> pred_pairs g}"
proof -
  have eq: "node_str m = node_str n \<longleftrightarrow> m = n" if "(m, p, s) \<in> set g" for m p s
    using assms that inj_onD [OF node_str_inj [of k], of m n] by (auto simp: clean_entry_def)
  then show "succ_nbrs g (node_str n) = node_str ` {b. (n, b) \<in> succ_pairs g}"
    "pred_nbrs g (node_str n) = node_str ` {a. (n, a) \<in> pred_pairs g}"
    unfolding succ_nbrs_def pred_nbrs_def nbrs_def pair_iff strs_def by (auto simp: image_iff, blast+)
qed

lemma clean_pairs:
  assumes "\<forall>e\<in>set g. clean_entry k e"
  shows "{b. (n, b) \<in> succ_pairs g} \<subseteq> {n. clean_node k n}" "{a. (n, a) \<in> pred_pairs g} \<subseteq> {n. clean_node k n}"
  using assms unfolding pair_iff by (auto simp: clean_entry_def)

lemma cap_nbrs:
  assumes "\<forall>e\<in>set g. clean_entry k e" "clean_node k n"
  shows "cap (succ_nbrs g (node_str n)) = None \<longleftrightarrow> 5 \<le> card {b. (n, b) \<in> succ_pairs g}"
    and "cap (pred_nbrs g (node_str n)) = None \<longleftrightarrow> 5 \<le> card {a. (n, a) \<in> pred_pairs g}"
  using card_image [OF inj_on_subset [OF node_str_inj clean_pairs(1) [OF assms(1), of n]]]
    card_image [OF inj_on_subset [OF node_str_inj clean_pairs(2) [OF assms(1), of n]]]
  by (simp_all add: nbrs_pairs [OF assms] cap_def min_degree_def)

lemma full_is_node:
  assumes "\<forall>e\<in>set g. clean_entry k e"
  shows "cap (succ_nbrs g n) = None \<Longrightarrow> \<exists>m. clean_node k m \<and> n = node_str m"
    and "cap (pred_nbrs g n) = None \<Longrightarrow> \<exists>m. clean_node k m \<and> n = node_str m"
proof -
  have "\<exists>m. clean_node k m \<and> n = node_str m" if "nbrs (\<lambda>(n, p, s). node_str n) f g n \<noteq> {}" for f
    using that assms by (auto simp: nbrs_def clean_entry_def)
  then show "cap (succ_nbrs g n) = None \<Longrightarrow> \<exists>m. clean_node k m \<and> n = node_str m"
    "cap (pred_nbrs g n) = None \<Longrightarrow> \<exists>m. clean_node k m \<and> n = node_str m"
    unfolding succ_nbrs_def pred_nbrs_def cap_def min_degree_def by (fastforce split: if_splits)+
qed

lemma fold_degree_step:
  "foldl degree_step ((\<lambda>_. Some {}), (\<lambda>_. Some {})) ds = (\<lambda>n. cap (succ_nbrs (concat ds) n), \<lambda>n. cap (pred_nbrs (concat ds) n))"
proof (induction ds rule: rev_induct)
  case Nil
  then show ?case by (simp add: succ_nbrs_def pred_nbrs_def nbrs_def cap_def min_degree_def)
next
  case (snoc g ds)
  then show ?case by (simp add: degree_step_def succ_nbrs_def pred_nbrs_def nbrs_append cap_Un)
qed

text \<open>What a degree worker answers.\<close>

lemma degree_worker:
  assumes "mset (map snd (filter (\<lambda>x. fst x = cid) ins)) = mset (routed (group_uc4_graph h) N i batches)"
    and "\<forall>x\<in>set ins. clean_graph k (snd x)" "\<forall>t\<in>set (concat batches). clean_transaction k t"
  shows "\<exists>hi_out hi_in st'.
    degree_result h (foldl (\<lambda>st (c, g). degree_aggregate h threshold st c g) new_degree_agg ins) cid = (Inr [((hi_out, hi_in), 0)], st') \<and>
    set hi_out = {n. owned h N i n \<and> 5 \<le> card {b. (n, b) \<in> edges (concat batches)}} \<and>
    set hi_in = {n. owned h N i n \<and> 5 \<le> card {a. (a, n) \<in> edges (concat batches)}}"
proof -
  let ?st = "foldl (\<lambda>st (c, g). degree_aggregate h threshold st c g) new_degree_agg ins"
  let ?g = "concat (map snd (filter (\<lambda>x. fst x = cid) ins))"
  have v: "degree_view ?st cid = (\<lambda>n. cap (succ_nbrs ?g n), \<lambda>n. cap (pred_nbrs ?g n))"
    using degrees.view_run_init [of ins h threshold cid] by (simp add: fold_degree_step)
  have c: "\<forall>e\<in>set ?g. clean_entry k e" using assms(2) by (auto simp: clean_graph_def)
  have "gview ?g = gview (concat (routed (group_uc4_graph h) N i batches))"
    by (rule gview_mset) (use mset_eq_setD [OF assms(1)] in \<open>simp only: set_concat\<close>)
  then have g: "pred_pairs ?g = {(n, a). owned h N i n \<and> (a, n) \<in> edges (concat batches)}"
    "succ_pairs ?g = {(n, b). owned h N i n \<and> (n, b) \<in> edges (concat batches)}"
    by (simp_all add: routed_graphs_view [OF assms(3)] gview_def [of ?g])
  have inv: "degree_inv h ?st" by (intro degrees.inv_run degrees.inv_init) simp
  from degree_result_view [OF inv, of cid] obtain ot inn st' where r: "degree_result h ?st cid =
      (bind_result (full_nodes ot) (\<lambda>hi_out. bind_result (full_nodes inn) (\<lambda>hi_in. Inr [((hi_out, hi_in), 0)])), st')"
    "buckets_ok ot" "buckets_ok inn" "\<And>n. cap (set (dict_get ot n [])) = cap (succ_nbrs ?g n)"
    "\<And>n. cap (set (dict_get inn n [])) = cap (pred_nbrs ?g n)" by (auto simp: v)
  have card0: "clean_node k n" if "5 \<le> card {b. (n, b) \<in> succ_pairs ?g} \<or> 5 \<le> card {a. (n, a) \<in> pred_pairs ?g}" for n
  proof -
    have "{b. (n, b) \<in> succ_pairs ?g} \<noteq> {} \<or> {a. (n, a) \<in> pred_pairs ?g} \<noteq> {}" using that by (auto simp del: Collect_empty_eq)
    then show ?thesis using c unfolding pair_iff by (auto simp: clean_entry_def)
  qed
  obtain hi_out where ho: "full_nodes ot = Inr hi_out" "set hi_out = {m. clean_node k m \<and> cap (succ_nbrs ?g (node_str m)) = None}"
    using full_nodes_clean [OF r(2), of k] full_is_node(1) [OF c] by (auto simp: r(4))
  obtain hi_in where hi: "full_nodes inn = Inr hi_in" "set hi_in = {m. clean_node k m \<and> cap (pred_nbrs ?g (node_str m)) = None}"
    using full_nodes_clean [OF r(3), of k] full_is_node(2) [OF c] by (auto simp: r(5))
  have "set hi_out = {n. 5 \<le> card {b. (n, b) \<in> succ_pairs ?g}}" "set hi_in = {n. 5 \<le> card {a. (n, a) \<in> pred_pairs ?g}}"
    unfolding ho(2) hi(2) using cap_nbrs [OF c] card0 by blast+
  moreover have "{b. owned h N i n \<and> P b} = (if owned h N i n then {b. P b} else {})" for n and P :: "gnode \<Rightarrow> bool" by simp
  ultimately show ?thesis using ho(1) hi(1) r(1) by (auto simp: g)
qed

text \<open>
  C22.  UC4's degree filter reports exactly the nodes of degree five or more.  From any split of the
  payments into batches, any order of delivery, any interleaving with other clients and any number
  of spills, although no bucket ever keeps more than five neighbours, the one message of a shard
  names exactly the nodes it owns with at least five distinct receivers, and with at least five
  distinct senders.
\<close>

theorem uc4_degree_exact:
  assumes "mset (map snd (filter (\<lambda>x. fst x = cid) ins)) = mset (routed (group_uc4_graph h) N i batches)"
    and "\<forall>x\<in>set ins. clean_graph k (snd x)" "\<forall>t\<in>set (concat batches). clean_transaction k t"
  shows "\<exists>hi_out hi_in st'.
    degree_result h (foldl (\<lambda>st (c, g). degree_aggregate h threshold st c g) new_degree_agg ins) cid = (Inr [((hi_out, hi_in), 0)], st') \<and>
    set hi_out = {n. owned h N i n \<and> 5 \<le> card {b. (n, b) \<in> edges (concat batches)}} \<and>
    set hi_in = {n. owned h N i n \<and> 5 \<le> card {a. (a, n) \<in> edges (concat batches)}}"
  using assms by (rule degree_worker)

definition star :: "transaction list" where
  "star = map (\<lambda>x. demo_payment ''A'' [x]) ''BCDEF''"

theorem uc4_degree_exact_witness:
  "\<exists>hi_out hi_in st'.
    degree_result demo_hash (foldl (\<lambda>st (c, g). degree_aggregate demo_hash 1 st c g) new_degree_agg [(7, compute_graph star)]) 7 =
      (Inr [((hi_out, hi_in), 0)], st') \<and>
    set hi_out = {n. owned demo_hash 2 0 n \<and> 5 \<le> card {b. (n, b) \<in> edges (concat [star])}} \<and>
    set hi_in = {n. owned demo_hash 2 0 n \<and> 5 \<le> card {a. (a, n) \<in> edges (concat [star])}}"
proof (rule uc4_degree_exact [where k = 1])
  have c: "\<forall>t\<in>set star. clean_transaction 1 t"
    by (simp add: star_def clean_transaction_def clean_node_def from_node_def to_node_def demo_payment_def demo_transaction_def)
  then show "\<forall>t\<in>set (concat [star]). clean_transaction 1 t" by simp
  show "\<forall>x\<in>set [(7 :: uuid, compute_graph star)]. clean_graph 1 (snd x)" using compute_graph_clean(1) [OF c] by simp
  have "routed (group_uc4_graph demo_hash) 2 0 [star] = [compute_graph star]" by code_simp
  then show "mset (map snd (filter (\<lambda>x. fst x = 7) [(7 :: uuid, compute_graph star)])) = mset (routed (group_uc4_graph demo_hash) 2 0 [star])"
    by simp
qed

end
