(* ===== verification/Paths.thy ===== *)
theory Paths
  imports Degree
begin

text \<open>
  UC4's path counting (\<open>aggregate_fns/uc4_count_paths.py\<close>, \<open>aggregate_fns/uc4_aggregate_paths.py\<close>):
  both keep counts per path in memory, spill them as lines and add them up again.  Their state,
  spilling, discarding, snapshots and restores are the same code in both files and one group of
  definitions here.

  Paths compare by the concatenation of four texts, which is ambiguous even where node keys are not
  (\<open>path_key_collision\<close>); the counts are exact on sets of nodes whose paths do not collide,
  and both aggregates interpret \<open>client_aggregate\<close> with the total count per path as their view.
\<close>

section \<open>State\<close>

type_synonym counts = "(gpath \<times> int) list"

record path_agg =
  pa_paths :: "counts per_client"
  pa_spill :: "(uuid \<times> int) spill"

definition new_path_agg :: path_agg where
  "new_path_agg = \<lparr>pa_paths = [], pa_spill = new_spill []\<rparr>"

definition mk_path :: "gnode \<Rightarrow> gnode \<Rightarrow> gpath" where
  "mk_path a c = \<lparr>p_origin = a, p_destination = c\<rparr>"

text \<open>\<open>paths[path] = paths.get(path, 0) + count\<close>\<close>

definition bump :: "counts \<Rightarrow> gpath \<Rightarrow> int \<Rightarrow> counts" where
  "bump d p n = keyed_mod path_key p (\<lambda>c. c + n) 0 d"

definition json_fields :: "gnode \<Rightarrow> json" where
  "json_fields n = JList [JStr (n_bank n), JStr (n_account n)]"

definition path_line :: "uuid \<Rightarrow> gpath \<times> int \<Rightarrow> string" where
  "path_line cid i =
     json_dumps (\<lambda>_. []) (JList [JStr (uuid_str cid), JList [json_fields (p_origin (fst i)), json_fields (p_destination (fst i))], JInt (snd i)])"

definition json_pair_node :: "json \<Rightarrow> gnode result" where
  "json_pair_node v =
     (case v of
        JList (a # b # _) \<Rightarrow> bind_result (json_str a) (\<lambda>a. bind_result (json_str b) (\<lambda>b. Inr \<lparr>n_bank = a, n_account = b\<rparr>))
      | JList _ \<Rightarrow> Inl IndexError
      | _ \<Rightarrow> Inl TypeError)"

definition path_of_line :: "string \<Rightarrow> (gpath \<times> int) result" where
  "path_of_line line =
     bind_result (json_loads line) (\<lambda>v.
       case v of
         JList (JStr u # f # JInt n # _) \<Rightarrow>
           bind_result (parse_uuid u) (\<lambda>_.
             case f of
               JList (a # b # _) \<Rightarrow>
                 bind_result (json_pair_node a) (\<lambda>a. bind_result (json_pair_node b) (\<lambda>b. Inr (mk_path a b, n)))
             | _ \<Rightarrow> Inl TypeError)
       | _ \<Rightarrow> Inl TypeError)"

definition path_shard :: "pyhash \<Rightarrow> uuid \<Rightarrow> gpath \<times> int \<Rightarrow> int" where
  "path_shard h cid i = h_str h (uuid_str cid @ ''_'' @ path_str (fst i)) mod 500"

definition path_spill_to_disk :: "pyhash \<Rightarrow> path_agg \<Rightarrow> uuid \<Rightarrow> path_agg" where
  "path_spill_to_disk h st cid =
     \<lparr>pa_paths = dict_pop cid (pa_paths st),
      pa_spill = spill_items (path_shard h cid) (path_line cid) (pa_spill st) cid (dict_get (pa_paths st) cid [])\<rparr>"

definition set_paths :: "uuid \<Rightarrow> counts \<Rightarrow> path_agg \<Rightarrow> path_agg" where
  "set_paths cid d st = st\<lparr>pa_paths := dict_set cid d (pa_paths st)\<rparr>"

definition path_discard :: "path_agg \<Rightarrow> uuid \<Rightarrow> path_agg" where
  "path_discard st cid = \<lparr>pa_paths = dict_pop cid (pa_paths st), pa_spill = clear_client (pa_spill st) cid\<rparr>"

definition path_snapshot :: "pyhash \<Rightarrow> path_agg \<Rightarrow> ((uuid \<times> int) \<times> nat) list \<times> path_agg" where
  "path_snapshot h st =
     (let st1 = foldl (path_spill_to_disk h) st (map fst (pa_paths st))
      in case snapshot_spill (pa_spill st1) of (snap, sp) \<Rightarrow> (snap, st1\<lparr>pa_spill := sp\<rparr>))"

definition path_restore :: "((uuid \<times> int) \<times> nat) list \<Rightarrow> path_agg \<Rightarrow> path_agg" where
  "path_restore snap st = \<lparr>pa_paths = [], pa_spill = restore_multi snap (pa_spill st)\<rparr>"

section \<open>Counting paths\<close>

text \<open>The pairs of one predecessor; \<open>a != c\<close> compares keys.\<close>

definition count_succs :: "gnode \<Rightarrow> counts \<Rightarrow> gnode list \<Rightarrow> counts" where
  "count_succs a d succs = foldl (\<lambda>d c. if node_eq a c then d else bump d (mk_path a c) 1) d succs"

text \<open>After each predecessor the counts are spilled when there are too many.\<close>

definition count_pred :: "pyhash \<Rightarrow> nat \<Rightarrow> uuid \<Rightarrow> gnode list \<Rightarrow> path_agg \<Rightarrow> gnode \<Rightarrow> path_agg" where
  "count_pred h threshold cid succs st a =
     (let d = count_succs a (dict_get (pa_paths st) cid []) succs; st1 = set_paths cid d st
      in if threshold \<le> length d then set_paths cid [] (path_spill_to_disk h st1 cid) else st1)"

definition count_paths_aggregate :: "pyhash \<Rightarrow> nat \<Rightarrow> path_agg \<Rightarrow> uuid \<Rightarrow> graph \<Rightarrow> path_agg" where
  "count_paths_aggregate h threshold st cid g =
     (let st0 = (if dict_in cid (pa_paths st) then st else set_paths cid [] st);
          st1 = foldl (\<lambda>st (n, preds, succs). foldl (count_pred h threshold cid succs) st preds) st0 g
      in if threshold \<le> length (dict_get (pa_paths st1) cid []) then path_spill_to_disk h st1 cid else st1)"

definition sum_counts :: "counts \<Rightarrow> counts \<Rightarrow> counts" where
  "sum_counts d items = foldl (\<lambda>d (p, n). bump d p n) d items"

definition split_counts :: "pyhash \<Rightarrow> counts \<Rightarrow> (counts \<times> int) list" where
  "split_counts h d =
     map (\<lambda>(aff, d). (d, aff))
       (foldl (\<lambda>aff (p, n). dict_set (h_str h (path_key p) mod affinity_shards) (bump (dict_get aff (h_str h (path_key p) mod affinity_shards) []) p n) aff)
         [] d)"

definition count_paths_result :: "pyhash \<Rightarrow> path_agg \<Rightarrow> uuid \<Rightarrow> (counts \<times> int) list result \<times> path_agg" where
  "count_paths_result h st cid =
     (let st1 = (if dict_in cid (pa_paths st) then path_spill_to_disk h st cid else st)
      in case read_shards path_of_line (pa_spill st1) cid (shards_of (pa_spill st1) cid) of
           (r, sp) \<Rightarrow>
             (bind_result r (\<lambda>groups. Inr (concat (map (\<lambda>is. split_counts h (sum_counts [] is)) groups))),
              \<lparr>pa_paths = dict_pop cid (pa_paths st1), pa_spill = sp\<rparr>))"

section \<open>Adding counts up\<close>

definition agg_paths_aggregate :: "pyhash \<Rightarrow> nat \<Rightarrow> path_agg \<Rightarrow> uuid \<Rightarrow> counts \<Rightarrow> path_agg" where
  "agg_paths_aggregate h threshold st cid items =
     (let d = sum_counts (dict_get (pa_paths st) cid []) items; st1 = set_paths cid d st
      in if threshold \<le> length d then path_spill_to_disk h st1 cid else st1)"

definition agg_paths_result :: "pyhash \<Rightarrow> path_agg \<Rightarrow> uuid \<Rightarrow> (counts \<times> int) list result \<times> path_agg" where
  "agg_paths_result h st cid =
     (let st1 = (if dict_in cid (pa_paths st) then path_spill_to_disk h st cid else st)
      in case read_shards path_of_line (pa_spill st1) cid (shards_of (pa_spill st1) cid) of
           (r, sp) \<Rightarrow>
             (bind_result r (\<lambda>groups. Inr (map (\<lambda>is. (filter (\<lambda>(p, n). min_path_count \<le> n) (sum_counts [] is), 0)) groups)),
              \<lparr>pa_paths = dict_pop cid (pa_paths st1), pa_spill = sp\<rparr>))"

section \<open>Counts without collisions\<close>

definition paths_over :: "gnode set \<Rightarrow> gpath set" where
  "paths_over N = {p. p_origin p \<in> N \<and> p_destination p \<in> N}"

text \<open>The nodes under consideration, when neither node keys nor path keys collide on them.\<close>

definition unambiguous :: "gnode set \<Rightarrow> bool" where
  "unambiguous N \<longleftrightarrow> inj_on node_key N \<and> inj_on path_key (paths_over N)"

definition safe :: "gnode set \<Rightarrow> gnode set" where
  "safe N = (if unambiguous N then N else {})"

lemma safe_inj: "inj_on node_key (safe N)" "inj_on path_key (paths_over (safe N))"
  by (auto simp: safe_def unambiguous_def paths_over_def)

text \<open>Account numbers of one length do not make paths unambiguous.\<close>

lemma path_key_collision:
  "path_key (mk_path \<lparr>n_bank = ''1'', n_account = ''234567890''\<rparr> \<lparr>n_bank = ''12'', n_account = ''0''\<rparr>) =
   path_key (mk_path \<lparr>n_bank = ''12'', n_account = ''345678901''\<rparr> \<lparr>n_bank = ''2'', n_account = ''0''\<rparr>)"
  by (simp add: path_key_def mk_path_def node_key_def)

definition count_of :: "counts \<Rightarrow> gpath \<Rightarrow> int" where
  "count_of d p = (case map_of d p of None \<Rightarrow> 0 | Some n \<Rightarrow> n)"

definition total_of :: "counts \<Rightarrow> gpath \<Rightarrow> int" where
  "total_of items p = sum_list (map snd (filter (\<lambda>i. fst i = p) items))"

definition counts_ok :: "gnode set \<Rightarrow> counts \<Rightarrow> bool" where
  "counts_ok N d \<longleftrightarrow> distinct (map fst d) \<and> fst ` set d \<subseteq> paths_over (safe N)"

lemma counts_ok_Nil [simp]: "counts_ok N []"
  by (simp add: counts_ok_def)

lemma bump_ok:
  assumes "counts_ok N d" "p \<in> paths_over (safe N)"
  shows "counts_ok N (bump d p n)" "count_of (bump d p n) q = count_of d q + (if q = p then n else 0)"
proof -
  have k: "fst ` set d \<subseteq> paths_over (safe N)" "distinct (map fst d)" using assms(1) by (auto simp: counts_ok_def)
  show "counts_ok N (bump d p n)"
    unfolding bump_def counts_ok_def
    using keyed_mod_distinct [OF safe_inj(2) assms(2) k] keyed_mod_keys [OF safe_inj(2) assms(2) k(1)] assms(2) k(1) by simp
  show "count_of (bump d p n) q = count_of d q + (if q = p then n else 0)"
    unfolding bump_def count_of_def keyed_mod_lookup [OF safe_inj(2) assms(2) k(1)] by (simp split: option.splits)
qed

lemma sum_counts_ok:
  "counts_ok N d \<Longrightarrow> fst ` set items \<subseteq> paths_over (safe N) \<Longrightarrow>
   counts_ok N (sum_counts d items) \<and> count_of (sum_counts d items) q = count_of d q + total_of items q"
proof (induction items arbitrary: d)
  case Nil
  then show ?case by (simp add: sum_counts_def total_of_def)
next
  case (Cons i items)
  obtain p n where i: "i = (p, n)" by (cases i)
  have p: "p \<in> paths_over (safe N)" using Cons.prems(2) by (simp add: i)
  note B = bump_ok [OF Cons.prems(1) p]
  from Cons.IH [OF B(1) [of n]] B(2) [of n q] Cons.prems(2) show ?case
    by (auto simp: sum_counts_def total_of_def i)
qed

lemma total_of_dict: "distinct (map fst d) \<Longrightarrow> total_of d p = count_of d p"
proof (induction d)
  case (Cons x d)
  obtain q n where x: "x = (q, n)" by (cases x)
  have "filter (\<lambda>i. fst i = q) d = []" using Cons.prems by (auto simp: x filter_empty_conv)
  with Cons show ?case by (auto simp: x total_of_def count_of_def)
qed (simp add: total_of_def count_of_def)

lemma total_of_append: "total_of (xs @ ys) p = total_of xs p + total_of ys p"
  by (simp add: total_of_def)

lemma total_of_concat: "total_of (concat xss) p = sum_list (map (\<lambda>xs. total_of xs p) xss)"
  by (induction xss) (simp_all add: total_of_append, simp add: total_of_def)

lemma total_of_mset: "mset xs = mset ys \<Longrightarrow> total_of xs p = total_of ys p"
proof -
  assume "mset xs = mset ys"
  then have "mset (map snd (filter (\<lambda>i. fst i = p) xs)) = mset (map snd (filter (\<lambda>i. fst i = p) ys))"
    by (simp only: mset_map mset_filter)
  then show ?thesis unfolding total_of_def by (metis sum_mset_sum_list)
qed

section \<open>Spilled counts\<close>

lemma path_line_roundtrip: "path_of_line (path_line cid i @ newline) = Inr i"
proof -
  have "json_loads (path_line cid i @ newline) =
      Inr (JList [JStr (uuid_str cid), JList [json_fields (p_origin (fst i)), json_fields (p_destination (fst i))], JInt (snd i)])"
    unfolding path_line_def by (rule json_roundtrip_line) (simp add: json_fields_def)
  then show ?thesis
    by (cases i; cases "fst i") (simp add: path_of_line_def json_fields_def json_pair_node_def json_str_def mk_path_def)
qed

interpretation pl: item_codec "path_line cid" path_of_line "path_shard h cid" "\<lambda>i. fst i \<in> paths_over (safe N)" for cid h N
proof
  show "path_of_line (path_line cid i @ newline) = Inr i" for i by (rule path_line_roundtrip)
  show "CHR 0x0A \<notin> set (path_line cid i)" for i
    unfolding path_line_def by (rule json_dumps_one_line) (simp add: json_fields_def)
qed

definition disk_total :: "(uuid \<times> int) spill \<Rightarrow> uuid \<Rightarrow> gpath \<Rightarrow> int" where
  "disk_total sp c p =
     sum_list (map (\<lambda>sh. case map_result path_of_line (lines_of (content sp (c, sh))) of Inl _ \<Rightarrow> 0 | Inr is \<Rightarrow> total_of is p)
       (shards_of sp c))"

lemma disk_total_holds: "pl.holds c h N sp c xs \<Longrightarrow> disk_total sp c p = total_of xs p"
proof -
  assume h: "pl.holds c h N sp c xs"
  let ?f = "\<lambda>sh. filter (\<lambda>i. path_shard h c i = sh) xs"
  have r: "map_result path_of_line (lines_of (content sp (c, sh))) = Inr (?f sh)" for sh
    using pl.read_items [of sp c sh c "?f sh" N] h by (auto simp: pl.holds_def read_shard_content)
  have "disk_total sp c p = sum_list (map (\<lambda>sh. total_of (?f sh) p) (shards_of sp c))"
    unfolding disk_total_def r by simp
  also have "\<dots> = total_of (concat (map ?f (shards_of sp c))) p"
    by (simp add: total_of_concat comp_def)
  also have "\<dots> = total_of xs p"
    by (rule total_of_mset) (rule pl.filter_shards_mset [OF distinct_shards_of pl.holds_shards [OF h]])
  finally show ?thesis .
qed

section \<open>The aggregates meet their contract\<close>

definition path_view :: "path_agg \<Rightarrow> uuid \<Rightarrow> gpath \<Rightarrow> int" where
  "path_view st c p = count_of (dict_get (pa_paths st) c []) p + disk_total (pa_spill st) c p"

definition path_inv :: "pyhash \<Rightarrow> gnode set \<Rightarrow> path_agg \<Rightarrow> bool" where
  "path_inv h N st \<longleftrightarrow>
     (\<forall>c. \<exists>xs. pl.holds c h N (pa_spill st) c xs) \<and> (\<forall>c. counts_ok N (dict_get (pa_paths st) c []))"

lemma path_spill_inv:
  assumes "path_inv h N st"
  shows "path_inv h N (path_spill_to_disk h st cid) \<and> path_view (path_spill_to_disk h st cid) c = path_view st c"
proof -
  let ?m = "dict_get (pa_paths st) cid []"
  let ?sp = "spill_items (path_shard h cid) (path_line cid) (pa_spill st) cid ?m"
  from assms have m: "\<And>c. counts_ok N (dict_get (pa_paths st) c [])" by (simp add: path_inv_def)
  from assms obtain X where X: "\<And>c. pl.holds c h N (pa_spill st) c (X c)" unfolding path_inv_def by metis
  have new: "pl.holds cid h N ?sp cid (X cid @ ?m)"
    using m [of cid] by (intro pl.holds_spill [OF X]) (auto simp: counts_ok_def)
  have other: "pl.holds c h N ?sp c (X c)" if "c \<noteq> cid" for c
    using X [of c] that by (auto simp: pl.holds_def content_spill_items)
  have "\<exists>xs. pl.holds c h N ?sp c xs" for c using new other by (cases "c = cid") auto
  with m have "path_inv h N (path_spill_to_disk h st cid)"
    by (auto simp: path_inv_def path_spill_to_disk_def)
  moreover have "path_view (path_spill_to_disk h st cid) c = path_view st c"
  proof (cases "c = cid")
    case True
    have "total_of ?m p = count_of ?m p" for p using m [of cid] by (intro total_of_dict) (simp add: counts_ok_def)
    with True show ?thesis
      by (simp add: path_view_def fun_eq_iff path_spill_to_disk_def disk_total_holds [OF new] disk_total_holds [OF X]
          total_of_append count_of_def [of "[]"])
  next
    case False
    then show ?thesis
      by (simp add: path_view_def fun_eq_iff path_spill_to_disk_def disk_total_holds [OF other [OF False]] disk_total_holds [OF X])
  qed
  ultimately show ?thesis by blast
qed

lemma set_paths_inv:
  assumes "path_inv h N st" "counts_ok N d"
  shows "path_inv h N (set_paths cid d st)"
    and "path_view (set_paths cid d st) c = (if c = cid then (\<lambda>p. path_view st c p - count_of (dict_get (pa_paths st) c []) p + count_of d p) else path_view st c)"
  using assms by (auto simp: path_inv_def set_paths_def path_view_def fun_eq_iff)

lemma agg_paths_step:
  assumes "path_inv h N st" "fst ` set items \<subseteq> paths_over (safe N)"
  shows "path_inv h N (agg_paths_aggregate h threshold st cid items) \<and>
    path_view (agg_paths_aggregate h threshold st cid items) c =
      (if c = cid then (\<lambda>p. path_view st c p + total_of items p) else path_view st c)"
proof -
  let ?d = "sum_counts (dict_get (pa_paths st) cid []) items"
  have S: "counts_ok N ?d" "count_of ?d q = count_of (dict_get (pa_paths st) cid []) q + total_of items q" for q
    using sum_counts_ok [of N "dict_get (pa_paths st) cid []" items] assms by (auto simp: path_inv_def)
  have "path_inv h N (set_paths cid ?d st) \<and>
      path_view (set_paths cid ?d st) c = (if c = cid then (\<lambda>p. path_view st c p + total_of items p) else path_view st c)"
    by (auto simp: set_paths_inv [OF assms(1) S(1)] S(2))
  then show ?thesis using path_spill_inv by (auto simp: agg_paths_aggregate_def Let_def)
qed

lemma path_inv_new: "path_inv h N new_path_agg"
  by (auto simp: path_inv_def new_path_agg_def pl.holds_def content_def new_spill_def intro: exI [of _ "[]"])

lemma path_view_new: "path_view new_path_agg c = (\<lambda>_. 0)"
  by (simp add: path_view_def fun_eq_iff new_path_agg_def disk_total_def shards_of_def new_spill_def count_of_def)

lemma path_discard_inv:
  assumes "path_inv h N st"
  shows "path_inv h N (path_discard st cid) \<and> path_view (path_discard st cid) c = (if c = cid then (\<lambda>_. 0) else path_view st c)"
proof -
  from assms obtain X where X: "\<And>c. pl.holds c h N (pa_spill st) c (X c)" unfolding path_inv_def by metis
  have new: "pl.holds c h N (clear_client (pa_spill st) cid) c (if c = cid then [] else X c)" for c
    using pl.holds_clear [of cid h N] pl.holds_clear_other [OF X, of c cid] by auto
  have "path_inv h N (path_discard st cid)" using assms new unfolding path_inv_def path_discard_def by auto
  moreover have "path_view (path_discard st cid) c = (if c = cid then (\<lambda>_. 0) else path_view st c)"
    by (auto simp: path_view_def fun_eq_iff path_discard_def disk_total_holds [OF new] disk_total_holds [OF X] count_of_def total_of_def)
  ultimately show ?thesis by blast
qed

interpretation agg_paths: client_aggregate new_path_agg "agg_paths_aggregate h threshold" path_discard "path_inv h N"
    "\<lambda>items. fst ` set items \<subseteq> paths_over (safe N)" path_view "\<lambda>_. 0" "\<lambda>v items p. v p + total_of items p" for h threshold N
  using agg_paths_step path_inv_new path_view_new path_discard_inv
  by unfold_locales (auto simp: fun_eq_iff)

text \<open>The paths a graph contributes: one for every node, predecessor and successor, the ends distinct.\<close>

definition graph_paths :: "graph \<Rightarrow> gpath list" where
  "graph_paths g =
     concat (map (\<lambda>(n, preds, succs). concat (map (\<lambda>a. map (mk_path a) (filter (\<lambda>c. c \<noteq> a) succs)) preds)) g)"

definition nodes_in :: "gnode set \<Rightarrow> graph \<Rightarrow> bool" where
  "nodes_in N g \<longleftrightarrow> (\<forall>(n, p, s)\<in>set g. set p \<subseteq> N \<and> set s \<subseteq> N)"

lemma count_succs_sum:
  assumes "a \<in> safe N" "set succs \<subseteq> safe N"
  shows "count_succs a d succs = sum_counts d (map (\<lambda>c. (mk_path a c, 1)) (filter (\<lambda>c. c \<noteq> a) succs))"
  using assms(2)
proof (induction succs arbitrary: d)
  case (Cons c succs)
  have "node_eq a c \<longleftrightarrow> c = a" using Cons.prems assms(1) inj_onD [OF safe_inj(1) [of N], of a c] by (auto simp: node_eq_def)
  with Cons show ?case by (simp add: count_succs_def sum_counts_def)
qed (simp add: count_succs_def sum_counts_def)

lemma total_of_ones: "total_of (map (\<lambda>p. (p, 1)) ps) q = int (count_list ps q)"
  by (induction ps) (auto simp: total_of_def)

lemma count_pred_step:
  assumes "path_inv h N st" "a \<in> safe N" "set succs \<subseteq> safe N"
  shows "path_inv h N (count_pred h threshold cid succs st a) \<and>
    path_view (count_pred h threshold cid succs st a) c =
      (if c = cid then (\<lambda>p. path_view st c p + int (count_list (map (mk_path a) (filter (\<lambda>c. c \<noteq> a) succs)) p)) else path_view st c)"
proof -
  let ?ps = "map (mk_path a) (filter (\<lambda>c. c \<noteq> a) succs)"
  let ?items = "map (\<lambda>p. (p, 1)) ?ps"
  have sub: "fst ` set ?items \<subseteq> paths_over (safe N)" using assms(2,3) by (auto simp: paths_over_def mk_path_def)
  have d: "count_succs a (dict_get (pa_paths st) cid []) succs = sum_counts (dict_get (pa_paths st) cid []) ?items"
    by (simp add: count_succs_sum [OF assms(2,3)] comp_def)
  let ?st' = "agg_paths_aggregate h threshold st cid ?items"
  have A: "path_inv h N ?st' \<and> path_view ?st' c = (if c = cid then (\<lambda>p. path_view st c p + int (count_list ?ps p)) else path_view st c)"
    using agg_paths_step [OF assms(1) sub, of threshold cid c] by (simp only: total_of_ones)
  show ?thesis
  proof (cases "threshold \<le> length (sum_counts (dict_get (pa_paths st) cid []) ?items)")
    case True
    then have e: "count_pred h threshold cid succs st a = set_paths cid [] ?st'"
      by (simp add: count_pred_def d agg_paths_aggregate_def Let_def)
    have "dict_get (pa_paths ?st') cid [] = []" using True by (simp add: agg_paths_aggregate_def Let_def path_spill_to_disk_def)
    moreover have "path_view (set_paths cid [] ?st') c = path_view ?st' c"
      using calculation A set_paths_inv(2) [of h N ?st' "[]" cid c] by (auto simp: fun_eq_iff)
    ultimately show ?thesis unfolding e using A set_paths_inv(1) [of h N ?st' "[]" cid] by simp
  next
    case False
    then have "count_pred h threshold cid succs st a = ?st'"
      by (simp add: count_pred_def d agg_paths_aggregate_def Let_def)
    with A show ?thesis by simp
  qed
qed

lemma count_preds_step:
  assumes "path_inv h N st" "set preds \<subseteq> safe N" "set succs \<subseteq> safe N"
  shows "path_inv h N (foldl (count_pred h threshold cid succs) st preds) \<and>
    path_view (foldl (count_pred h threshold cid succs) st preds) c =
      (if c = cid then (\<lambda>p. path_view st c p + int (count_list (graph_paths [(n, preds, succs)]) p)) else path_view st c)"
  using assms(1,2)
proof (induction preds arbitrary: st)
  case Nil
  then show ?case by (simp add: graph_paths_def)
next
  case (Cons a preds)
  have s: "path_inv h N (count_pred h threshold cid succs st a)"
    "path_view (count_pred h threshold cid succs st a) c =
      (if c = cid then (\<lambda>p. path_view st c p + int (count_list (map (mk_path a) (filter (\<lambda>c. c \<noteq> a) succs)) p)) else path_view st c)" for c
    using count_pred_step [OF Cons.prems(1) _ assms(3), of a threshold cid c] Cons.prems(2) by auto
  show ?case using Cons.IH [OF s(1)] Cons.prems(2) by (auto simp: s(2) graph_paths_def)
qed

lemma count_graph_step:
  assumes "path_inv h N st" "nodes_in (safe N) g"
  shows "path_inv h N (foldl (\<lambda>st (n, preds, succs). foldl (count_pred h threshold cid succs) st preds) st g) \<and>
    path_view (foldl (\<lambda>st (n, preds, succs). foldl (count_pred h threshold cid succs) st preds) st g) c =
      (if c = cid then (\<lambda>p. path_view st c p + int (count_list (graph_paths g) p)) else path_view st c)"
  using assms
proof (induction g arbitrary: st)
  case Nil
  then show ?case by (simp add: graph_paths_def)
next
  case (Cons e g)
  obtain n preds succs where e: "e = (n, preds, succs)" by (cases e)
  let ?s = "foldl (count_pred h threshold cid succs) st preds"
  have s: "path_inv h N ?s"
    "path_view ?s c = (if c = cid then (\<lambda>p. path_view st c p + int (count_list (graph_paths [(n, preds, succs)]) p)) else path_view st c)" for c
    using count_preds_step [OF Cons.prems(1), of preds succs threshold cid c n] Cons.prems(2) by (auto simp: nodes_in_def e)
  have g: "graph_paths (e # g) = graph_paths [(n, preds, succs)] @ graph_paths g" by (simp add: graph_paths_def e)
  show ?case using Cons.IH [OF s(1)] Cons.prems(2) unfolding g by (auto simp: s(2) nodes_in_def e)
qed

lemma count_paths_step:
  assumes "path_inv h N st" "nodes_in (safe N) g"
  shows "path_inv h N (count_paths_aggregate h threshold st cid g) \<and>
    path_view (count_paths_aggregate h threshold st cid g) c =
      (if c = cid then (\<lambda>p. path_view st c p + int (count_list (graph_paths g) p)) else path_view st c)"
proof -
  let ?st0 = "if dict_in cid (pa_paths st) then st else set_paths cid [] st"
  have s: "path_inv h N ?st0" "path_view ?st0 c = path_view st c"
    using set_paths_inv(1) [OF assms(1), of "[]" cid] set_paths_inv(2) [OF assms(1), of "[]" cid c]
    by (simp_all add: assms(1) count_of_def [of "[]"] dict_get_default)
  define st1 where "st1 = foldl (\<lambda>st (n, preds, succs). foldl (count_pred h threshold cid succs) st preds) ?st0 g"
  have "path_inv h N st1 \<and> path_view st1 c =
      (if c = cid then (\<lambda>p. path_view st c p + int (count_list (graph_paths g) p)) else path_view st c)"
    unfolding st1_def using count_graph_step [OF s(1) assms(2), of threshold cid c] s(2) by (auto simp: fun_eq_iff)
  then show ?thesis
    using path_spill_inv [of h N st1 cid c] unfolding count_paths_aggregate_def Let_def st1_def [symmetric] by auto
qed

interpretation count_paths: client_aggregate new_path_agg "count_paths_aggregate h threshold" path_discard "path_inv h N"
    "nodes_in (safe N)" path_view "\<lambda>_. 0" "\<lambda>v g p. v p + int (count_list (graph_paths g) p)" for h threshold N
  using count_paths_step path_inv_new path_view_new path_discard_inv
  by unfold_locales (auto simp: fun_eq_iff)

section \<open>Results\<close>

lemma sum_counts_keys:
  assumes "counts_ok N d" "fst ` set items \<subseteq> paths_over (safe N)"
  shows "fst ` set (sum_counts d items) = fst ` set d \<union> fst ` set items"
  using assms
proof (induction items arbitrary: d)
  case (Cons i items)
  obtain p n where i: "i = (p, n)" by (cases i)
  have p: "p \<in> paths_over (safe N)" using Cons.prems(2) by (simp add: i)
  have "fst ` set (bump d p n) = insert p (fst ` set d)"
    unfolding bump_def using Cons.prems(1) by (intro keyed_mod_keys [OF safe_inj(2) p]) (simp add: counts_ok_def)
  with Cons.IH [OF bump_ok(1) [OF Cons.prems(1) p, of n]] Cons.prems(2) show ?case by (auto simp: sum_counts_def i)
qed (simp add: sum_counts_def)

lemma shard_sums:
  assumes "\<forall>i\<in>set xs. fst i \<in> paths_over (safe N)" "distinct shs" "\<And>i. i \<in> set xs \<Longrightarrow> path_shard h c i \<in> set shs"
    and "D = concat (map (\<lambda>sh. sum_counts [] (filter (\<lambda>i. path_shard h c i = sh) xs)) shs)"
  shows "counts_ok N D" "count_of D p = total_of xs p"
proof -
  let ?f = "\<lambda>sh. filter (\<lambda>i. path_shard h c i = sh) xs"
  have sub: "fst ` set (?f sh) \<subseteq> paths_over (safe N)" for sh using assms(1) by auto
  have S: "counts_ok N (sum_counts [] (?f sh))" "count_of (sum_counts [] (?f sh)) q = total_of (?f sh) q"
    "fst ` set (sum_counts [] (?f sh)) = fst ` set (?f sh)" for sh q
    using sum_counts_ok [OF counts_ok_Nil sub] sum_counts_keys [OF counts_ok_Nil sub] by (simp_all add: count_of_def [of "[]"])
  have D: "D = concat (map snd (map (\<lambda>sh. (sh, sum_counts [] (?f sh))) shs))" by (simp add: assms(4) comp_def)
  have tag: "path_shard h c (fst x, 0) = sh" if "x \<in> set (sum_counts [] (?f sh))" for x sh
  proof -
    have "fst x \<in> fst ` set (?f sh)" using that S(3) by blast
    then show ?thesis by (auto simp: path_shard_def)
  qed
  have "distinct (map fst D)"
    unfolding D by (rule distinct_tagged [where f = "\<lambda>p. path_shard h c (p, 0)"])
      (use assms(2) S(1) tag in \<open>auto simp: comp_def counts_ok_def\<close>)
  moreover have "fst ` set D \<subseteq> paths_over (safe N)"
    using S(1) unfolding assms(4) counts_ok_def by fastforce
  ultimately show ok: "counts_ok N D" by (simp add: counts_ok_def)
  have "count_of D p = total_of D p" using ok by (simp add: total_of_dict counts_ok_def)
  also have "\<dots> = sum_list (map (\<lambda>sh. total_of (?f sh) p) shs)"
    using S(1,2) by (simp add: assms(4) total_of_concat comp_def total_of_dict counts_ok_def)
  also have "\<dots> = total_of xs p"
    using total_of_mset [OF pl.filter_shards_mset [OF assms(2), of xs h c], of p] assms(3) by (simp add: total_of_concat comp_def)
  finally show "count_of D p = total_of xs p" .
qed

text \<open>Both results read every shard of the client, after its counts in memory joined the files.\<close>

lemma read_sums:
  assumes "path_inv h N st"
    and "st1 = (if dict_in cid (pa_paths st) then path_spill_to_disk h st cid else st)"
  shows "\<exists>groups sp. read_shards path_of_line (pa_spill st1) cid (shards_of (pa_spill st1) cid) = (Inr groups, sp) \<and>
    counts_ok N (concat (map (sum_counts []) groups)) \<and> (\<forall>p. count_of (concat (map (sum_counts []) groups)) p = path_view st cid p) \<and>
    (\<forall>g\<in>set groups. fst ` set g \<subseteq> paths_over (safe N))"
proof -
  have s: "path_inv h N st1" "path_view st1 cid = path_view st cid" using path_spill_inv [OF assms(1)] assms by simp_all
  have m: "dict_get (pa_paths st1) cid [] = []" unfolding assms(2) by (simp add: path_spill_to_disk_def dict_get_default)
  from s(1) obtain xs where xs: "pl.holds cid h N (pa_spill st1) cid xs" unfolding path_inv_def by blast
  have good: "\<forall>i\<in>set xs. fst i \<in> paths_over (safe N)" using xs by (simp add: pl.holds_def)
  from pl.read_all [OF xs] obtain groups sp where r:
    "read_shards path_of_line (pa_spill st1) cid (shards_of (pa_spill st1) cid) = (Inr groups, sp)"
    "groups = map (\<lambda>sh. filter (\<lambda>i. path_shard h cid i = sh) xs) (shards_of (pa_spill st1) cid)" by blast
  have "concat (map (sum_counts []) groups) =
      concat (map (\<lambda>sh. sum_counts [] (filter (\<lambda>i. path_shard h cid i = sh) xs)) (shards_of (pa_spill st1) cid))"
    by (simp add: r(2) comp_def)
  note D = shard_sums [OF good distinct_shards_of pl.holds_shards [OF xs] this]
  have "path_view st cid p = total_of xs p" for p
    using s(2) m by (simp add: path_view_def disk_total_holds [OF xs] count_of_def fun_eq_iff)
  with r good D show ?thesis by auto
qed

lemma keyed_mod_fresh: "key k \<notin> set (map (key \<circ> fst) d) \<Longrightarrow> keyed_mod key k f v d = d @ [(k, f v)]"
  by (induction key k f v d rule: keyed_mod.induct) auto

lemma split_counts_dict:
  "counts_ok N d \<Longrightarrow> split_counts h d = map (\<lambda>(aff, d). (d, aff)) (shard_dict (\<lambda>p. h_str h (path_key p) mod affinity_shards) d)"
proof -
  let ?f = "\<lambda>p. h_str h (path_key p) mod affinity_shards"
  let ?step = "\<lambda>aff (p, n). dict_set (?f p) (bump (dict_get aff (?f p) []) p n) aff"
  have "counts_ok N d \<Longrightarrow> foldl ?step [] d = shard_dict ?f d"
  proof (induction d rule: rev_induct)
    case Nil
    then show ?case by (simp add: shard_dict_def)
  next
    case (snoc x d)
    obtain p n where x: "x = (p, n)" by (cases x)
    have ok: "counts_ok N d" "p \<in> paths_over (safe N)" "p \<notin> fst ` set d" using snoc.prems by (auto simp: counts_ok_def x)
    have wf: "wf_dict d" using ok(1) by (simp add: wf_dict_def counts_ok_def)
    have IH: "foldl ?step [] d = shard_dict ?f d" using snoc.IH ok(1) by simp
    have sub: "fst ` set (dict_get (shard_dict ?f d) (?f p) []) \<subseteq> fst ` set d" by (rule shard_part_keys [OF wf])
    define part where "part = dict_get (shard_dict ?f d) (?f p) []"
    have fresh: "p \<notin> fst ` set part" using sub ok(3) unfolding part_def by blast
    have "path_key q \<noteq> path_key p" if "q \<in> fst ` set part" for q
      using that fresh sub ok(1,2) inj_onD [OF safe_inj(2) [of N], of q p] unfolding part_def counts_ok_def by blast
    then have "path_key p \<notin> set (map (path_key \<circ> fst) part)" by fastforce
    then have "bump part p n = dict_set p n part"
      using fresh by (simp add: bump_def keyed_mod_fresh dict_set_fresh)
    then show ?case by (simp add: x IH shard_dict_snoc part_def)
  qed
  then show "counts_ok N d \<Longrightarrow> ?thesis" by (simp add: split_counts_def)
qed

lemma split_counts_ok:
  assumes "counts_ok N d"
  shows "distinct (map fst (concat (map fst (split_counts h d))))" "set (concat (map fst (split_counts h d))) = set d"
proof -
  let ?f = "\<lambda>p. h_str h (path_key p) mod affinity_shards"
  have wf: "wf_dict d" using assms by (simp add: wf_dict_def counts_ok_def)
  have "concat (map fst (split_counts h d)) = concat (map snd (shard_dict ?f d))"
    by (simp add: split_counts_dict [OF assms] comp_def split_def)
  then show "distinct (map fst (concat (map fst (split_counts h d))))" "set (concat (map fst (split_counts h d))) = set d"
    using shard_dict_distinct [OF wf, of ?f] shard_dict_union [OF wf, of ?f] by simp_all
qed

text \<open>Every message of the result holds the paths of its affinity.\<close>

definition path_affinity :: "pyhash \<Rightarrow> gpath \<Rightarrow> int" where
  "path_affinity h p = h_str h (path_key p) mod affinity_shards"

lemma split_counts_affinity:
  assumes "counts_ok N d" "(d', a) \<in> set (split_counts h d)" "x \<in> set d'"
  shows "path_affinity h (fst x) = a"
proof -
  have wf: "wf_dict d" using assms(1) by (simp add: wf_dict_def counts_ok_def)
  have "(a, d') \<in> set (shard_dict (\<lambda>p. h_str h (path_key p) mod affinity_shards) d)"
    using assms(2) by (auto simp: split_counts_dict [OF assms(1)])
  from shard_dict_sound [OF wf this, of "fst x" "snd x"] assms(3) show ?thesis by (simp add: path_affinity_def)
qed

lemma count_paths_result_view:
  assumes "path_inv h N st"
  shows "\<exists>R st'. count_paths_result h st cid = (Inr R, st') \<and> counts_ok N (concat (map fst R)) \<and>
    (\<forall>p. count_of (concat (map fst R)) p = path_view st cid p) \<and>
    (\<forall>(d, a)\<in>set R. \<forall>x\<in>set d. path_affinity h (fst x) = a)"
proof -
  define st1 where "st1 = (if dict_in cid (pa_paths st) then path_spill_to_disk h st cid else st)"
  from read_sums [OF assms st1_def] obtain groups sp where
    r: "read_shards path_of_line (pa_spill st1) cid (shards_of (pa_spill st1) cid) = (Inr groups, sp)" and
    D: "counts_ok N (concat (map (sum_counts []) groups))" "\<And>p. count_of (concat (map (sum_counts []) groups)) p = path_view st cid p"
      "\<And>g. g \<in> set groups \<Longrightarrow> fst ` set g \<subseteq> paths_over (safe N)" by blast
  let ?R = "concat (map (\<lambda>is. split_counts h (sum_counts [] is)) groups)"
  have ok: "counts_ok N (sum_counts [] g)" if "g \<in> set groups" for g using sum_counts_ok [OF counts_ok_Nil D(3) [OF that]] by blast
  have cm: "concat (map fst (concat (map f gs))) = concat (map (\<lambda>g. concat (map fst (f g))) gs)"
    for f :: "counts \<Rightarrow> (counts \<times> int) list" and gs by (induction gs) auto
  have part: "mset (concat (map fst (split_counts h (sum_counts [] g)))) = mset (sum_counts [] g)" if "g \<in> set groups" for g
  proof -
    have "distinct (concat (map fst (split_counts h (sum_counts [] g))))" "distinct (sum_counts [] g)"
      using split_counts_ok(1) [OF ok [OF that], of h] ok [OF that] unfolding counts_ok_def distinct_map by blast+
    then show ?thesis using split_counts_ok(2) [OF ok [OF that], of h] set_eq_iff_mset_eq_distinct by blast
  qed
  have "mset (concat (map f gs)) = mset (concat (map f' gs))" if "\<And>g. g \<in> set gs \<Longrightarrow> mset (f g) = mset (f' g)"
    for f f' :: "counts \<Rightarrow> counts" and gs using that by (induction gs) auto
  from this [of groups "\<lambda>g. concat (map fst (split_counts h (sum_counts [] g)))" "sum_counts []", OF part]
  have M: "mset (concat (map fst ?R)) = mset (concat (map (sum_counts []) groups))" unfolding cm by simp
  have "distinct (map fst (concat (map fst ?R)))"
    using D(1) mset_eq_imp_distinct_iff [of "map fst (concat (map fst ?R))" "map fst (concat (map (sum_counts []) groups))"] M
    by (simp add: counts_ok_def)
  moreover have "set (concat (map fst ?R)) = set (concat (map (sum_counts []) groups))" by (rule mset_eq_setD [OF M])
  ultimately have R: "counts_ok N (concat (map fst ?R))" using D(1) by (simp only: counts_ok_def)
  moreover have "count_of (concat (map fst ?R)) p = path_view st cid p" for p
    using total_of_mset [OF M, of p] R D(1,2) by (simp add: total_of_dict counts_ok_def)
  moreover have "\<forall>(d, a)\<in>set ?R. \<forall>x\<in>set d. path_affinity h (fst x) = a"
    using split_counts_affinity [OF ok] by fastforce
  moreover have "fst (count_paths_result h st cid) = Inr ?R"
    by (simp add: count_paths_result_def Let_def st1_def [symmetric] r)
  moreover obtain R st' where "count_paths_result h st cid = (R, st')" by (cases "count_paths_result h st cid")
  ultimately show ?thesis by (intro exI [of _ ?R] exI [of _ st']) (simp only: prod.sel, blast)
qed

lemma agg_paths_result_view:
  assumes "path_inv h N st"
  shows "\<exists>R st'. agg_paths_result h st cid = (Inr R, st') \<and> (\<forall>r\<in>set R. snd r = 0) \<and> counts_ok N (concat (map fst R)) \<and>
    set (concat (map fst R)) = {(p, n). n = path_view st cid p \<and> min_path_count \<le> n}"
proof -
  define st1 where "st1 = (if dict_in cid (pa_paths st) then path_spill_to_disk h st cid else st)"
  from read_sums [OF assms st1_def] obtain groups sp where
    r: "read_shards path_of_line (pa_spill st1) cid (shards_of (pa_spill st1) cid) = (Inr groups, sp)" and
    D: "counts_ok N (concat (map (sum_counts []) groups))" "\<And>p. count_of (concat (map (sum_counts []) groups)) p = path_view st cid p"
    by blast
  let ?q = "\<lambda>(p, n). min_path_count \<le> n"
  let ?D = "concat (map (sum_counts []) groups)"
  let ?R = "map (\<lambda>is. (filter ?q (sum_counts [] is), 0)) groups"
  have e: "concat (map fst ?R) = filter ?q ?D" by (simp add: filter_concat comp_def)
  have mem: "(p, n) \<in> set ?D \<Longrightarrow> n = path_view st cid p" for p n
    using D map_of_is_SomeI [of ?D p n] by (simp add: counts_ok_def count_of_def D(2) [symmetric] del: set_concat)
  have pos: "(p, path_view st cid p) \<in> set ?D" if "min_path_count \<le> path_view st cid p" for p
  proof (cases "map_of ?D p")
    case None
    with that D(2) [of p] show ?thesis by (simp add: count_of_def min_path_count_def)
  next
    case (Some n)
    then have "n = path_view st cid p" using D(2) [of p] by (simp add: count_of_def)
    with Some show ?thesis using map_of_SomeD [of ?D p n] by simp
  qed
  have "set (filter ?q ?D) = {(p, n). n = path_view st cid p \<and> min_path_count \<le> n}"
    using mem pos by (auto simp del: set_concat)
  moreover have "counts_ok N (filter ?q ?D)"
    using D(1) unfolding counts_ok_def by (metis distinct_map_filter filter_is_subset image_mono order_trans)
  moreover have "fst (agg_paths_result h st cid) = Inr ?R"
    by (simp add: agg_paths_result_def Let_def st1_def [symmetric] r)
  moreover obtain R st' where "agg_paths_result h st cid = (R, st')" by (cases "agg_paths_result h st cid")
  ultimately show ?thesis by (intro exI [of _ ?R] exI [of _ st']) (simp only: e, simp)
qed

section \<open>Properties\<close>

definition client_items :: "uuid \<Rightarrow> (uuid \<times> 'd) list \<Rightarrow> 'd list" where
  "client_items cid ins = map snd (filter (\<lambda>x. fst x = cid) ins)"

text \<open>The messages of a client from counting workers that received the graphs \<open>ws\<close>.\<close>

definition counted :: "pyhash \<Rightarrow> nat \<Rightarrow> (uuid \<times> graph) list list \<Rightarrow> uuid \<Rightarrow> (counts \<times> int) list" where
  "counted h threshold ws cid =
     concat (map (\<lambda>ins. case fst (count_paths_result h (foldl (\<lambda>st (c, g). count_paths_aggregate h threshold st c g) new_path_agg ins) cid) of
       Inl _ \<Rightarrow> [] | Inr R \<Rightarrow> R) ws)"

lemma foldl_counts: "foldl (\<lambda>v d p. v p + f d p) v ds = (\<lambda>p. v p + sum_list (map (\<lambda>d. f d p) ds))"
  for v :: "'p \<Rightarrow> int"
  by (induction ds arbitrary: v) (simp_all add: fun_eq_iff)

lemma int_count_concat: "int (count_list (concat xss) p) = sum_list (map (\<lambda>xs. int (count_list xs p)) xss)"
  by (induction xss) simp_all

lemma counted_worker:
  assumes "unambiguous N" "\<forall>x\<in>set ins. nodes_in N (snd x)"
  shows "fst ` set (concat (map fst (counted h threshold [ins] cid))) \<subseteq> paths_over N"
    and "total_of (concat (map fst (counted h threshold [ins] cid))) p =
      int (count_list (concat (map graph_paths (client_items cid ins))) p)"
    and "\<forall>(d, a)\<in>set (counted h threshold [ins] cid). \<forall>x\<in>set d. path_affinity h (fst x) = a"
proof -
  let ?st = "foldl (\<lambda>st (c, g). count_paths_aggregate h threshold st c g) new_path_agg ins"
  have N: "safe N = N" using assms(1) by (simp add: safe_def)
  have good: "\<And>x. x \<in> set ins \<Longrightarrow> nodes_in (safe N) (snd x)" using assms(2) by (simp add: N)
  have inv: "path_inv h N ?st" by (intro count_paths.inv_run count_paths.inv_init good)
  have v: "path_view ?st cid p = int (count_list (concat (map graph_paths (client_items cid ins))) p)" for p
    using count_paths.view_run_init [OF good, of ins h threshold cid] by (simp add: client_items_def foldl_counts int_count_concat comp_def)
  from count_paths_result_view [OF inv, of cid] obtain R st' where R: "count_paths_result h ?st cid = (Inr R, st')"
    "counts_ok N (concat (map fst R))" "\<And>p. count_of (concat (map fst R)) p = path_view ?st cid p"
    "\<forall>(d, a)\<in>set R. \<forall>x\<in>set d. path_affinity h (fst x) = a" by blast
  have c: "counted h threshold [ins] cid = R" by (simp add: counted_def R(1))
  show "fst ` set (concat (map fst (counted h threshold [ins] cid))) \<subseteq> paths_over N"
    using R(2) unfolding c counts_ok_def N by blast
  show "total_of (concat (map fst (counted h threshold [ins] cid))) p = int (count_list (concat (map graph_paths (client_items cid ins))) p)"
    using R(2) unfolding c counts_ok_def by (simp only: total_of_dict R(3) v)
  show "\<forall>(d, a)\<in>set (counted h threshold [ins] cid). \<forall>x\<in>set d. path_affinity h (fst x) = a" unfolding c by (rule R(4))
qed

lemma counted_Cons: "counted h threshold (ins # ws) cid = counted h threshold [ins] cid @ counted h threshold ws cid"
  by (simp add: counted_def)

lemma counted_workers:
  assumes "unambiguous N" "\<forall>ins\<in>set ws. \<forall>x\<in>set ins. nodes_in N (snd x)"
  shows "fst ` set (concat (map fst (counted h threshold ws cid))) \<subseteq> paths_over N \<and>
    total_of (concat (map fst (counted h threshold ws cid))) p =
      int (count_list (concat (map graph_paths (client_items cid (concat ws)))) p) \<and>
    (\<forall>(d, a)\<in>set (counted h threshold ws cid). \<forall>x\<in>set d. path_affinity h (fst x) = a)"
  using assms(2)
proof (induction ws)
  case Nil
  then show ?case by (simp add: counted_def total_of_def client_items_def)
next
  case (Cons ins ws)
  note W = counted_worker [OF assms(1), of ins h threshold cid]
  show ?case using Cons W(1,3) W(2) [of p] unfolding counted_Cons [of h threshold ins ws cid]
    by (simp add: total_of_append client_items_def image_Un ball_Un)
qed

lemma routed_total:
  "\<forall>(d, a)\<in>set R. \<forall>x\<in>set d. path_affinity h (fst x) = a \<Longrightarrow>
   total_of (concat (map fst (filter (\<lambda>(d, a). a mod M = i) R))) p =
     (if path_affinity h p mod M = i then total_of (concat (map fst R)) p else 0)"
proof (induction R)
  case Nil
  then show ?case by (simp add: total_of_def)
next
  case (Cons r R)
  obtain d a where r: "r = (d, a)" by (cases r)
  have "total_of d p = 0" if "path_affinity h p \<noteq> a"
  proof -
    have "filter (\<lambda>i. fst i = p) d = []" using Cons.prems that by (auto simp: r filter_empty_conv)
    then show ?thesis by (simp add: total_of_def)
  qed
  with Cons show ?case by (auto simp: r total_of_append)
qed

text \<open>What a worker that adds counts up answers.\<close>

lemma path_worker:
  assumes "unambiguous N" "\<forall>ins\<in>set ws. \<forall>x\<in>set ins. nodes_in N (snd x)"
    and "mset (client_items cid pins) = mset (map fst (filter (\<lambda>(d, a). a mod M = i) (counted h th1 ws cid)))"
    and "\<forall>x\<in>set pins. fst ` set (snd x) \<subseteq> paths_over N"
  shows "\<exists>R st'. agg_paths_result h (foldl (\<lambda>st (c, d). agg_paths_aggregate h th2 st c d) new_path_agg pins) cid = (Inr R, st') \<and>
    distinct (map fst (concat (map fst R))) \<and>
    set (concat (map fst R)) = {(p, n). path_affinity h p mod M = i \<and> 5 \<le> n \<and>
      n = int (count_list (concat (map graph_paths (client_items cid (concat ws)))) p)}"
proof -
  let ?st = "foldl (\<lambda>st (c, d). agg_paths_aggregate h th2 st c d) new_path_agg pins"
  have good: "\<And>x. x \<in> set pins \<Longrightarrow> fst ` set (snd x) \<subseteq> paths_over (safe N)" using assms(1,4) by (simp add: safe_def)
  have inv: "path_inv h N ?st" by (intro agg_paths.inv_run agg_paths.inv_init good)
  note C = counted_workers [OF assms(1,2), of h th1 cid]
  have "path_view ?st cid p = total_of (concat (client_items cid pins)) p" for p
    using agg_paths.view_run_init [OF good, of pins h th2 cid] by (simp add: client_items_def foldl_counts total_of_concat)
  also have "\<dots> p = total_of (concat (map fst (filter (\<lambda>(d, a). a mod M = i) (counted h th1 ws cid)))) p" for p
    by (rule total_of_mset [OF mset_concat_cong [OF assms(3)]])
  also have "\<dots> p = (if path_affinity h p mod M = i
      then int (count_list (concat (map graph_paths (client_items cid (concat ws)))) p) else 0)" for p
    using routed_total [of "counted h th1 ws cid" h M i p] C [of p] by simp
  finally have v: "path_view ?st cid p = (if path_affinity h p mod M = i
      then int (count_list (concat (map graph_paths (client_items cid (concat ws)))) p) else 0)" for p .
  from agg_paths_result_view [OF inv, of cid] obtain R st' where R: "agg_paths_result h ?st cid = (Inr R, st')"
    "counts_ok N (concat (map fst R))" "set (concat (map fst R)) = {(p, n). n = path_view ?st cid p \<and> min_path_count \<le> n}" by blast
  have "set (concat (map fst R)) = {(p, n). path_affinity h p mod M = i \<and> 5 \<le> n \<and>
      n = int (count_list (concat (map graph_paths (client_items cid (concat ws)))) p)}"
    unfolding R(3) v by (auto simp: min_path_count_def split: if_splits)
  with R(1,2) show ?thesis unfolding counts_ok_def by blast
qed

text \<open>
  C23.  UC4's path counts are exact across its two stages.  However the graphs of a client are spread
  over the counting workers, however their counts reach an aggregating worker, interleaved with other
  clients, and whatever the two stages spill, the aggregating worker \<open>i\<close> of \<open>M\<close> reports exactly the
  paths it owns that have at least five intermediate nodes, each once and with its true count.
\<close>

theorem uc4_paths_exact:
  assumes "unambiguous N" "\<forall>ins\<in>set ws. \<forall>x\<in>set ins. nodes_in N (snd x)"
    and "mset (client_items cid pins) = mset (map fst (filter (\<lambda>(d, a). a mod M = i) (counted h th1 ws cid)))"
    and "\<forall>x\<in>set pins. fst ` set (snd x) \<subseteq> paths_over N"
  shows "\<exists>R st'. agg_paths_result h (foldl (\<lambda>st (c, d). agg_paths_aggregate h th2 st c d) new_path_agg pins) cid = (Inr R, st') \<and>
    distinct (map fst (concat (map fst R))) \<and>
    set (concat (map fst R)) = {(p, n). path_affinity h p mod M = i \<and> 5 \<le> n \<and>
      n = int (count_list (concat (map graph_paths (client_items cid (concat ws)))) p)}"
  using assms by (rule path_worker)

definition demo_node :: "string \<Rightarrow> gnode" where
  "demo_node s = \<lparr>n_bank = ''1'', n_account = s\<rparr>"

text \<open>Five accounts between \<open>A\<close> and \<open>Z\<close>, over two workers.\<close>

definition demo_fan :: graph where
  "demo_fan = map (\<lambda>x. (demo_node [x], [demo_node ''A''], [demo_node ''Z''])) ''BCDEF''"

lemma unambiguous_demo: "unambiguous {demo_node ''A'', demo_node ''Z''}"
proof -
  have "paths_over {demo_node ''A'', demo_node ''Z''} = (\<lambda>(a, b). mk_path a b) ` ({demo_node ''A'', demo_node ''Z''} \<times> {demo_node ''A'', demo_node ''Z''})"
    by (force simp: paths_over_def mk_path_def image_iff)
  then show ?thesis
    by (simp add: unambiguous_def inj_on_def path_key_def node_key_def demo_node_def mk_path_def)
qed

theorem uc4_paths_exact_witness:
  "\<exists>R st'. agg_paths_result demo_hash
      (foldl (\<lambda>st (c, d). agg_paths_aggregate demo_hash 1 st c d) new_path_agg
        (map (\<lambda>d. (7, d)) (map fst (filter (\<lambda>(d, a). a mod 1 = 0) (counted demo_hash 1 [[(7, take 2 demo_fan)], [(7, drop 2 demo_fan)]] 7))))) 7 = (Inr R, st') \<and>
    distinct (map fst (concat (map fst R))) \<and>
    set (concat (map fst R)) = {(p, n). path_affinity demo_hash p mod 1 = 0 \<and> 5 \<le> n \<and>
      n = int (count_list (concat (map graph_paths (client_items 7 (concat [[(7, take 2 demo_fan)], [(7, drop 2 demo_fan)]])))) p)}"
proof (rule uc4_paths_exact [OF unambiguous_demo])
  let ?N = "{demo_node ''A'', demo_node ''Z''}"
  show n: "\<forall>ins\<in>set [[(7 :: uuid, take 2 demo_fan)], [(7, drop 2 demo_fan)]]. \<forall>x\<in>set ins. nodes_in ?N (snd x)"
    by (simp add: nodes_in_def demo_fan_def)
  let ?C = "counted demo_hash 1 [[(7 :: uuid, take 2 demo_fan)], [(7, drop 2 demo_fan)]] 7"
  show "\<forall>x\<in>set (map (\<lambda>d. (7 :: uuid, d)) (map fst (filter (\<lambda>(d, a). a mod 1 = 0) ?C))). fst ` set (snd x) \<subseteq> paths_over ?N"
    using counted_workers [OF unambiguous_demo n, of demo_hash 1 7] by fastforce
qed (simp add: client_items_def comp_def)

end
