(* ===== verification/Prune.thy ===== *)
theory Prune
  imports Paths
begin

text \<open>
  UC4's prune merge (\<open>merge_fns/uc4_prune.py\<close>): the high-degree nodes arrive on the left, the graph on
  the right and is spilled line by line; the result reads it back, keeps the predecessors of high
  out-degree and the successors of high in-degree and packs the nodes into graphs of bounded size,
  a hub being cut into tiles of its own.

  The lemmas show that the tiles cover a hub's pairs exactly (\<open>triples_tiles\<close>) and that the packing
  loop loses and repeats nothing; the property adds the state that the messages built up.
\<close>

section \<open>State and operations\<close>

record prune_merge =
  pm_hi_out :: "gnode list per_client"
  pm_hi_in :: "gnode list per_client"
  pm_spill :: "uuid spill"

definition new_prune :: prune_merge where
  "new_prune = \<lparr>pm_hi_out = [], pm_hi_in = [], pm_spill = new_spill []\<rparr>"

text \<open>\<open>setdefault(client_id, set()).update(nodes)\<close>\<close>

definition add_nodes :: "uuid \<Rightarrow> gnode list \<Rightarrow> gnode list per_client \<Rightarrow> gnode list per_client" where
  "add_nodes cid ns d = dict_set cid (keyed_union node_key (dict_get d cid []) ns) d"

definition prune_left :: "prune_merge \<Rightarrow> uuid \<Rightarrow> gnode list \<times> gnode list \<Rightarrow> prune_merge" where
  "prune_left st cid hi =
     st\<lparr>pm_hi_out := add_nodes cid (fst hi) (pm_hi_out st), pm_hi_in := add_nodes cid (snd hi) (pm_hi_in st)\<rparr>"

definition prune_right :: "prune_merge \<Rightarrow> uuid \<Rightarrow> graph \<Rightarrow> prune_merge" where
  "prune_right st cid g = st\<lparr>pm_spill := foldl (\<lambda>sp e. append_line sp cid (graph_line e @ newline)) (pm_spill st) g\<rparr>"

text \<open>
  \<open>int(math.sqrt(SPLIT_THRESHOLD * a / b))\<close> on exact numbers; the results hold for tiles of any size,
  so that the rounding of Python's floats does not matter.  \<open>range(0, n, step)\<close> and the slices it cuts.
\<close>

definition isqrt :: "nat \<Rightarrow> nat" where
  "isqrt n = length (takeWhile (\<lambda>k. k * k \<le> n) [1..<n + 1])"

definition tile_chunk :: "nat \<Rightarrow> nat \<Rightarrow> nat \<Rightarrow> nat" where
  "tile_chunk split a b = max 1 (isqrt (split * a div b))"

definition range_step :: "nat \<Rightarrow> nat \<Rightarrow> nat list" where
  "range_step n step = map (\<lambda>j. j * step) [0..<(n + step - 1) div step]"

definition slices :: "nat \<Rightarrow> 'a list \<Rightarrow> 'a list list" where
  "slices step xs = map (\<lambda>i. take step (drop i xs)) (range_step (length xs) step)"

definition tiles :: "nat \<Rightarrow> nat \<Rightarrow> gnode \<Rightarrow> gnode list \<Rightarrow> gnode list \<Rightarrow> graph list" where
  "tiles chunk_p chunk_s n preds succs =
     concat (map (\<lambda>p. map (\<lambda>s. [(n, p, s)]) (slices chunk_s succs)) (slices chunk_p preds))"

definition salted_tiles :: "nat \<Rightarrow> gnode \<Rightarrow> gnode list \<Rightarrow> gnode list \<Rightarrow> graph list" where
  "salted_tiles split n preds succs =
     tiles (tile_chunk split (length preds) (length succs)) (tile_chunk split (length succs) (length preds)) n preds succs"

text \<open>The loop of \<open>get_result\<close>: \<open>SPLIT_THRESHOLD\<close> is 250 000 pairs, \<open>_CHUNK_SIZE\<close> 50 000 neighbours.\<close>

fun prune_loop :: "nat \<Rightarrow> nat \<Rightarrow> gnode list \<Rightarrow> gnode list \<Rightarrow> graph \<Rightarrow> nat \<Rightarrow> string list \<Rightarrow> graph list result" where
  "prune_loop split chunk hi_out hi_in batch sz [] = Inr (if batch = [] then [] else [batch])"
| "prune_loop split chunk hi_out hi_in batch sz (line # lines) =
     bind_result (graph_of_line (rstrip_newlines line)) (\<lambda>(n, preds, succs).
       let preds = keyed_inter node_key preds hi_out; succs = keyed_inter node_key succs hi_in in
       if preds = [] \<or> succs = [] then prune_loop split chunk hi_out hi_in batch sz lines
       else if split < length preds * length succs then
         bind_result (prune_loop split chunk hi_out hi_in batch sz lines) (\<lambda>gs. Inr (salted_tiles split n preds succs @ gs))
       else
         let batch = keyed_put node_key n (preds, succs) batch; sz = sz + (length preds + length succs) in
         if chunk \<le> sz then bind_result (prune_loop split chunk hi_out hi_in [] 0 lines) (\<lambda>gs. Inr (batch # gs))
         else prune_loop split chunk hi_out hi_in batch sz lines)"

definition prune_result :: "nat \<Rightarrow> nat \<Rightarrow> prune_merge \<Rightarrow> uuid \<Rightarrow> graph list result \<times> prune_merge" where
  "prune_result split chunk st cid =
     (case iter_lines (pm_spill st) cid of
        (lines, sp) \<Rightarrow>
          (prune_loop split chunk (dict_get (pm_hi_out st) cid []) (dict_get (pm_hi_in st) cid []) [] 0 lines,
           \<lparr>pm_hi_out = dict_pop cid (pm_hi_out st), pm_hi_in = dict_pop cid (pm_hi_in st), pm_spill = sp\<rparr>))"

definition prune_discard :: "prune_merge \<Rightarrow> uuid \<Rightarrow> prune_merge" where
  "prune_discard st cid =
     \<lparr>pm_hi_out = dict_pop cid (pm_hi_out st), pm_hi_in = dict_pop cid (pm_hi_in st), pm_spill = clear_spill (pm_spill st) cid\<rparr>"

text \<open>The snapshot writes nodes as text; the restore parses clients and nodes.\<close>

type_synonym prune_snap = "(string \<times> string list) list \<times> (string \<times> string list) list \<times> (uuid \<times> nat) list"

definition nodes_snapshot :: "gnode list per_client \<Rightarrow> (string \<times> string list) list" where
  "nodes_snapshot d = map (\<lambda>(c, ns). (uuid_str c, map node_str ns)) d"

definition nodes_restore :: "(string \<times> string list) list \<Rightarrow> gnode list per_client result" where
  "nodes_restore snap =
     bind_result (map_result (\<lambda>(c, ts). bind_result (parse_uuid c) (\<lambda>c.
         bind_result (map_result node_from_str ts) (\<lambda>ns. Inr (c, keyed_set node_key ns)))) snap)
       (\<lambda>kvs. Inr (dict_of kvs))"

definition prune_snapshot :: "prune_merge \<Rightarrow> prune_snap \<times> prune_merge" where
  "prune_snapshot st =
     (case snapshot_spill (pm_spill st) of
        (snap, sp) \<Rightarrow> ((nodes_snapshot (pm_hi_out st), nodes_snapshot (pm_hi_in st), snap), st\<lparr>pm_spill := sp\<rparr>))"

definition prune_restore :: "prune_snap \<Rightarrow> prune_merge \<Rightarrow> prune_merge result" where
  "prune_restore snap st =
     (case snap of (o', i, sp) \<Rightarrow>
        bind_result (nodes_restore o') (\<lambda>o'. bind_result (nodes_restore i) (\<lambda>i.
          Inr \<lparr>pm_hi_out = o', pm_hi_in = i, pm_spill = restore_persistent sp (pm_spill st)\<rparr>)))"

definition prune_clear_stale :: "prune_merge \<Rightarrow> prune_merge" where
  "prune_clear_stale st = st\<lparr>pm_spill := clear_all (pm_spill st)\<rparr>"

section \<open>Slices and tiles\<close>

lemma range_step_Suc:
  "0 < step \<Longrightarrow> 0 < n \<Longrightarrow> range_step n step = 0 # map (\<lambda>i. i + step) (range_step (n - step) step)"
proof -
  assume s: "0 < step" and n: "0 < n"
  have "(n + step - 1) div step = Suc ((n - step + step - 1) div step)"
  proof (cases "step \<le> n")
    case True
    then have "n + step - 1 = (n - step + step - 1) + step" using s by simp
    with s show ?thesis by (metis add.commute div_add_self1 not_gr_zero plus_1_eq_Suc)
  next
    case False
    with n s have "(n + step - 1) div step = 1" "(n - step + step - 1) div step = 0"
      by (simp_all add: div_nat_eqI)
    then show ?thesis by simp
  qed
  then show ?thesis
    by (simp add: range_step_def upt_conv_Cons map_Suc_upt [symmetric] del: upt_Suc)
qed

lemma slices_Cons:
  "0 < step \<Longrightarrow> xs \<noteq> [] \<Longrightarrow> slices step xs = take step xs # slices step (drop step xs)"
  by (simp add: slices_def range_step_Suc comp_def add.commute)

lemma slices_Nil [simp]: "0 < step \<Longrightarrow> slices step [] = []"
  by (simp add: slices_def range_step_def)

lemma concat_slices: "0 < step \<Longrightarrow> concat (slices step xs) = xs"
proof (induction "length xs" arbitrary: xs rule: less_induct)
  case less
  show ?case
  proof (cases "xs = []")
    case False
    with less.prems less.hyps [of "drop step xs"] show ?thesis by (simp add: slices_Cons)
  qed (simp add: less.prems)
qed

text \<open>The pairs around the nodes of a graph: what the path counters will count.\<close>

definition triples :: "graph \<Rightarrow> (gnode \<times> gnode \<times> gnode) list" where
  "triples g = concat (map (\<lambda>(n, p, s). concat (map (\<lambda>a. map (\<lambda>c. (n, a, c)) s) p)) g)"

lemma triples_Nil [simp]: "triples [] = []"
  by (simp add: triples_def)

lemma triples_append [simp]: "triples (g @ g') = triples g @ triples g'"
  by (simp add: triples_def)

lemma triples_concat: "triples (concat gs) = concat (map triples gs)"
  by (induction gs) simp_all

lemma triples_preds: "mset (triples [(n, p @ p', s)]) = mset (triples [(n, p, s)]) + mset (triples [(n, p', s)])"
  by (simp add: triples_def)

lemma triples_succs: "mset (triples [(n, p, s @ s')]) = mset (triples [(n, p, s)]) + mset (triples [(n, p, s')])"
  by (induction p) (simp_all add: triples_def)

lemma triples_empty [simp]: "triples [(n, [], s)] = []" "triples [(n, p, [])] = []"
  by (induction p) (simp_all add: triples_def)

lemma triples_concat_preds:
  "mset (concat (map (\<lambda>p. triples [(n, p, s)]) ps)) = mset (triples [(n, concat ps, s)])"
  by (induction ps) (simp_all add: triples_preds)

lemma triples_concat_succs:
  "mset (concat (map (\<lambda>s. triples [(n, p, s)]) ss)) = mset (triples [(n, p, concat ss)])"
  by (induction ss) (simp_all add: triples_succs)

lemma triples_tiles:
  assumes "0 < chunk_p" "0 < chunk_s"
  shows "mset (concat (map triples (tiles chunk_p chunk_s n preds succs))) = mset (triples [(n, preds, succs)])"
proof -
  have "mset (concat (map triples (concat (map (\<lambda>p. map (\<lambda>s. [(n, p, s)]) ss) ps)))) = mset (triples [(n, concat ps, concat ss)])" for ps ss
    by (induction ps) (simp_all add: comp_def triples_concat_succs triples_preds)
  from this [of "slices chunk_s succs" "slices chunk_p preds"] show ?thesis
    by (simp add: tiles_def concat_slices assms)
qed

lemma triples_salted: "mset (concat (map triples (salted_tiles split n preds succs))) = mset (triples [(n, preds, succs)])"
  unfolding salted_tiles_def by (rule triples_tiles) (simp_all add: tile_chunk_def)

section \<open>The packing loop\<close>

definition pruned :: "gnode list \<Rightarrow> gnode list \<Rightarrow> graph \<Rightarrow> graph" where
  "pruned hi_out hi_in g = map (\<lambda>(n, p, s). (n, keyed_inter node_key p hi_out, keyed_inter node_key s hi_in)) g"

lemma rstrip_line: "CHR 0x0A \<notin> set l \<Longrightarrow> rstrip_newlines (l @ newline) = l"
  by (cases l rule: rev_cases) (auto simp: rstrip_newlines_def newline_def)

lemma graph_line_read: "clean_entry k e \<Longrightarrow> graph_of_line (rstrip_newlines (graph_line e @ newline)) = Inr e"
proof -
  assume c: "clean_entry k e"
  have "json_loads (graph_line e) = json_loads (graph_line e @ newline)"
    by (cases e) (simp add: graph_line_def json_roundtrip json_roundtrip_line del: json_dumps.simps)
  with gl.dec_enc [OF c] show ?thesis
    by (simp add: rstrip_line [OF gl.one_line [OF c]] graph_of_line_def)
qed

lemma prune_loop_triples:
  assumes "\<forall>e\<in>set g. clean_entry k e" "distinct (map fst (batch @ g))" "\<forall>e\<in>set batch. clean_node k (fst e)"
  shows "\<exists>gs. prune_loop split chunk hi_out hi_in batch sz (map (\<lambda>e. graph_line e @ newline) g) = Inr gs \<and>
    mset (concat (map triples gs)) = mset (triples batch) + mset (triples (pruned hi_out hi_in g))"
  using assms
proof (induction g arbitrary: batch sz)
  case Nil
  then show ?case by (simp add: pruned_def)
next
  case (Cons e g)
  obtain n p s where e: "e = (n, p, s)" by (cases e)
  define p' s' where "p' = keyed_inter node_key p hi_out" and "s' = keyed_inter node_key s hi_in"
  have c: "clean_entry k (n, p, s)" "clean_node k n" using Cons.prems(1) by (auto simp: e clean_entry_def)
  have t: "mset (triples (pruned hi_out hi_in (e # g))) = mset (triples [(n, p', s')]) + mset (triples (pruned hi_out hi_in g))"
    using triples_append [of "[(n, p', s')]" "pruned hi_out hi_in g"] by (simp add: pruned_def e p'_def s'_def)
  have loop: "prune_loop split chunk hi_out hi_in batch sz (map (\<lambda>e. graph_line e @ newline) (e # g)) =
     (let lines = map (\<lambda>e. graph_line e @ newline) g in
      if p' = [] \<or> s' = [] then prune_loop split chunk hi_out hi_in batch sz lines
      else if split < length p' * length s' then
        bind_result (prune_loop split chunk hi_out hi_in batch sz lines) (\<lambda>gs. Inr (salted_tiles split n p' s' @ gs))
      else if chunk \<le> sz + (length p' + length s') then
        bind_result (prune_loop split chunk hi_out hi_in [] 0 lines) (\<lambda>gs. Inr (keyed_put node_key n (p', s') batch # gs))
      else prune_loop split chunk hi_out hi_in (keyed_put node_key n (p', s') batch) (sz + (length p' + length s')) lines)"
    by (simp add: e graph_line_read [OF c(1)] Let_def p'_def s'_def)
  have "node_key (fst x) \<noteq> node_key n" if "x \<in> set batch" for x
    using that Cons.prems(2,3) c(2) inj_onD [OF clean_inj [of k], of "fst x" n] by (auto simp: e)
  then have "node_key n \<notin> set (map (node_key \<circ> fst) batch)" by fastforce
  note put = keyed_put_fresh [OF this, of "(p', s')"]
  have d: "distinct (map fst (batch @ g))" "distinct (map fst ((batch @ [(n, p', s')]) @ g))" "distinct (map fst ([] @ g))"
    using Cons.prems(2) by (auto simp: e)
  note I = Cons.IH [OF _ d(1) Cons.prems(3), of sz] Cons.IH [OF _ d(3), of 0] Cons.IH [OF _ d(2), of "sz + (length p' + length s')"]
  have g: "\<forall>e\<in>set g. clean_entry k e" "\<forall>e\<in>set (batch @ [(n, p', s')]). clean_node k (fst e)" "\<forall>e\<in>set []. clean_node k (fst e)"
    using Cons.prems(1,3) c(2) by auto
  let ?P = "\<lambda>r ts. \<exists>gs. r = Inr gs \<and> mset (concat (map triples gs)) = ts"
  let ?new = "mset (triples [(n, p', s')])"
  let ?rest = "mset (triples (pruned hi_out hi_in g))"
  have add: "?P (bind_result r (\<lambda>gs. Inr (hs @ gs))) (hs' + ts)" if "?P r ts" "mset (concat (map triples hs)) = hs'" for r hs hs' ts
    using that by auto
  have one: "mset (concat (map triples [batch @ [(n, p', s')]])) = mset (triples batch) + ?new" by simp
  let ?lines = "map (\<lambda>e. graph_line e @ newline) g"
  let ?L = "\<lambda>b z. prune_loop split chunk hi_out hi_in b z ?lines"
  have P1: "?P (?L batch sz) (mset (triples batch) + ?rest)" by (rule I(1) [OF g(1)])
  have P2: "?P (?L [] 0) (mset (triples []) + ?rest)" by (rule I(2) [OF g(1,3)])
  have P3: "?P (?L (batch @ [(n, p', s')]) (sz + (length p' + length s'))) (mset (triples (batch @ [(n, p', s')])) + ?rest)"
    by (rule I(3) [OF g(1,2)])
  consider "p' = [] \<or> s' = []" | "\<not> (p' = [] \<or> s' = [])" "split < length p' * length s'"
    | "\<not> (p' = [] \<or> s' = [])" "\<not> split < length p' * length s'" "chunk \<le> sz + (length p' + length s')"
    | "\<not> (p' = [] \<or> s' = [])" "\<not> split < length p' * length s'" "\<not> chunk \<le> sz + (length p' + length s')" by blast
  then show ?case
  proof cases
    case 1
    then have "triples [(n, p', s')] = []" by auto
    then have z: "mset (triples batch) + (?new + ?rest) = mset (triples batch) + ?rest" by simp
    show ?thesis unfolding loop t z Let_def if_P [OF 1] by (rule P1)
  next
    case 2
    have z: "mset (triples batch) + (?new + ?rest) = ?new + (mset (triples batch) + ?rest)" by (simp only: ac_simps)
    show ?thesis unfolding loop t z Let_def if_not_P [OF 2(1)] if_P [OF 2(2)] by (rule add [OF P1 triples_salted])
  next
    case 3
    have z: "mset (triples batch) + (?new + ?rest) = (mset (triples batch) + ?new) + (mset (triples []) + ?rest)" by simp
    show ?thesis unfolding loop t z Let_def if_not_P [OF 3(1)] if_not_P [OF 3(2)] if_P [OF 3(3)] put
      using add [OF P2 one] unfolding append_Cons append_Nil .
  next
    case 4
    have z: "mset (triples batch) + (?new + ?rest) = mset (triples (batch @ [(n, p', s')])) + ?rest" by (simp only: triples_append mset_append ac_simps)
    show ?thesis unfolding loop t z Let_def if_not_P [OF 4(1)] if_not_P [OF 4(2)] if_not_P [OF 4(3)] put by (rule P3)
  qed
qed

text \<open>Pruned graphs name no neighbour that the graphs read did not name.\<close>

definition ends_of :: "graph \<Rightarrow> gnode set" where
  "ends_of g = (\<Union>(n, p, s)\<in>set g. set p \<union> set s)"

lemma nodes_in_ends: "nodes_in N g \<longleftrightarrow> ends_of g \<subseteq> N"
  by (fastforce simp: nodes_in_def ends_of_def)

lemma ends_of_simps [simp]:
  "ends_of [] = {}" "ends_of ((n, p, s) # g) = set p \<union> set s \<union> ends_of g" "ends_of (g @ g') = ends_of g \<union> ends_of g'"
  by (auto simp: ends_of_def)

lemma ends_of_mem: "e \<in> set g \<Longrightarrow> ends_of [e] \<subseteq> ends_of g"
  by (auto simp: ends_of_def)

lemma ends_of_put: "ends_of (keyed_put node_key n (p, s) g) \<subseteq> set p \<union> set s \<union> ends_of g"
  by (induction node_key n "(p, s)" g rule: keyed_put.induct) (auto split: if_splits)

lemma ends_of_tiles:
  assumes "g \<in> set (tiles cp cs n p s)" shows "ends_of g \<subseteq> set p \<union> set s"
  using assms by (auto simp: tiles_def slices_def dest!: in_set_takeD in_set_dropD)

lemma prune_loop_ends:
  "prune_loop split chunk ho hi batch sz lines = Inr gs \<Longrightarrow> ends_of batch \<subseteq> N \<Longrightarrow>
   \<forall>l\<in>set lines. \<forall>e. graph_of_line (rstrip_newlines l) = Inr e \<longrightarrow> ends_of [e] \<subseteq> N \<Longrightarrow>
   \<forall>g\<in>set gs. ends_of g \<subseteq> N"
proof (induction split chunk ho hi batch sz lines arbitrary: gs rule: prune_loop.induct)
  case (1 split chunk ho hi batch sz)
  then show ?case by (auto split: if_splits)
next
  case (2 split chunk ho hi batch sz line lines)
  obtain n p s where e: "graph_of_line (rstrip_newlines line) = Inr (n, p, s)"
    using "2.prems"(1) by (cases "graph_of_line (rstrip_newlines line)") auto
  let ?p = "keyed_inter node_key p ho" and ?s = "keyed_inter node_key s hi"
  have sub: "set ?p \<union> set ?s \<subseteq> N" using "2.prems"(3) e by (auto simp: keyed_inter_def)
  note IH = "2.IH" [OF refl refl, of p s]
  have put: "ends_of (keyed_put node_key n (?p, ?s) batch) \<subseteq> N"
    using ends_of_put [of n ?p ?s batch] sub "2.prems"(2) by blast
  have tl: "\<forall>g\<in>set (salted_tiles split n ?p ?s). ends_of g \<subseteq> N"
    using ends_of_tiles sub unfolding salted_tiles_def by blast
  show ?case using "2.prems" IH put tl
    by (auto simp: e Let_def bind_result_eq_Inr split: if_splits) blast+
qed

section \<open>The messages of a client\<close>

fun prune_msg :: "prune_merge \<Rightarrow> uuid \<Rightarrow> (gnode list \<times> gnode list) + graph \<Rightarrow> prune_merge" where
  "prune_msg st cid (Inl l) = prune_left st cid l"
| "prune_msg st cid (Inr g) = prune_right st cid g"

fun prune_good :: "nat \<Rightarrow> (gnode list \<times> gnode list) + graph \<Rightarrow> bool" where
  "prune_good k (Inl l) \<longleftrightarrow> (\<forall>n\<in>set (fst l) \<union> set (snd l). clean_node k n)"
| "prune_good k (Inr g) \<longleftrightarrow> (\<forall>e\<in>set g. clean_entry k e)"

type_synonym prune_view = "gnode set \<times> gnode set \<times> string"

fun prune_view_step :: "prune_view \<Rightarrow> (gnode list \<times> gnode list) + graph \<Rightarrow> prune_view" where
  "prune_view_step (ho, hi, t) (Inl l) = (ho \<union> set (fst l), hi \<union> set (snd l), t)"
| "prune_view_step (ho, hi, t) (Inr g) = (ho, hi, t @ concat (map (\<lambda>e. graph_line e @ newline) g))"

definition prune_view :: "prune_merge \<Rightarrow> uuid \<Rightarrow> prune_view" where
  "prune_view st c = (set (dict_get (pm_hi_out st) c []), set (dict_get (pm_hi_in st) c []), content (pm_spill st) c)"

definition prune_inv :: "nat \<Rightarrow> prune_merge \<Rightarrow> bool" where
  "prune_inv k st \<longleftrightarrow>
     (\<forall>c. set (dict_get (pm_hi_out st) c []) \<subseteq> {n. clean_node k n} \<and> set (dict_get (pm_hi_in st) c []) \<subseteq> {n. clean_node k n})"

lemma content_append_graph:
  "content (foldl (\<lambda>sp e. append_line sp c (graph_line e @ newline)) sp g) c' =
     content sp c' @ (if c' = c then concat (map (\<lambda>e. graph_line e @ newline) g) else [])"
  by (induction g arbitrary: sp) auto

lemma add_nodes_set:
  assumes "set (dict_get d cid []) \<subseteq> {n. clean_node k n}" "\<forall>n\<in>set ns. clean_node k n"
  shows "set (dict_get (add_nodes cid ns d) c []) = set (dict_get d c []) \<union> (if c = cid then set ns else {})"
  using keyed_union_set [OF clean_inj [of k], of ns "dict_get d cid []"] assms by (auto simp: add_nodes_def)

lemma prune_left_view:
  assumes "prune_inv k st" "prune_good k (Inl l)"
  shows "prune_view (prune_left st cid l) c =
    (if c = cid then prune_view_step (prune_view st cid) (Inl l) else prune_view st c)"
  using assms add_nodes_set [of "pm_hi_out st" cid k "fst l" c] add_nodes_set [of "pm_hi_in st" cid k "snd l" c]
  by (auto simp: prune_view_def prune_left_def prune_inv_def)

lemma prune_left_inv:
  assumes "prune_inv k st" "prune_good k (Inl l)"
  shows "prune_inv k (prune_left st cid l)"
  using assms add_nodes_set [of "pm_hi_out st" cid k "fst l"] add_nodes_set [of "pm_hi_in st" cid k "snd l"]
  by (auto simp: prune_inv_def prune_left_def split: if_splits)

lemma prune_msg_inv: "prune_inv k st \<Longrightarrow> prune_good k m \<Longrightarrow> prune_inv k (prune_msg st c m)"
  by (cases m) (simp_all add: prune_left_inv, simp add: prune_inv_def prune_right_def)

lemma prune_msg_view:
  "prune_inv k st \<Longrightarrow> prune_good k m \<Longrightarrow>
   prune_view (prune_msg st c m) c' = (if c' = c then prune_view_step (prune_view st c) m else prune_view st c')"
  by (cases m) (simp_all add: prune_left_view, simp add: prune_view_def prune_right_def content_append_graph)

interpretation prune: client_aggregate new_prune prune_msg prune_discard "prune_inv k" "prune_good k" prune_view
    "({}, {}, [])" prune_view_step for k
proof
  show "prune_inv k new_prune" by (simp add: prune_inv_def new_prune_def)
  show "prune_view new_prune c = ({}, {}, [])" for c by (simp add: prune_view_def new_prune_def new_spill_def content_def)
  show "prune_inv k s \<Longrightarrow> prune_inv k (prune_discard s c)" for s c by (auto simp: prune_inv_def prune_discard_def)
  show "prune_inv k s \<Longrightarrow> prune_view (prune_discard s c) c' = (if c' = c then ({}, {}, []) else prune_view s c')" for s c c'
    by (auto simp: prune_view_def prune_discard_def)
qed (simp_all add: prune_msg_inv prune_msg_view)

definition lefts :: "('l + 'r) list \<Rightarrow> 'l list" where
  "lefts ms = concat (map (case_sum (\<lambda>l. [l]) (\<lambda>_. [])) ms)"

definition rights :: "('l + 'r) list \<Rightarrow> 'r list" where
  "rights ms = concat (map (case_sum (\<lambda>_. []) (\<lambda>r. [r])) ms)"

lemma lefts_rights_simps [simp]:
  "lefts [] = []" "lefts (Inl l # ms) = l # lefts ms" "lefts (Inr r # ms) = lefts ms"
  "rights [] = []" "rights (Inl l # ms) = rights ms" "rights (Inr r # ms) = r # rights ms"
  by (simp_all add: lefts_def rights_def)

lemma fold_prune_view:
  "foldl prune_view_step (ho, hi, t) ms =
     (ho \<union> (\<Union>l\<in>set (lefts ms). set (fst l)), hi \<union> (\<Union>l\<in>set (lefts ms). set (snd l)),
      t @ concat (map (\<lambda>e. graph_line e @ newline) (concat (rights ms))))"
proof (induction ms arbitrary: ho hi t)
  case (Cons m ms)
  then show ?case by (cases m) (simp_all add: Un_assoc)
qed simp

lemma set_rights: "g \<in> set (rights ms) \<longleftrightarrow> Inr g \<in> set ms"
  by (induction ms) (auto simp: rights_def split: sum.splits)

text \<open>What the pruned neighbours keep of the pairs.\<close>

lemma mset_triples_pruned:
  assumes "\<forall>e\<in>set g. clean_entry k e" "set ho \<subseteq> {n. clean_node k n}" "set hi \<subseteq> {n. clean_node k n}"
  shows "triples (pruned ho hi g) = filter (\<lambda>(n, a, c). a \<in> set ho \<and> c \<in> set hi) (triples g)"
  using assms(1)
proof (induction g)
  case Nil
  then show ?case by (simp add: pruned_def)
next
  case (Cons e g)
  obtain n p s where e: "e = (n, p, s)" by (cases e)
  have sub: "set p \<subseteq> {n. clean_node k n}" "set s \<subseteq> {n. clean_node k n}" using Cons.prems by (auto simp: e clean_entry_def)
  have in_out: "keyed_inter node_key p ho = filter (\<lambda>a. a \<in> set ho) p"
    unfolding keyed_inter_def using sub(1) key_mem_iff [OF clean_inj [of k] _ assms(2)] by (intro filter_cong) auto
  have in_in: "keyed_inter node_key s hi = filter (\<lambda>a. a \<in> set hi) s"
    unfolding keyed_inter_def using sub(2) key_mem_iff [OF clean_inj [of k] _ assms(3)] by (intro filter_cong) auto
  have "triples [(n, filter (\<lambda>a. a \<in> set ho) p, filter (\<lambda>a. a \<in> set hi) s)] =
      filter (\<lambda>(n, a, c). a \<in> set ho \<and> c \<in> set hi) (triples [(n, p, s)])"
    by (induction p) (simp_all add: triples_def filter_map comp_def)
  with Cons triples_append [of "[_]" "pruned ho hi g"] triples_append [of "[_]" g] show ?case
    by (simp add: pruned_def e in_out in_in)
qed

section \<open>Property\<close>

text \<open>What a pruning worker answers.\<close>

lemma prune_worker:
  assumes "\<forall>x\<in>set ins. prune_good k (snd x)" "distinct (map fst (concat (rights (client_items cid ins))))"
  shows "\<exists>gs st'. prune_result split chunk (foldl (\<lambda>st (c, m). prune_msg st c m) new_prune ins) cid = (Inr gs, st') \<and>
    mset (concat (map triples gs)) =
      mset (filter (\<lambda>(n, a, c). (\<exists>l\<in>set (lefts (client_items cid ins)). a \<in> set (fst l)) \<and>
                                (\<exists>l\<in>set (lefts (client_items cid ins)). c \<in> set (snd l)))
        (triples (concat (rights (client_items cid ins))))) \<and>
    (\<forall>g\<in>set gs. ends_of g \<subseteq> ends_of (concat (rights (client_items cid ins))))"
proof -
  let ?st = "foldl (\<lambda>st (c, m). prune_msg st c m) new_prune ins"
  let ?ms = "client_items cid ins"
  let ?g = "concat (rights ?ms)"
  let ?ho = "dict_get (pm_hi_out ?st) cid []" and ?hi = "dict_get (pm_hi_in ?st) cid []"
  have inv: "prune_inv k ?st" using assms(1) by (intro prune.inv_run prune.inv_init) blast
  have v: "prune_view ?st cid = foldl prune_view_step ({}, {}, []) ?ms"
    unfolding client_items_def using assms(1) by (intro prune.view_run_init [of ins k cid]) blast
  then have H: "set ?ho = (\<Union>l\<in>set (lefts ?ms). set (fst l))" "set ?hi = (\<Union>l\<in>set (lefts ?ms). set (snd l))"
    "content (pm_spill ?st) cid = concat (map (\<lambda>e. graph_line e @ newline) ?g)"
    by (simp_all add: fold_prune_view prune_view_def)
  have good: "\<forall>e\<in>set ?g. clean_entry k e"
    using assms(1) by (fastforce simp: set_rights client_items_def)
  obtain sp where l: "iter_lines (pm_spill ?st) cid = (map (\<lambda>e. graph_line e @ newline) ?g, sp)"
    using iter_lines_content [of "pm_spill ?st" cid] gl.lines_of_items [of ?g k] good
    by (cases "iter_lines (pm_spill ?st) cid") (simp add: H(3))
  from prune_loop_triples [OF good, of "[]" split chunk ?ho ?hi 0] assms(2) obtain gs where gs:
    "prune_loop split chunk ?ho ?hi [] 0 (map (\<lambda>e. graph_line e @ newline) ?g) = Inr gs"
    "mset (concat (map triples gs)) = mset (triples (pruned ?ho ?hi ?g))" by auto
  have "triples (pruned ?ho ?hi ?g) = filter (\<lambda>(n, a, c). a \<in> set ?ho \<and> c \<in> set ?hi) (triples ?g)"
    using inv by (intro mset_triples_pruned [OF good]) (simp_all add: prune_inv_def)
  with gs(2) have "mset (concat (map triples gs)) = mset (filter (\<lambda>(n, a, c). a \<in> set ?ho \<and> c \<in> set ?hi) (triples ?g))" by simp
  moreover have "\<forall>g\<in>set gs. ends_of g \<subseteq> ends_of ?g"
  proof (rule prune_loop_ends [OF gs(1)])
    show "\<forall>l\<in>set (map (\<lambda>e. graph_line e @ newline) ?g). \<forall>e. graph_of_line (rstrip_newlines l) = Inr e \<longrightarrow> ends_of [e] \<subseteq> ends_of ?g"
    proof (intro ballI allI impI)
      fix l e assume "l \<in> set (map (\<lambda>e. graph_line e @ newline) ?g)" and e: "graph_of_line (rstrip_newlines l) = Inr e"
      then obtain e' where "e' \<in> set ?g" "l = graph_line e' @ newline" by auto
      moreover from this have "e' = e" using good e graph_line_read [of k e'] by (simp del: set_concat)
      ultimately show "ends_of [e] \<subseteq> ends_of ?g" using ends_of_mem by blast
    qed
  qed simp
  ultimately show ?thesis using gs(1) l unfolding H(1,2) by (simp add: prune_result_def)
qed

text \<open>
  C24.  Pruning keeps exactly the pairs between high-degree ends.  From any interleaving of the
  high-degree nodes and the graphs of a client with each other and with other clients, the graphs
  the merge produces, whatever their packing and the tiles hubs are cut into, contain each
  (node, predecessor, successor) of the input with a high out-degree predecessor and a high
  in-degree successor exactly once, and nothing else.
\<close>

theorem uc4_prune_exact:
  assumes "\<forall>x\<in>set ins. prune_good k (snd x)" "distinct (map fst (concat (rights (client_items cid ins))))"
  shows "\<exists>gs st'. prune_result split chunk (foldl (\<lambda>st (c, m). prune_msg st c m) new_prune ins) cid = (Inr gs, st') \<and>
    mset (concat (map triples gs)) =
      mset (filter (\<lambda>(n, a, c). (\<exists>l\<in>set (lefts (client_items cid ins)). a \<in> set (fst l)) \<and>
                                (\<exists>l\<in>set (lefts (client_items cid ins)). c \<in> set (snd l)))
        (triples (concat (rights (client_items cid ins)))))"
  using prune_worker [OF assms, of split chunk] by blast

definition demo_prune :: "(uuid \<times> ((gnode list \<times> gnode list) + graph)) list" where
  "demo_prune = [(7, Inr (take 2 demo_fan)), (7, Inl ([demo_node ''A''], [])), (7, Inr (drop 2 demo_fan)), (7, Inl ([], [demo_node ''Z'']))]"

theorem uc4_prune_exact_witness:
  "\<exists>gs st'. prune_result 1 3 (foldl (\<lambda>st (c, m). prune_msg st c m) new_prune demo_prune) 7 = (Inr gs, st') \<and>
    mset (concat (map triples gs)) =
      mset (filter (\<lambda>(n, a, c). (\<exists>l\<in>set (lefts (client_items 7 demo_prune)). a \<in> set (fst l)) \<and>
                                (\<exists>l\<in>set (lefts (client_items 7 demo_prune)). c \<in> set (snd l)))
        (triples (concat (rights (client_items 7 demo_prune)))))"
  by (rule uc4_prune_exact [where k = 1])
    (simp_all add: demo_prune_def demo_fan_def demo_node_def clean_entry_def clean_node_def client_items_def)

end
