(* ===== verification/Merges.thy ===== *)
theory Merges
  imports Prune
begin

text \<open>
  The merges of UC2 (\<open>merge_fns/uc2_bank_id.py\<close>: largest payments with bank names, both sides in
  memory) and UC3 (\<open>merge_fns/uc3_bank_id.py\<close>: the averages in memory, the transactions spilled as
  lines of JSON and streamed back in batches).  Each interprets \<open>client_aggregate\<close> over the messages
  of its two sides; the properties say what the one result, or the batches together, contain.
\<close>

section \<open>UC2\<close>

record uc2_merge =
  um_max :: "(string, string \<times> amount) dict per_client"
  um_names :: "(string, string) dict per_client"

definition new_uc2_merge :: uc2_merge where
  "new_uc2_merge = \<lparr>um_max = [], um_names = []\<rparr>"

definition uc2_left :: "uc2_merge \<Rightarrow> uuid \<Rightarrow> (string, string \<times> amount) dict \<Rightarrow> uc2_merge" where
  "uc2_left st cid data =
     (let d = dict_setdefault cid [] (um_max st) in st\<lparr>um_max := dict_set cid (max_update (dict_get d cid []) data) d\<rparr>)"

definition uc2_right :: "uc2_merge \<Rightarrow> uuid \<Rightarrow> (string, string) dict \<Rightarrow> uc2_merge" where
  "uc2_right st cid data =
     (let d = dict_setdefault cid [] (um_names st) in st\<lparr>um_names := dict_set cid (dict_update (dict_get d cid []) data) d\<rparr>)"

definition merged_entries :: "(string, string \<times> amount) dict \<Rightarrow> (string, string) dict \<Rightarrow> (string \<times> string \<times> amount \<times> string) list" where
  "merged_entries mx names =
     concat (map (\<lambda>(b, acc, x). case dict_lookup names b of None \<Rightarrow> [] | Some n \<Rightarrow> [(b, acc, x, n)]) mx)"

definition uc2_merge_result :: "uc2_merge \<Rightarrow> uuid \<Rightarrow> (string \<times> string \<times> amount \<times> string) list list \<times> uc2_merge" where
  "uc2_merge_result st cid =
     ([merged_entries (dict_get (um_max st) cid []) (dict_get (um_names st) cid [])],
      \<lparr>um_max = dict_pop cid (um_max st), um_names = dict_pop cid (um_names st)\<rparr>)"

definition uc2_merge_discard :: "uc2_merge \<Rightarrow> uuid \<Rightarrow> uc2_merge" where
  "uc2_merge_discard st cid = \<lparr>um_max = dict_pop cid (um_max st), um_names = dict_pop cid (um_names st)\<rparr>"

definition uc2_merge_snapshot ::
    "uc2_merge \<Rightarrow> (string \<times> (string \<times> string \<times> amount) list) list \<times> (string \<times> (string \<times> string) list) list" where
  "uc2_merge_snapshot st = (snapshot_clients (um_max st), snapshot_clients (um_names st))"

definition uc2_merge_restore ::
    "(string \<times> (string \<times> string \<times> amount) list) list \<times> (string \<times> (string \<times> string) list) list \<Rightarrow> uc2_merge result" where
  "uc2_merge_restore sn =
     bind_result (restore_clients (fst sn)) (\<lambda>m. bind_result (restore_clients (snd sn)) (\<lambda>n.
       Inr \<lparr>um_max = m, um_names = n\<rparr>))"

fun uc2_msg :: "uc2_merge \<Rightarrow> uuid \<Rightarrow> (string, string \<times> amount) dict + (string, string) dict \<Rightarrow> uc2_merge" where
  "uc2_msg st cid (Inl d) = uc2_left st cid d"
| "uc2_msg st cid (Inr d) = uc2_right st cid d"

interpretation uc2: client_aggregate new_uc2_merge uc2_msg uc2_merge_discard "\<lambda>_. True" "\<lambda>_. True"
    "\<lambda>st c. (dict_get (um_max st) c [], dict_get (um_names st) c [])" "([], [])"
    "\<lambda>v m. case m of Inl d \<Rightarrow> (max_update (fst v) d, snd v) | Inr d \<Rightarrow> (fst v, dict_update (snd v) d)"
proof
  fix s :: uc2_merge and c c' m
  show "(dict_get (um_max (uc2_msg s c m)) c' [], dict_get (um_names (uc2_msg s c m)) c' []) =
    (if c' = c
     then case m of Inl d \<Rightarrow> (max_update (fst (dict_get (um_max s) c [], dict_get (um_names s) c [])) d, snd (dict_get (um_max s) c [], dict_get (um_names s) c []))
          | Inr d \<Rightarrow> (fst (dict_get (um_max s) c [], dict_get (um_names s) c []), dict_update (snd (dict_get (um_max s) c [], dict_get (um_names s) c [])) d)
     else (dict_get (um_max s) c' [], dict_get (um_names s) c' []))"
    by (cases m) (simp_all add: uc2_left_def uc2_right_def Let_def)
qed (simp_all add: new_uc2_merge_def uc2_merge_discard_def)

lemma fold_uc2_view:
  "foldl (\<lambda>v m. case m of Inl d \<Rightarrow> (max_update (fst v) d, snd v) | Inr d \<Rightarrow> (fst v, dict_update (snd v) d)) v ms =
     (max_update (fst v) (concat (lefts ms)), foldl dict_update (snd v) (rights ms))"
proof (induction ms arbitrary: v)
  case (Cons m ms)
  then show ?case by (cases m) (simp_all add: max_update_def)
qed (simp add: max_update_def)

lemma merged_entries_iff: "(b, acc, x, n) \<in> set (merged_entries mx names) \<longleftrightarrow> (b, acc, x) \<in> set mx \<and> dict_lookup names b = Some n"
  by (auto simp: merged_entries_def split: option.splits)

text \<open>
  UC2's merge joins the largest payments with the names.  From any interleaving of the two
  sides and of other clients, its one message has an entry for exactly the banks that have both a
  maximum and a name; the amount is the largest of all the maxima received for the bank, held by the
  account it names, and no bank appears twice.
\<close>

theorem uc2_merge_correct:
  assumes "st = foldl (\<lambda>st (c, m). uc2_msg st c m) new_uc2_merge ins" "ms = client_items cid ins"
  shows "\<exists>es. uc2_merge_result st cid = ([es], uc2_merge_discard st cid) \<and> distinct (map fst es) \<and>
    (\<forall>b n. (\<exists>acc x. (b, acc, x, n) \<in> set es) \<longleftrightarrow>
       b \<in> fst ` set (concat (lefts ms)) \<and> dict_lookup (foldl dict_update [] (rights ms)) b = Some n) \<and>
    (\<forall>(b, acc, x, n)\<in>set es. (b, acc, x) \<in> set (concat (lefts ms)) \<and>
       (\<forall>acc' y. (b, acc', y) \<in> set (concat (lefts ms)) \<longrightarrow> y \<le> x))"
proof -
  let ?mx = "max_update [] (concat (lefts ms))" and ?nm = "foldl dict_update [] (rights ms)"
  let ?es = "merged_entries ?mx ?nm"
  have v: "dict_get (um_max st) cid [] = ?mx" "dict_get (um_names st) cid [] = ?nm"
    using uc2.view_run_init [of ins cid] by (simp_all add: fold_uc2_view assms client_items_def)
  have r: "uc2_merge_result st cid = ([?es], uc2_merge_discard st cid)"
    by (simp add: uc2_merge_result_def uc2_merge_discard_def v)
  have wf: "wf_dict ?mx" by simp
  have mem: "(b, acc, x) \<in> set ?mx \<longleftrightarrow> map_of ?mx b = Some (acc, x)" for b acc x
    using wf by (auto simp: wf_dict_def map_of_is_SomeI dest: map_of_SomeD)
  have mx: "is_max_entry (set (concat (lefts ms))) b (map_of ?mx b)" for b by (rule max_update_Nil)
  have "map fst (merged_entries d nm) = filter (\<lambda>b. dict_lookup nm b \<noteq> None) (map fst d)" for d nm
    by (induction d) (auto simp: merged_entries_def split: option.splits)
  then have dist: "distinct (map fst ?es)" using wf by (simp add: wf_dict_def)
  have max: "(b, acc, x) \<in> set (concat (lefts ms)) \<and> (\<forall>acc' y. (b, acc', y) \<in> set (concat (lefts ms)) \<longrightarrow> y \<le> x)"
    if "(b, acc, x, n) \<in> set ?es" for b acc x n
    using that mx [of b] by (auto simp: merged_entries_iff mem is_max_entry_def simp del: set_concat)
  have banks: "(\<exists>acc x. (b, acc, x) \<in> set ?mx) \<longleftrightarrow> b \<in> fst ` set (concat (lefts ms))" for b
    using mx [of b] unfolding mem is_max_entry_def by (cases "map_of ?mx b") (force simp del: set_concat)+
  show ?thesis using r dist max banks by (intro exI [of _ ?es]) (auto simp: merged_entries_iff simp del: set_concat)
qed

definition demo_uc2 :: "(uuid \<times> ((string, string \<times> amount) dict + (string, string) dict)) list" where
  "demo_uc2 = [(7, Inl [(''1'', ''A'', 5)]), (8, Inl [(''1'', ''C'', 9)]), (7, Inr [(''1'', ''Bank'')]), (7, Inl [(''1'', ''B'', 6), (''2'', ''D'', 1)])]"

theorem uc2_merge_correct_witness:
  "\<exists>es. uc2_merge_result (foldl (\<lambda>st (c, m). uc2_msg st c m) new_uc2_merge demo_uc2) 7 =
      ([es], uc2_merge_discard (foldl (\<lambda>st (c, m). uc2_msg st c m) new_uc2_merge demo_uc2) 7) \<and> (''1'', ''B'', 6, ''Bank'') \<in> set es"
proof -
  have r: "fst (uc2_merge_result (foldl (\<lambda>st (c, m). uc2_msg st c m) new_uc2_merge demo_uc2) 7) = [[(''1'', ''B'', 6, ''Bank'')]]"
    by code_simp
  from uc2_merge_correct [OF refl refl, of demo_uc2 7] r show ?thesis by (elim exE conjE) auto
qed

section \<open>UC3\<close>

record uc3_merge =
  tm_averages :: "(string, amount) dict per_client"
  tm_spill :: "uuid spill"

definition new_uc3_merge :: uc3_merge where
  "new_uc3_merge = \<lparr>tm_averages = [], tm_spill = new_spill []\<rparr>"

text \<open>
  \<open>strptime\<close> with the format \<open>%Y-%m-%d %H:%M:%S\<close> on texts of full width, the only ones \<open>strftime\<close>
  writes; the spill holds no others.
\<close>

definition full_width_time :: "string \<Rightarrow> bool" where
  "full_width_time s \<longleftrightarrow>
     length s = 19 \<and> s ! 4 = CHR ''-'' \<and> s ! 7 = CHR ''-'' \<and> s ! 10 = CHR '' '' \<and> s ! 13 = CHR '':'' \<and> s ! 16 = CHR '':'' \<and>
     list_all (\<lambda>i. s ! i \<in> set ''0123456789'') [0, 1, 2, 3, 5, 6, 8, 9, 11, 12, 14, 15, 17, 18]"

definition strptime :: "string \<Rightarrow> datetime result" where
  "strptime s = (if full_width_time s then fast_datetime s else Inl (ValueError ''time data does not match format''))"

text \<open>\<open>repr\<close> is the text of a float, as in \<open>Json\<close>.  A timestamp that is text has no \<open>strftime\<close>.\<close>

definition uc3_line :: "(amount \<Rightarrow> string) \<Rightarrow> transaction \<Rightarrow> string result" where
  "uc3_line repr t =
     (case t_timestamp t of
        TText _ \<Rightarrow> Inl AttributeError
      | TTime d \<Rightarrow> Inr (json_dumps repr (JList
          [JStr (datetime_str d), JStr (t_from_bank t), JStr (t_from_account t), JStr (t_to_bank t), JStr (t_to_account t),
           JFloat (t_amount_received t), JStr (t_receiving_currency t), JFloat (t_amount_paid t), JStr (t_payment_currency t),
           JStr (t_payment_format t)])))"

definition uc3_of_line :: "string \<Rightarrow> transaction result" where
  "uc3_of_line line =
     bind_result (json_loads line) (\<lambda>v.
       case v of
         JList [JStr tm, JStr fb, JStr fa, JStr tb, JStr ta, JFloat ar, JStr rc, JFloat ap, JStr pc, JStr pf] \<Rightarrow>
           bind_result (strptime tm) (\<lambda>d.
             Inr \<lparr>t_timestamp = TTime d, t_from_bank = fb, t_from_account = fa, t_to_bank = tb, t_to_account = ta,
                  t_amount_received = ar, t_receiving_currency = rc, t_amount_paid = ap, t_payment_currency = pc,
                  t_payment_format = pf\<rparr>)
       | _ \<Rightarrow> Inl TypeError)"

definition uc3_left :: "uc3_merge \<Rightarrow> uuid \<Rightarrow> (string, amount) dict \<Rightarrow> uc3_merge" where
  "uc3_left st cid avgs =
     (let d = dict_setdefault cid [] (tm_averages st)
      in st\<lparr>tm_averages := dict_set cid (foldl (\<lambda>a (f, x). dict_set f x a) (dict_get d cid []) avgs) d\<rparr>)"

fun uc3_right :: "(amount \<Rightarrow> string) \<Rightarrow> uc3_merge \<Rightarrow> uuid \<Rightarrow> transaction list \<Rightarrow> uc3_merge result" where
  "uc3_right repr st cid [] = Inr st"
| "uc3_right repr st cid (t # ts) =
     bind_result (uc3_line repr t) (\<lambda>l. uc3_right repr (st\<lparr>tm_spill := append_line (tm_spill st) cid (l @ newline)\<rparr>) cid ts)"

text \<open>The loop of \<open>get_result\<close>; \<open>_CHUNK_SIZE\<close> is 10 000.\<close>

fun uc3_loop :: "nat \<Rightarrow> (string, amount) dict \<Rightarrow> transaction list \<Rightarrow> bool \<Rightarrow> string list \<Rightarrow> transaction list list result" where
  "uc3_loop chunk avgs batch emitted [] = Inr (if batch \<noteq> [] then [batch] else if emitted then [] else [[]])"
| "uc3_loop chunk avgs batch emitted (line # lines) =
     bind_result (uc3_of_line (rstrip_newlines line)) (\<lambda>t.
       if dict_in (t_payment_format t) avgs then
         let batch = batch @ [t] in
         if chunk \<le> length batch then bind_result (uc3_loop chunk avgs [] True lines) (\<lambda>bs. Inr (batch # bs))
         else uc3_loop chunk avgs batch emitted lines
       else uc3_loop chunk avgs batch emitted lines)"

definition uc3_merge_result :: "nat \<Rightarrow> uc3_merge \<Rightarrow> uuid \<Rightarrow> (transaction list \<times> (string, amount) dict) list result \<times> uc3_merge" where
  "uc3_merge_result chunk st cid =
     (let avgs = dict_get (tm_averages st) cid [] in
      case iter_lines (tm_spill st) cid of
        (lines, sp) \<Rightarrow>
          (bind_result (uc3_loop chunk avgs [] False lines) (\<lambda>bs. Inr (map (\<lambda>b. (b, avgs)) bs)),
           \<lparr>tm_averages = dict_pop cid (tm_averages st), tm_spill = sp\<rparr>))"

definition uc3_merge_discard :: "uc3_merge \<Rightarrow> uuid \<Rightarrow> uc3_merge" where
  "uc3_merge_discard st cid = \<lparr>tm_averages = dict_pop cid (tm_averages st), tm_spill = clear_spill (tm_spill st) cid\<rparr>"

definition uc3_merge_snapshot :: "uc3_merge \<Rightarrow> ((string \<times> (string \<times> amount) list) list \<times> (uuid \<times> nat) list) \<times> uc3_merge" where
  "uc3_merge_snapshot st =
     (case snapshot_spill (tm_spill st) of (sn, sp) \<Rightarrow> ((snapshot_clients (tm_averages st), sn), st\<lparr>tm_spill := sp\<rparr>))"

definition uc3_merge_restore :: "(string \<times> (string \<times> amount) list) list \<times> (uuid \<times> nat) list \<Rightarrow> uc3_merge \<Rightarrow> uc3_merge result" where
  "uc3_merge_restore sn st =
     bind_result (restore_clients (fst sn)) (\<lambda>avgs. Inr \<lparr>tm_averages = avgs, tm_spill = restore_persistent (snd sn) (tm_spill st)\<rparr>)"

definition uc3_clear_stale :: "uc3_merge \<Rightarrow> uc3_merge" where
  "uc3_clear_stale st = st\<lparr>tm_spill := clear_all (tm_spill st)\<rparr>"

section \<open>Lines of transactions\<close>

definition spillable :: "(amount \<Rightarrow> string) \<Rightarrow> transaction \<Rightarrow> bool" where
  "spillable repr t \<longleftrightarrow>
     (\<exists>d. t_timestamp t = TTime d \<and> valid_datetime d) \<and> float_text repr (t_amount_received t) \<and> float_text repr (t_amount_paid t)"

lemma fixed_digits_few:
  "fixed_digits b 2 n = [digit_char (n div b mod b), digit_char (n mod b)]"
  "fixed_digits b 4 n = [digit_char (n div b div b div b mod b), digit_char (n div b div b mod b), digit_char (n div b mod b), digit_char (n mod b)]"
  by (simp_all add: numeral_eq_Suc)

lemma decimal_digit: "digit_char (n mod 10) \<in> set ''0123456789''"
proof -
  have "\<forall>m\<in>set [0..<10]. digit_char m \<in> set ''0123456789''" by code_simp
  then show ?thesis by (simp del: set_simps)
qed

lemma strptime_strftime: "valid_datetime d \<Longrightarrow> strptime (datetime_str d) = Inr d"
proof -
  assume v: "valid_datetime d"
  have "full_width_time (datetime_str d)"
    unfolding full_width_time_def datetime_str_def fixed_digits_few
    using decimal_digit by (simp del: set_simps)
  with fast_datetime_str [OF v] show ?thesis by (simp add: strptime_def)
qed

definition line_of :: "(amount \<Rightarrow> string) \<Rightarrow> transaction \<Rightarrow> string" where
  "line_of repr t = (case uc3_line repr t of Inl _ \<Rightarrow> [] | Inr l \<Rightarrow> l)"

lemma spillable_line:
  assumes "spillable repr t"
  shows "uc3_line repr t = Inr (line_of repr t)" "CHR 0x0A \<notin> set (line_of repr t)"
    and "uc3_of_line (rstrip_newlines (line_of repr t @ newline)) = Inr t"
    and "uc3_of_line (line_of repr t @ newline) = Inr t"
proof -
  obtain d where d: "t_timestamp t = TTime d" "valid_datetime d" using assms by (auto simp: spillable_def)
  let ?v = "JList [JStr (datetime_str d), JStr (t_from_bank t), JStr (t_from_account t), JStr (t_to_bank t), JStr (t_to_account t),
           JFloat (t_amount_received t), JStr (t_receiving_currency t), JFloat (t_amount_paid t), JStr (t_payment_currency t),
           JStr (t_payment_format t)]"
  have ok: "json_ok repr ?v" using assms by (simp add: spillable_def)
  have l: "line_of repr t = json_dumps repr ?v" "uc3_line repr t = Inr (json_dumps repr ?v)"
    by (simp_all only: line_of_def uc3_line_def d tstamp.case sum.case)
  show "uc3_line repr t = Inr (line_of repr t)" by (simp only: l)
  show one: "CHR 0x0A \<notin> set (line_of repr t)" unfolding l by (rule json_dumps_one_line [OF ok])
  have dec: "uc3_of_line x = Inr t" if "json_loads x = Inr ?v" for x
    using that strptime_strftime [OF d(2)] d(1) by (cases t) (simp add: uc3_of_line_def)
  show "uc3_of_line (rstrip_newlines (line_of repr t @ newline)) = Inr t"
    unfolding rstrip_line [OF one] unfolding l by (rule dec) (rule json_roundtrip [OF ok])
  show "uc3_of_line (line_of repr t @ newline) = Inr t"
    unfolding l by (rule dec) (rule json_roundtrip_line [OF ok])
qed

interpretation tl: item_codec "line_of repr" uc3_of_line "\<lambda>_. 0" "spillable repr" for repr
  by unfold_locales (simp_all add: spillable_line)

lemma uc3_right_spills:
  "\<forall>t\<in>set ts. spillable repr t \<Longrightarrow>
   \<exists>sp. uc3_right repr st cid ts = Inr (st\<lparr>tm_spill := sp\<rparr>) \<and>
     (\<forall>c. content sp c = content (tm_spill st) c @ (if c = cid then concat (map (\<lambda>t. line_of repr t @ newline) ts) else []))"
proof (induction ts arbitrary: st)
  case Nil
  then show ?case by (auto intro!: exI [of _ "tm_spill st"])
next
  case (Cons t ts)
  let ?st = "st\<lparr>tm_spill := append_line (tm_spill st) cid (line_of repr t @ newline)\<rparr>"
  from Cons.IH [of ?st] Cons.prems obtain sp where "uc3_right repr ?st cid ts = Inr (?st\<lparr>tm_spill := sp\<rparr>)"
    "\<forall>c. content sp c = content (tm_spill ?st) c @ (if c = cid then concat (map (\<lambda>t. line_of repr t @ newline) ts) else [])" by auto
  then show ?case using Cons.prems by (intro exI [of _ sp]) (simp add: spillable_line(1))
qed

section \<open>The batches\<close>

lemma uc3_loop_batches:
  assumes "\<forall>t\<in>set ts. spillable repr t" "0 < chunk" "length batch < chunk"
  shows "\<exists>bs. uc3_loop chunk avgs batch emitted (map (\<lambda>t. line_of repr t @ newline) ts) = Inr bs \<and>
    concat bs = batch @ filter (\<lambda>t. dict_in (t_payment_format t) avgs) ts \<and> (\<forall>b\<in>set bs. length b \<le> chunk) \<and> (emitted \<or> bs \<noteq> [])"
  using assms(1,3)
proof (induction ts arbitrary: batch emitted)
  case Nil
  then show ?case by auto
next
  case (Cons t ts)
  have t: "uc3_of_line (rstrip_newlines (line_of repr t @ newline)) = Inr t" using Cons.prems(1) by (simp add: spillable_line(3))
  have ts: "\<forall>t\<in>set ts. spillable repr t" using Cons.prems(1) by simp
  show ?case
  proof (cases "dict_in (t_payment_format t) avgs")
    case False
    with Cons.IH [OF ts Cons.prems(2), of emitted] show ?thesis by (simp add: t)
  next
    case True
    show ?thesis
    proof (cases "chunk \<le> length (batch @ [t])")
      case c: True
      from Cons.IH [OF ts, of "[]" True] assms(2) obtain bs where
        "uc3_loop chunk avgs [] True (map (\<lambda>t. line_of repr t @ newline) ts) = Inr bs"
        "concat bs = filter (\<lambda>t. dict_in (t_payment_format t) avgs) ts" "\<forall>b\<in>set bs. length b \<le> chunk" by auto
      with True c Cons.prems(2) show ?thesis by (intro exI [of _ "(batch @ [t]) # bs"]) (simp add: t Let_def)
    next
      case False
      then have "length (batch @ [t]) < chunk" by simp
      from Cons.IH [OF ts this, of emitted] True False show ?thesis by (simp add: t Let_def)
    qed
  qed
qed

section \<open>The messages of a client\<close>

text \<open>The state after a message that did not raise.\<close>

fun uc3_msg :: "(amount \<Rightarrow> string) \<Rightarrow> uc3_merge \<Rightarrow> uuid \<Rightarrow> (string, amount) dict + transaction list \<Rightarrow> uc3_merge" where
  "uc3_msg repr st cid (Inl d) = uc3_left st cid d"
| "uc3_msg repr st cid (Inr ts) = (case uc3_right repr st cid ts of Inl _ \<Rightarrow> st | Inr st' \<Rightarrow> st')"

definition set_all :: "('k, 'v) dict \<Rightarrow> ('k \<times> 'v) list \<Rightarrow> ('k, 'v) dict" where
  "set_all d kvs = foldl (\<lambda>a (f, x). dict_set f x a) d kvs"

fun uc3_view_step :: "(amount \<Rightarrow> string) \<Rightarrow> (string, amount) dict \<times> string \<Rightarrow> (string, amount) dict + transaction list \<Rightarrow> (string, amount) dict \<times> string" where
  "uc3_view_step repr (a, t) (Inl d) = (set_all a d, t)"
| "uc3_view_step repr (a, t) (Inr ts) = (a, t @ concat (map (\<lambda>t. line_of repr t @ newline) ts))"

interpretation uc3: client_aggregate new_uc3_merge "uc3_msg repr" uc3_merge_discard "\<lambda>_. True"
    "case_sum (\<lambda>_. True) (\<lambda>ts. \<forall>t\<in>set ts. spillable repr t)"
    "\<lambda>st c. (dict_get (tm_averages st) c [], content (tm_spill st) c)" "([], [])" "uc3_view_step repr" for repr
proof
  fix s :: uc3_merge and c c' and m :: "(string, amount) dict + transaction list"
  assume "case_sum (\<lambda>_. True) (\<lambda>ts. \<forall>t\<in>set ts. spillable repr t) m"
  then show "(dict_get (tm_averages (uc3_msg repr s c m)) c' [], content (tm_spill (uc3_msg repr s c m)) c') =
    (if c' = c then uc3_view_step repr (dict_get (tm_averages s) c [], content (tm_spill s) c) m
     else (dict_get (tm_averages s) c' [], content (tm_spill s) c'))"
  proof (cases m)
    case (Inr ts)
    moreover assume "case_sum (\<lambda>_. True) (\<lambda>ts. \<forall>t\<in>set ts. spillable repr t) m"
    ultimately obtain sp where "uc3_right repr s c ts = Inr (s\<lparr>tm_spill := sp\<rparr>)"
      "\<And>c'. content sp c' = content (tm_spill s) c' @ (if c' = c then concat (map (\<lambda>t. line_of repr t @ newline) ts) else [])"
      using uc3_right_spills [of ts repr s c] by auto
    with Inr show ?thesis by simp
  qed (simp add: uc3_left_def Let_def set_all_def)
qed (simp_all add: new_uc3_merge_def uc3_merge_discard_def, simp add: new_spill_def content_def)

lemma fold_uc3_view:
  "foldl (uc3_view_step repr) (a, t) ms =
     (foldl set_all a (lefts ms), t @ concat (map (\<lambda>t. line_of repr t @ newline) (concat (rights ms))))"
proof (induction ms arbitrary: a t)
  case (Cons m ms)
  then show ?case by (cases m) simp_all
qed simp

lemma uc3_merge_batches:
  assumes "\<forall>x\<in>set ins. case snd x of Inl _ \<Rightarrow> True | Inr ts \<Rightarrow> \<forall>t\<in>set ts. spillable repr t" "0 < chunk"
    and "ms = client_items cid ins" "avgs = foldl set_all [] (lefts ms)"
  shows "\<exists>bs. fst (uc3_merge_result chunk (foldl (\<lambda>st (c, m). uc3_msg repr st c m) new_uc3_merge ins) cid) =
      Inr (map (\<lambda>b. (b, avgs)) bs) \<and>
    concat bs = filter (\<lambda>t. dict_in (t_payment_format t) avgs) (concat (rights ms)) \<and> bs \<noteq> [] \<and> (\<forall>b\<in>set bs. length b \<le> chunk)"
proof -
  let ?st = "foldl (\<lambda>st (c, m). uc3_msg repr st c m) new_uc3_merge ins"
  let ?ts = "concat (rights ms)"
  have v: "dict_get (tm_averages ?st) cid [] = avgs" "content (tm_spill ?st) cid = concat (map (\<lambda>t. line_of repr t @ newline) ?ts)"
    using uc3.view_run_init [of ins repr cid] assms(1) by (simp_all add: fold_uc3_view assms(3,4) client_items_def)
  have good: "\<forall>t\<in>set ?ts. spillable repr t"
    using assms(1) by (fastforce simp: set_rights client_items_def assms(3))
  obtain sp where l: "iter_lines (tm_spill ?st) cid = (map (\<lambda>t. line_of repr t @ newline) ?ts, sp)"
    using iter_lines_content [of "tm_spill ?st" cid] tl.lines_of_items [of ?ts repr] good
    by (cases "iter_lines (tm_spill ?st) cid") (simp add: v(2))
  from uc3_loop_batches [OF good assms(2), of "[]" avgs False] assms(2) obtain bs where bs:
    "uc3_loop chunk avgs [] False (map (\<lambda>t. line_of repr t @ newline) ?ts) = Inr bs"
    "concat bs = filter (\<lambda>t. dict_in (t_payment_format t) avgs) ?ts" "\<forall>b\<in>set bs. length b \<le> chunk" "bs \<noteq> []" by auto
  then show ?thesis
    by (intro exI [of _ bs]) (simp add: uc3_merge_result_def v(1) l Let_def)
qed

text \<open>
  C26.  UC3's merge pairs the transactions with the averages in bounded batches.  From any
  interleaving of the two sides and of other clients, its messages together carry exactly the
  client's transactions whose payment format has an average, in the order they arrived; every
  message carries the final averages, none has more than the chunk size of transactions, and there
  is always at least one.
\<close>

theorem uc3_merge_bounded:
  assumes "\<forall>x\<in>set ins. case snd x of Inl _ \<Rightarrow> True | Inr ts \<Rightarrow> \<forall>t\<in>set ts. spillable repr t" "0 < chunk"
    and "ms = client_items cid ins" "avgs = foldl set_all [] (lefts ms)"
  shows "\<exists>out st'. uc3_merge_result chunk (foldl (\<lambda>st (c, m). uc3_msg repr st c m) new_uc3_merge ins) cid = (Inr out, st') \<and>
    concat (map fst out) = filter (\<lambda>t. dict_in (t_payment_format t) avgs) (concat (rights ms)) \<and>
    out \<noteq> [] \<and> (\<forall>m\<in>set out. snd m = avgs \<and> length (fst m) \<le> chunk)"
proof -
  let ?r = "uc3_merge_result chunk (foldl (\<lambda>st (c, m). uc3_msg repr st c m) new_uc3_merge ins) cid"
  from uc3_merge_batches [OF assms] obtain bs where bs: "fst ?r = Inr (map (\<lambda>b. (b, avgs)) bs)"
    "concat bs = filter (\<lambda>t. dict_in (t_payment_format t) avgs) (concat (rights ms))" "bs \<noteq> []" "\<forall>b\<in>set bs. length b \<le> chunk" by blast
  then show ?thesis by (intro exI [of _ "map (\<lambda>b. (b, avgs)) bs"] exI [of _ "snd ?r"]) (cases ?r; simp add: comp_def)
qed

definition demo_uc3 :: "(uuid \<times> ((string, amount) dict + transaction list)) list" where
  "demo_uc3 = [(7, Inr [demo_transaction 6 3, demo_transaction 7 3]), (7, Inl [(''Wire'', 8)]), (7, Inr [demo_transaction 8 3])]"

theorem uc3_merge_bounded_witness:
  "\<exists>out st'. uc3_merge_result 2 (foldl (\<lambda>st (c, m). uc3_msg (\<lambda>_. ''3.0'') st c m) new_uc3_merge demo_uc3) 7 = (Inr out, st') \<and>
    concat (map fst out) = [demo_transaction 6 3, demo_transaction 7 3, demo_transaction 8 3]"
proof -
  have "float_text (\<lambda>_. ''3.0'') 3" by code_simp
  then have s: "\<forall>x\<in>set demo_uc3. case snd x of Inl _ \<Rightarrow> True | Inr ts \<Rightarrow> \<forall>t\<in>set ts. spillable (\<lambda>_. ''3.0'') t"
    by (simp add: demo_uc3_def spillable_def demo_transaction_def day_time_def valid_datetime_def days_in_month_def)
  have "filter (\<lambda>t. dict_in (t_payment_format t) (foldl set_all [] (lefts (client_items 7 demo_uc3)))) (concat (rights (client_items 7 demo_uc3))) =
      [demo_transaction 6 3, demo_transaction 7 3, demo_transaction 8 3]"
    by (simp add: demo_uc3_def client_items_def set_all_def demo_transaction_def dict_in_lookup)
  with uc3_merge_bounded [OF s, of 2 _ 7, OF _ refl refl] show ?thesis by fastforce
qed

end
