(* ===== verification/Join_Fns.thy ===== *)
theory Join_Fns
  imports Spilled_Items Aggregates
begin

text \<open>
  The join functions (\<open>join/join_fns\<close>): each use case collects a client's partial results and turns
  them into the text of one or more responses.  UC1 and UC3 can be huge and go through a spill and
  \<open>stream_responses\<close>; the others keep their data in memory and answer with one message.  A response
  is its body and its \<open>last\<close> flag here; the route handler adds the use case and the client.
\<close>

type_synonym response = "string \<times> bool"

section \<open>Streaming a spilled result\<close>

text \<open>Header on the first chunk, \<open>last\<close> on the final one only.\<close>

fun stream_rest :: "string \<Rightarrow> string list \<Rightarrow> response list" where
  "stream_rest prev [] = [(prev @ newline, True)]"
| "stream_rest prev (nxt # chunks) = (prev, False) # stream_rest nxt chunks"

definition stream_chunks :: "string \<Rightarrow> string list \<Rightarrow> response list" where
  "stream_chunks header chunks =
     (case chunks of [] \<Rightarrow> [(header @ newline, True)] | c # cs \<Rightarrow> stream_rest (header @ c) cs)"

definition stream_responses :: "uuid spill \<Rightarrow> uuid \<Rightarrow> string \<Rightarrow> nat \<Rightarrow> response list \<times> uuid spill" where
  "stream_responses sp cid header batch_lines =
     (case iter_chunks sp cid batch_lines of (chunks, sp1) \<Rightarrow> (stream_chunks header chunks, sp1))"

text \<open>\<open>LineSpill\<close>, the spill over temporary files: one text per client, gone with the process.\<close>

type_synonym line_spill = "(uuid, string) dict"

definition ls_append :: "line_spill \<Rightarrow> uuid \<Rightarrow> string \<Rightarrow> line_spill" where
  "ls_append s cid line = dict_set cid (dict_get s cid [] @ line) s"

definition ls_clear :: "line_spill \<Rightarrow> uuid \<Rightarrow> line_spill" where
  "ls_clear s cid = dict_pop cid s"

definition ls_read_and_clear :: "line_spill \<Rightarrow> uuid \<Rightarrow> string \<times> line_spill" where
  "ls_read_and_clear s cid = (dict_get s cid [], dict_pop cid s)"

definition ls_iter_chunks :: "line_spill \<Rightarrow> uuid \<Rightarrow> nat \<Rightarrow> string list" where
  "ls_iter_chunks s cid n = (case dict_lookup s cid of None \<Rightarrow> [] | Some text \<Rightarrow> chunk_loop n [] (lines_of text))"

definition ls_iter_chunks_and_clear :: "line_spill \<Rightarrow> uuid \<Rightarrow> nat \<Rightarrow> string list \<times> line_spill" where
  "ls_iter_chunks_and_clear s cid n = (ls_iter_chunks s cid n, dict_pop cid s)"

section \<open>The use cases\<close>

text \<open>\<open>{s:<n}\<close> pads with spaces on the right; \<open>repr\<close> is the text of a float.\<close>

definition pad_right :: "nat \<Rightarrow> string \<Rightarrow> string" where
  "pad_right n s = s @ replicate (n - length s) (CHR '' '')"

definition uc1_line :: "(amount \<Rightarrow> string) \<Rightarrow> transaction \<Rightarrow> string" where
  "uc1_line repr t =
     newline @ ''origin: '' @ pad_right 20 (t_from_bank t @ ''-'' @ t_from_account t) @
     '' destination: '' @ pad_right 20 (t_to_bank t @ ''-'' @ t_to_account t) @ '' amount: '' @ repr (t_amount_paid t)"

definition uc3_result_line :: "(amount \<Rightarrow> string) \<Rightarrow> transaction \<Rightarrow> string" where
  "uc3_result_line repr t =
     newline @ ''bank_id: '' @ pad_right 20 (t_from_bank t) @ '' account: '' @ pad_right 20 (t_from_account t) @
     '' payment_format: '' @ pad_right 20 (t_payment_format t) @ '' amount: '' @ repr (t_amount_paid t)"

definition append_all :: "('i \<Rightarrow> string) \<Rightarrow> uuid spill \<Rightarrow> uuid \<Rightarrow> 'i list \<Rightarrow> uuid spill" where
  "append_all line sp cid is = foldl (\<lambda>sp i. append_line sp cid (line i)) sp is"

definition uc1_join :: "(amount \<Rightarrow> string) \<Rightarrow> uuid spill \<Rightarrow> uuid \<Rightarrow> transaction list \<Rightarrow> uuid spill" where
  "uc1_join repr = append_all (uc1_line repr)"

definition uc1_responses :: "uuid spill \<Rightarrow> uuid \<Rightarrow> nat \<Rightarrow> response list \<times> uuid spill" where
  "uc1_responses sp cid n = stream_responses sp cid ''--- UC1 ---'' n"

definition uc3_join :: "(amount \<Rightarrow> string) \<Rightarrow> uuid spill \<Rightarrow> uuid \<Rightarrow> transaction list \<Rightarrow> uuid spill" where
  "uc3_join repr = append_all (uc3_result_line repr)"

definition uc3_responses :: "uuid spill \<Rightarrow> uuid \<Rightarrow> nat \<Rightarrow> response list \<times> uuid spill" where
  "uc3_responses sp cid n = stream_responses sp cid ''--- UC3 ---'' n"

type_synonym bank_entry = "string \<times> string \<times> amount \<times> string"

definition uc2_join :: "bank_entry list per_client \<Rightarrow> uuid \<Rightarrow> bank_entry list \<Rightarrow> bank_entry list per_client" where
  "uc2_join st cid es = (let d = dict_setdefault cid [] st in dict_set cid (dict_get d cid [] @ es) d)"

definition uc2_line :: "(amount \<Rightarrow> string) \<Rightarrow> bank_entry \<Rightarrow> string" where
  "uc2_line repr e =
     (case e of (bank, acc, x, name) \<Rightarrow>
        newline @ ''bank_id: '' @ pad_right 20 bank @ '' account: '' @ pad_right 20 acc @
        '' bank_name: '' @ pad_right 30 name @ '' amount: '' @ repr x)"

definition uc2_response :: "(amount \<Rightarrow> string) \<Rightarrow> bank_entry list per_client \<Rightarrow> uuid \<Rightarrow> response list \<times> bank_entry list per_client" where
  "uc2_response repr st cid =
     ([(''--- UC2 ---'' @ concat (map (uc2_line repr) (dict_get st cid [])) @ newline, True)], dict_pop cid st)"

definition uc4_join :: "(gpath \<times> int) list per_client \<Rightarrow> uuid \<Rightarrow> (gpath \<times> int) list \<Rightarrow> (gpath \<times> int) list per_client" where
  "uc4_join st cid cs =
     (let d = dict_setdefault cid [] st
      in dict_set cid (foldl (\<lambda>d (p, n). keyed_put path_key p n d) (dict_get d cid []) cs) d)"

text \<open>The accounts at the ends of the paths; the set is iterated in insertion order here.\<close>

definition accounts_of :: "(gpath \<times> int) list \<Rightarrow> (string \<times> string) list" where
  "accounts_of cs =
     foldl (\<lambda>acc p. List.insert (n_bank (p_destination p), n_account (p_destination p))
                     (List.insert (n_bank (p_origin p), n_account (p_origin p)) acc)) [] (map fst cs)"

definition uc4_line :: "string \<times> string \<Rightarrow> string" where
  "uc4_line a = newline @ ''bank: '' @ pad_right 20 (fst a) @ '' account: '' @ snd a"

definition uc4_response :: "(gpath \<times> int) list per_client \<Rightarrow> uuid \<Rightarrow> response list \<times> (gpath \<times> int) list per_client" where
  "uc4_response st cid =
     ([(''--- UC4 ---'' @ concat (map uc4_line (accounts_of (dict_get st cid []))) @ newline, True)], dict_pop cid st)"

definition uc5_join :: "int per_client \<Rightarrow> uuid \<Rightarrow> int \<Rightarrow> int per_client" where
  "uc5_join st cid n = (let d = dict_setdefault cid 0 st in dict_set cid (dict_get d cid 0 + n) d)"

definition uc5_response :: "int per_client \<Rightarrow> uuid \<Rightarrow> response list \<times> int per_client" where
  "uc5_response st cid =
     ([(''--- UC5 ---'' @ newline @ ''count: '' @ int_str (dict_get st cid 0) @ newline, True)], dict_pop cid st)"

text \<open>\<open>show\<close> is Python's text of the list of attribute dicts; the dummy keeps its data.\<close>

definition dummy_join :: "transaction list per_client \<Rightarrow> uuid \<Rightarrow> transaction list \<Rightarrow> transaction list per_client" where
  "dummy_join st cid ts = (let d = dict_setdefault cid [] st in dict_set cid (dict_get d cid [] @ ts) d)"

definition dummy_response :: "(transaction list \<Rightarrow> string) \<Rightarrow> transaction list per_client \<Rightarrow> uuid \<Rightarrow> response list \<times> transaction list per_client" where
  "dummy_response show st cid = (let d = dict_setdefault cid [] st in ([(show (dict_get d cid []), True)], d))"

section \<open>Checkpointing\<close>

text \<open>
  The functions in memory snapshot one serialized message per client; \<open>packb\<close> and \<open>unpackb\<close> are
  msgpack, as in \<open>Messages\<close>.
\<close>

definition msgs_snapshot :: "(pyval list \<Rightarrow> bytes) \<Rightarrow> ('v \<Rightarrow> payload) \<Rightarrow> 'v per_client \<Rightarrow> (string \<times> bytes) list result" where
  "msgs_snapshot packb mk st =
     map_result (\<lambda>(c, v). bind_result (serialize packb (new_message c (mk v))) (\<lambda>b. Inr (uuid_str c, b))) st"

definition msgs_restore :: "(bytes \<Rightarrow> pyval list option) \<Rightarrow> nat \<Rightarrow> (payload \<Rightarrow> 'v option) \<Rightarrow> (string \<times> bytes) list \<Rightarrow> 'v per_client result" where
  "msgs_restore unpackb code get sn =
     bind_result (map_result (\<lambda>(c, b). bind_result (parse_uuid c) (\<lambda>c. bind_result (deserialize unpackb code b) (\<lambda>m.
         case get (msg_payload m) of None \<Rightarrow> Inl AttributeError | Some v \<Rightarrow> Inr (c, v)))) sn)
       (\<lambda>kvs. Inr (dict_of kvs))"

definition uc2_join_snapshot :: "(pyval list \<Rightarrow> bytes) \<Rightarrow> bank_entry list per_client \<Rightarrow> (string \<times> bytes) list result" where
  "uc2_join_snapshot packb = msgs_snapshot packb MergedBankData"

definition uc2_join_restore :: "(bytes \<Rightarrow> pyval list option) \<Rightarrow> (string \<times> bytes) list \<Rightarrow> bank_entry list per_client result" where
  "uc2_join_restore unpackb = msgs_restore unpackb 7 (\<lambda>p. case p of MergedBankData es \<Rightarrow> Some es | _ \<Rightarrow> None)"

definition uc4_join_snapshot :: "(pyval list \<Rightarrow> bytes) \<Rightarrow> (gpath \<times> int) list per_client \<Rightarrow> (string \<times> bytes) list result" where
  "uc4_join_snapshot packb = msgs_snapshot packb PathCounts"

definition uc4_join_restore :: "(bytes \<Rightarrow> pyval list option) \<Rightarrow> (string \<times> bytes) list \<Rightarrow> (gpath \<times> int) list per_client result" where
  "uc4_join_restore unpackb = msgs_restore unpackb 9 (\<lambda>p. case p of PathCounts cs \<Rightarrow> Some cs | _ \<Rightarrow> None)"

definition uc5_join_snapshot :: "(pyval list \<Rightarrow> bytes) \<Rightarrow> int per_client \<Rightarrow> (string \<times> bytes) list result" where
  "uc5_join_snapshot packb = msgs_snapshot packb TransactionCount"

definition uc5_join_restore :: "(bytes \<Rightarrow> pyval list option) \<Rightarrow> (string \<times> bytes) list \<Rightarrow> int per_client result" where
  "uc5_join_restore unpackb = msgs_restore unpackb 10 (\<lambda>p. case p of TransactionCount n \<Rightarrow> Some n | _ \<Rightarrow> None)"

section \<open>The stream\<close>

lemma stream_rest_bodies: "concat (map fst (stream_rest prev chunks)) = prev @ concat chunks @ newline"
  by (induction prev chunks rule: stream_rest.induct) simp_all

lemma stream_rest_last: "map snd (stream_rest prev chunks) = replicate (length chunks) False @ [True]"
  by (induction prev chunks rule: stream_rest.induct) simp_all

lemma stream_bodies: "concat (map fst (stream_chunks header chunks)) = header @ concat chunks @ newline"
  by (cases chunks) (simp_all add: stream_chunks_def stream_rest_bodies)

lemma stream_last: "map snd (stream_chunks header chunks) = replicate (length chunks - 1) False @ [True]"
  by (cases chunks) (simp_all add: stream_chunks_def stream_rest_last)

definition newlines :: "string \<Rightarrow> nat" where
  "newlines s = count_list s (CHR 0x0A)"

lemma newlines_simps [simp]:
  "newlines (s @ t) = newlines s + newlines t" "newlines [] = 0" "newlines newline = 1"
  "newlines (c # s) = (if c = CHR 0x0A then 1 else 0) + newlines s"
  by (simp_all add: newlines_def newline_def)

lemma lines_newlines: "l \<in> set (lines_of s) \<Longrightarrow> newlines l \<le> 1"
proof (induction s arbitrary: l)
  case (Cons c s)
  then show ?case by (fastforce split: if_splits list.splits)
qed simp

lemma chunk_newlines:
  assumes "\<forall>l\<in>set (batch @ ls). newlines l \<le> 1" "length batch < n" "c \<in> set (chunk_loop n batch ls)"
  shows "newlines c \<le> n"
proof -
  have sum: "\<forall>l\<in>set b. newlines l \<le> 1 \<Longrightarrow> newlines (concat b) \<le> length b" for b
    by (induction b) auto
  from assms show ?thesis
  proof (induction n batch ls rule: chunk_loop.induct)
    case (1 n batch)
    then show ?case using sum [of batch] by (auto split: if_splits)
  next
    case (2 n batch l ls)
    show ?case
    proof (cases "n \<le> length (batch @ [l])")
      case True
      with 2(4) have len: "length (batch @ [l]) = n" by simp
      from 2 True sum [of "batch @ [l]"] len show ?thesis by (auto simp: Let_def)
    next
      case False
      with 2 show ?thesis by (auto simp: Let_def)
    qed
  qed
qed

lemma stream_rest_newlines:
  assumes "newlines prev \<le> n" "\<forall>c\<in>set chunks. newlines c \<le> n"
  shows "\<forall>r\<in>set (stream_rest prev chunks). newlines (fst r) \<le> n + 1"
  using assms by (induction prev chunks rule: stream_rest.induct) auto

section \<open>Spilled joins\<close>

lemma content_append_all [simp]:
  "content (append_all line sp c is) c' = content sp c' @ (if c' = c then concat (map line is) else [])"
  by (induction "is" arbitrary: sp) (auto simp: append_all_def)

interpretation spilled_join: client_aggregate "new_spill []" "append_all line" clear_spill "\<lambda>_. True" "\<lambda>_. True" content "[]"
    "\<lambda>t is. t @ concat (map line is)" for line
  by unfold_locales (simp_all, simp add: new_spill_def content_def)

lemma fold_text: "foldl (\<lambda>t is. t @ concat (map line is)) t iss = t @ concat (map line (concat iss))"
  by (induction iss arbitrary: t) simp_all

interpretation bank_join: client_aggregate "[]" uc2_join discard_client "\<lambda>_. True" "\<lambda>_. True"
    "\<lambda>st c. dict_get st c []" "[]" "(@)"
  by unfold_locales (simp_all add: uc2_join_def discard_client_def Let_def)

interpretation count_join: client_aggregate "[]" uc5_join discard_client "\<lambda>_. True" "\<lambda>_. True"
    "\<lambda>st c. dict_get st c 0" 0 "(+)"
  by unfold_locales (simp_all add: uc5_join_def discard_client_def Let_def)

interpretation path_join: client_aggregate "[]" uc4_join discard_client "\<lambda>_. True" "\<lambda>_. True"
    "\<lambda>st c. dict_get st c []" "[]" "\<lambda>d cs. foldl (\<lambda>d (p, n). keyed_put path_key p n d) d cs"
  by unfold_locales (simp_all add: uc4_join_def discard_client_def Let_def)

section \<open>Property\<close>

text \<open>
  A streamed result is the whole result, once and in order.  Whatever transactions a client
  sends to UC1's join, interleaved with other clients, and whatever the batch size, the bodies of the
  responses put together are the header, one line per transaction in their order, and a newline;
  only the last response is marked last, and no response has more lines than the batch allows.
\<close>

theorem uc1_stream_complete:
  assumes "rs = fst (uc1_responses (foldl (\<lambda>sp (c, ts). uc1_join repr sp c ts) (new_spill []) ins) cid n)" "0 < n"
  shows "concat (map fst rs) =
      ''--- UC1 ---'' @ concat (map (uc1_line repr) (concat (map snd (filter (\<lambda>x. fst x = cid) ins)))) @ newline \<and>
    (\<exists>k. map snd rs = replicate k False @ [True]) \<and> (\<forall>r\<in>set rs. newlines (fst r) \<le> n + 1)"
proof -
  let ?sp = "foldl (\<lambda>sp (c, ts). uc1_join repr sp c ts) (new_spill []) ins"
  let ?chunks = "chunk_loop n [] (lines_of (content ?sp cid))"
  have v: "content ?sp cid = concat (map (uc1_line repr) (concat (map snd (filter (\<lambda>x. fst x = cid) ins))))"
    unfolding uc1_join_def using spilled_join.view_run_init [of ins "uc1_line repr" cid] by (simp add: fold_text)
  have rs: "rs = stream_chunks ''--- UC1 ---'' ?chunks"
    using iter_lines_content [of ?sp cid]
    by (cases "iter_lines ?sp cid") (simp add: assms(1) uc1_responses_def stream_responses_def iter_chunks_def)
  have c: "newlines c \<le> n" if "c \<in> set ?chunks" for c
    using chunk_newlines [OF _ _ that] lines_newlines assms(2) by auto
  have "\<forall>r\<in>set rs. newlines (fst r) \<le> n + 1"
  proof (cases ?chunks)
    case Nil
    then show ?thesis by (simp add: rs stream_chunks_def)
  next
    case (Cons x xs)
    have "newlines (''--- UC1 ---'' @ x) \<le> n" using c [of x] by (simp add: Cons)
    moreover have "\<forall>c\<in>set xs. newlines c \<le> n" using c by (simp add: Cons)
    ultimately have "\<forall>r\<in>set (stream_rest (''--- UC1 ---'' @ x) xs). newlines (fst r) \<le> n + 1" by (rule stream_rest_newlines)
    then show ?thesis unfolding rs Cons stream_chunks_def list.case .
  qed
  then show ?thesis unfolding rs stream_bodies stream_last concat_chunk_loop v by simp
qed

theorem uc1_stream_complete_witness:
  "concat (map fst (fst (uc1_responses (foldl (\<lambda>sp (c, ts). uc1_join (\<lambda>_. ''3.0'') sp c ts) (new_spill [])
       [(7, [demo_transaction 1 3]), (8, [demo_transaction 2 3]), (7, [demo_transaction 4 3])]) 7 2))) =
   ''--- UC1 ---'' @ concat (map (uc1_line (\<lambda>_. ''3.0'')) [demo_transaction 1 3, demo_transaction 4 3]) @ newline"
  using uc1_stream_complete [OF refl, of 2 "\<lambda>_. ''3.0''" "[(7, [demo_transaction 1 3]), (8, [demo_transaction 2 3]), (7, [demo_transaction 4 3])]" 7]
  by simp

end
