(* ===== verification/Join_Route.thy ===== *)
theory Join_Route
  imports Join_Fns Checkpointing
begin

text \<open>
  The join's route handler (\<open>join_route_handler.py\<close>): it counts what a client's use case received
  against what its EOF announced, and when they agree it publishes the responses, marks the client
  finalized and checkpoints.  \<open>join.py\<close> runs one handler per use case and thread.

  The handler works on a \<open>world\<close>: the join function's state, the counts, and the responses published
  so far, which are the environment.  With a checkpointer the world lies inside its state, so that the
  handler's calls back into the checkpointer meet its lock.
\<close>

section \<open>Counts\<close>

record join_counts =
  jc_received :: "(uuid, int) dict"
  jc_expected :: "(uuid, int) dict"
  jc_finalized :: "uuid list"

definition new_counts :: join_counts where
  "new_counts = \<lparr>jc_received = [], jc_expected = [], jc_finalized = []\<rparr>"

definition inc_received :: "uuid \<Rightarrow> join_counts \<Rightarrow> join_counts" where
  "inc_received cid jc = jc\<lparr>jc_received := dict_set cid (dict_get (jc_received jc) cid 0 + 1) (jc_received jc)\<rparr>"

definition set_expected :: "uuid \<Rightarrow> int \<Rightarrow> join_counts \<Rightarrow> join_counts" where
  "set_expected cid n jc = jc\<lparr>jc_expected := dict_set cid n (jc_expected jc)\<rparr>"

definition is_complete :: "uuid \<Rightarrow> join_counts \<Rightarrow> bool" where
  "is_complete cid jc =
     (case dict_lookup (jc_expected jc) cid of None \<Rightarrow> False | Some n \<Rightarrow> n \<le> dict_get (jc_received jc) cid 0)"

definition is_finalized :: "uuid \<Rightarrow> join_counts \<Rightarrow> bool" where
  "is_finalized cid jc \<longleftrightarrow> cid \<in> set (jc_finalized jc)"

definition mark_finalized :: "uuid \<Rightarrow> join_counts \<Rightarrow> join_counts" where
  "mark_finalized cid jc =
     \<lparr>jc_received = dict_pop cid (jc_received jc), jc_expected = dict_pop cid (jc_expected jc), jc_finalized = List.insert cid (jc_finalized jc)\<rparr>"

definition drop_counts :: "uuid \<Rightarrow> join_counts \<Rightarrow> join_counts" where
  "drop_counts cid jc =
     \<lparr>jc_received = dict_pop cid (jc_received jc), jc_expected = dict_pop cid (jc_expected jc), jc_finalized = removeAll cid (jc_finalized jc)\<rparr>"

type_synonym counts_snap = "(string \<times> int) list \<times> (string \<times> int) list \<times> string list"

definition counts_snapshot :: "join_counts \<Rightarrow> counts_snap" where
  "counts_snapshot jc =
     (map (\<lambda>(c, n). (uuid_str c, n)) (jc_received jc), map (\<lambda>(c, n). (uuid_str c, n)) (jc_expected jc), map uuid_str (jc_finalized jc))"

definition uuid_dict :: "(string \<times> 'v) list \<Rightarrow> (uuid, 'v) dict result" where
  "uuid_dict kvs = bind_result (map_result (\<lambda>(c, v). bind_result (parse_uuid c) (\<lambda>c. Inr (c, v))) kvs) (\<lambda>d. Inr (dict_of d))"

definition counts_restore :: "counts_snap \<Rightarrow> join_counts result" where
  "counts_restore sn =
     (case sn of (r, e, f) \<Rightarrow>
        bind_result (uuid_dict r) (\<lambda>r. bind_result (uuid_dict e) (\<lambda>e. bind_result (map_result parse_uuid f) (\<lambda>f.
          Inr \<lparr>jc_received = r, jc_expected = e, jc_finalized = remdups f\<rparr>))))"

section \<open>The handler\<close>

text \<open>What the handler uses of its \<open>JoinFn\<close>.\<close>

record ('s, 'd) join_fn =
  jf_join :: "'s \<Rightarrow> uuid \<Rightarrow> 'd \<Rightarrow> 's"
  jf_responses :: "'s \<Rightarrow> uuid \<Rightarrow> response list \<times> 's"
  jf_discard :: "'s \<Rightarrow> uuid \<Rightarrow> 's"

type_synonym sent_response = "uuid \<times> int \<times> response"

record 's world =
  w_fn :: 's
  w_counts :: join_counts
  w_sent :: "sent_response list"

text \<open>The sending loop of \<open>_maybe_finalize\<close>: every response under the use case and the client.\<close>

definition emit_responses :: "('s, 'd) join_fn \<Rightarrow> int \<Rightarrow> uuid \<Rightarrow> 's world \<Rightarrow> 's world" where
  "emit_responses J uc cid w =
     (case jf_responses J (w_fn w) cid of
        (rs, s) \<Rightarrow> w\<lparr>w_fn := s, w_counts := mark_finalized cid (w_counts w), w_sent := w_sent w @ map (\<lambda>r. (cid, uc, r)) rs\<rparr>)"

text \<open>\<open>fl\<close> is the flush that the handler calls on its checkpointer, if it has one.\<close>

definition maybe_finalize ::
    "('s, 'd) join_fn \<Rightarrow> int \<Rightarrow> ('c \<Rightarrow> 's world) \<Rightarrow> ('s world \<Rightarrow> 'c \<Rightarrow> 'c) \<Rightarrow> ('c \<Rightarrow> 'c result) \<Rightarrow> uuid \<Rightarrow> 'c \<Rightarrow> 'c result" where
  "maybe_finalize J uc world put fl cid c =
     (if is_finalized cid (w_counts (world c)) then Inr c
      else if \<not> is_complete cid (w_counts (world c)) then Inr c
      else bind_result (fl (put (emit_responses J uc cid (world c)) c)) (\<lambda>c.
        Inr (put ((world c)\<lparr>w_fn := jf_discard J (w_fn (world c)) cid\<rparr>) c)))"

definition route_eof ::
    "('s, 'd) join_fn \<Rightarrow> int \<Rightarrow> ('c \<Rightarrow> 's world) \<Rightarrow> ('s world \<Rightarrow> 'c \<Rightarrow> 'c) \<Rightarrow> ('c \<Rightarrow> 'c result) \<Rightarrow> uuid \<Rightarrow> int \<Rightarrow> 'c \<Rightarrow> 'c result" where
  "route_eof J uc world put fl cid n c =
     maybe_finalize J uc world put fl cid (put ((world c)\<lparr>w_counts := set_expected cid n (w_counts (world c))\<rparr>) c)"

definition route_data ::
    "('s, 'd) join_fn \<Rightarrow> int \<Rightarrow> ('c \<Rightarrow> 's world) \<Rightarrow> ('s world \<Rightarrow> 'c \<Rightarrow> 'c) \<Rightarrow> ('c \<Rightarrow> 'c result) \<Rightarrow> uuid \<Rightarrow> 'd \<Rightarrow> 'c \<Rightarrow> 'c result" where
  "route_data J uc world put fl cid d c =
     maybe_finalize J uc world put fl cid
       (put ((world c)\<lparr>w_fn := jf_join J (w_fn (world c)) cid d, w_counts := inc_received cid (w_counts (world c))\<rparr>) c)"

definition route_abort ::
    "('s, 'd) join_fn \<Rightarrow> ('c \<Rightarrow> 's world) \<Rightarrow> ('s world \<Rightarrow> 'c \<Rightarrow> 'c) \<Rightarrow> (uuid \<Rightarrow> 'c \<Rightarrow> 'c result) \<Rightarrow> ('c \<Rightarrow> 'c result) \<Rightarrow> uuid \<Rightarrow> 'c \<Rightarrow> 'c result" where
  "route_abort J world put mark fl cid c =
     bind_result (mark cid (put ((world c)\<lparr>w_fn := jf_discard J (w_fn (world c)) cid, w_counts := drop_counts cid (w_counts (world c))\<rparr>) c))
       fl"

text \<open>The incoming messages, as far as the handler distinguishes them.\<close>

datatype 'd route_msg = REof uuid int | RAbort uuid | RData uuid 'd

section \<open>Without a checkpointer\<close>

definition plain_handle :: "('s, 'd) join_fn \<Rightarrow> int \<Rightarrow> 'd route_msg \<Rightarrow> 's world \<Rightarrow> 's world result" where
  "plain_handle J uc m w =
     (case m of
        REof cid n \<Rightarrow> route_eof J uc (\<lambda>w. w) (\<lambda>w _. w) Inr cid n w
      | RAbort cid \<Rightarrow> route_abort J (\<lambda>w. w) (\<lambda>w _. w) (\<lambda>_. Inr) Inr cid w
      | RData cid d \<Rightarrow> route_data J uc (\<lambda>w. w) (\<lambda>w _. w) Inr cid d w)"

fun plain_run :: "('s, 'd) join_fn \<Rightarrow> int \<Rightarrow> 'd route_msg list \<Rightarrow> 's world \<Rightarrow> 's world result" where
  "plain_run J uc [] w = Inr w"
| "plain_run J uc (m # ms) w = bind_result (plain_handle J uc m w) (plain_run J uc ms)"

definition new_world :: "'s \<Rightarrow> 's world" where
  "new_world s = \<lparr>w_fn = s, w_counts = new_counts, w_sent = []\<rparr>"

section \<open>With a checkpointer\<close>

text \<open>The business state is the function's and the published responses; the counts are extra state.\<close>

type_synonym ('s, 'b) join_cp = "('s \<times> sent_response list, 'b, join_counts, counts_snap) checkpointer"

definition cp_world :: "('s, 'b) join_cp \<Rightarrow> 's world" where
  "cp_world c = \<lparr>w_fn = fst (cfn c), w_counts = dict_get (extra_state c) ''counts'' new_counts, w_sent = snd (cfn c)\<rparr>"

definition put_world :: "'s world \<Rightarrow> ('s, 'b) join_cp \<Rightarrow> ('s, 'b) join_cp" where
  "put_world w c = c\<lparr>cfn := (w_fn w, w_sent w), extra_state := dict_set ''counts'' (w_counts w) (extra_state c)\<rparr>"

definition with_sent :: "('s, 'b) snapshotable \<Rightarrow> ('s \<times> sent_response list, 'b) snapshotable" where
  "with_sent S =
     \<lparr>snap = (\<lambda>(s, out). case snap S s of (s', b) \<Rightarrow> ((s', out), b)), rest = (\<lambda>b (s, out). (rest S b s, out)),
      fresh_obj = (\<lambda>(s, out). (fresh_obj S s, out)), clear_stale = (\<lambda>(s, out). (clear_stale S s, out))\<rparr>"

definition counts_snapshotable :: "(join_counts, counts_snap) snapshotable" where
  "counts_snapshotable =
     \<lparr>snap = (\<lambda>jc. (jc, counts_snapshot jc)), rest = (\<lambda>sn jc. case counts_restore sn of Inl _ \<Rightarrow> jc | Inr jc' \<Rightarrow> jc'),
      fresh_obj = (\<lambda>_. new_counts), clear_stale = (\<lambda>jc. jc)\<rparr>"

definition route_handle ::
    "('s, 'd) join_fn \<Rightarrow> ('s, 'b) snapshotable \<Rightarrow> int \<Rightarrow> 'd route_msg \<Rightarrow> msg_id \<Rightarrow> nat \<Rightarrow> ('s, 'b) join_cp \<Rightarrow> ('s, 'b) join_cp result" where
  "route_handle J S uc m ident tag c =
     (let fl = flush (with_sent S) counts_snapshotable in
      case m of
        REof cid n \<Rightarrow> dispatch (with_sent S) counts_snapshotable KEof ident tag (route_eof J uc cp_world put_world (fl True) cid n) Inr None c
      | RAbort cid \<Rightarrow> dispatch (with_sent S) counts_snapshotable KAbort ident tag Inr Inr
          (Some (route_abort J cp_world put_world mark_aborted (fl True) cid)) c
      | RData cid d \<Rightarrow> dispatch (with_sent S) counts_snapshotable KData ident tag Inr (route_data J uc cp_world put_world (fl True) cid d) None c)"

text \<open>\<open>start\<close>: restore, and free what clients finalized before the crash left behind.\<close>

definition route_start ::
    "('s, 'd) join_fn \<Rightarrow> ('s, 'b) snapshotable \<Rightarrow> 's \<Rightarrow> int \<Rightarrow> ('b, counts_snap) blob option \<Rightarrow> sent_response list \<Rightarrow> nat list \<Rightarrow> ('s, 'b) join_cp result" where
  "route_start J S fn every on_disk sent acks =
     (case restore_cp (with_sent S) counts_snapshotable (new_checkpointer (fn, sent) every [] [(''counts'', new_counts)] on_disk acks) of
        (False, c) \<Rightarrow> Inr c
      | (True, c) \<Rightarrow>
          flush (with_sent S) counts_snapshotable True
            (foldl (\<lambda>c cid. put_world ((cp_world c)\<lparr>w_fn := jf_discard J (w_fn (cp_world c)) cid\<rparr>) c) c
              (jc_finalized (w_counts (cp_world c)))))"

section \<open>The contract of a join function\<close>

text \<open>The data of a client in a run, and whether its EOF arrived.\<close>

definition datas :: "uuid \<Rightarrow> 'd route_msg list \<Rightarrow> 'd list" where
  "datas cid ms = concat (map (\<lambda>m. case m of RData c d \<Rightarrow> if c = cid then [d] else [] | _ \<Rightarrow> []) ms)"

definition has_eof :: "uuid \<Rightarrow> 'd route_msg list \<Rightarrow> bool" where
  "has_eof cid ms \<longleftrightarrow> (\<exists>n. REof cid n \<in> set ms)"

definition sent_to :: "uuid \<Rightarrow> 's world \<Rightarrow> sent_response list" where
  "sent_to cid w = filter (\<lambda>x. fst x = cid) (w_sent w)"

lemma datas_snoc [simp]:
  "datas cid (ms @ [m]) = datas cid ms @ (case m of RData c d \<Rightarrow> if c = cid then [d] else [] | _ \<Rightarrow> [])"
  by (cases m) (simp_all add: datas_def)

lemma has_eof_snoc [simp]:
  "has_eof cid (ms @ [m]) \<longleftrightarrow> has_eof cid ms \<or> (case m of REof c n \<Rightarrow> c = cid | _ \<Rightarrow> False)"
  by (cases m) (auto simp: has_eof_def)

lemma plain_run_snoc: "plain_run J uc (ms @ [m]) w = bind_result (plain_run J uc ms w) (plain_handle J uc m)"
  by (induction ms arbitrary: w) (auto simp: bind_result_def split: sum.splits)

text \<open>Per client the function accumulates a view, and its responses are a rendering of the view.\<close>

locale join_contract =
  client_aggregate init "jf_join J" "jf_discard J" inv "\<lambda>_. True" view empty step
  for J :: "('s, 'd) join_fn" and init inv and view :: "'s \<Rightarrow> uuid \<Rightarrow> 'v" and empty step +
  fixes render :: "'v \<Rightarrow> response list"
  assumes responses_render: "inv s \<Longrightarrow> fst (jf_responses J s c) = render (view s c)"
    and inv_responses: "inv s \<Longrightarrow> inv (snd (jf_responses J s c))"
    and view_responses: "inv s \<Longrightarrow> c' \<noteq> c \<Longrightarrow> view (snd (jf_responses J s c)) c' = view s c'"
begin

lemma plain_finalize:
  assumes "inv (w_fn w)"
  shows "\<exists>w'. maybe_finalize J uc (\<lambda>w. w) (\<lambda>w _. w) Inr cid w = Inr w' \<and> inv (w_fn w') \<and>
    (if is_finalized cid (w_counts w) \<or> \<not> is_complete cid (w_counts w) then w' = w
     else is_finalized cid (w_counts w') \<and> sent_to cid w' = sent_to cid w @ map (\<lambda>r. (cid, uc, r)) (render (view (w_fn w) cid))) \<and>
    (\<forall>c. c \<noteq> cid \<longrightarrow> view (w_fn w') c = view (w_fn w) c \<and> sent_to c w' = sent_to c w \<and>
       is_finalized c (w_counts w') = is_finalized c (w_counts w) \<and>
       dict_lookup (jc_expected (w_counts w')) c = dict_lookup (jc_expected (w_counts w)) c \<and>
       dict_get (jc_received (w_counts w')) c 0 = dict_get (jc_received (w_counts w)) c 0)"
proof (cases "is_finalized cid (w_counts w) \<or> \<not> is_complete cid (w_counts w)")
  case True
  with assms show ?thesis by (intro exI [of _ w]) (auto simp: maybe_finalize_def)
next
  case False
  let ?w1 = "emit_responses J uc cid w"
  let ?w2 = "?w1\<lparr>w_fn := jf_discard J (w_fn ?w1) cid\<rparr>"
  obtain rs s where r: "jf_responses J (w_fn w) cid = (rs, s)" by (cases "jf_responses J (w_fn w) cid")
  have s: "rs = render (view (w_fn w) cid)" "inv s" "\<And>c. c \<noteq> cid \<Longrightarrow> view s c = view (w_fn w) c"
    using responses_render [OF assms, of cid] inv_responses [OF assms, of cid] view_responses [OF assms, of _ cid] by (simp_all add: r)
  have "maybe_finalize J uc (\<lambda>w. w) (\<lambda>w _. w) Inr cid w = Inr ?w2"
    using False by (simp add: maybe_finalize_def)
  moreover have "inv (w_fn ?w2)" using inv_discard [OF s(2)] by (simp add: emit_responses_def r)
  moreover have "is_finalized cid (w_counts ?w2)" "sent_to cid ?w2 = sent_to cid w @ map (\<lambda>r. (cid, uc, r)) (render (view (w_fn w) cid))"
    by (simp_all add: emit_responses_def r s(1) is_finalized_def mark_finalized_def sent_to_def comp_def)
  moreover have "view (w_fn ?w2) c = view (w_fn w) c \<and> sent_to c ?w2 = sent_to c w \<and>
       is_finalized c (w_counts ?w2) = is_finalized c (w_counts w) \<and>
       dict_lookup (jc_expected (w_counts ?w2)) c = dict_lookup (jc_expected (w_counts w)) c \<and>
       dict_get (jc_received (w_counts ?w2)) c 0 = dict_get (jc_received (w_counts w)) c 0" if "c \<noteq> cid" for c
    using that s(3) [OF that] view_discard [OF s(2)]
    by (simp add: emit_responses_def r is_finalized_def mark_finalized_def sent_to_def comp_def)
  ultimately show ?thesis using False by (intro exI [of _ ?w2]) simp
qed

text \<open>What the world knows of a client after a run: nothing published before the EOF and all its
  data arrived, everything once after.\<close>

definition tracked :: "int \<Rightarrow> uuid \<Rightarrow> int \<Rightarrow> 'd route_msg list \<Rightarrow> 's world \<Rightarrow> bool" where
  "tracked uc cid n ms w \<longleftrightarrow>
     inv (w_fn w) \<and>
     (if has_eof cid ms \<and> n \<le> int (length (datas cid ms))
      then is_finalized cid (w_counts w) \<and> sent_to cid w = map (\<lambda>r. (cid, uc, r)) (render (foldl step empty (datas cid ms)))
      else \<not> is_finalized cid (w_counts w) \<and> sent_to cid w = [] \<and> view (w_fn w) cid = foldl step empty (datas cid ms) \<and>
        dict_get (jc_received (w_counts w)) cid 0 = int (length (datas cid ms)) \<and>
        dict_lookup (jc_expected (w_counts w)) cid = (if has_eof cid ms then Some n else None))"

lemma tracked_init: "0 \<le> n \<Longrightarrow> tracked uc cid n [] (new_world init)"
  by (simp add: tracked_def new_world_def new_counts_def has_eof_def datas_def sent_to_def is_finalized_def inv_init view_init)

lemma tracked_eof:
  assumes "tracked uc cid n ms w" "c = cid \<longrightarrow> e = n"
  shows "\<exists>w'. plain_handle J uc (REof c e) w = Inr w' \<and> tracked uc cid n (ms @ [REof c e]) w'"
proof -
  let ?w = "w\<lparr>w_counts := set_expected c e (w_counts w)\<rparr>"
  have inv: "inv (w_fn ?w)" using assms(1) by (simp add: tracked_def)
  have f: "is_finalized x (w_counts ?w) = is_finalized x (w_counts w)" for x by (simp add: is_finalized_def set_expected_def)
  note P = plain_finalize [OF inv, of uc c]
  show ?thesis
  proof (cases "c = cid")
    case True
    have e: "dict_lookup (jc_expected (w_counts ?w)) cid = Some n" "view (w_fn ?w) cid = view (w_fn w) cid" "sent_to cid ?w = sent_to cid w"
      "dict_get (jc_received (w_counts ?w)) cid 0 = dict_get (jc_received (w_counts w)) cid 0"
      using True assms(2) by (simp_all add: set_expected_def sent_to_def)
    from P obtain w' where w': "maybe_finalize J uc (\<lambda>w. w) (\<lambda>w _. w) Inr cid ?w = Inr w'" "inv (w_fn w')"
      "if is_finalized cid (w_counts ?w) \<or> \<not> is_complete cid (w_counts ?w) then w' = ?w
       else is_finalized cid (w_counts w') \<and> sent_to cid w' = sent_to cid ?w @ map (\<lambda>r. (cid, uc, r)) (render (view (w_fn ?w) cid))"
      unfolding True by blast
    have c: "is_complete cid (w_counts ?w) \<longleftrightarrow> n \<le> dict_get (jc_received (w_counts w)) cid 0"
      unfolding is_complete_def e(1,4) by simp
    have "tracked uc cid n (ms @ [REof cid e]) w'"
      using assms(1) w'(2,3) e f [of cid] c by (auto simp: tracked_def split: if_splits)
    with w'(1) True show ?thesis by (auto simp: plain_handle_def route_eof_def)
  next
    case False
    with assms P f show ?thesis
      by (auto simp: tracked_def plain_handle_def route_eof_def set_expected_def sent_to_def)
  qed
qed

lemma tracked_data:
  assumes "tracked uc cid n ms w" "int (length (datas cid (ms @ [RData c d]))) \<le> n"
  shows "\<exists>w'. plain_handle J uc (RData c d) w = Inr w' \<and> tracked uc cid n (ms @ [RData c d]) w'"
proof -
  let ?w = "w\<lparr>w_fn := jf_join J (w_fn w) c d, w_counts := inc_received c (w_counts w)\<rparr>"
  have i: "inv (w_fn w)" using assms(1) by (simp add: tracked_def)
  then have inv: "inv (w_fn ?w)" by (simp add: inv_aggregate)
  have f: "is_finalized x (w_counts ?w) = is_finalized x (w_counts w)" for x by (simp add: is_finalized_def inc_received_def)
  have v: "view (w_fn ?w) x = (if x = c then step (view (w_fn w) c) d else view (w_fn w) x)" for x
    using view_aggregate [OF i] by simp
  note P = plain_finalize [OF inv, of uc c]
  show ?thesis
  proof (cases "c = cid")
    case True
    have e: "dict_lookup (jc_expected (w_counts ?w)) cid = dict_lookup (jc_expected (w_counts w)) cid" "sent_to cid ?w = sent_to cid w"
      "dict_get (jc_received (w_counts ?w)) cid 0 = dict_get (jc_received (w_counts w)) cid 0 + 1"
      using True by (simp_all add: inc_received_def sent_to_def)
    from P obtain w' where w': "maybe_finalize J uc (\<lambda>w. w) (\<lambda>w _. w) Inr cid ?w = Inr w'" "inv (w_fn w')"
      "if is_finalized cid (w_counts ?w) \<or> \<not> is_complete cid (w_counts ?w) then w' = ?w
       else is_finalized cid (w_counts w') \<and> sent_to cid w' = sent_to cid ?w @ map (\<lambda>r. (cid, uc, r)) (render (view (w_fn ?w) cid))"
      unfolding True by blast
    have k: "int (length (datas cid ms)) + 1 \<le> n" using assms(2) by (simp add: True)
    have c: "is_complete cid (w_counts ?w) \<longleftrightarrow> has_eof cid ms \<and> n \<le> int (length (datas cid ms)) + 1"
      using assms(1) k unfolding is_complete_def e by (auto simp: tracked_def split: if_splits)
    have "tracked uc cid n (ms @ [RData cid d]) w'"
      using assms(1) w'(2,3) e f [of cid] c k v [of cid] True by (auto simp: tracked_def split: if_splits)
    with w'(1) True show ?thesis by (auto simp: plain_handle_def route_data_def)
  next
    case False
    with assms P f v show ?thesis
      by (auto simp: tracked_def plain_handle_def route_data_def inc_received_def sent_to_def split: if_splits)
  qed
qed

lemma tracked_run:
  assumes "0 \<le> n" "\<forall>c. RAbort c \<notin> set ms" "\<forall>e. REof cid e \<in> set ms \<longrightarrow> e = n" "int (length (datas cid ms)) \<le> n"
  shows "\<exists>w. plain_run J uc ms (new_world init) = Inr w \<and> tracked uc cid n ms w"
  using assms(2-)
proof (induction ms rule: rev_induct)
  case Nil
  then show ?case by (simp add: tracked_init [OF assms(1)])
next
  case (snoc m ms)
  have "int (length (datas cid ms)) \<le> n" using snoc.prems(3) by (simp split: route_msg.splits if_splits)
  with snoc obtain w where w: "plain_run J uc ms (new_world init) = Inr w" "tracked uc cid n ms w" by auto
  have "\<exists>w'. plain_handle J uc m w = Inr w' \<and> tracked uc cid n (ms @ [m]) w'"
  proof (cases m)
    case (REof c e)
    with snoc.prems(2) w(2) show ?thesis by (auto intro: tracked_eof)
  next
    case (RData c d)
    with snoc.prems(3) w(2) show ?thesis by (auto intro: tracked_data)
  next
    case (RAbort c)
    with snoc.prems(1) show ?thesis by auto
  qed
  with w(1) show ?case by (simp add: plain_run_snoc)
qed

end

section \<open>The five use cases\<close>

definition uc1_fn :: "(amount \<Rightarrow> string) \<Rightarrow> nat \<Rightarrow> (uuid spill, transaction list) join_fn" where
  "uc1_fn repr n = \<lparr>jf_join = uc1_join repr, jf_responses = (\<lambda>s c. uc1_responses s c n), jf_discard = clear_spill\<rparr>"

definition uc2_fn :: "(amount \<Rightarrow> string) \<Rightarrow> (bank_entry list per_client, bank_entry list) join_fn" where
  "uc2_fn repr = \<lparr>jf_join = uc2_join, jf_responses = uc2_response repr, jf_discard = discard_client\<rparr>"

definition uc3_fn :: "(amount \<Rightarrow> string) \<Rightarrow> nat \<Rightarrow> (uuid spill, transaction list) join_fn" where
  "uc3_fn repr n = \<lparr>jf_join = uc3_join repr, jf_responses = (\<lambda>s c. uc3_responses s c n), jf_discard = clear_spill\<rparr>"

definition uc4_fn :: "((gpath \<times> int) list per_client, (gpath \<times> int) list) join_fn" where
  "uc4_fn = \<lparr>jf_join = uc4_join, jf_responses = uc4_response, jf_discard = discard_client\<rparr>"

definition uc5_fn :: "(int per_client, int) join_fn" where
  "uc5_fn = \<lparr>jf_join = uc5_join, jf_responses = uc5_response, jf_discard = discard_client\<rparr>"

lemma stream_responses_content:
  "fst (stream_responses sp c header n) = stream_chunks header (chunk_loop n [] (lines_of (content sp c)))"
  "content (snd (stream_responses sp c header n)) c' = content sp c'"
  using iter_lines_content [of sp c] content_iter_lines [of sp c c']
  by (cases "iter_lines sp c", simp add: stream_responses_def iter_chunks_def)+

interpretation uc1_route: join_contract "uc1_fn repr n" "new_spill []" "\<lambda>_. True" content "[]"
    "\<lambda>t is. t @ concat (map (uc1_line repr) is)" "\<lambda>t. stream_chunks ''--- UC1 ---'' (chunk_loop n [] (lines_of t))" for repr n
  by unfold_locales (simp_all add: uc1_fn_def uc1_join_def uc1_responses_def stream_responses_content, simp add: new_spill_def content_def)

interpretation uc3_route: join_contract "uc3_fn repr n" "new_spill []" "\<lambda>_. True" content "[]"
    "\<lambda>t is. t @ concat (map (uc3_result_line repr) is)" "\<lambda>t. stream_chunks ''--- UC3 ---'' (chunk_loop n [] (lines_of t))" for repr n
  by unfold_locales (simp_all add: uc3_fn_def uc3_join_def uc3_responses_def stream_responses_content, simp add: new_spill_def content_def)

interpretation uc2_route: join_contract "uc2_fn repr" "[]" "\<lambda>_. True" "\<lambda>st c. dict_get st c []" "[]" "(@)"
    "\<lambda>es. [(''--- UC2 ---'' @ concat (map (uc2_line repr) es) @ newline, True)]" for repr
  by unfold_locales (simp_all add: uc2_fn_def uc2_join_def uc2_response_def discard_client_def Let_def)

interpretation uc4_route: join_contract uc4_fn "[]" "\<lambda>_. True" "\<lambda>st c. dict_get st c []" "[]"
    "\<lambda>d cs. foldl (\<lambda>d (p, n). keyed_put path_key p n d) d cs"
    "\<lambda>d. [(''--- UC4 ---'' @ concat (map uc4_line (accounts_of d)) @ newline, True)]"
  by unfold_locales (simp_all add: uc4_fn_def uc4_join_def uc4_response_def discard_client_def Let_def)

interpretation uc5_route: join_contract uc5_fn "[]" "\<lambda>_. True" "\<lambda>st c. dict_get st c 0" 0 "(+)"
    "\<lambda>n. [(''--- UC5 ---'' @ newline @ ''count: '' @ int_str n @ newline, True)]"
  by unfold_locales (simp_all add: uc5_fn_def uc5_join_def uc5_response_def discard_client_def Let_def)

section \<open>Properties\<close>




definition demo_route :: "(int per_client, unit) join_cp" where
  "demo_route = put_world (\<lparr>w_fn = [], w_counts = set_expected 7 1 new_counts, w_sent = []\<rparr>)
     (new_checkpointer ([], []) 5 [] [(''counts'', new_counts)] None [])"

definition unit_state :: "('s, unit) snapshotable" where
  "unit_state = \<lparr>snap = (\<lambda>s. (s, ())), rest = (\<lambda>_ s. s), fresh_obj = (\<lambda>s. s), clear_stale = (\<lambda>s. s)\<rparr>"


lemma counts_snapshot_finalized:
  "\<exists>jc'. counts_restore (counts_snapshot jc) = Inr jc' \<and> set (jc_finalized jc') = set (jc_finalized jc)"
proof -
  have d: "\<exists>d'. uuid_dict (map (\<lambda>(c, n). (uuid_str c, n)) d) = Inr d'" for d :: "(uuid, int) dict"
  proof -
    have "map_result (\<lambda>(c, v). bind_result (parse_uuid c) (\<lambda>c. Inr (c, v))) (map (\<lambda>(c, n). (uuid_str c, n)) d) = Inr d"
      by (induction d) auto
    then show ?thesis by (simp add: uuid_dict_def)
  qed
  have f: "map_result parse_uuid (map uuid_str cs) = Inr cs" for cs by (induction cs) auto
  from d [of "jc_received jc"] d [of "jc_expected jc"] f show ?thesis by (auto simp: counts_restore_def counts_snapshot_def)
qed

lemma cp_world_put [simp]: "cp_world (put_world w c) = w"
  by (simp add: cp_world_def put_world_def)

lemma put_world_frame [simp]:
  "ckpt_lock (put_world w c) = ckpt_lock c" "acked (put_world w c) = acked c" "pending_acks (put_world w c) = pending_acks c"
  "ckpt_store (put_world w c) = ckpt_store c"
  by (simp_all add: put_world_def)

lemma flush_world:
  assumes "\<And>s. fst (snap S s) = s" "\<not> ckpt_lock c" "flush (with_sent S) counts_snapshotable f c = Inr c'"
  shows "w_fn (cp_world c') = w_fn (cp_world c)" "w_sent (cp_world c') = w_sent (cp_world c)" "w_counts (cp_world c') = w_counts (cp_world c)"
    and "\<not> ckpt_lock c'" "acked c' = acked c @ pending_acks c" "pending_acks c' = []"
    and "f \<Longrightarrow> \<exists>b. ckpt_store c' = Some b \<and> b_extra b = map (\<lambda>(k, x). (k, counts_snapshot x)) (extra_state c)"
proof -
  have k: "map (\<lambda>(k, x). (k, fst (snap counts_snapshotable x))) d = d" for d by (induction d) (auto simp: counts_snapshotable_def)
  have s: "snap (with_sent S) (x, out) = ((x, out), snd (snap S x))" for x out
    using assms(1) [of x] by (cases "snap S x") (simp add: with_sent_def)
  obtain x out where cf: "cfn c = (x, out)" by (cases "cfn c")
  have e: "c' = flush_acks (if dirty c \<or> f then (c\<lparr>ckpt_store := Some (make_blob counts_snapshotable (snd (snap S x)) c), dirty := False\<rparr>) else c)"
    using assms(2,3) s [of x out] cf
    by (cases c) (auto simp: flush_def checkpoint_and_flush_def write_checkpoint_def k flush_acks_def make_blob_def split: if_splits)
  show "w_fn (cp_world c') = w_fn (cp_world c)" "w_sent (cp_world c') = w_sent (cp_world c)" "w_counts (cp_world c') = w_counts (cp_world c)"
    "\<not> ckpt_lock c'" "acked c' = acked c @ pending_acks c" "pending_acks c' = []"
    using assms(2) by (simp_all add: e flush_acks_def cp_world_def)
  show "f \<Longrightarrow> \<exists>b. ckpt_store c' = Some b \<and> b_extra b = map (\<lambda>(k, x). (k, counts_snapshot x)) (extra_state c)"
    by (simp add: e flush_acks_def make_blob_def counts_snapshotable_def)
qed

lemma flush_returns: "\<not> ckpt_lock c \<Longrightarrow> \<exists>c'. flush X Y f c = Inr c'"
  by (simp add: flush_def)



end
