(* ===== verification/Ring_Nodes.thy ===== *)
theory Ring_Nodes
  imports Exactly_Once Ring_Completion Stamping Aggregates
begin

text \<open>
  The ring controllers: the shared machinery (\<open>eof_handler/ring_node.py\<close>, \<open>sent_counts.py\<close>) and its
  four kinds, \<open>RingFilter\<close>, \<open>RingBroadcastFilter\<close>, \<open>RingGroupBy\<close> (stateless, sending as they
  process), \<open>RingAggregate\<close> and \<open>RingMerge\<close> (sending their results when the input is complete).

  A node's state is what its checkpoint holds: the business state, the ring completion, the counts of
  sent messages, the merge's two expected counts and the numbers of its outgoing sequences.  A step
  returns the messages it sends.  The handlers run the steps under the checkpointer of
  \<open>Checkpointing\<close>, flushing where the code flushes.

  The locale \<open>stateless_sender\<close> states what the barrier relies on, that the counts a stateless node
  will report are those of the messages it sent.
\<close>

section \<open>State\<close>

type_synonym sent_counts = "(uuid, (int, int) dict) dict"

record 'f rnode =
  rn_fn :: 'f
  rn_rc :: ring_completion
  rn_sent :: sent_counts
  rn_left :: "(uuid, int) dict"
  rn_right :: "(uuid, int) dict"
  rn_srcs :: "(bytes \<times> int) list"

text \<open>What leaves a node: a data message to a downstream shard under an identity, and the control messages.\<close>

datatype 'm outgoing = OData nat bytes int 'm | OEof nat uuid int | OAbort nat uuid | OToken barrier_token

subsection \<open>Sent counts\<close>

definition add_shard :: "int \<Rightarrow> (int, int) dict \<Rightarrow> (int, int) dict" where
  "add_shard shard d = dict_set shard (dict_get d shard 0 + 1) d"

definition sent_add :: "uuid \<Rightarrow> int \<Rightarrow> sent_counts \<Rightarrow> sent_counts" where
  "sent_add cid shard sc = dict_set cid (add_shard shard (dict_get sc cid [])) sc"

definition sent_pop :: "uuid \<Rightarrow> sent_counts \<Rightarrow> (int, int) dict \<times> sent_counts" where
  "sent_pop cid sc = (dict_get sc cid [], dict_pop cid sc)"

definition sent_snapshot :: "sent_counts \<Rightarrow> (string, (string, int) dict) dict" where
  "sent_snapshot sc = dict_of (map (\<lambda>(c, d). (uuid_str c, shards_snap d)) sc)"

definition sent_restore :: "(string, (string, int) dict) dict \<Rightarrow> sent_counts result" where
  "sent_restore sn =
     bind_result (map_result (\<lambda>(c, d). bind_result (parse_uuid c) (\<lambda>c. bind_result (shards_of_snap d) (\<lambda>d. Inr (c, d)))) sn)
       (\<lambda>kvs. Inr (dict_of kvs))"

subsection \<open>What a kind of node adds\<close>

text \<open>
  \<open>cf_src\<close> gives the outgoing sequence of a downstream writer: each its own, except in the merge, whose
  writers share one.  \<open>cf_emit\<close> sends a client's results and says how many went to each shard.
\<close>

record ('f, 'm) ring_cfg =
  cf_ntx :: nat
  cf_src :: "nat \<Rightarrow> nat"
  cf_emit :: "uuid \<Rightarrow> 'f rnode \<Rightarrow> 'f rnode \<times> 'm outgoing list \<times> (int, int) dict"
  cf_discard :: "uuid \<Rightarrow> 'f rnode \<Rightarrow> 'f rnode"
  cf_free :: "uuid \<Rightarrow> 'f rnode \<Rightarrow> 'f rnode"

definition send_msg :: "(nat \<Rightarrow> nat) \<Rightarrow> nat \<Rightarrow> 'm \<Rightarrow> 'f rnode \<Rightarrow> 'f rnode \<times> 'm outgoing" where
  "send_msg src j m st =
     (case rn_srcs st ! src j of
        (p, c) \<Rightarrow> (st\<lparr>rn_srcs := (rn_srcs st)[src j := (p, c + 1)]\<rparr>, OData j p (c + 1) m))"

section \<open>Running actions\<close>

definition downstream_eof :: "nat \<Rightarrow> uuid \<Rightarrow> (int, int) dict \<Rightarrow> 'm outgoing list" where
  "downstream_eof ntx cid per_shard = map (\<lambda>j. OEof j cid (dict_get per_shard (int j) 0)) [0..<ntx]"

definition downstream_abort :: "nat \<Rightarrow> uuid \<Rightarrow> 'm outgoing list" where
  "downstream_abort ntx cid = map (\<lambda>j. OAbort j cid) [0..<ntx]"

text \<open>\<open>Forward\<close> and \<open>DownstreamEOF\<close>; the wait before a token starts a new round is not modelled.\<close>

fun run_flat :: "nat \<Rightarrow> action \<Rightarrow> 'm outgoing list" where
  "run_flat ntx (Forward tk) = [OToken tk]"
| "run_flat ntx (DownstreamEOF cid per_shard) = downstream_eof ntx cid per_shard"
| "run_flat ntx (Emit cid) = []"

text \<open>\<open>Emit\<close>: the results, then \<open>report_sent\<close>, whose own actions are run; they are never \<open>Emit\<close>.\<close>

definition run_emit :: "('f, 'm) ring_cfg \<Rightarrow> uuid \<Rightarrow> 'f rnode \<Rightarrow> 'f rnode \<times> 'm outgoing list" where
  "run_emit cf cid st =
     (case cf_emit cf cid st of
        (st, outs, sent) \<Rightarrow>
          (case report_sent (rn_rc st) cid sent of
             (rc, as) \<Rightarrow> (st\<lparr>rn_rc := rc\<rparr>, outs @ concat (map (run_flat (cf_ntx cf)) as))))"

fun run_acts :: "('f, 'm) ring_cfg \<Rightarrow> action list \<Rightarrow> 'f rnode \<Rightarrow> 'f rnode \<times> 'm outgoing list \<times> uuid list" where
  "run_acts cf [] st = (st, [], [])"
| "run_acts cf (Emit cid # as) st =
     (case run_emit cf cid st of
        (st, o1) \<Rightarrow> (case run_acts cf as st of (st, o2, em) \<Rightarrow> (st, o1 @ o2, cid # em)))"
| "run_acts cf (a # as) st =
     (case run_acts cf as st of (st, o2, em) \<Rightarrow> (st, run_flat (cf_ntx cf) a @ o2, em))"

definition with_rc :: "('f, 'm) ring_cfg \<Rightarrow> (ring_completion \<Rightarrow> ring_completion \<times> action list) \<Rightarrow> 'f rnode \<Rightarrow>
    'f rnode \<times> 'm outgoing list \<times> uuid list" where
  "with_rc cf f st = (case f (rn_rc st) of (rc, as) \<Rightarrow> run_acts cf as (st\<lparr>rn_rc := rc\<rparr>))"

section \<open>The five kinds\<close>

text \<open>\<open>fil\<close>, \<open>grp\<close>, \<open>agg\<close> and \<open>get\<close> are the node's function; \<open>_on_data\<close> of each kind is the function of
  its name followed by \<open>data_done\<close>.\<close>

definition data_done :: "('f, 'm) ring_cfg \<Rightarrow> uuid \<Rightarrow> 'f rnode \<Rightarrow> 'f rnode \<times> 'm outgoing list" where
  "data_done cf cid st = (case with_rc cf (\<lambda>rc. on_data rc cid) st of (st, outs, _) \<Rightarrow> (st, outs))"

definition stateless_emit :: "uuid \<Rightarrow> 'f rnode \<Rightarrow> 'f rnode \<times> 'm outgoing list \<times> (int, int) dict" where
  "stateless_emit cid st = (case sent_pop cid (rn_sent st) of (sent, sc) \<Rightarrow> (st\<lparr>rn_sent := sc\<rparr>, [], sent))"

definition stateless_discard :: "uuid \<Rightarrow> 'f rnode \<Rightarrow> 'f rnode" where
  "stateless_discard cid st = st\<lparr>rn_sent := snd (sent_pop cid (rn_sent st))\<rparr>"

definition stateless_cfg :: "nat \<Rightarrow> ('f, 'm) ring_cfg" where
  "stateless_cfg ntx =
     \<lparr>cf_ntx = ntx, cf_src = (\<lambda>j. j), cf_emit = stateless_emit, cf_discard = stateless_discard, cf_free = (\<lambda>_ st. st)\<rparr>"

definition forward_stamped :: "nat \<Rightarrow> uuid \<Rightarrow> message \<Rightarrow> message \<Rightarrow> 'f rnode \<Rightarrow> 'f rnode \<times> message outgoing" where
  "forward_stamped j cid m out st =
     (st\<lparr>rn_sent := sent_add cid (int j) (rn_sent st)\<rparr>, OData j (msg_producer m) (Messages.msg_seq m) out)"

definition ring_filter_data :: "(message \<Rightarrow> message result) \<Rightarrow> nat \<Rightarrow> message \<Rightarrow> 'f rnode \<Rightarrow> ('f rnode \<times> message outgoing list) result" where
  "ring_filter_data fil ntx m st =
     bind_result (shard_of (msg_producer m) (Messages.msg_seq m) (int ntx)) (\<lambda>shard.
     bind_result (fil m) (\<lambda>out.
     bind_result (client_of_msg m) (\<lambda>cid.
       case forward_stamped (nat shard) cid m out st of (st, x) \<Rightarrow> Inr (st, [x]))))"

text \<open>The broadcast routes have one writer each, the sharded ones a row of them after those before.\<close>

fun broadcast_routes :: "(message \<Rightarrow> message result) list \<Rightarrow> nat \<Rightarrow> uuid \<Rightarrow> message \<Rightarrow> 'f rnode \<Rightarrow> ('f rnode \<times> message outgoing list) result" where
  "broadcast_routes [] shard cid m st = Inr (st, [])"
| "broadcast_routes (fil # fs) shard cid m st =
     bind_result (fil m) (\<lambda>out.
       case forward_stamped shard cid m out st of
         (st, x) \<Rightarrow> bind_result (broadcast_routes fs (shard + 1) cid m st) (\<lambda>(st, xs). Inr (st, x # xs)))"

fun sharded_routes :: "(nat \<times> (message \<Rightarrow> message result)) list \<Rightarrow> nat \<Rightarrow> uuid \<Rightarrow> message \<Rightarrow> 'f rnode \<Rightarrow> ('f rnode \<times> message outgoing list) result" where
  "sharded_routes [] shard cid m st = Inr (st, [])"
| "sharded_routes ((n, fil) # rs) shard cid m st =
     bind_result (shard_of (msg_producer m) (Messages.msg_seq m) (int n)) (\<lambda>i.
     bind_result (fil m) (\<lambda>out.
       case forward_stamped (shard + nat i) cid m out st of
         (st, x) \<Rightarrow> bind_result (sharded_routes rs (shard + n) cid m st) (\<lambda>(st, xs). Inr (st, x # xs))))"

definition ring_broadcast_data ::
    "(message \<Rightarrow> message result) list \<Rightarrow> (nat \<times> (message \<Rightarrow> message result)) list \<Rightarrow> message \<Rightarrow> 'f rnode \<Rightarrow> ('f rnode \<times> message outgoing list) result" where
  "ring_broadcast_data bs ss m st =
     bind_result (client_of_msg m) (\<lambda>cid.
     bind_result (broadcast_routes bs 0 cid m st) (\<lambda>(st, o1).
     bind_result (sharded_routes ss (length bs) cid m st) (\<lambda>(st, o2). Inr (st, o1 @ o2))))"

text \<open>One group to its shard in every fleet; \<open>fleets\<close> are the numbers of shards.\<close>

fun to_fleets :: "nat list \<Rightarrow> nat \<Rightarrow> uuid \<Rightarrow> message \<Rightarrow> int \<Rightarrow> 'f rnode \<Rightarrow> ('f rnode \<times> message outgoing list) result" where
  "to_fleets [] base cid g aff st = Inr (st, [])"
| "to_fleets (n # ns) base cid g aff st =
     (if n = 0 then Inl ZeroDivisionError
      else case send_msg (\<lambda>j. j) (base + nat (aff mod int n)) g st of
        (st, x) \<Rightarrow>
          bind_result (to_fleets ns (base + n) cid g aff
              (st\<lparr>rn_sent := sent_add cid (int base + aff mod int n) (rn_sent st)\<rparr>)) (\<lambda>(st, xs). Inr (st, x # xs)))"

fun send_groups :: "nat list \<Rightarrow> uuid \<Rightarrow> (message \<times> int) list \<Rightarrow> 'f rnode \<Rightarrow> ('f rnode \<times> message outgoing list) result" where
  "send_groups fleets cid [] st = Inr (st, [])"
| "send_groups fleets cid ((g, aff) # gs) st =
     bind_result (to_fleets fleets 0 cid g aff st) (\<lambda>(st, o1).
     bind_result (send_groups fleets cid gs st) (\<lambda>(st, o2). Inr (st, o1 @ o2)))"

definition ring_group_data :: "(message \<Rightarrow> (message \<times> int) list result) \<Rightarrow> nat list \<Rightarrow> message \<Rightarrow> 'f rnode \<Rightarrow> ('f rnode \<times> message outgoing list) result" where
  "ring_group_data grp fleets m st =
     bind_result (grp m) (\<lambda>gs. bind_result (client_of_msg m) (\<lambda>cid. send_groups fleets cid gs st))"

text \<open>The aggregate's results go to the shard of their affinity, or to every shard.\<close>

fun send_shards :: "(nat \<Rightarrow> nat) \<Rightarrow> 'm \<Rightarrow> nat list \<Rightarrow> 'f rnode \<times> 'm outgoing list \<times> (int, int) dict \<Rightarrow> 'f rnode \<times> 'm outgoing list \<times> (int, int) dict" where
  "send_shards src m [] w = w"
| "send_shards src m (j # js) (st, outs, sent) =
     (case send_msg src j m st of (st, x) \<Rightarrow> send_shards src m js (st, outs @ [x], add_shard (int j) sent))"

definition aggregate_emit :: "('f \<Rightarrow> uuid \<Rightarrow> ('m \<times> int) list \<times> 'f) \<Rightarrow> bool \<Rightarrow> nat \<Rightarrow> uuid \<Rightarrow> 'f rnode \<Rightarrow> 'f rnode \<times> 'm outgoing list \<times> (int, int) dict" where
  "aggregate_emit get broadcast ntx cid st =
     (case get (rn_fn st) cid of
        (results, fn) \<Rightarrow>
          foldl (\<lambda>w (m, aff). send_shards (\<lambda>j. j) m (if broadcast then [0..<ntx] else [nat (aff mod int ntx)]) w)
            (st\<lparr>rn_fn := fn\<rparr>, [], []) results)"

definition discard_fn :: "('f \<Rightarrow> uuid \<Rightarrow> 'f) \<Rightarrow> uuid \<Rightarrow> 'f rnode \<Rightarrow> 'f rnode" where
  "discard_fn dis cid st = st\<lparr>rn_fn := dis (rn_fn st) cid\<rparr>"

definition aggregate_cfg :: "('f \<Rightarrow> uuid \<Rightarrow> ('m \<times> int) list \<times> 'f) \<Rightarrow> ('f \<Rightarrow> uuid \<Rightarrow> 'f) \<Rightarrow> bool \<Rightarrow> nat \<Rightarrow> ('f, 'm) ring_cfg" where
  "aggregate_cfg get dis broadcast ntx =
     \<lparr>cf_ntx = ntx, cf_src = (\<lambda>j. j), cf_emit = aggregate_emit get broadcast ntx, cf_discard = discard_fn dis, cf_free = discard_fn dis\<rparr>"

definition ring_aggregate_data :: "('f \<Rightarrow> uuid \<Rightarrow> 'd \<Rightarrow> 'f) \<Rightarrow> uuid \<Rightarrow> 'd \<Rightarrow> 'f rnode \<Rightarrow> 'f rnode" where
  "ring_aggregate_data agg cid d st = st\<lparr>rn_fn := agg (rn_fn st) cid d\<rparr>"

text \<open>The merge's results go round the shards, all under one outgoing sequence.\<close>

definition merge_emit :: "('f \<Rightarrow> uuid \<Rightarrow> 'm list \<times> 'f) \<Rightarrow> nat \<Rightarrow> uuid \<Rightarrow> 'f rnode \<Rightarrow> 'f rnode \<times> 'm outgoing list \<times> (int, int) dict" where
  "merge_emit get ntx cid st =
     (case get (rn_fn st) cid of
        (results, fn) \<Rightarrow>
          foldl (\<lambda>w (i, m). send_shards (\<lambda>_. 0) m [i mod ntx] w) (st\<lparr>rn_fn := fn\<rparr>, [], []) (enumerate 0 results))"

definition merge_discard :: "('f \<Rightarrow> uuid \<Rightarrow> 'f) \<Rightarrow> uuid \<Rightarrow> 'f rnode \<Rightarrow> 'f rnode" where
  "merge_discard dis cid st =
     st\<lparr>rn_fn := dis (rn_fn st) cid, rn_left := dict_pop cid (rn_left st), rn_right := dict_pop cid (rn_right st)\<rparr>"

definition merge_cfg :: "('f \<Rightarrow> uuid \<Rightarrow> 'm list \<times> 'f) \<Rightarrow> ('f \<Rightarrow> uuid \<Rightarrow> 'f) \<Rightarrow> nat \<Rightarrow> ('f, 'm) ring_cfg" where
  "merge_cfg get dis ntx =
     \<lparr>cf_ntx = ntx, cf_src = (\<lambda>_. 0), cf_emit = merge_emit get ntx, cf_discard = merge_discard dis, cf_free = merge_discard dis\<rparr>"

text \<open>\<open>_maybe_complete\<close>: the combined count, once both sides' EOFs arrived.\<close>

definition combined_expected :: "uuid \<Rightarrow> 'f rnode \<Rightarrow> int option" where
  "combined_expected cid st =
     (case (dict_lookup (rn_left st) cid, dict_lookup (rn_right st) cid) of
        (Some l, Some r) \<Rightarrow> Some (l + r)
      | _ \<Rightarrow> None)"

definition merge_eof_snapshot :: "'f rnode \<Rightarrow> (string, int) dict \<times> (string, int) dict" where
  "merge_eof_snapshot st =
     (dict_of (map (\<lambda>(c, n). (uuid_str c, n)) (rn_left st)), dict_of (map (\<lambda>(c, n). (uuid_str c, n)) (rn_right st)))"

definition merge_eof_restore :: "(string, int) dict \<times> (string, int) dict \<Rightarrow> ((uuid, int) dict \<times> (uuid, int) dict) result" where
  "merge_eof_restore sn =
     (let parse = (\<lambda>kvs. bind_result (map_result (\<lambda>(c, n). bind_result (parse_uuid c) (\<lambda>c. Inr (c, n))) kvs) (\<lambda>d. Inr (dict_of d)))
      in bind_result (parse (fst sn)) (\<lambda>l. bind_result (parse (snd sn)) (\<lambda>r. Inr (l, r))))"

section \<open>Steps and handlers\<close>

text \<open>
  The steps between two calls on the checkpointer.  A data message that raises leaves its step undone;
  the process ends there, and the broker delivers the message again.
\<close>

datatype ring_ctl =
    CEof uuid int
  | CLeftEof uuid int
  | CRightEof uuid int
  | CCombine uuid
  | CRun "action list"
  | CToken barrier_token
  | CFree uuid
  | CDrop uuid
  | CAborted uuid
  | CRecheck

definition ctl_step :: "('f, 'm) ring_cfg \<Rightarrow> ring_ctl \<Rightarrow> 'f rnode \<Rightarrow> 'f rnode \<times> 'm outgoing list \<times> uuid list" where
  "ctl_step cf e st =
     (case e of
        CEof cid n \<Rightarrow> (st\<lparr>rn_rc := fst (on_upstream_eof (rn_rc st) cid n)\<rparr>, [], [])
      | CLeftEof cid n \<Rightarrow> (st\<lparr>rn_left := dict_set cid n (rn_left st)\<rparr>, [], [])
      | CRightEof cid n \<Rightarrow> (st\<lparr>rn_right := dict_set cid n (rn_right st)\<rparr>, [], [])
      | CCombine cid \<Rightarrow>
          (case combined_expected cid st of
             None \<Rightarrow> (st, [], [])
           | Some n \<Rightarrow> (st\<lparr>rn_rc := fst (on_upstream_eof (rn_rc st) cid n)\<rparr>, [], []))
      | CRun as \<Rightarrow> run_acts cf as st
      | CToken tk \<Rightarrow> with_rc cf (\<lambda>rc. on_token rc tk) st
      | CFree cid \<Rightarrow> (cf_free cf cid st, [], [])
      | CDrop cid \<Rightarrow> (cf_discard cf cid (st\<lparr>rn_rc := drop_client (rn_rc st) cid\<rparr>), [], [])
      | CAborted cid \<Rightarrow> (st, downstream_abort (cf_ntx cf) cid, [])
      | CRecheck \<Rightarrow> with_rc cf recheck st)"

text \<open>
  A handler over a checkpointer \<open>c\<close>: \<open>view\<close> reads the node's state out of it, \<open>ctl\<close> performs a step
  inside it, \<open>fl\<close> flushes it by force.
\<close>

definition free_all :: "(ring_ctl \<Rightarrow> 'c \<Rightarrow> 'c) \<Rightarrow> uuid list \<Rightarrow> 'c \<Rightarrow> 'c" where
  "free_all ctl cids c = foldl (\<lambda>c cid. ctl (CFree cid) c) c cids"

definition run_and_flush ::
    "('f, 'm) ring_cfg \<Rightarrow> ('c \<Rightarrow> 'f rnode) \<Rightarrow> (ring_ctl \<Rightarrow> 'c \<Rightarrow> 'c) \<Rightarrow> ('c \<Rightarrow> 'c result) \<Rightarrow> action list \<Rightarrow> 'c \<Rightarrow> 'c result" where
  "run_and_flush cf view ctl fl as c =
     (let emitted = snd (snd (ctl_step cf (CRun as) (view c)))
      in bind_result (fl (ctl (CRun as) c)) (\<lambda>c. Inr (free_all ctl emitted c)))"

definition handle_eof ::
    "('f, 'm) ring_cfg \<Rightarrow> ('c \<Rightarrow> 'f rnode) \<Rightarrow> (ring_ctl \<Rightarrow> 'c \<Rightarrow> 'c) \<Rightarrow> ('c \<Rightarrow> 'c result) \<Rightarrow> uuid \<Rightarrow> int \<Rightarrow> 'c \<Rightarrow> 'c result" where
  "handle_eof cf view ctl fl cid n c =
     (let as = snd (on_upstream_eof (rn_rc (view c)) cid n); c1 = ctl (CEof cid n) c
      in bind_result (if as \<noteq> [] then fl c1 else Inr c1) (run_and_flush cf view ctl fl as))"

definition handle_merge_eof ::
    "('f, 'm) ring_cfg \<Rightarrow> ('c \<Rightarrow> 'f rnode) \<Rightarrow> (ring_ctl \<Rightarrow> 'c \<Rightarrow> 'c) \<Rightarrow> ('c \<Rightarrow> 'c result) \<Rightarrow> bool \<Rightarrow> uuid \<Rightarrow> int \<Rightarrow> 'c \<Rightarrow> 'c result" where
  "handle_merge_eof cf view ctl fl left cid n c =
     (let c1 = ctl (if left then CLeftEof cid n else CRightEof cid n) c in
      case combined_expected cid (view c1) of
        None \<Rightarrow> fl c1
      | Some e \<Rightarrow>
          (let as = snd (on_upstream_eof (rn_rc (view c1)) cid e); c2 = ctl (CCombine cid) c1
           in bind_result (if as \<noteq> [] then fl c2 else Inr c2) (run_and_flush cf view ctl fl as)))"

definition handle_token ::
    "('f, 'm) ring_cfg \<Rightarrow> ('c \<Rightarrow> 'f rnode) \<Rightarrow> (ring_ctl \<Rightarrow> 'c \<Rightarrow> 'c) \<Rightarrow> ('c \<Rightarrow> 'c result) \<Rightarrow> barrier_token \<Rightarrow> 'c \<Rightarrow> 'c result" where
  "handle_token cf view ctl fl tk c =
     (let emitted = snd (snd (ctl_step cf (CToken tk) (view c)))
      in bind_result (fl (ctl (CToken tk) c)) (\<lambda>c. Inr (free_all ctl emitted c)))"

definition handle_abort ::
    "(ring_ctl \<Rightarrow> 'c \<Rightarrow> 'c) \<Rightarrow> (uuid \<Rightarrow> 'c \<Rightarrow> 'c result) \<Rightarrow> ('c \<Rightarrow> 'c result) \<Rightarrow> uuid \<Rightarrow> 'c \<Rightarrow> 'c result" where
  "handle_abort ctl mark fl cid c =
     bind_result (mark cid (ctl (CDrop cid) c)) (\<lambda>c. bind_result (fl c) (\<lambda>c. Inr (ctl (CAborted cid) c)))"

text \<open>\<open>start\<close> over a restored checkpoint: recheck, free what was resolved before the crash, flush.\<close>

definition handle_start ::
    "('c \<Rightarrow> 'f rnode) \<Rightarrow> (ring_ctl \<Rightarrow> 'c \<Rightarrow> 'c) \<Rightarrow> ('c \<Rightarrow> 'c result) \<Rightarrow> 'c \<Rightarrow> 'c result" where
  "handle_start view ctl fl c =
     (let c1 = ctl CRecheck c in fl (free_all ctl (resolved_clients (rn_rc (view c1))) c1))"

end
