(* ===== verification/Ring_Stateless.thy ===== *)
theory Ring_Stateless
  imports Ring_Nodes
begin

text \<open>
  The stateless ring nodes report what they sent.  The locale \<open>stateless_sender\<close> is the contract of
  their data functions, interpreted for \<open>RingFilter\<close>, \<open>RingBroadcastFilter\<close> and \<open>RingGroupBy\<close>; its
  lemma follows a client through any interleaving of data and EOFs up to the report.
\<close>

section \<open>Runs\<close>

datatype ring_in = SData message | SEof uuid int

type_synonym 'f data_fn = "message \<Rightarrow> 'f rnode \<Rightarrow> ('f rnode \<times> message outgoing list) result"

fun stateless_step :: "'f data_fn \<Rightarrow> nat \<Rightarrow> ring_in \<Rightarrow> 'f rnode \<Rightarrow> ('f rnode \<times> message outgoing list) result" where
  "stateless_step dat ntx (SData m) st =
     bind_result (dat m st) (\<lambda>(st, o1). bind_result (client_of_msg m) (\<lambda>cid.
       case data_done (stateless_cfg ntx) cid st of (st, o2) \<Rightarrow> Inr (st, o1 @ o2)))"
| "stateless_step dat ntx (SEof cid n) st =
     (case with_rc (stateless_cfg ntx) (\<lambda>rc. on_upstream_eof rc cid n) st of (st, outs, _) \<Rightarrow> Inr (st, outs))"

fun stateless_run :: "'f data_fn \<Rightarrow> nat \<Rightarrow> ring_in list \<Rightarrow> 'f rnode \<Rightarrow> ('f rnode \<times> (ring_in \<times> message outgoing list) list) result" where
  "stateless_run dat ntx [] st = Inr (st, [])"
| "stateless_run dat ntx (ev # evs) st =
     bind_result (stateless_step dat ntx ev st) (\<lambda>(st, outs).
     bind_result (stateless_run dat ntx evs st) (\<lambda>(st, lg). Inr (st, (ev, outs) # lg)))"

definition new_rnode :: "'f \<Rightarrow> int \<Rightarrow> int list \<Rightarrow> (bytes \<times> int) list \<Rightarrow> 'f rnode" where
  "new_rnode fn idx peers srcs =
     \<lparr>rn_fn = fn, rn_rc = init_rc idx peers, rn_sent = [], rn_left = [], rn_right = [], rn_srcs = srcs\<rparr>"

text \<open>What a run sent to a shard for a client.\<close>

definition shard_outs :: "nat \<Rightarrow> 'm outgoing list \<Rightarrow> nat" where
  "shard_outs j outs = length (filter (\<lambda>x. case x of OData j' _ _ _ \<Rightarrow> j' = j | _ \<Rightarrow> False) outs)"

fun data_for :: "uuid \<Rightarrow> ring_in \<Rightarrow> bool" where
  "data_for cid (SData m) \<longleftrightarrow> client_of_msg m = Inr cid"
| "data_for cid (SEof _ _) \<longleftrightarrow> False"

definition sent_for :: "uuid \<Rightarrow> nat \<Rightarrow> (ring_in \<times> message outgoing list) list \<Rightarrow> nat" where
  "sent_for cid j lg = sum_list (map (\<lambda>(ev, outs). if data_for cid ev then shard_outs j outs else 0) lg)"

lemma shard_outs_simps [simp]:
  "shard_outs j [] = 0" "shard_outs j (xs @ ys) = shard_outs j xs + shard_outs j ys"
  "shard_outs j (OData j' p s m # xs) = (if j' = j then 1 else 0) + shard_outs j xs"
  by (simp_all add: shard_outs_def)

lemma sent_for_simps [simp]:
  "sent_for cid j [] = 0" "sent_for cid j (lg @ lg') = sent_for cid j lg + sent_for cid j lg'"
  "sent_for cid j [(ev, outs)] = (if data_for cid ev then shard_outs j outs else 0)"
  by (simp_all add: sent_for_def)

lemma shard_outs_flat: "shard_outs j (run_flat ntx a) = 0"
  by (cases a) (auto simp: shard_outs_def downstream_eof_def filter_empty_conv)

lemma shard_outs_flats [simp]: "shard_outs j (concat (map (run_flat ntx) as)) = 0"
  by (induction as) (simp_all add: shard_outs_flat)

lemma stateless_run_snoc:
  "stateless_run dat ntx (evs @ [ev]) st =
     bind_result (stateless_run dat ntx evs st) (\<lambda>(st, lg).
     bind_result (stateless_step dat ntx ev st) (\<lambda>(st, outs). Inr (st, lg @ [(ev, outs)])))"
proof (induction evs arbitrary: st)
  case Nil
  then show ?case by (auto simp: bind_result_def split: sum.splits)
next
  case (Cons e evs)
  then show ?case by (auto simp: bind_result_def split: sum.splits prod.splits)
qed

section \<open>Emission\<close>

text \<open>What \<open>with_rc\<close> does for a client when the only possible action is its own emission.\<close>

lemma report_sent_client:
  assumes "rc_phase (client_of rc c) = PROCESSING"
  shows "rc_phase (client_of (fst (report_sent rc c sent)) c) \<noteq> PROCESSING"
    and "rc_sent (client_of (fst (report_sent rc c sent)) c) = sent"
    and "cid \<noteq> c \<Longrightarrow> client_of (fst (report_sent rc c sent)) cid = client_of rc cid"
  by (simp_all add: report_sent_processing [OF assms] Let_def client_advance)

lemma stateless_emits:
  assumes "f (rn_rc st) = (rc, as)" "as = [] \<or> as = [Emit c]" "as = [Emit c] \<longrightarrow> rc_phase (client_of rc c) = PROCESSING"
    and "with_rc (stateless_cfg ntx) f st = (st', outs, em)"
  shows "shard_outs j outs = 0"
    and "rn_sent st' = (if as = [] then rn_sent st else dict_pop c (rn_sent st))"
    and "rc_aborted (rn_rc st') = rc_aborted rc"
    and "cid \<noteq> c \<or> as = [] \<Longrightarrow> client_of (rn_rc st') cid = client_of rc cid"
    and "as \<noteq> [] \<Longrightarrow> rc_phase (client_of (rn_rc st') c) \<noteq> PROCESSING \<and> rc_sent (client_of (rn_rc st') c) = dict_get (rn_sent st) c []"
proof -
  obtain rc' bs where r: "report_sent rc c (dict_get (rn_sent st) c []) = (rc', bs)" by fastforce
  have e: "st' = (if as = [] then st\<lparr>rn_rc := rc\<rparr> else st\<lparr>rn_rc := rc', rn_sent := dict_pop c (rn_sent st)\<rparr>)"
    "outs = (if as = [] then [] else concat (map (run_flat ntx) bs))"
    using assms(1,2,4) r by (auto simp: with_rc_def run_emit_def stateless_cfg_def stateless_emit_def sent_pop_def)
  show "shard_outs j outs = 0" by (simp add: e)
  show "rn_sent st' = (if as = [] then rn_sent st else dict_pop c (rn_sent st))" by (simp add: e)
  show "rc_aborted (rn_rc st') = rc_aborted rc" using aborted_ops(5) [of rc c "dict_get (rn_sent st) c []"] by (simp add: e r)
  have p: "as \<noteq> [] \<Longrightarrow> rc_phase (client_of rc c) = PROCESSING" using assms(2,3) by auto
  show "cid \<noteq> c \<or> as = [] \<Longrightarrow> client_of (rn_rc st') cid = client_of rc cid"
    using report_sent_client(3) [OF p, of cid "dict_get (rn_sent st) c []"] by (auto simp: e r)
  show "as \<noteq> [] \<Longrightarrow> rc_phase (client_of (rn_rc st') c) \<noteq> PROCESSING \<and> rc_sent (client_of (rn_rc st') c) = dict_get (rn_sent st) c []"
    using report_sent_client(1,2) [OF p, of "dict_get (rn_sent st) c []"] by (simp add: e r)
qed

text \<open>What a data message or an EOF does to the completion of its own client.\<close>

lemma on_data_actions:
  "snd (on_data rc c) = [] \<or> snd (on_data rc c) = [Emit c] \<and> rc_phase (client_of (fst (on_data rc c)) c) = PROCESSING"
  by (auto simp: on_data_def Let_def snd_maybe)

lemma on_eof_actions:
  "snd (on_upstream_eof rc c n) = [] \<or>
   snd (on_upstream_eof rc c n) = [Emit c] \<and> rc_phase (client_of (fst (on_upstream_eof rc c n)) c) = PROCESSING"
  by (auto simp: on_upstream_eof_def Let_def snd_maybe)

section \<open>The contract\<close>

definition sent_count :: "'f rnode \<Rightarrow> uuid \<Rightarrow> nat \<Rightarrow> int" where
  "sent_count st c j = shard_count (dict_get (rn_sent st) c []) (int j)"

locale stateless_sender =
  fixes dat :: "'f data_fn"
  assumes dat_counts: "dat m st = Inr (st', outs) \<Longrightarrow> client_of_msg m = Inr cid \<Longrightarrow>
      sent_count st' c j = sent_count st c j + (if c = cid then int (shard_outs j outs) else 0)"
    and dat_rc: "dat m st = Inr (st', outs) \<Longrightarrow> rn_rc st' = rn_rc st"
    and dat_client: "dat m st = Inr r \<Longrightarrow> \<exists>cid. client_of_msg m = Inr cid"
begin

text \<open>While a client is processing, its counts are those of the messages sent for it; once it is
  complete, what it reports is.\<close>

definition reported :: "uuid \<Rightarrow> int \<Rightarrow> nat \<Rightarrow> bool \<Rightarrow> (nat \<Rightarrow> nat) \<Rightarrow> 'f rnode \<Rightarrow> bool" where
  "reported cid n k e out st \<longleftrightarrow>
     cid |\<notin>| rc_aborted (rn_rc st) \<and>
     (if e \<and> n \<le> int k
      then rc_phase (client_of (rn_rc st) cid) \<noteq> PROCESSING \<and> (\<forall>j. shard_count (rc_sent (client_of (rn_rc st) cid)) (int j) = int (out j))
      else rc_phase (client_of (rn_rc st) cid) = PROCESSING \<and> rc_received (client_of (rn_rc st) cid) = int k \<and>
        rc_expected (client_of (rn_rc st) cid) = (if e then n else -1) \<and> (\<forall>j. sent_count st cid j = int (out j)))"

lemma reported_data:
  assumes "reported cid n k e out st" "stateless_step dat ntx (SData m) st = Inr (st', outs)" "0 \<le> n"
    and "data_for cid (SData m) \<longrightarrow> int k < n"
  shows "reported cid n (if data_for cid (SData m) then k + 1 else k) e (\<lambda>j. out j + (if data_for cid (SData m) then shard_outs j outs else 0)) st'"
proof -
  from assms(2) obtain st1 o1 c o2 em where d: "dat m st = Inr (st1, o1)" "client_of_msg m = Inr c"
    "with_rc (stateless_cfg ntx) (\<lambda>rc. on_data rc c) st1 = (st', o2, em)" "outs = o1 @ o2"
    by (auto simp: data_done_def bind_result_def split: sum.splits prod.splits)
  obtain rc as where r: "on_data (rn_rc st1) c = (rc, as)" by fastforce
  have a: "as = [] \<or> as = [Emit c]" "as = [Emit c] \<longrightarrow> rc_phase (client_of rc c) = PROCESSING"
    using on_data_actions [of "rn_rc st1" c] by (auto simp: r)
  note E = stateless_emits [OF r a d(3)]
  have rc: "rn_rc st1 = rn_rc st" by (rule dat_rc [OF d(1)])
  have cl: "client_of rc x = (if x = c \<and> c |\<notin>| rc_aborted (rn_rc st) then (client_of (rn_rc st) c)\<lparr>rc_received := rc_received (client_of (rn_rc st) c) + 1\<rparr>
      else client_of (rn_rc st) x)" for x
    using client_on_data [of "rn_rc st" c x] r rc by simp
  have ab: "rc_aborted (rn_rc st') = rc_aborted (rn_rc st)" using E(3) r rc by (metis aborted_ops(2) fst_conv)
  have cnt: "sent_count st1 x j = sent_count st x j + (if x = c then int (shard_outs j o1) else 0)" for x j
    by (rule dat_counts [OF d(1,2)])
  have cnt': "sent_count st' x j = (if as \<noteq> [] \<and> x = c then 0 else sent_count st1 x j)" for x j
    using E(2) by (auto simp: sent_count_def shard_count_def)
  have so: "shard_outs j outs = shard_outs j o1" for j using E(1) d(4) by simp
  show ?thesis
  proof (cases "c = cid")
    case False
    with assms(1) d(2) E(4) [of cid] cl [of cid] ab cnt cnt' show ?thesis by (auto simp: reported_def)
  next
    case True
    have nab: "cid |\<notin>| rc_aborted (rn_rc st)" and lt: "int k < n" using assms(1,4) d(2) True by (simp_all add: reported_def)
    have old: "rc_phase (client_of (rn_rc st) cid) = PROCESSING" "rc_received (client_of (rn_rc st) cid) = int k"
      "rc_expected (client_of (rn_rc st) cid) = (if e then n else -1)" "\<And>j. sent_count st cid j = int (out j)"
      using assms(1) lt by (auto simp: reported_def)
    have as_iff: "as \<noteq> [] \<longleftrightarrow> e \<and> n \<le> int k + 1"
      using r nab old(1-3) assms(3) by (auto simp: rc True on_data_def Let_def dest!: arg_cong [where f = snd] split: if_splits simp: snd_maybe)
    have one: "sent_count st1 cid j = int (out j + shard_outs j outs)" for j using cnt [of cid j] old(4) so by (simp add: True)
    show ?thesis
    proof (cases "as = []")
      case as: True
      with as_iff E(4) [of cid] cl [of cid] ab nab cnt' one old d(2) True show ?thesis
        by (auto simp: reported_def)
    next
      case False
      with as_iff E(5) ab nab one d(2) True show ?thesis
        by (auto simp: reported_def sent_count_def)
    qed
  qed
qed

lemma reported_eof:
  assumes "reported cid n k e out st" "stateless_step dat ntx (SEof c x) st = Inr (st', outs)" "c = cid \<longrightarrow> x = n" "0 \<le> n" "int k \<le> n"
  shows "reported cid n k (e \<or> c = cid) out st'"
proof -
  from assms(2) obtain o2 :: "message outgoing list" and em where d: "with_rc (stateless_cfg ntx) (\<lambda>rc. on_upstream_eof rc c x) st = (st', o2, em)"
    by (auto split: prod.splits)
  obtain rc as where r: "on_upstream_eof (rn_rc st) c x = (rc, as)" by fastforce
  have a: "as = [] \<or> as = [Emit c]" "as = [Emit c] \<longrightarrow> rc_phase (client_of rc c) = PROCESSING"
    using on_eof_actions [of "rn_rc st" c x] by (auto simp: r)
  note E = stateless_emits [OF r a d]
  have cl: "client_of rc y = (if y = c \<and> c |\<notin>| rc_aborted (rn_rc st) then (client_of (rn_rc st) c)\<lparr>rc_expected := x\<rparr>
      else client_of (rn_rc st) y)" for y
    using client_on_eof [of "rn_rc st" c x] r by simp
  have ab: "rc_aborted (rn_rc st') = rc_aborted (rn_rc st)" using E(3) r by (metis aborted_ops(3) fst_conv)
  have cnt': "sent_count st' y j = (if as \<noteq> [] \<and> y = c then 0 else sent_count st y j)" for y j
    using E(2) by (auto simp: sent_count_def shard_count_def)
  show ?thesis
  proof (cases "c = cid")
    case False
    with assms(1) E(4) [of cid] cl [of cid] ab cnt' show ?thesis by (auto simp: reported_def)
  next
    case c: True
    have nab: "cid |\<notin>| rc_aborted (rn_rc st)" using assms(1) by (simp add: reported_def)
    have x: "x = n" using assms(3) c by simp
    show ?thesis
    proof (cases "rc_phase (client_of (rn_rc st) cid) = PROCESSING")
      case False
      then have fin: "e \<and> n \<le> int k" using assms(1) by (auto simp: reported_def split: if_splits)
      have "as = []" using r nab False by (auto simp: c on_upstream_eof_def Let_def dest!: arg_cong [where f = snd] simp: snd_maybe)
      with assms(1) fin E(4) [of cid] cl [of cid] ab nab c show ?thesis by (auto simp: reported_def)
    next
      case True
      then have old: "rc_received (client_of (rn_rc st) cid) = int k" "\<And>j. sent_count st cid j = int (out j)"
        using assms(1) by (auto simp: reported_def split: if_splits)
      have as_iff: "as \<noteq> [] \<longleftrightarrow> n \<le> int k"
        using r nab old(1) True assms(4) x by (auto simp: c on_upstream_eof_def Let_def dest!: arg_cong [where f = snd] split: if_splits simp: snd_maybe)
      show ?thesis
      proof (cases "as = []")
        case as: True
        with as_iff E(4) [of cid] cl [of cid] ab nab cnt' old True c x show ?thesis by (auto simp: reported_def)
      next
        case False
        with as_iff E(5) ab nab old c show ?thesis by (auto simp: reported_def sent_count_def)
      qed
    qed
  qed
qed

lemma reported_init: "0 \<le> n \<Longrightarrow> reported cid n 0 False (\<lambda>_. 0) (new_rnode fn idx peers srcs)"
  by (simp add: reported_def new_rnode_def init_rc_def client_of_def new_client_def sent_count_def shard_count_def)

lemma reported_run:
  assumes "0 \<le> n" "int (length (filter (data_for cid) evs)) \<le> n" "\<forall>x. SEof cid x \<in> set evs \<longrightarrow> x = n"
    and "stateless_run dat ntx evs (new_rnode fn idx peers srcs) = Inr (st, lg)"
  shows "reported cid n (length (filter (data_for cid) evs)) (\<exists>x. SEof cid x \<in> set evs) (\<lambda>j. sent_for cid j lg) st"
  using assms(2-)
proof (induction evs arbitrary: st lg rule: rev_induct)
  case Nil
  then show ?case using reported_init [OF assms(1), of cid fn idx peers srcs] by auto
next
  case (snoc ev evs)
  from snoc.prems(3) obtain st0 lg0 outs where r: "stateless_run dat ntx evs (new_rnode fn idx peers srcs) = Inr (st0, lg0)"
    "stateless_step dat ntx ev st0 = Inr (st, outs)" "lg = lg0 @ [(ev, outs)]"
    by (auto simp: stateless_run_snoc bind_result_def split: sum.splits)
  have b: "int (length (filter (data_for cid) evs)) \<le> n" "\<forall>x. SEof cid x \<in> set evs \<longrightarrow> x = n"
    using snoc.prems(1,2) by (auto split: if_splits)
  note IH = snoc.IH [OF b r(1)]
  show ?case
  proof (cases ev)
    case (SData m)
    have "data_for cid (SData m) \<longrightarrow> int (length (filter (data_for cid) evs)) < n" using snoc.prems(1) by (auto simp: SData)
    from reported_data [OF IH r(2) [unfolded SData] assms(1) this] show ?thesis
      by (auto simp: SData r(3))
  next
    case (SEof c x)
    have "c = cid \<longrightarrow> x = n" using snoc.prems(2) by (auto simp: SEof)
    from reported_eof [OF IH r(2) [unfolded SEof] this assms(1) b(1)] show ?thesis
      by (auto simp: SEof r(3) intro: back_subst [where P = "\<lambda>e. reported cid n _ e _ st"])
  qed
qed

end

section \<open>The three kinds meet it\<close>

lemma sent_count_add:
  "sent_count (st\<lparr>rn_sent := sent_add cid s (rn_sent st)\<rparr>) c j = sent_count st c j + (if c = cid \<and> int j = s then 1 else 0)"
  by (simp add: sent_count_def sent_add_def add_shard_def shard_count_def)

lemma forward_stamped_counts:
  "forward_stamped j' cid m out st = (st', x) \<Longrightarrow>
   sent_count st' c j = sent_count st c j + (if c = cid then int (shard_outs j [x]) else 0) \<and> rn_rc st' = rn_rc st"
  by (auto simp: forward_stamped_def sent_count_add)

lemma broadcast_counts:
  "broadcast_routes fs k cid m st = Inr (st', outs) \<Longrightarrow>
   sent_count st' c j = sent_count st c j + (if c = cid then int (shard_outs j outs) else 0) \<and> rn_rc st' = rn_rc st"
proof (induction fs k cid m st arbitrary: st' outs rule: broadcast_routes.induct)
  case (2 fil fs k cid m st)
  from 2(2) obtain out st1 x xs where o: "fil m = Inr out" "forward_stamped k cid m out st = (st1, x)"
    "broadcast_routes fs (k + 1) cid m st1 = Inr (st', xs)" "outs = [x] @ xs"
    by (auto simp: bind_result_def split: sum.splits prod.splits)
  from 2(1) [OF o(2) [symmetric] o(3)] forward_stamped_counts [OF o(2), of c j] show ?case by (simp only: o(4) shard_outs_simps) auto
qed simp

lemma sharded_counts:
  "sharded_routes rs k cid m st = Inr (st', outs) \<Longrightarrow>
   sent_count st' c j = sent_count st c j + (if c = cid then int (shard_outs j outs) else 0) \<and> rn_rc st' = rn_rc st"
proof (induction rs k cid m st arbitrary: st' outs rule: sharded_routes.induct)
  case (2 n fil rs k cid m st)
  from 2(2) obtain i out st1 x xs where o: "fil m = Inr out" "forward_stamped (k + nat i) cid m out st = (st1, x)"
    "sharded_routes rs (k + n) cid m st1 = Inr (st', xs)" "outs = [x] @ xs"
    by (auto simp: bind_result_def split: sum.splits prod.splits)
  have "sent_count st' c j = sent_count st1 c j + (if c = cid then int (shard_outs j xs) else 0) \<and> rn_rc st' = rn_rc st1"
    by (rule 2(1) [OF o(2) [symmetric] o(3)])
  with forward_stamped_counts [OF o(2), of c j] show ?case by (simp only: o(4) shard_outs_simps) auto
qed simp

lemma send_msg_frame: "send_msg src j m st = (st', x) \<Longrightarrow> rn_sent st' = rn_sent st \<and> rn_rc st' = rn_rc st \<and> (\<exists>p s. x = OData j p s m)"
  by (auto simp: send_msg_def split: prod.splits)

lemma fleets_counts:
  "to_fleets ns base cid g aff st = Inr (st', outs) \<Longrightarrow>
   sent_count st' c j = sent_count st c j + (if c = cid then int (shard_outs j outs) else 0) \<and> rn_rc st' = rn_rc st"
proof (induction ns base cid g aff st arbitrary: st' outs rule: to_fleets.induct)
  case (2 n ns base cid g aff st)
  obtain st1 x where x: "send_msg (\<lambda>j. j) (base + nat (aff mod int n)) g st = (st1, x)" by fastforce
  from 2(2) have n: "n \<noteq> 0" by (auto split: if_splits)
  let ?st1 = "st1\<lparr>rn_sent := sent_add cid (int base + aff mod int n) (rn_sent st1)\<rparr>"
  from 2(2) x n obtain xs where o: "to_fleets ns (base + n) cid g aff ?st1 = Inr (st', xs)" "outs = x # xs"
    by (auto simp: bind_result_def split: sum.splits)
  have "sent_count st' c j = sent_count ?st1 c j + (if c = cid then int (shard_outs j xs) else 0) \<and> rn_rc st' = rn_rc ?st1"
    by (rule 2(1) [OF n x [symmetric] o(1)])
  moreover have "int j = int base + aff mod int n \<longleftrightarrow> j = base + nat (aff mod int n)"
  proof -
    have e: "int base + aff mod int n = int (base + nat (aff mod int n))" using n by simp
    show ?thesis unfolding e by (rule of_nat_eq_iff)
  qed
  moreover have "sent_count st1 c j = sent_count st c j" using send_msg_frame [OF x] by (simp add: sent_count_def)
  moreover have "sent_count ?st1 c j = sent_count st1 c j + (if c = cid \<and> int j = int base + aff mod int n then 1 else 0)"
    by (rule sent_count_add)
  moreover obtain p s where "x = OData (base + nat (aff mod int n)) p s g" "rn_rc st1 = rn_rc st" using send_msg_frame [OF x] by blast
  ultimately show ?case unfolding o(2) by simp
qed simp

lemma groups_counts:
  "send_groups fleets cid gs st = Inr (st', outs) \<Longrightarrow>
   sent_count st' c j = sent_count st c j + (if c = cid then int (shard_outs j outs) else 0) \<and> rn_rc st' = rn_rc st"
proof (induction fleets cid gs st arbitrary: st' outs rule: send_groups.induct)
  case (2 fleets cid g aff gs st)
  from 2(2) obtain st1 o1 o2 where o: "to_fleets fleets 0 cid g aff st = Inr (st1, o1)" "send_groups fleets cid gs st1 = Inr (st', o2)" "outs = o1 @ o2"
    by (auto simp: bind_result_def split: sum.splits)
  have "sent_count st' c j = sent_count st1 c j + (if c = cid then int (shard_outs j o2) else 0) \<and> rn_rc st' = rn_rc st1"
    using 2(1) o(1,2) by blast
  with fleets_counts [OF o(1), of c j] show ?case by (auto simp: o(3))
qed simp

interpretation ring_filter: stateless_sender "ring_filter_data fil ntx" for fil ntx
proof
  fix m :: message and st st' :: "'a rnode" and outs c j cid
  assume "ring_filter_data fil ntx m st = Inr (st', outs)"
  then obtain s out cid' x where f: "client_of_msg m = Inr cid'" "forward_stamped (nat s) cid' m out st = (st', x)" "outs = [x]"
    by (auto simp: ring_filter_data_def bind_result_def split: sum.splits prod.splits)
  from forward_stamped_counts [OF f(2)] f show "rn_rc st' = rn_rc st" by blast
  show "client_of_msg m = Inr cid \<Longrightarrow> sent_count st' c j = sent_count st c j + (if c = cid then int (shard_outs j outs) else 0)"
    using forward_stamped_counts [OF f(2), of c j] f(1,3) by simp
qed (auto simp: ring_filter_data_def bind_result_def split: sum.splits)

interpretation ring_broadcast: stateless_sender "ring_broadcast_data bs ss" for bs ss
proof
  fix m :: message and st st' :: "'a rnode" and outs c j cid
  assume "ring_broadcast_data bs ss m st = Inr (st', outs)"
  then obtain cid' st1 o1 o2 where f: "client_of_msg m = Inr cid'" "broadcast_routes bs 0 cid' m st = Inr (st1, o1)"
    "sharded_routes ss (length bs) cid' m st1 = Inr (st', o2)" "outs = o1 @ o2"
    by (auto simp: ring_broadcast_data_def bind_result_def split: sum.splits)
  from broadcast_counts [OF f(2), of c j] sharded_counts [OF f(3), of c j] show "rn_rc st' = rn_rc st" by simp
  show "client_of_msg m = Inr cid \<Longrightarrow> sent_count st' c j = sent_count st c j + (if c = cid then int (shard_outs j outs) else 0)"
    using broadcast_counts [OF f(2), of c j] sharded_counts [OF f(3), of c j] f(1,4) by simp
qed (auto simp: ring_broadcast_data_def bind_result_def split: sum.splits)

interpretation ring_group: stateless_sender "ring_group_data grp fleets" for grp fleets
proof
  fix m :: message and st st' :: "'a rnode" and outs c j cid
  assume "ring_group_data grp fleets m st = Inr (st', outs)"
  then obtain cid' gs where f: "client_of_msg m = Inr cid'" "send_groups fleets cid' gs st = Inr (st', outs)"
    by (auto simp: ring_group_data_def bind_result_def split: sum.splits)
  from groups_counts [OF f(2), of c j] show "rn_rc st' = rn_rc st" by simp
  show "client_of_msg m = Inr cid \<Longrightarrow> sent_count st' c j = sent_count st c j + (if c = cid then int (shard_outs j outs) else 0)"
    using groups_counts [OF f(2), of c j] f(1) by simp
qed (auto simp: ring_group_data_def bind_result_def split: sum.splits)

section \<open>Property\<close>

text \<open>
  C32.  A stateless node reports to the barrier exactly what it sent.  In any interleaving of the data
  of several clients and of their EOFs, repeated or early, a filter, broadcast filter or group-by
  reports a client exactly when its EOF and the announced number of messages have been processed,
  and the count it reports for each downstream shard is the number of messages it sent there for the
  client.
\<close>

theorem stateless_reports_sent:
  assumes "dat = ring_filter_data fil ntx \<or> dat = ring_broadcast_data bs ss \<or> dat = ring_group_data grp fleets"
    and "stateless_run dat ntx evs (new_rnode fn idx peers srcs) = Inr (st, lg)"
    and "int (length (filter (data_for cid) evs)) \<le> n" "\<forall>x. SEof cid x \<in> set evs \<longrightarrow> x = n" "0 \<le> n"
  shows "if (\<exists>x. SEof cid x \<in> set evs) \<and> int (length (filter (data_for cid) evs)) = n
    then rc_phase (client_of (rn_rc st) cid) \<noteq> PROCESSING \<and>
      (\<forall>j. shard_count (rc_sent (client_of (rn_rc st) cid)) (int j) = int (sent_for cid j lg))
    else rc_phase (client_of (rn_rc st) cid) = PROCESSING"
proof -
  have "ring_filter.reported cid n (length (filter (data_for cid) evs)) (\<exists>x. SEof cid x \<in> set evs) (\<lambda>j. sent_for cid j lg) st"
    using assms(1,2) ring_filter.reported_run [OF assms(5,3,4)] ring_broadcast.reported_run [OF assms(5,3,4)] ring_group.reported_run [OF assms(5,3,4)]
    by auto
  with assms(3) show ?thesis by (auto simp: ring_filter.reported_def)
qed

definition demo_msg :: "uuid \<Rightarrow> int \<Rightarrow> message" where
  "demo_msg cid s = (new_message cid (TransactionCount 1))\<lparr>Messages.msg_seq := s\<rparr>"

definition demo_evs :: "ring_in list" where
  "demo_evs = [SData (demo_msg 7 1), SEof 7 2, SData (demo_msg 8 1), SData (demo_msg 7 2)]"

definition demo_dat :: "unit data_fn" where
  "demo_dat = ring_broadcast_data [Inr, Inr] [(2, Inr)]"

theorem stateless_reports_sent_witness:
  "\<exists>st lg. stateless_run demo_dat 4 demo_evs (new_rnode () 1 [0] []) = Inr (st, lg) \<and>
    rc_phase (client_of (rn_rc st) 7) \<noteq> PROCESSING \<and>
    (\<forall>j. shard_count (rc_sent (client_of (rn_rc st) 7)) (int j) = int (sent_for 7 j lg))"
proof -
  have "\<not> isl (stateless_run demo_dat 4 demo_evs (new_rnode () 1 [0] []))" by code_simp
  then obtain st lg where r: "stateless_run demo_dat 4 demo_evs (new_rnode () 1 [0] []) = Inr (st, lg)"
    by (cases "stateless_run demo_dat 4 demo_evs (new_rnode () 1 [0] [])") auto
  have n: "int (length (filter (data_for 7) demo_evs)) = 2" by code_simp
  have e: "SEof 7 x \<in> set demo_evs \<longleftrightarrow> x = 2" for x by (auto simp: demo_evs_def)
  have d: "demo_dat = ring_filter_data fil 4 \<or> demo_dat = ring_broadcast_data [Inr, Inr] [(2, Inr)] \<or> demo_dat = ring_group_data grp fleets"
    for fil grp fleets by (simp add: demo_dat_def)
  have "if (\<exists>x. SEof 7 x \<in> set demo_evs) \<and> int (length (filter (data_for 7) demo_evs)) = 2
    then rc_phase (client_of (rn_rc st) 7) \<noteq> PROCESSING \<and>
      (\<forall>j. shard_count (rc_sent (client_of (rn_rc st) 7)) (int j) = int (sent_for 7 j lg))
    else rc_phase (client_of (rn_rc st) 7) = PROCESSING"
    by (rule stateless_reports_sent [OF d r]) (simp_all add: n e)
  with r show ?thesis unfolding n e by auto
qed

end
