(* ===== verification/Registry.thy ===== *)
theory Registry
  imports Prelude
begin

text \<open>
  What the leading supervisor knows of the nodes (\<open>supervisor/registry.py\<close>) and how it starts those it
  takes for dead (\<open>supervisor/reviver.py\<close>).  The clocks are inputs: \<open>now\<close> is the monotonic time each
  operation is given, \<open>wall\<close> the wall clock read when an event is logged for a node.  The registry's
  lock makes each operation one step.  \<open>docker start\<close> is the list of the nodes started: whether it
  fails is not looked at.

  The properties: after a sweep the status of every node is what its last heartbeat says, and the
  event log keeps its bound; the reviver starts the dead nodes, each at most once per cooldown.
\<close>

section \<open>The registry\<close>

datatype status = UNKNOWN | ALIVE | DEAD

fun status_value :: "status \<Rightarrow> string" where
  "status_value UNKNOWN = ''unknown''"
| "status_value ALIVE = ''alive''"
| "status_value DEAD = ''dead''"

record node_state =
  ns_id :: string
  ns_kind :: string
  ns_status :: status
  ns_last :: "rat option"

record rg_event =
  re_at :: rat
  re_node :: string
  re_message :: string

record registry =
  rg_timeout :: rat
  rg_max_events :: nat
  rg_nodes :: "(string, node_state) dict"
  rg_events :: "rg_event list"
  rg_started :: "rat option"

definition new_node :: "string \<Rightarrow> node_state" where
  "new_node nid = \<lparr>ns_id = nid, ns_kind = ''node'', ns_status = UNKNOWN, ns_last = None\<rparr>"

definition new_registry :: "rat \<Rightarrow> string list \<Rightarrow> nat \<Rightarrow> registry" where
  "new_registry timeout expected max_events =
     \<lparr>rg_timeout = timeout, rg_max_events = max_events, rg_nodes = dict_of (map (\<lambda>n. (n, new_node n)) expected),
      rg_events = [], rg_started = None\<rparr>"

definition push_event :: "nat \<Rightarrow> rg_event \<Rightarrow> rg_event list \<Rightarrow> rg_event list" where
  "push_event mx e evs = (let evs = evs @ [e] in if mx < length evs then tl evs else evs)"

definition transition ::
    "nat \<Rightarrow> rat \<Rightarrow> status \<Rightarrow> string \<Rightarrow> node_state \<Rightarrow> rg_event list \<Rightarrow> node_state \<times> rg_event list" where
  "transition mx wt s reason nd evs =
     (if ns_status nd \<noteq> s
      then (nd\<lparr>ns_status := s\<rparr>,
            push_event mx \<lparr>re_at = wt, re_node = ns_id nd, re_message = reason @ '' -> '' @ status_value s\<rparr> evs)
      else (nd, evs))"

definition register :: "rat \<Rightarrow> string \<Rightarrow> string \<Rightarrow> rat \<Rightarrow> registry \<Rightarrow> registry" where
  "register wt nid kind now rg =
     (let nd = (dict_get (rg_nodes rg) nid (new_node nid))\<lparr>ns_kind := kind, ns_last := Some now\<rparr> in
      case transition (rg_max_events rg) wt ALIVE ''registered'' nd (rg_events rg) of
        (nd, evs) \<Rightarrow> rg\<lparr>rg_nodes := dict_set nid nd (rg_nodes rg), rg_events := evs\<rparr>)"

definition heartbeat :: "rat \<Rightarrow> string \<Rightarrow> rat \<Rightarrow> registry \<Rightarrow> registry" where
  "heartbeat wt nid now rg =
     (let nd = (dict_get (rg_nodes rg) nid (new_node nid))\<lparr>ns_last := Some now\<rparr> in
      case (if ns_status nd \<noteq> ALIVE then transition (rg_max_events rg) wt ALIVE ''recovered'' nd (rg_events rg)
            else (nd, rg_events rg)) of
        (nd, evs) \<Rightarrow> rg\<lparr>rg_nodes := dict_set nid nd (rg_nodes rg), rg_events := evs\<rparr>)"

definition sweep_node ::
    "nat \<Rightarrow> rat \<Rightarrow> rat \<Rightarrow> rat \<Rightarrow> (string \<Rightarrow> rat) \<Rightarrow> node_state \<Rightarrow> rg_event list \<Rightarrow> node_state \<times> rg_event list" where
  "sweep_node mx timeout started now wall nd evs =
     (case ns_last nd of
        Some h \<Rightarrow>
          if ns_status nd = ALIVE \<and> timeout < now - h
          then transition mx (wall (ns_id nd)) DEAD ''heartbeat lost'' nd evs else (nd, evs)
      | None \<Rightarrow>
          if ns_status nd = UNKNOWN \<and> timeout < now - started
          then transition mx (wall (ns_id nd)) DEAD ''never seen'' nd evs else (nd, evs))"

fun sweep_nodes ::
    "nat \<Rightarrow> rat \<Rightarrow> rat \<Rightarrow> rat \<Rightarrow> (string \<Rightarrow> rat) \<Rightarrow> (string, node_state) dict \<Rightarrow> rg_event list \<Rightarrow>
     (string, node_state) dict \<times> rg_event list" where
  "sweep_nodes mx timeout started now wall [] evs = ([], evs)"
| "sweep_nodes mx timeout started now wall ((k, nd) # ns) evs =
     (case sweep_node mx timeout started now wall nd evs of
        (nd, evs) \<Rightarrow> (case sweep_nodes mx timeout started now wall ns evs of (ns, evs) \<Rightarrow> ((k, nd) # ns, evs)))"

definition check_timeouts :: "(string \<Rightarrow> rat) \<Rightarrow> rat \<Rightarrow> registry \<Rightarrow> registry" where
  "check_timeouts wall now rg =
     (let started = (case rg_started rg of None \<Rightarrow> now | Some s \<Rightarrow> s) in
      case sweep_nodes (rg_max_events rg) (rg_timeout rg) started now wall (rg_nodes rg) (rg_events rg) of
        (ns, evs) \<Rightarrow> rg\<lparr>rg_nodes := ns, rg_events := evs, rg_started := Some started\<rparr>)"

definition note_event :: "rat \<Rightarrow> string \<Rightarrow> string \<Rightarrow> registry \<Rightarrow> registry" where
  "note_event wt nid msg rg =
     rg\<lparr>rg_events := push_event (rg_max_events rg) \<lparr>re_at = wt, re_node = nid, re_message = msg\<rparr> (rg_events rg)\<rparr>"

definition rg_snapshot :: "registry \<Rightarrow> node_state list \<times> rg_event list" where
  "rg_snapshot rg = (map snd (rg_nodes rg), rg_events rg)"

section \<open>The reviver\<close>

record reviver =
  rv_cooldown :: rat
  rv_last :: "(string, rat) dict"

definition revive :: "rat \<Rightarrow> string \<Rightarrow> rat \<Rightarrow> reviver \<times> registry \<Rightarrow> reviver \<times> registry" where
  "revive wt nid now w =
     ((fst w)\<lparr>rv_last := dict_set nid now (rv_last (fst w))\<rparr>, note_event wt nid ''reviving (docker start)'' (snd w))"

definition cooling :: "reviver \<Rightarrow> string \<Rightarrow> rat \<Rightarrow> bool" where
  "cooling rv nid now = (case dict_lookup (rv_last rv) nid of None \<Rightarrow> False | Some t \<Rightarrow> now - t \<le> rv_cooldown rv)"

text \<open>\<open>sweep\<close>: the nodes it starts, in order, and the new state.\<close>

fun revive_nodes :: "(string \<Rightarrow> rat) \<Rightarrow> rat \<Rightarrow> node_state list \<Rightarrow> reviver \<times> registry \<Rightarrow> string list \<times> reviver \<times> registry" where
  "revive_nodes wall now [] w = ([], w)"
| "revive_nodes wall now (nd # ns) w =
     (if ns_status nd \<noteq> DEAD \<or> cooling (fst w) (ns_id nd) now then revive_nodes wall now ns w
      else case revive_nodes wall now ns (revive (wall (ns_id nd)) (ns_id nd) now w) of (xs, w) \<Rightarrow> (ns_id nd # xs, w))"

definition revive_sweep :: "(string \<Rightarrow> rat) \<Rightarrow> rat \<Rightarrow> reviver \<times> registry \<Rightarrow> string list \<times> reviver \<times> registry" where
  "revive_sweep wall now w = revive_nodes wall now (fst (rg_snapshot (snd w))) w"

section \<open>Histories of the registry\<close>

datatype rg_input = RRegister string string rat | RHeartbeat string rat | RSweep rat

fun input_time :: "rg_input \<Rightarrow> rat" where
  "input_time (RRegister nid kind now) = now"
| "input_time (RHeartbeat nid now) = now"
| "input_time (RSweep now) = now"

fun rg_step :: "(string \<Rightarrow> rat) \<Rightarrow> rg_input \<Rightarrow> registry \<Rightarrow> registry" where
  "rg_step wall (RRegister nid kind now) rg = register (wall nid) nid kind now rg"
| "rg_step wall (RHeartbeat nid now) rg = heartbeat (wall nid) nid now rg"
| "rg_step wall (RSweep now) rg = check_timeouts wall now rg"

definition rg_run :: "(rg_input \<times> (string \<Rightarrow> rat)) list \<Rightarrow> registry \<Rightarrow> registry" where
  "rg_run evs rg = foldl (\<lambda>rg (e, wall). rg_step wall e rg) rg evs"

text \<open>What a history says of a node: when it was last heard, and when the sweeps began.\<close>

fun beat_of :: "string \<Rightarrow> rg_input \<Rightarrow> rat option" where
  "beat_of nid (RRegister n kind now) = (if n = nid then Some now else None)"
| "beat_of nid (RHeartbeat n now) = (if n = nid then Some now else None)"
| "beat_of nid (RSweep now) = None"

definition last_beat :: "string \<Rightarrow> rg_input list \<Rightarrow> rat option" where
  "last_beat nid es = foldl (\<lambda>b e. case beat_of nid e of None \<Rightarrow> b | Some t \<Rightarrow> Some t) None es"

definition first_sweep :: "rg_input list \<Rightarrow> rat option" where
  "first_sweep es = foldl (\<lambda>s e. case (s, e) of (None, RSweep t) \<Rightarrow> Some t | _ \<Rightarrow> s) None es"

definition status_of :: "registry \<Rightarrow> string \<Rightarrow> status option" where
  "status_of rg nid = map_option ns_status (dict_lookup (rg_nodes rg) nid)"

lemma last_beat_snoc [simp]:
  "last_beat nid [] = None"
  "last_beat nid (es @ [e]) = (case beat_of nid e of None \<Rightarrow> last_beat nid es | Some t \<Rightarrow> Some t)"
  by (simp_all add: last_beat_def split: option.splits)

lemma first_sweep_snoc [simp]:
  "first_sweep [] = None"
  "first_sweep (es @ [e]) = (case (first_sweep es, e) of (None, RSweep t) \<Rightarrow> Some t | _ \<Rightarrow> first_sweep es)"
  by (auto simp: first_sweep_def split: option.splits rg_input.splits)

lemma rg_run_snoc [simp]:
  "rg_run [] rg = rg"
  "rg_run (evs @ [x]) rg = rg_step (snd x) (fst x) (rg_run evs rg)"
  by (simp_all add: rg_run_def split: prod.splits)

section \<open>One step seen from one node\<close>

definition swept :: "rat \<Rightarrow> rat \<Rightarrow> rat \<Rightarrow> node_state \<Rightarrow> node_state" where
  "swept timeout started now nd =
     (case ns_last nd of
        Some h \<Rightarrow> if ns_status nd = ALIVE \<and> timeout < now - h then nd\<lparr>ns_status := DEAD\<rparr> else nd
      | None \<Rightarrow> if ns_status nd = UNKNOWN \<and> timeout < now - started then nd\<lparr>ns_status := DEAD\<rparr> else nd)"

lemma transition_node: "fst (transition mx wt s reason nd evs) = nd\<lparr>ns_status := s\<rparr>"
  by (simp add: transition_def)

lemma sweep_node_node: "fst (sweep_node mx timeout started now wall nd evs) = swept timeout started now nd"
  by (auto simp: sweep_node_def swept_def transition_node split: option.splits)

lemma lookup_sweep_nodes:
  "dict_lookup (fst (sweep_nodes mx timeout started now wall ns evs)) k = map_option (swept timeout started now) (dict_lookup ns k)"
proof (induction mx timeout started now wall ns evs rule: sweep_nodes.induct)
  case (2 mx timeout started now wall k' nd ns evs)
  then show ?case using sweep_node_node [of mx timeout started now wall nd evs] by (auto split: prod.splits)
qed simp

lemma lookup_step:
  "dict_lookup (rg_nodes (rg_step wall e rg)) k =
     (case e of
        RRegister nid kind now \<Rightarrow>
          if k = nid then Some ((dict_get (rg_nodes rg) nid (new_node nid))\<lparr>ns_kind := kind, ns_last := Some now, ns_status := ALIVE\<rparr>)
          else dict_lookup (rg_nodes rg) k
      | RHeartbeat nid now \<Rightarrow>
          if k = nid then Some ((dict_get (rg_nodes rg) nid (new_node nid))\<lparr>ns_last := Some now, ns_status := ALIVE\<rparr>)
          else dict_lookup (rg_nodes rg) k
      | RSweep now \<Rightarrow>
          map_option (swept (rg_timeout rg) (case rg_started rg of None \<Rightarrow> now | Some s \<Rightarrow> s) now) (dict_lookup (rg_nodes rg) k))"
proof (cases e)
  case (RSweep now)
  let ?s = "case rg_started rg of None \<Rightarrow> now | Some s \<Rightarrow> s"
  have "rg_nodes (rg_step wall e rg) =
      fst (sweep_nodes (rg_max_events rg) (rg_timeout rg) ?s now wall (rg_nodes rg) (rg_events rg))"
    unfolding RSweep by (simp add: check_timeouts_def Let_def split: prod.splits)
  then show ?thesis by (simp only: lookup_sweep_nodes RSweep rg_input.case)
qed (auto simp: register_def heartbeat_def Let_def transition_def)

lemma step_frame:
  "rg_timeout (rg_step wall e rg) = rg_timeout rg" "rg_max_events (rg_step wall e rg) = rg_max_events rg"
  "rg_started (rg_step wall e rg) = (case (rg_started rg, e) of (None, RSweep t) \<Rightarrow> Some t | _ \<Rightarrow> rg_started rg)"
  by (cases e; auto simp: register_def heartbeat_def check_timeouts_def Let_def split: prod.splits option.splits)+

section \<open>The bound of the log\<close>

lemma push_event_bound: "length evs \<le> mx \<Longrightarrow> length (push_event mx e evs) \<le> mx"
  by (simp add: push_event_def Let_def)

lemma transition_bound: "length evs \<le> mx \<Longrightarrow> length (snd (transition mx wt s reason nd evs)) \<le> mx"
  by (simp add: transition_def push_event_bound)

lemma sweep_nodes_bound: "length evs \<le> mx \<Longrightarrow> length (snd (sweep_nodes mx timeout started now wall ns evs)) \<le> mx"
proof (induction mx timeout started now wall ns evs rule: sweep_nodes.induct)
  case (2 mx timeout started now wall k nd ns evs)
  have "length (snd (sweep_node mx timeout started now wall nd evs)) \<le> mx"
    using 2(2) by (auto simp: sweep_node_def transition_bound split: option.splits)
  with 2(1) show ?case by (auto split: prod.splits)
qed simp

lemma step_bound:
  assumes "length (rg_events rg) \<le> rg_max_events rg"
  shows "length (rg_events (rg_step wall e rg)) \<le> rg_max_events rg"
proof (cases e)
  case (RSweep now)
  then show ?thesis using sweep_nodes_bound [OF assms]
    by (auto simp: check_timeouts_def Let_def split: prod.splits) (metis snd_conv)+
qed (use assms in \<open>auto simp: register_def heartbeat_def Let_def transition_def intro: push_event_bound\<close>)

declare rg_step.simps [simp del]

section \<open>The status a history gives\<close>

definition node_ok :: "rat \<Rightarrow> bool \<Rightarrow> rat option \<Rightarrow> rat option \<Rightarrow> rat \<Rightarrow> node_state option \<Rightarrow> bool" where
  "node_ok timeout expected beat started now x \<longleftrightarrow>
     (case x of
        None \<Rightarrow> beat = None \<and> \<not> expected
      | Some nd \<Rightarrow>
          ns_last nd = beat \<and>
          (case beat of
             None \<Rightarrow> expected \<and> (ns_status nd = UNKNOWN \<or> ns_status nd = DEAD \<and> (\<exists>s. started = Some s \<and> timeout < now - s))
           | Some h \<Rightarrow> ns_status nd = ALIVE \<or> ns_status nd = DEAD \<and> timeout < now - h))"

lemma node_ok_later: "node_ok timeout ex beat started now x \<Longrightarrow> now \<le> now' \<Longrightarrow> node_ok timeout ex beat started now' x"
  by (fastforce simp: node_ok_def split: option.splits)

lemma node_ok_step:
  assumes "node_ok (rg_timeout rg) ex (last_beat k es) (rg_started rg) (input_time e) (dict_lookup (rg_nodes rg) k)"
  shows "node_ok (rg_timeout rg) ex (last_beat k (es @ [e])) (rg_started (rg_step wall e rg)) (input_time e)
           (dict_lookup (rg_nodes (rg_step wall e rg)) k)"
proof (cases e)
  case (RSweep now)
  show ?thesis
  proof (cases "dict_lookup (rg_nodes rg) k")
    case None
    with assms RSweep show ?thesis by (simp add: lookup_step node_ok_def)
  next
    case (Some nd)
    with assms RSweep show ?thesis
      by (cases "last_beat k es"; cases "rg_started rg") (auto simp: lookup_step step_frame node_ok_def swept_def)
  qed
next
  case (RRegister n kind now)
  with assms show ?thesis by (cases "k = n") (auto simp: lookup_step step_frame node_ok_def split: option.splits)
next
  case (RHeartbeat n now)
  with assms show ?thesis by (cases "k = n") (auto simp: lookup_step step_frame node_ok_def split: option.splits)
qed

lemma run_frame:
  "rg_timeout (rg_run evs rg) = rg_timeout rg" "rg_max_events (rg_run evs rg) = rg_max_events rg"
  by (induction evs rule: rev_induct) (simp_all add: step_frame)

lemma run_started: "rg_started rg = None \<Longrightarrow> rg_started (rg_run evs rg) = first_sweep (map fst evs)"
  by (induction evs rule: rev_induct) (auto simp: step_frame split: option.splits rg_input.splits)

lemma run_bound: "length (rg_events rg) \<le> rg_max_events rg \<Longrightarrow> length (rg_events (rg_run evs rg)) \<le> rg_max_events rg"
proof (induction evs rule: rev_induct)
  case (snoc x evs)
  then show ?case using step_bound [of "rg_run evs rg" "snd x" "fst x"] by (simp add: run_frame)
qed simp

lemma lookup_new: "dict_lookup (rg_nodes (new_registry timeout expected mx)) k = (if k \<in> set expected then Some (new_node k) else None)"
proof -
  have "map_of (map (\<lambda>n. (n, new_node n)) xs) k = (if k \<in> set xs then Some (new_node k) else None)" for xs
    by (induction xs) auto
  from this [of "rev expected"] show ?thesis
    by (simp add: new_registry_def dict_of_def lookup_dict_update rev_map)
qed

lemma run_node_ok:
  assumes "sorted (map (input_time \<circ> fst) evs)" "\<forall>e\<in>set (map fst evs). input_time e \<le> now"
  shows "node_ok timeout (k \<in> set expected) (last_beat k (map fst evs)) (rg_started (rg_run evs (new_registry timeout expected mx))) now
           (dict_lookup (rg_nodes (rg_run evs (new_registry timeout expected mx))) k)"
  using assms
proof (induction evs arbitrary: now rule: rev_induct)
  case Nil
  show ?case by (simp add: node_ok_def lookup_new) (simp add: new_node_def)
next
  case (snoc x evs)
  let ?rg = "rg_run evs (new_registry timeout expected mx)"
  have t: "rg_timeout ?rg = timeout" by (simp add: run_frame) (simp add: new_registry_def)
  have "node_ok timeout (k \<in> set expected) (last_beat k (map fst evs)) (rg_started ?rg) (input_time (fst x)) (dict_lookup (rg_nodes ?rg) k)"
    by (rule snoc.IH) (use snoc.prems(1) in \<open>auto simp: sorted_append\<close>)
  from node_ok_step [of ?rg, unfolded t, OF this]
  have "node_ok timeout (k \<in> set expected) (last_beat k (map fst evs @ [fst x])) (rg_started (rg_step (snd x) (fst x) ?rg)) (input_time (fst x))
      (dict_lookup (rg_nodes (rg_step (snd x) (fst x) ?rg)) k)" .
  from node_ok_later [OF this, of now] snoc.prems(2) show ?case by simp
qed

section \<open>Property of the registry\<close>

text \<open>
  C38.  The registry's view is right after every sweep.  Whatever nodes registered and sent heartbeats
  before, in the order of their times, after a sweep a node that was heard is alive exactly when its
  last heartbeat is no older than the timeout and dead otherwise; a node that was expected and never
  heard is dead exactly when the first sweep is longer ago than the timeout; no other node is known;
  and the event log keeps its bound.
\<close>

theorem registry_detects:
  assumes "sorted (map (input_time \<circ> fst) (evs @ [(RSweep now, wall)]))"
    and "rg_run (evs @ [(RSweep now, wall)]) (new_registry timeout expected mx) = rg"
  shows "status_of rg k =
      (case last_beat k (map fst evs) of
         Some h \<Rightarrow> Some (if timeout < now - h then DEAD else ALIVE)
       | None \<Rightarrow>
           if k \<in> set expected
           then Some (if timeout < now - the (first_sweep (map fst evs @ [RSweep now])) then DEAD else UNKNOWN)
           else None) \<and>
    length (rg_events rg) \<le> mx"
proof
  let ?rg = "rg_run evs (new_registry timeout expected mx)"
  have st: "rg_started ?rg = first_sweep (map fst evs)" by (rule run_started) (simp add: new_registry_def)
  have t: "rg_timeout ?rg = timeout" by (simp add: run_frame) (simp add: new_registry_def)
  have rg: "rg = rg_step wall (RSweep now) ?rg" using assms(2) by simp
  have "node_ok timeout (k \<in> set expected) (last_beat k (map fst evs)) (rg_started ?rg) now (dict_lookup (rg_nodes ?rg) k)"
    by (rule run_node_ok) (use assms(1) in \<open>auto simp: sorted_append\<close>)
  then show "status_of rg k =
      (case last_beat k (map fst evs) of
         Some h \<Rightarrow> Some (if timeout < now - h then DEAD else ALIVE)
       | None \<Rightarrow>
           if k \<in> set expected
           then Some (if timeout < now - the (first_sweep (map fst evs @ [RSweep now])) then DEAD else UNKNOWN)
           else None)"
    by (cases "dict_lookup (rg_nodes ?rg) k"; cases "last_beat k (map fst evs)"; cases "first_sweep (map fst evs)")
      (auto simp: rg status_of_def lookup_step st t node_ok_def swept_def)
  show "length (rg_events rg) \<le> mx"
    using run_bound [of "new_registry timeout expected mx" "evs @ [(RSweep now, wall)]"] assms(2) by (simp add: new_registry_def)
qed

definition demo_beats :: "(rg_input \<times> (string \<Rightarrow> rat)) list" where
  "demo_beats = [(RRegister ''join_0'' ''join'' 1, \<lambda>_. 100), (RSweep 2, \<lambda>_. 101), (RHeartbeat ''merge_0'' 3, \<lambda>_. 102)]"

theorem registry_detects_witness:
  "map (status_of (rg_run (demo_beats @ [(RSweep 9, \<lambda>_. 108)]) (new_registry 6 [''join_0'', ''merge_0'', ''client''] 200)))
     [''join_0'', ''merge_0'', ''client'', ''other''] = [Some DEAD, Some ALIVE, Some DEAD, None]"
proof -
  have s: "sorted (map (input_time \<circ> fst) (demo_beats @ [(RSweep 9, \<lambda>_. 108)]))" by (simp add: demo_beats_def)
  have b: "last_beat ''join_0'' (map fst demo_beats) = Some 1" "last_beat ''merge_0'' (map fst demo_beats) = Some 3"
    "last_beat ''client'' (map fst demo_beats) = None" "last_beat ''other'' (map fst demo_beats) = None"
    "first_sweep (map fst demo_beats @ [RSweep 9]) = Some 2"
    by (simp_all add: demo_beats_def last_beat_def first_sweep_def)
  note r = registry_detects [OF s refl, of 6 "[''join_0'', ''merge_0'', ''client'']" 200, THEN conjunct1]
  show ?thesis using r [of "''join_0''"] r [of "''merge_0''"] r [of "''client''"] r [of "''other''"] b by simp
qed

section \<open>Histories of the reviver\<close>

text \<open>Sweeps over the registries of their times; only the reviver's own state carries over.\<close>

fun revive_run :: "(rat \<times> (string \<Rightarrow> rat) \<times> registry) list \<Rightarrow> reviver \<Rightarrow> (rat \<times> string list) list \<times> reviver" where
  "revive_run [] rv = ([], rv)"
| "revive_run ((now, wall, rg) # es) rv =
     (case revive_sweep wall now (rv, rg) of
        (xs, rv, _) \<Rightarrow> (case revive_run es rv of (lg, rv) \<Rightarrow> ((now, xs) # lg, rv)))"

definition new_reviver :: "rat \<Rightarrow> reviver" where
  "new_reviver cooldown = \<lparr>rv_cooldown = cooldown, rv_last = []\<rparr>"

definition dead_in :: "registry \<Rightarrow> string \<Rightarrow> bool" where
  "dead_in rg nid \<longleftrightarrow> (\<exists>nd\<in>set (map snd (rg_nodes rg)). ns_status nd = DEAD \<and> ns_id nd = nid)"

lemma revive_nodes_last:
  "revive_nodes wall now ns w = (xs, w') \<Longrightarrow>
   rv_cooldown (fst w') = rv_cooldown (fst w) \<and>
   (\<forall>n. dict_lookup (rv_last (fst w')) n = (if n \<in> set xs then Some now else dict_lookup (rv_last (fst w)) n))"
proof (induction wall now ns w arbitrary: xs w' rule: revive_nodes.induct)
  case (2 wall now nd ns w)
  show ?case
  proof (cases "ns_status nd \<noteq> DEAD \<or> cooling (fst w) (ns_id nd) now")
    case True
    with 2 show ?thesis by simp
  next
    case False
    obtain ys w1 where r: "revive_nodes wall now ns (revive (wall (ns_id nd)) (ns_id nd) now w) = (ys, w1)" by (metis surj_pair)
    with False 2(3) have x: "xs = ns_id nd # ys" "w' = w1" by auto
    from 2(2) [OF False r] show ?thesis unfolding x by (auto simp: revive_def)
  qed
qed simp

lemma revive_cooling:
  "cooling (fst (revive wt nid now w)) n t =
     (if n = nid then t - now \<le> rv_cooldown (fst w) else cooling (fst w) n t)"
  by (simp add: cooling_def revive_def split: option.split)

lemma revive_nodes_mem:
  "revive_nodes wall now ns w = (xs, w') \<Longrightarrow>
   n \<in> set xs \<longleftrightarrow> (\<exists>nd\<in>set ns. ns_status nd = DEAD \<and> ns_id nd = n) \<and> \<not> cooling (fst w) n now"
proof (induction wall now ns w arbitrary: xs w' rule: revive_nodes.induct)
  case (2 wall now nd ns w)
  show ?case
  proof (cases "ns_status nd \<noteq> DEAD \<or> cooling (fst w) (ns_id nd) now")
    case True
    with 2 show ?thesis by auto
  next
    case False
    obtain ys w1 where r: "revive_nodes wall now ns (revive (wall (ns_id nd)) (ns_id nd) now w) = (ys, w1)" by (metis surj_pair)
    with False 2(3) have x: "xs = ns_id nd # ys" by auto
    from 2(2) [OF False r] False show ?thesis unfolding x
      by (cases "n = ns_id nd") (auto simp: revive_cooling)
  qed
qed simp

lemma revive_nodes_distinct:
  "revive_nodes wall now ns w = (xs, w') \<Longrightarrow> 0 \<le> rv_cooldown (fst w) \<Longrightarrow> distinct xs"
proof (induction wall now ns w arbitrary: xs w' rule: revive_nodes.induct)
  case (2 wall now nd ns w)
  show ?case
  proof (cases "ns_status nd \<noteq> DEAD \<or> cooling (fst w) (ns_id nd) now")
    case True
    with 2 show ?thesis by auto
  next
    case False
    let ?w = "revive (wall (ns_id nd)) (ns_id nd) now w"
    obtain ys w1 where r: "revive_nodes wall now ns ?w = (ys, w1)" by (metis surj_pair)
    with False 2(3) have x: "xs = ns_id nd # ys" by auto
    have "cooling (fst ?w) (ns_id nd) now" using 2(4) by (simp add: revive_cooling)
    with revive_nodes_mem [OF r] 2(2) [OF False r] 2(4) show ?thesis unfolding x by (simp add: revive_def)
  qed
qed simp

lemma revive_run_mem:
  assumes "revive_run es rv = (lg, rv')" "sorted (map fst es)" "j < length es"
  shows "fst (lg ! j) = fst (es ! j) \<and> j < length lg \<and> (0 \<le> rv_cooldown rv \<longrightarrow> distinct (snd (lg ! j))) \<and>
    (n \<in> set (snd (lg ! j)) \<longleftrightarrow>
       dead_in (snd (snd (es ! j))) n \<and> \<not> cooling rv n (fst (es ! j)) \<and>
       (\<forall>i<j. n \<in> set (snd (lg ! i)) \<longrightarrow> rv_cooldown rv < fst (es ! j) - fst (es ! i)))"
  using assms
proof (induction es rv arbitrary: lg rv' j rule: revive_run.induct)
  case (2 now wall rg es rv)
  obtain xs rv1 rg1 where s: "revive_nodes wall now (map snd (rg_nodes rg)) (rv, rg) = (xs, rv1, rg1)" by (metis surj_pair)
  obtain lg1 rv2 where r: "revive_run es rv1 = (lg1, rv2)" by fastforce
  have lg: "lg = (now, xs) # lg1" using 2(2) s r by (simp add: revive_sweep_def rg_snapshot_def)
  have m: "m \<in> set xs \<longleftrightarrow> dead_in rg m \<and> \<not> cooling rv m now" for m
    using revive_nodes_mem [OF s, of m] by (simp add: dead_in_def)
  have c: "rv_cooldown rv1 = rv_cooldown rv" using revive_nodes_last [OF s] by simp
  show ?case
  proof (cases j)
    case 0
    then show ?thesis using revive_nodes_distinct [OF s] by (simp add: lg m)
  next
    case (Suc j')
    have le: "now \<le> fst (es ! j')" using 2(3,4) Suc by simp
    have IH: "fst (lg1 ! j') = fst (es ! j') \<and> j' < length lg1 \<and> (0 \<le> rv_cooldown rv1 \<longrightarrow> distinct (snd (lg1 ! j'))) \<and>
      (n \<in> set (snd (lg1 ! j')) \<longleftrightarrow>
         dead_in (snd (snd (es ! j'))) n \<and> \<not> cooling rv1 n (fst (es ! j')) \<and>
         (\<forall>i<j'. n \<in> set (snd (lg1 ! i)) \<longrightarrow> rv_cooldown rv1 < fst (es ! j') - fst (es ! i)))"
      by (rule 2(1) [OF _ refl r]) (use s 2(3,4) Suc in \<open>auto simp: revive_sweep_def rg_snapshot_def\<close>)
    have "\<not> cooling rv1 n (fst (es ! j')) \<longleftrightarrow>
        \<not> cooling rv n (fst (es ! j')) \<and> (n \<in> set xs \<longrightarrow> rv_cooldown rv < fst (es ! j') - now)"
      using revive_nodes_last [OF s] m [of n] le by (auto simp: cooling_def split: option.splits)
    with IH show ?thesis unfolding lg Suc by (auto simp: c less_Suc_eq_0_disj)
  qed
qed simp

text \<open>
  C39.  The reviver starts exactly the dead nodes whose cooldown is over.  In any sequence of sweeps,
  over whatever the registry shows at each, a node is started in a sweep exactly when it is dead
  there and every earlier start of it is longer ago than the cooldown; so no node is started twice
  within the cooldown, none twice in a sweep, and no dead node is passed over otherwise.
\<close>

theorem reviver_cools_down:
  assumes "sorted (map fst es)" and "j < length es" and "0 \<le> cooldown"
    and "revive_run es (new_reviver cooldown) = (lg, rv)"
  shows "(n \<in> set (snd (lg ! j)) \<longleftrightarrow>
       dead_in (snd (snd (es ! j))) n \<and> (\<forall>i<j. n \<in> set (snd (lg ! i)) \<longrightarrow> cooldown < fst (es ! j) - fst (es ! i))) \<and>
    distinct (snd (lg ! j))"
  using revive_run_mem [OF assms(4,1,2), of n] assms(3) by (simp add: new_reviver_def cooling_def)

definition demo_dead :: registry where
  "demo_dead = (new_registry 6 [''join_0''] 200)\<lparr>rg_nodes := [(''join_0'', (new_node ''join_0'')\<lparr>ns_status := DEAD\<rparr>)]\<rparr>"

theorem reviver_cools_down_witness:
  "\<exists>lg rv. revive_run [(0, \<lambda>_. 50, demo_dead), (10, \<lambda>_. 60, demo_dead), (20, \<lambda>_. 70, demo_dead)] (new_reviver 15) = (lg, rv) \<and>
     ''join_0'' \<in> set (snd (lg ! 2)) \<and> ''join_0'' \<notin> set (snd (lg ! 1))"
proof -
  let ?es = "[(0, \<lambda>_. 50, demo_dead), (10, \<lambda>_. 60, demo_dead), (20, \<lambda>_. 70, demo_dead)] :: (rat \<times> (string \<Rightarrow> rat) \<times> registry) list"
  obtain lg rv where r: "revive_run ?es (new_reviver 15) = (lg, rv)" by (metis surj_pair)
  have d: "dead_in demo_dead ''join_0''" by (simp add: dead_in_def demo_dead_def new_node_def)
  note R = reviver_cools_down [OF _ _ _ r, THEN conjunct1, of _ "''join_0''"]
  have "''join_0'' \<in> set (snd (lg ! 0))" using R [of 0] d by simp
  moreover from this have "''join_0'' \<notin> set (snd (lg ! 1))" using R [of 1] by simp
  ultimately have "''join_0'' \<in> set (snd (lg ! 2))" using R [of 2] d by (auto simp: less_Suc_eq numeral_2_eq_2)
  with r \<open>''join_0'' \<notin> set (snd (lg ! 1))\<close> show ?thesis by blast
qed

end
