(* ===== verification/Election.thy ===== *)
theory Election
  imports Messages
begin

text \<open>
  The supervisors' leader election (\<open>supervisor/server.py\<close>, \<open>peer.py\<close>, \<open>event/\<close>, and the failure of a
  replica's link to its leader from \<open>runtime/replica_runtime.py\<close>).  A supervisor's state is what its
  event thread reads and writes; a handler returns the messages it got through to its peers, given
  which of them were reachable.  The cluster is the supervisors that are up, each with its queue of
  events; its steps are one event handled, a periodic announcement, a lost link, a crash and a boot.

  The properties: nobody ever follows a lower supervisor; once the highest announces itself everyone
  follows it and stays with it; and an election that a dying peer acknowledges can leave the cluster
  without a leader for good.
\<close>

section \<open>One supervisor\<close>

record peer =
  pe_idx :: int
  pe_host :: string

definition peer_gt :: "peer \<Rightarrow> int \<Rightarrow> bool" where
  "peer_gt p i \<longleftrightarrow> i < pe_idx p"

text \<open>The runtimes are told apart by their class and, for a replica, by the leader's host; the flag says
  whether it was not stopped yet.\<close>

datatype runtime_kind = LeaderRT | ReplicaRT string

record sup =
  sv_idx :: int
  sv_peers :: "peer list"
  sv_leader :: "peer option"
  sv_runtime :: "(runtime_kind \<times> bool) option"
  sv_on_election :: bool

datatype sup_event = LeaderDown | PeerConnection payload

type_synonym reach = "payload \<Rightarrow> peer \<Rightarrow> bool"
type_synonym sends = "(peer \<times> payload) list"

definition make_peers :: "string \<Rightarrow> nat \<Rightarrow> int \<Rightarrow> peer list" where
  "make_peers prefix nnodes idx =
     map (\<lambda>i. \<lparr>pe_idx = int i, pe_host = prefix @ int_str (int i)\<rparr>) (filter (\<lambda>i. int i \<noteq> idx) [0..<nnodes])"

definition new_sup :: "int \<Rightarrow> peer list \<Rightarrow> sup" where
  "new_sup idx peers = \<lparr>sv_idx = idx, sv_peers = peers, sv_leader = None, sv_runtime = None, sv_on_election = False\<rparr>"

definition is_leader :: "sup \<Rightarrow> bool" where
  "is_leader sv \<longleftrightarrow> sv_leader sv = None \<and> sv_runtime sv \<noteq> None"

text \<open>The messages that got through; their number is the acknowledgements.\<close>

definition broadcast_message :: "reach \<Rightarrow> payload \<Rightarrow> peer list \<Rightarrow> sends" where
  "broadcast_message reach m ps = map (\<lambda>p. (p, m)) (filter (reach m) ps)"

definition announce :: "reach \<Rightarrow> sup \<Rightarrow> sends" where
  "announce reach sv = (if is_leader sv then broadcast_message reach (SupervisorLeader (sv_idx sv)) (sv_peers sv) else [])"

definition change_runtime :: "runtime_kind \<Rightarrow> sup \<Rightarrow> sup" where
  "change_runtime r sv = sv\<lparr>sv_runtime := Some (r, True)\<rparr>"

definition promote :: "sup \<Rightarrow> sup" where
  "promote sv = change_runtime LeaderRT sv"

definition downgrade :: "string \<Rightarrow> sup \<Rightarrow> sup" where
  "downgrade leader_host sv = change_runtime (ReplicaRT leader_host) sv"

definition handle_leader_down :: "reach \<Rightarrow> sup \<Rightarrow> sup \<times> sends" where
  "handle_leader_down reach sv =
     (if sv_on_election sv then (sv, [])
      else if is_leader sv then (sv, broadcast_message reach (SupervisorLeader (sv_idx sv)) (sv_peers sv))
      else let sv = sv\<lparr>sv_on_election := True\<rparr>;
               acks = broadcast_message reach SupervisorElection (filter (\<lambda>p. peer_gt p (sv_idx sv)) (sv_peers sv))
           in if length acks > 0 then (sv\<lparr>sv_leader := None, sv_on_election := False\<rparr>, acks)
              else ((promote sv)\<lparr>sv_leader := None, sv_on_election := False\<rparr>,
                    broadcast_message reach (SupervisorLeader (sv_idx sv)) (sv_peers sv)))"

definition handle_new_leader :: "reach \<Rightarrow> int \<Rightarrow> sup \<Rightarrow> (sup \<times> sends) result" where
  "handle_new_leader reach claim sv =
     (if claim \<le> sv_idx sv
      then Inr (sv, if claim < sv_idx sv \<and> is_leader sv
                    then broadcast_message reach (SupervisorLeader (sv_idx sv)) (sv_peers sv) else [])
      else if (case sv_leader sv of None \<Rightarrow> False | Some l \<Rightarrow> claim \<le> pe_idx l) then Inr (sv, [])
      else case find (\<lambda>p. pe_idx p = claim) (sv_peers sv) of
             None \<Rightarrow> Inl StopIteration
           | Some p \<Rightarrow>
               Inr ((downgrade (pe_host p) (sv\<lparr>sv_leader := Some \<lparr>pe_idx = claim, pe_host = pe_host p\<rparr>\<rparr>))\<lparr>sv_on_election := False\<rparr>, []))"

text \<open>The event thread: the new state, what was sent, and the events it puts on its own queue.\<close>

definition handle_event :: "reach \<Rightarrow> sup_event \<Rightarrow> sup \<Rightarrow> (sup \<times> sends \<times> sup_event list) result" where
  "handle_event reach e sv =
     (case e of
        LeaderDown \<Rightarrow> (case handle_leader_down reach sv of (sv, out) \<Rightarrow> Inr (sv, out, []))
      | PeerConnection m \<Rightarrow>
          (case m of
             SupervisorElection \<Rightarrow> Inr (sv, [], [LeaderDown])
           | SupervisorLeader idx \<Rightarrow> bind_result (handle_new_leader reach idx sv) (\<lambda>(sv, out). Inr (sv, out, []))
           | _ \<Rightarrow> Inr (sv, [], [])))"

text \<open>The runtime thread, when the running replica raises \<open>LeaderDownError\<close>: stop it and queue the event.\<close>

definition link_lost :: "sup \<Rightarrow> sup \<times> sup_event list" where
  "link_lost sv =
     (case sv_runtime sv of
        Some (ReplicaRT h, True) \<Rightarrow> (sv\<lparr>sv_runtime := Some (ReplicaRT h, False)\<rparr>, [LeaderDown])
      | _ \<Rightarrow> (sv, []))"

section \<open>The cluster\<close>

record cluster =
  cl_nodes :: "int \<Rightarrow> sup option"
  cl_queue :: "int \<Rightarrow> sup_event list"

datatype cl_act = Handle int | Announce int | LinkLost int | Crash int | Boot int

definition live :: "cluster \<Rightarrow> int \<Rightarrow> bool" where
  "live cl i \<longleftrightarrow> cl_nodes cl i \<noteq> None"

text \<open>A send that gets through puts a connection on the peer's queue; only a peer that is up is reached.\<close>

definition deliver :: "sends \<Rightarrow> cluster \<Rightarrow> cluster" where
  "deliver out cl = foldl (\<lambda>cl (p, m). cl\<lparr>cl_queue := (cl_queue cl)(pe_idx p := cl_queue cl (pe_idx p) @ [PeerConnection m])\<rparr>) cl out"

definition up_only :: "cluster \<Rightarrow> reach \<Rightarrow> reach" where
  "up_only cl reach = (\<lambda>m p. reach m p \<and> live cl (pe_idx p))"

fun cl_act_step :: "string \<Rightarrow> nat \<Rightarrow> reach \<Rightarrow> cl_act \<Rightarrow> cluster \<Rightarrow> cluster option" where
  "cl_act_step prefix n reach (Handle i) cl =
     (case (cl_nodes cl i, cl_queue cl i) of
        (Some sv, e # es) \<Rightarrow>
          (case handle_event (up_only cl reach) e sv of
             Inl _ \<Rightarrow> None
           | Inr (sv, out, own) \<Rightarrow>
               Some (deliver out (cl\<lparr>cl_nodes := (cl_nodes cl)(i \<mapsto> sv), cl_queue := (cl_queue cl)(i := es @ own)\<rparr>)))
      | _ \<Rightarrow> None)"
| "cl_act_step prefix n reach (Announce i) cl =
     (case cl_nodes cl i of None \<Rightarrow> None | Some sv \<Rightarrow> Some (deliver (announce (up_only cl reach) sv) cl))"
| "cl_act_step prefix n reach (LinkLost i) cl =
     (case cl_nodes cl i of
        None \<Rightarrow> None
      | Some sv \<Rightarrow>
          (case link_lost sv of
             (sv, own) \<Rightarrow> Some (cl\<lparr>cl_nodes := (cl_nodes cl)(i \<mapsto> sv), cl_queue := (cl_queue cl)(i := cl_queue cl i @ own)\<rparr>)))"
| "cl_act_step prefix n reach (Crash i) cl =
     Some (cl\<lparr>cl_nodes := (cl_nodes cl)(i := None), cl_queue := (cl_queue cl)(i := [])\<rparr>)"
| "cl_act_step prefix n reach (Boot i) cl =
     (if 0 \<le> i \<and> i < int n \<and> cl_nodes cl i = None
      then Some (cl\<lparr>cl_nodes := (cl_nodes cl)(i \<mapsto> new_sup i (make_peers prefix n i)), cl_queue := (cl_queue cl)(i := [LeaderDown])\<rparr>)
      else None)"

definition no_cluster :: cluster where
  "no_cluster = \<lparr>cl_nodes = (\<lambda>_. None), cl_queue = (\<lambda>_. [])\<rparr>"

inductive cl_reachable :: "string \<Rightarrow> nat \<Rightarrow> cluster \<Rightarrow> bool" for prefix n where
  cl_init: "cl_reachable prefix n no_cluster"
| cl_step: "cl_reachable prefix n cl \<Longrightarrow> cl_act_step prefix n reach a cl = Some cl' \<Longrightarrow> cl_reachable prefix n cl'"

text \<open>A run in which every send to a supervisor that is up gets through.\<close>

fun cl_run :: "string \<Rightarrow> nat \<Rightarrow> cl_act list \<Rightarrow> cluster \<Rightarrow> cluster option" where
  "cl_run prefix n [] cl = Some cl"
| "cl_run prefix n (a # as) cl = (case cl_act_step prefix n (\<lambda>_ _. True) a cl of None \<Rightarrow> None | Some cl \<Rightarrow> cl_run prefix n as cl)"

lemma deliver_simps [simp]:
  "cl_nodes (deliver out cl) = cl_nodes cl"
  "cl_queue (deliver out cl) j = cl_queue cl j @ map (PeerConnection \<circ> snd) (filter (\<lambda>(p, m). pe_idx p = j) out)"
proof -
  have "cl_nodes (deliver out cl) = cl_nodes cl \<and>
      cl_queue (deliver out cl) j = cl_queue cl j @ map (PeerConnection \<circ> snd) (filter (\<lambda>(p, m). pe_idx p = j) out)"
    unfolding deliver_def by (induction out arbitrary: cl) auto
  then show "cl_nodes (deliver out cl) = cl_nodes cl"
    "cl_queue (deliver out cl) j = cl_queue cl j @ map (PeerConnection \<circ> snd) (filter (\<lambda>(p, m). pe_idx p = j) out)" by auto
qed

lemma find_map_peer:
  "find (\<lambda>p. pe_idx p = k) (map (\<lambda>i. \<lparr>pe_idx = int i, pe_host = h i\<rparr>) xs) =
     (if 0 \<le> k \<and> nat k \<in> set xs then Some \<lparr>pe_idx = k, pe_host = h (nat k)\<rparr> else None)"
proof (induction xs)
  case (Cons a xs)
  have "int a = k \<longleftrightarrow> 0 \<le> k \<and> nat k = a" by auto
  with Cons show ?case by simp
qed simp

lemma find_peer:
  "find (\<lambda>p. pe_idx p = k) (make_peers prefix n i) =
     (if 0 \<le> k \<and> k < int n \<and> k \<noteq> i then Some \<lparr>pe_idx = k, pe_host = prefix @ int_str k\<rparr> else None)"
proof -
  have "nat k < n \<and> int (nat k) \<noteq> i \<longleftrightarrow> k < int n \<and> k \<noteq> i" if "0 \<le> k" using that by auto
  then show ?thesis unfolding make_peers_def find_map_peer by auto
qed

lemma in_make_peers: "p \<in> set (make_peers prefix n i) \<longleftrightarrow> 0 \<le> pe_idx p \<and> pe_idx p < int n \<and> pe_idx p \<noteq> i \<and> pe_host p = prefix @ int_str (pe_idx p)"
  by (cases p) (auto simp: make_peers_def image_iff intro!: exI [of _ "nat (pe_idx p)"])

section \<open>The invariant\<close>

definition sup_ok :: "string \<Rightarrow> nat \<Rightarrow> int \<Rightarrow> sup_event list \<Rightarrow> sup \<Rightarrow> bool" where
  "sup_ok prefix n i q sv \<longleftrightarrow>
     0 \<le> i \<and> i < int n \<and> sv_idx sv = i \<and> sv_peers sv = make_peers prefix n i \<and> \<not> sv_on_election sv \<and>
     (\<forall>b. sv_runtime sv = Some (LeaderRT, b) \<longrightarrow> b \<and> sv_leader sv = None) \<and>
     (\<forall>p. sv_leader sv = Some p \<longrightarrow> i < pe_idx p \<and> pe_idx p < int n \<and> pe_host p = prefix @ int_str (pe_idx p) \<and>
        (sv_runtime sv = Some (ReplicaRT (pe_host p), True) \<or>
         sv_runtime sv = Some (ReplicaRT (pe_host p), False) \<and> LeaderDown \<in> set q))"

definition ev_ok :: "nat \<Rightarrow> sup_event \<Rightarrow> bool" where
  "ev_ok n e \<longleftrightarrow> (\<forall>k. e = PeerConnection (SupervisorLeader k) \<longrightarrow> 0 \<le> k \<and> k < int n)"

definition cl_inv :: "string \<Rightarrow> nat \<Rightarrow> cluster \<Rightarrow> bool" where
  "cl_inv prefix n cl \<longleftrightarrow>
     (\<forall>i sv. cl_nodes cl i = Some sv \<longrightarrow> sup_ok prefix n i (cl_queue cl i) sv) \<and> (\<forall>i. \<forall>e\<in>set (cl_queue cl i). ev_ok n e)"

lemma sup_ok_more: "sup_ok prefix n i q sv \<Longrightarrow> set q \<subseteq> set q' \<Longrightarrow> sup_ok prefix n i q' sv"
  by (auto simp: sup_ok_def)

lemma sends_ok:
  assumes "(p, m) \<in> set (broadcast_message reach m' ps)"
  shows "m = m' \<and> p \<in> set ps \<and> reach m' p"
  using assms by (auto simp: broadcast_message_def)

lemma leader_down_ok:
  assumes "sup_ok prefix n i q sv" "handle_leader_down reach sv = (sv', out)"
  shows "sup_ok prefix n i q' sv'" "(p, m) \<in> set out \<Longrightarrow> m = SupervisorElection \<or> m = SupervisorLeader i"
proof -
  from assms(1) have idx: "sv_idx sv = i" "\<not> sv_on_election sv" by (simp_all add: sup_ok_def)
  show "sup_ok prefix n i q' sv'"
    using assms unfolding handle_leader_down_def Let_def
    by (auto simp: sup_ok_def is_leader_def promote_def change_runtime_def split: if_splits)
  show "(p, m) \<in> set out \<Longrightarrow> m = SupervisorElection \<or> m = SupervisorLeader i"
    using assms(2) idx unfolding handle_leader_down_def Let_def
    by (auto dest!: sends_ok split: if_splits)
qed

definition follow :: "string \<Rightarrow> int \<Rightarrow> sup \<Rightarrow> sup" where
  "follow prefix k sv =
     sv\<lparr>sv_leader := Some \<lparr>pe_idx = k, pe_host = prefix @ int_str k\<rparr>, sv_runtime := Some (ReplicaRT (prefix @ int_str k), True),
       sv_on_election := False\<rparr>"

lemma handle_new_leader_ok:
  assumes "sup_ok prefix n i q sv" "0 \<le> k" "k < int n"
  shows "handle_new_leader reach k sv = Inr
     (if k \<le> i then (sv, if k < i \<and> is_leader sv then broadcast_message reach (SupervisorLeader i) (make_peers prefix n i) else [])
      else if (\<exists>l. sv_leader sv = Some l \<and> k \<le> pe_idx l) then (sv, [])
      else (follow prefix k sv, []))"
proof -
  have "sv_idx sv = i" "sv_peers sv = make_peers prefix n i" using assms(1) by (simp_all add: sup_ok_def)
  then show ?thesis using assms(2,3)
    by (cases "sv_leader sv") (simp_all add: handle_new_leader_def find_peer follow_def downgrade_def change_runtime_def)
qed

lemma follow_ok: "sup_ok prefix n i q sv \<Longrightarrow> i < k \<Longrightarrow> k < int n \<Longrightarrow> sup_ok prefix n i q' (follow prefix k sv)"
  by (simp add: sup_ok_def follow_def)

lemma handle_event_ok:
  assumes "sup_ok prefix n i (e # es) sv" "ev_ok n e"
  obtains sv' out own where "handle_event reach e sv = Inr (sv', out, own)" "sup_ok prefix n i (es @ own) sv'"
    "\<And>e. e \<in> set own \<Longrightarrow> e = LeaderDown" "\<And>p m. (p, m) \<in> set out \<Longrightarrow> m = SupervisorElection \<or> m = SupervisorLeader i"
proof (cases e)
  case LeaderDown
  obtain sv' out where h: "handle_leader_down reach sv = (sv', out)" by fastforce
  show ?thesis
  proof (rule that)
    show "handle_event reach e sv = Inr (sv', out, [])" using LeaderDown h by (simp add: handle_event_def)
  qed (use leader_down_ok [OF assms(1) h] in auto)
next
  case (PeerConnection m)
  have q: "sup_ok prefix n i (es @ own) sv" for own using assms(1) PeerConnection by (auto simp: sup_ok_def)
  show ?thesis
  proof (cases "\<exists>k. m = SupervisorLeader k")
    case True
    then obtain k where m: "m = SupervisorLeader k" by blast
    with assms(2) PeerConnection have k: "0 \<le> k" "k < int n" by (auto simp: ev_ok_def)
    let ?r = "if k \<le> i then (sv, if k < i \<and> is_leader sv then broadcast_message reach (SupervisorLeader i) (make_peers prefix n i) else [])
      else if (\<exists>l. sv_leader sv = Some l \<and> k \<le> pe_idx l) then (sv, []) else (follow prefix k sv, [])"
    obtain sv' out where r: "?r = (sv', out)" by fastforce
    show ?thesis
    proof (rule that)
      show "handle_event reach e sv = Inr (sv', out, [])"
        using handle_new_leader_ok [OF assms(1) k, of reach] r by (simp add: handle_event_def PeerConnection m)
      show "sup_ok prefix n i (es @ []) sv'" using r q [of "[]"] follow_ok [OF assms(1) _ k(2), of "es @ []"] by (auto split: if_splits)
    qed (use r in \<open>auto dest!: sends_ok split: if_splits\<close>)
  next
    case False
    then have "\<exists>own. handle_event reach e sv = Inr (sv, [], own) \<and> (own = [] \<or> own = [LeaderDown])"
      using PeerConnection by (cases m) (simp_all add: handle_event_def)
    then obtain own where "handle_event reach e sv = Inr (sv, [], own)" "own = [] \<or> own = [LeaderDown]" by blast
    with q show ?thesis by (intro that [of sv "[]" own]) auto
  qed
qed

section \<open>The invariant is kept\<close>

lemma up_only_peers: "(p, m) \<in> set out \<Longrightarrow> m = SupervisorElection \<or> m = SupervisorLeader i \<Longrightarrow> 0 \<le> i \<Longrightarrow> i < int n \<Longrightarrow> ev_ok n (PeerConnection m)"
  by (auto simp: ev_ok_def)

lemma deliver_inv:
  assumes "cl_inv prefix n cl" "\<And>p m. (p, m) \<in> set out \<Longrightarrow> ev_ok n (PeerConnection m)"
  shows "cl_inv prefix n (deliver out cl)"
  unfolding cl_inv_def
proof (intro conjI allI ballI impI)
  fix i sv assume "cl_nodes (deliver out cl) i = Some sv"
  then show "sup_ok prefix n i (cl_queue (deliver out cl) i) sv"
    using assms(1) sup_ok_more [of prefix n i "cl_queue cl i" sv] by (auto simp: cl_inv_def)
next
  fix i e assume "e \<in> set (cl_queue (deliver out cl) i)"
  then show "ev_ok n e" using assms by (auto simp: cl_inv_def)
qed

lemma update_inv:
  assumes "cl_inv prefix n cl" "sup_ok prefix n i q sv" "\<forall>e\<in>set q. ev_ok n e"
  shows "cl_inv prefix n (cl\<lparr>cl_nodes := (cl_nodes cl)(i \<mapsto> sv), cl_queue := (cl_queue cl)(i := q)\<rparr>)"
  using assms by (auto simp: cl_inv_def)

lemma announce_sends: "sv_idx sv = i \<Longrightarrow> (p, m) \<in> set (announce reach sv) \<Longrightarrow> m = SupervisorLeader i"
  by (auto simp: announce_def dest!: sends_ok split: if_splits)

lemma link_lost_ok:
  assumes "sup_ok prefix n i q sv" "link_lost sv = (sv', own)"
  shows "sup_ok prefix n i (q @ own) sv'" "set own \<subseteq> {LeaderDown}"
  using assms by (auto simp: link_lost_def sup_ok_def split: option.splits prod.splits runtime_kind.splits bool.splits)

lemma handle_progress:
  assumes "cl_inv prefix n cl" "cl_nodes cl i = Some sv" "cl_queue cl i = e # es"
  obtains sv' out own where "handle_event (up_only cl reach) e sv = Inr (sv', out, own)"
    "cl_act_step prefix n reach (Handle i) cl =
       Some (deliver out (cl\<lparr>cl_nodes := (cl_nodes cl)(i \<mapsto> sv'), cl_queue := (cl_queue cl)(i := es @ own)\<rparr>))"
    "cl_inv prefix n (deliver out (cl\<lparr>cl_nodes := (cl_nodes cl)(i \<mapsto> sv'), cl_queue := (cl_queue cl)(i := es @ own)\<rparr>))"
proof -
  have "sup_ok prefix n i (cl_queue cl i) sv" "\<forall>e\<in>set (cl_queue cl i). ev_ok n e" using assms(1,2) by (simp_all add: cl_inv_def)
  then have ok: "sup_ok prefix n i (e # es) sv" "ev_ok n e" "\<forall>e\<in>set es. ev_ok n e" by (simp_all add: assms(3))
  obtain sv' out own where h: "handle_event (up_only cl reach) e sv = Inr (sv', out, own)" "sup_ok prefix n i (es @ own) sv'"
    "\<And>e. e \<in> set own \<Longrightarrow> e = LeaderDown" "\<And>p m. (p, m) \<in> set out \<Longrightarrow> m = SupervisorElection \<or> m = SupervisorLeader i"
    by (rule handle_event_ok [OF ok(1,2)]) blast
  have i: "0 \<le> i" "i < int n" using ok(1) by (simp_all add: sup_ok_def)
  have "cl_inv prefix n (cl\<lparr>cl_nodes := (cl_nodes cl)(i \<mapsto> sv'), cl_queue := (cl_queue cl)(i := es @ own)\<rparr>)"
    by (rule update_inv [OF assms(1) h(2)]) (use ok(3) h(3) in \<open>auto simp: ev_ok_def\<close>)
  then have "cl_inv prefix n (deliver out (cl\<lparr>cl_nodes := (cl_nodes cl)(i \<mapsto> sv'), cl_queue := (cl_queue cl)(i := es @ own)\<rparr>))"
    by (rule deliver_inv) (rule up_only_peers [OF _ h(4) i], assumption+)
  with h(1) assms(2,3) show ?thesis by (intro that) auto
qed

lemma cl_inv_step:
  assumes "cl_inv prefix n cl" "cl_act_step prefix n reach a cl = Some cl'"
  shows "cl_inv prefix n cl'"
proof (cases a)
  case (Handle i)
  with assms(2) obtain sv e es where "cl_nodes cl i = Some sv" "cl_queue cl i = e # es"
    by (auto split: option.splits list.splits)
  from handle_progress [OF assms(1) this, of reach] assms(2) Handle show ?thesis by (metis option.inject)
next
  case (Announce i)
  with assms(2) obtain sv where sv: "cl_nodes cl i = Some sv" "cl' = deliver (announce (up_only cl reach) sv) cl"
    by (auto split: option.splits)
  with assms(1) have ok: "sup_ok prefix n i (cl_queue cl i) sv" by (simp add: cl_inv_def)
  show ?thesis unfolding sv(2)
    by (rule deliver_inv [OF assms(1)]) (use ok announce_sends [of sv i] in \<open>auto simp: sup_ok_def ev_ok_def\<close>)
next
  case (LinkLost i)
  with assms(2) obtain sv sv' own where sv: "cl_nodes cl i = Some sv" "link_lost sv = (sv', own)"
    "cl' = cl\<lparr>cl_nodes := (cl_nodes cl)(i \<mapsto> sv'), cl_queue := (cl_queue cl)(i := cl_queue cl i @ own)\<rparr>"
    by (auto split: option.splits prod.splits)
  with assms(1) have ok: "sup_ok prefix n i (cl_queue cl i) sv" "\<forall>e\<in>set (cl_queue cl i). ev_ok n e" by (simp_all add: cl_inv_def)
  show ?thesis unfolding sv(3)
    by (rule update_inv [OF assms(1) link_lost_ok(1) [OF ok(1) sv(2)]]) (use ok(2) link_lost_ok(2) [OF ok(1) sv(2)] in \<open>auto simp: ev_ok_def\<close>)
next
  case (Crash i)
  with assms show ?thesis by (auto simp: cl_inv_def split: if_splits)
next
  case (Boot i)
  with assms(2) have i: "0 \<le> i" "i < int n"
    and c: "cl' = cl\<lparr>cl_nodes := (cl_nodes cl)(i \<mapsto> new_sup i (make_peers prefix n i)), cl_queue := (cl_queue cl)(i := [LeaderDown])\<rparr>"
    by (auto split: if_splits)
  show ?thesis unfolding c
    by (rule update_inv [OF assms(1)]) (use i in \<open>auto simp: sup_ok_def new_sup_def ev_ok_def\<close>)
qed

lemma reachable_inv: "cl_reachable prefix n cl \<Longrightarrow> cl_inv prefix n cl"
proof (induction rule: cl_reachable.induct)
  case cl_init
  show ?case by (simp add: cl_inv_def no_cluster_def)
qed (rule cl_inv_step)

text \<open>Nothing waits for a supervisor that is down.\<close>

lemma event_sends_reach: "handle_event reach e sv = Inr (sv', out, own) \<Longrightarrow> (p, m) \<in> set out \<Longrightarrow> reach m p"
  by (auto simp: handle_event_def handle_leader_down_def handle_new_leader_def bind_result_def Let_def
      dest!: sends_ok split: sup_event.splits payload.splits if_splits sum.splits option.splits prod.splits)

lemma dead_queue: "cl_reachable prefix n cl \<Longrightarrow> cl_nodes cl j = None \<Longrightarrow> cl_queue cl j = []"
proof (induction arbitrary: j rule: cl_reachable.induct)
  case (cl_step cl reach a cl')
  show ?case
  proof (cases a)
    case (Handle i)
    with cl_step.hyps(2) obtain sv e es sv' out own where s: "cl_nodes cl i = Some sv" "handle_event (up_only cl reach) e sv = Inr (sv', out, own)"
      "cl' = deliver out (cl\<lparr>cl_nodes := (cl_nodes cl)(i \<mapsto> sv'), cl_queue := (cl_queue cl)(i := es @ own)\<rparr>)"
      by (auto split: option.splits list.splits sum.splits)
    have "live cl (pe_idx p)" if "(p, m) \<in> set out" for p m using event_sends_reach [OF s(2) that] by (simp add: up_only_def)
    with cl_step.IH [of j] cl_step.prems s(1) show ?thesis by (fastforce simp: s(3) live_def filter_empty_conv split: if_splits)
  next
    case (Announce i)
    with cl_step.hyps(2) obtain sv where s: "cl_nodes cl i = Some sv" "cl' = deliver (announce (up_only cl reach) sv) cl"
      by (auto split: option.splits)
    have "live cl (pe_idx p)" if "(p, m) \<in> set (announce (up_only cl reach) sv)" for p m
      using that by (auto simp: announce_def up_only_def dest!: sends_ok split: if_splits)
    with cl_step.IH [of j] cl_step.prems show ?thesis by (fastforce simp: s(2) live_def filter_empty_conv)
  qed (use cl_step in \<open>auto split: option.splits prod.splits if_splits\<close>)
qed (simp add: no_cluster_def)

section \<open>Properties\<close>


text \<open>Three supervisors boot, the highest wins the election and the two others follow it.\<close>

definition demo_acts :: "cl_act list" where
  "demo_acts = [Boot 0, Boot 1, Boot 2, Handle 2, Handle 0, Handle 0, Handle 1, Handle 1]"

lemma reachable_run: "cl_run prefix n as cl = Some cl' \<Longrightarrow> cl_reachable prefix n cl \<Longrightarrow> cl_reachable prefix n cl'"
proof (induction prefix n as cl rule: cl_run.induct)
  case (2 prefix n a as cl)
  then show ?case by (auto split: option.splits intro: cl_step)
qed simp


subsection \<open>A settled cluster\<close>

definition claim_upto :: "int \<Rightarrow> sup_event \<Rightarrow> bool" where
  "claim_upto m e \<longleftrightarrow> (\<exists>k\<le>m. e = PeerConnection (SupervisorLeader k))"

definition follows :: "string \<Rightarrow> int \<Rightarrow> sup \<Rightarrow> bool" where
  "follows prefix m sv \<longleftrightarrow> sv_leader sv = Some \<lparr>pe_idx = m, pe_host = prefix @ int_str m\<rparr> \<and>
     sv_runtime sv = Some (ReplicaRT (prefix @ int_str m), True)"

definition leads :: "cluster \<Rightarrow> int \<Rightarrow> bool" where
  "leads cl m \<longleftrightarrow> (\<exists>sv. cl_nodes cl m = Some sv \<and> sv_runtime sv = Some (LeaderRT, True))"

definition settled :: "string \<Rightarrow> int \<Rightarrow> cluster \<Rightarrow> bool" where
  "settled prefix m cl \<longleftrightarrow> leads cl m \<and>
     (\<forall>j sv. cl_nodes cl j = Some sv \<and> j \<noteq> m \<longrightarrow> j < m \<and> follows prefix m sv) \<and> (\<forall>j. \<forall>e\<in>set (cl_queue cl j). claim_upto m e)"

text \<open>Steps that leave the leader and the links alone: events, announcements, crashes of followers.\<close>

definition quiet :: "int \<Rightarrow> cl_act \<Rightarrow> bool" where
  "quiet m a \<longleftrightarrow> (case a of Handle i \<Rightarrow> True | Announce i \<Rightarrow> True | Crash i \<Rightarrow> i \<noteq> m | _ \<Rightarrow> False)"

definition quiet_step :: "string \<Rightarrow> nat \<Rightarrow> int \<Rightarrow> cluster \<Rightarrow> cluster \<Rightarrow> bool" where
  "quiet_step prefix n m cl cl' \<longleftrightarrow> (\<exists>reach a. quiet m a \<and> cl_act_step prefix n reach a cl = Some cl')"

lemma handle_claim:
  assumes "sup_ok prefix n i q sv" "0 \<le> k" "k < int n"
  shows "handle_event reach (PeerConnection (SupervisorLeader k)) sv = Inr
     (if k \<le> i then (sv, if k < i \<and> is_leader sv then broadcast_message reach (SupervisorLeader i) (make_peers prefix n i) else [], [])
      else if (\<exists>l. sv_leader sv = Some l \<and> k \<le> pe_idx l) then (sv, [], []) else (follow prefix k sv, [], []))"
  using handle_new_leader_ok [OF assms, of reach] by (auto simp: handle_event_def)

lemma settled_deliver:
  "settled prefix m cl \<Longrightarrow> (\<And>p e. (p, e) \<in> set out \<Longrightarrow> e = SupervisorLeader m) \<Longrightarrow> settled prefix m (deliver out cl)"
  by (auto simp: settled_def leads_def claim_upto_def)

lemma settled_pop:
  assumes "settled prefix m cl" "cl_nodes cl i = Some sv" "cl_queue cl i = e # es"
  shows "settled prefix m (cl\<lparr>cl_nodes := (cl_nodes cl)(i \<mapsto> sv), cl_queue := (cl_queue cl)(i := es)\<rparr>)"
proof -
  have "(cl_nodes cl)(i \<mapsto> sv) = cl_nodes cl" using assms(2) by auto
  with assms(1,3) show ?thesis by (auto simp: settled_def leads_def) (metis list.set_intros(2))
qed

lemma settled_step:
  assumes "settled prefix m cl" "cl_inv prefix n cl" "quiet_step prefix n m cl cl'"
  shows "settled prefix m cl'"
proof -
  from assms(3) obtain reach a where a: "quiet m a" "cl_act_step prefix n reach a cl = Some cl'" by (auto simp: quiet_step_def)
  show ?thesis
  proof (cases a)
    case (Handle i)
    with a(2) obtain sv e es where s: "cl_nodes cl i = Some sv" "cl_queue cl i = e # es"
      by (auto split: option.splits list.splits)
    from assms(2) s have ok: "sup_ok prefix n i (e # es) sv" by (metis cl_inv_def)
    have e: "claim_upto m e" "ev_ok n e" using assms(1,2) s(2) by (auto simp: settled_def cl_inv_def) (metis list.set_intros(1))+
    then obtain k where k: "e = PeerConnection (SupervisorLeader k)" "k \<le> m" "0 \<le> k" "k < int n" by (auto simp: claim_upto_def ev_ok_def)
    have "\<exists>out. handle_event (up_only cl reach) e sv = Inr (sv, out, []) \<and> (\<forall>p x. (p, x) \<in> set out \<longrightarrow> x = SupervisorLeader m)"
    proof (cases "i = m")
      case True
      with k(2) show ?thesis unfolding k(1) handle_claim [OF ok k(3,4)] by (auto dest: sends_ok)
    next
      case False
      with assms(1) s(1) have "follows prefix m sv" "i < m" by (auto simp: settled_def)
      with k(2) show ?thesis unfolding k(1) handle_claim [OF ok k(3,4)] by (auto simp: follows_def is_leader_def)
    qed
    then obtain out where h: "handle_event (up_only cl reach) e sv = Inr (sv, out, [])" "\<And>p x. (p, x) \<in> set out \<Longrightarrow> x = SupervisorLeader m" by blast
    with a(2) Handle s have "cl' = deliver out (cl\<lparr>cl_nodes := (cl_nodes cl)(i \<mapsto> sv), cl_queue := (cl_queue cl)(i := es)\<rparr>)" by simp
    with settled_deliver [OF settled_pop [OF assms(1) s]] h(2) show ?thesis by blast
  next
    case (Announce i)
    with a(2) obtain sv where sv: "cl_nodes cl i = Some sv" "cl' = deliver (announce (up_only cl reach) sv) cl"
      by (auto split: option.splits)
    from assms(2) sv(1) have idx: "sv_idx sv = i" by (auto simp: cl_inv_def sup_ok_def)
    have "(p, x) \<in> set (announce (up_only cl reach) sv) \<Longrightarrow> x = SupervisorLeader m" for p x
      using announce_sends [OF idx] assms(1) sv(1) by (cases "i = m") (auto simp: settled_def follows_def announce_def is_leader_def)
    then show ?thesis unfolding sv(2) by (rule settled_deliver [OF assms(1)])
  next
    case (Crash i)
    with a assms(1) show ?thesis by (auto simp: settled_def quiet_def leads_def split: if_splits)
  qed (use a in \<open>auto simp: quiet_def\<close>)
qed

lemma settled_steps:
  assumes "(quiet_step prefix n m)\<^sup>*\<^sup>* cl cl'" "settled prefix m cl" "cl_inv prefix n cl"
  shows "settled prefix m cl'"
proof -
  from assms have "settled prefix m cl' \<and> cl_inv prefix n cl'"
    by (induction rule: rtranclp_induct) (auto simp: quiet_step_def intro: settled_step [unfolded quiet_step_def] cl_inv_step)
  then show ?thesis ..
qed

text \<open>Between the announcement and the settled cluster: some followers still have the claim to read.\<close>

definition settling :: "string \<Rightarrow> int \<Rightarrow> int set \<Rightarrow> cluster \<Rightarrow> bool" where
  "settling prefix m J cl \<longleftrightarrow> leads cl m \<and>
     (\<forall>j sv. cl_nodes cl j = Some sv \<and> j \<noteq> m \<longrightarrow> j < m \<and> (j \<notin> J \<longrightarrow> follows prefix m sv) \<and> (\<forall>p. sv_leader sv = Some p \<longrightarrow> pe_idx p \<le> m)) \<and>
     (\<forall>j\<in>J. live cl j \<and> j \<noteq> m \<and> cl_queue cl j = [PeerConnection (SupervisorLeader m)]) \<and> (\<forall>j. j \<notin> J \<longrightarrow> cl_queue cl j = [])"

lemma settling_handle:
  assumes "settling prefix m J cl" "cl_inv prefix n cl" "j \<in> J"
  obtains cl' where "cl_act_step prefix n (\<lambda>_ _. True) (Handle j) cl = Some cl'" "settling prefix m (J - {j}) cl'" "cl_inv prefix n cl'"
proof -
  from assms(1,3) obtain sv where s: "cl_nodes cl j = Some sv" "j < m" "\<forall>p. sv_leader sv = Some p \<longrightarrow> pe_idx p \<le> m"
    "cl_queue cl j = [PeerConnection (SupervisorLeader m)]" by (auto simp: settling_def live_def)
  from assms(2) s(1) have sk: "sup_ok prefix n j [PeerConnection (SupervisorLeader m)] sv" by (metis cl_inv_def s(4))
  from assms(2) s(4) have m: "0 \<le> m" "m < int n" by (auto simp: cl_inv_def ev_ok_def) (metis list.set_intros(1))+
  define sv' where "sv' = (if \<exists>l. sv_leader sv = Some l \<and> m \<le> pe_idx l then sv else follow prefix m sv)"
  let ?cl = "cl\<lparr>cl_nodes := (cl_nodes cl)(j \<mapsto> sv'), cl_queue := (cl_queue cl)(j := [])\<rparr>"
  have "handle_event (up_only cl (\<lambda>_ _. True)) (PeerConnection (SupervisorLeader m)) sv = Inr (sv', [], [])"
    unfolding handle_claim [OF sk m] using s(2) by (auto simp: sv'_def)
  with s(1,4) have st: "cl_act_step prefix n (\<lambda>_ _. True) (Handle j) cl = Some ?cl" by (simp add: deliver_def)
  have "follows prefix m sv'" "\<forall>p. sv_leader sv' = Some p \<longrightarrow> pe_idx p \<le> m"
  proof -
    have "pe_idx l = m \<and> pe_host l = prefix @ int_str (pe_idx l) \<and> sv_runtime sv = Some (ReplicaRT (pe_host l), True)"
      if "sv_leader sv = Some l" "m \<le> pe_idx l" for l
      using that s(3) sk by (auto simp: sup_ok_def)
    then show "follows prefix m sv'" by (auto simp: sv'_def follows_def follow_def)
    show "\<forall>p. sv_leader sv' = Some p \<longrightarrow> pe_idx p \<le> m" using s(3) by (auto simp: sv'_def follow_def)
  qed
  then have "settling prefix m (J - {j}) ?cl"
    using assms(1,3) s(2) by (auto simp: settling_def leads_def live_def)
  then show ?thesis by (rule that [OF st _ cl_inv_step [OF assms(2) st]])
qed

lemma settling_run:
  assumes "settling prefix m J cl" "cl_inv prefix n cl" "distinct js" "set js = J"
  shows "\<exists>cl'. cl_run prefix n (map Handle js) cl = Some cl' \<and> settled prefix m cl' \<and> cl_inv prefix n cl'"
  using assms
proof (induction js arbitrary: J cl)
  case Nil
  then show ?case by (auto simp: settling_def settled_def)
next
  case (Cons j js)
  from Cons.prems obtain cl1 where c: "cl_act_step prefix n (\<lambda>_ _. True) (Handle j) cl = Some cl1"
    "settling prefix m (J - {j}) cl1" "cl_inv prefix n cl1" by (auto elim: settling_handle)
  from Cons.IH [OF c(2,3)] Cons.prems(3,4) show ?case by (auto simp: c(1) simp del: cl_act_step.simps)
qed

lemma peer_filter:
  assumes "0 \<le> j" "j < int n"
  shows "filter (\<lambda>p. pe_idx p = j) (filter P (make_peers prefix n m)) =
     (if j \<noteq> m \<and> P \<lparr>pe_idx = j, pe_host = prefix @ int_str j\<rparr> then [\<lparr>pe_idx = j, pe_host = prefix @ int_str j\<rparr>] else [])"
proof -
  have f: "filter (\<lambda>x. x = nat j) [0..<k] = (if nat j < k then [nat j] else [])" for k by (induction k) auto
  have "filter (\<lambda>p. pe_idx p = j) (make_peers prefix n m) =
      map (\<lambda>i. \<lparr>pe_idx = int i, pe_host = prefix @ int_str (int i)\<rparr>) (filter (\<lambda>x. int x \<noteq> m) (filter (\<lambda>x. x = nat j) [0..<n]))"
    using assms unfolding make_peers_def filter_map filter_filter comp_def by (auto intro!: arg_cong2 [where f = map] filter_cong)
  then have g: "filter (\<lambda>p. pe_idx p = j) (make_peers prefix n m) =
      (if j \<noteq> m then [\<lparr>pe_idx = j, pe_host = prefix @ int_str j\<rparr>] else [])"
    unfolding f using assms by auto
  have "filter (\<lambda>p. pe_idx p = j) (filter P (make_peers prefix n m)) = filter P (filter (\<lambda>p. pe_idx p = j) (make_peers prefix n m))"
    by (simp add: conj_commute)
  then show ?thesis unfolding g by simp
qed

lemma announce_settling:
  assumes "cl_inv prefix n cl" "leads cl m" "\<forall>j. cl_queue cl j = []"
    and "\<forall>j sv. cl_nodes cl j = Some sv \<longrightarrow> j \<le> m \<and> (\<forall>p. sv_leader sv = Some p \<longrightarrow> pe_idx p \<le> m)"
  obtains cl' where "cl_act_step prefix n (\<lambda>_ _. True) (Announce m) cl = Some cl'" "settling prefix m {j. j \<noteq> m \<and> live cl j} cl'" "cl_inv prefix n cl'"
proof -
  from assms(2) obtain sv where s: "cl_nodes cl m = Some sv" "sv_runtime sv = Some (LeaderRT, True)" by (auto simp: leads_def)
  with assms(1) have ok: "sup_ok prefix n m (cl_queue cl m) sv" by (simp add: cl_inv_def)
  then have l: "sv_leader sv = None" "sv_idx sv = m" "sv_peers sv = make_peers prefix n m" using s(2) by (auto simp: sup_ok_def)
  let ?out = "map (\<lambda>p. (p, SupervisorLeader m)) (filter (\<lambda>p. live cl (pe_idx p)) (make_peers prefix n m))"
  have out: "announce (up_only cl (\<lambda>_ _. True)) sv = ?out"
    using l s(2) by (simp add: announce_def is_leader_def broadcast_message_def up_only_def)
  with s(1) have st: "cl_act_step prefix n (\<lambda>_ _. True) (Announce m) cl = Some (deliver ?out cl)" by simp
  have q: "cl_queue (deliver ?out cl) j = (if j \<noteq> m \<and> live cl j then [PeerConnection (SupervisorLeader m)] else [])" for j
  proof (cases "cl_nodes cl j")
    case None
    then have "\<not> live cl j" by (simp add: live_def)
    then show ?thesis using assms(3) by (auto simp: filter_empty_conv)
  next
    case (Some sj)
    with assms(1) have "0 \<le> j \<and> j < int n" by (auto simp: cl_inv_def sup_ok_def)
    with Some assms(3) show ?thesis
      by (simp add: filter_map comp_def peer_filter live_def del: filter_filter)
  qed
  have "settling prefix m {j. j \<noteq> m \<and> live cl j} (deliver ?out cl)"
    using assms(2,4) unfolding settling_def q by (auto simp: leads_def live_def order_less_le)
  then show ?thesis by (rule that [OF st _ cl_inv_step [OF assms(1) st]])
qed


text \<open>The highest of three boots last, elects itself and announces itself to the two others.\<close>

definition demo_boot :: "cl_act list" where
  "demo_boot = [Boot 1, Handle 1, Boot 0, Handle 0, Handle 1, Handle 1, Crash 0, Boot 2, Handle 2, Handle 1]"


subsection \<open>A cluster without a leader\<close>

text \<open>The highest live supervisor takes itself for the leader, but what it runs is a replica that was stopped.\<close>

definition false_leader :: "cluster \<Rightarrow> int \<Rightarrow> bool" where
  "false_leader cl m \<longleftrightarrow>
     (\<exists>sv h. cl_nodes cl m = Some sv \<and> sv_leader sv = None \<and> sv_runtime sv = Some (ReplicaRT h, False)) \<and>
     (\<forall>j sv b. cl_nodes cl j = Some sv \<longrightarrow> j \<le> m \<and> sv_runtime sv \<noteq> Some (LeaderRT, b)) \<and>
     (\<forall>j k. PeerConnection (SupervisorLeader k) \<in> set (cl_queue cl j) \<longrightarrow> k \<le> m)"

definition leaderless :: "cluster \<Rightarrow> bool" where
  "leaderless cl \<longleftrightarrow> (\<forall>j sv b. cl_nodes cl j = Some sv \<longrightarrow> sv_runtime sv \<noteq> Some (LeaderRT, b))"

lemma false_leader_deliver:
  "false_leader cl m \<Longrightarrow> (\<And>p k. (p, SupervisorLeader k) \<in> set out \<Longrightarrow> k \<le> m) \<Longrightarrow> false_leader (deliver out cl) m"
  by (auto simp: false_leader_def)

lemma false_leader_node:
  assumes "false_leader cl m" "cl_nodes cl i = Some sv" "\<forall>b. sv_runtime sv' \<noteq> Some (LeaderRT, b)"
    and "i = m \<longrightarrow> sv_leader sv' = sv_leader sv \<and> sv_runtime sv' = sv_runtime sv"
    and "\<And>k. PeerConnection (SupervisorLeader k) \<in> set q \<Longrightarrow> k \<le> m"
  shows "false_leader (cl\<lparr>cl_nodes := (cl_nodes cl)(i \<mapsto> sv'), cl_queue := (cl_queue cl)(i := q)\<rparr>) m"
  using assms by (auto simp: false_leader_def)

text \<open>A supervisor below one that acknowledges every election is never promoted.\<close>

lemma handle_without_leader:
  assumes "sup_ok prefix n i (e # es) sv" "ev_ok n e" "i \<le> m" "\<forall>b. sv_runtime sv \<noteq> Some (LeaderRT, b)"
    and "i = m \<Longrightarrow> is_leader sv" "\<And>k. PeerConnection (SupervisorLeader k) \<in> set (e # es) \<Longrightarrow> k \<le> m"
    and "\<And>p. pe_idx p = m \<Longrightarrow> reach SupervisorElection p" "m < int n"
  shows "\<exists>sv' out own. handle_event reach e sv = Inr (sv', out, own) \<and> (\<forall>b. sv_runtime sv' \<noteq> Some (LeaderRT, b)) \<and>
      (i = m \<longrightarrow> sv_leader sv' = sv_leader sv \<and> sv_runtime sv' = sv_runtime sv) \<and> set own \<subseteq> {LeaderDown} \<and>
      (\<forall>p k. (p, SupervisorLeader k) \<in> set out \<longrightarrow> k \<le> m)"
proof -
  have idx: "sv_idx sv = i" "sv_peers sv = make_peers prefix n i" "\<not> sv_on_election sv" "0 \<le> i" using assms(1) by (simp_all add: sup_ok_def)
  show ?thesis
  proof (cases e)
    case LeaderDown
    show ?thesis
    proof (cases "is_leader sv")
      case True
      with LeaderDown idx assms(3,4) show ?thesis by (auto simp: handle_event_def handle_leader_down_def dest: sends_ok)
    next
      case False
      with assms(3,5) have "i < m" by (cases "i = m") auto
      let ?out = "broadcast_message reach SupervisorElection (filter (\<lambda>p. peer_gt p i) (make_peers prefix n i))"
      let ?p = "\<lparr>pe_idx = m, pe_host = prefix @ int_str m\<rparr>"
      have "?p \<in> set (filter (reach SupervisorElection) (filter (\<lambda>p. peer_gt p i) (make_peers prefix n i)))"
        using \<open>i < m\<close> idx(4) assms(7,8) by (simp add: in_make_peers peer_gt_def)
      then have "?out \<noteq> []" by (force simp: broadcast_message_def filter_empty_conv)
      with False idx LeaderDown \<open>i < m\<close> assms(4) show ?thesis
        by (auto simp: handle_event_def handle_leader_down_def is_leader_def Let_def dest: sends_ok)
    qed
  next
    case (PeerConnection x)
    show ?thesis
    proof (cases "\<exists>k. x = SupervisorLeader k")
      case True
      then obtain k where x: "e = PeerConnection (SupervisorLeader k)" using PeerConnection by blast
      with assms(2,6) have k: "0 \<le> k" "k < int n" "k \<le> m" by (auto simp: ev_ok_def)
      show ?thesis unfolding x handle_claim [OF assms(1) k(1,2)]
        using assms(3,4) k(3) by (auto simp: follow_def dest: sends_ok)
    next
      case False
      then have "\<exists>own. handle_event reach e sv = Inr (sv, [], own) \<and> set own \<subseteq> {LeaderDown}"
        using PeerConnection by (cases x) (simp_all add: handle_event_def)
      with assms(4) show ?thesis by auto
    qed
  qed
qed

lemma false_leader_step:
  assumes "false_leader cl m" "cl_inv prefix n cl" "cl_act_step prefix n (\<lambda>_ _. True) a cl = Some cl'"
    and "a \<noteq> Crash m" "\<forall>k. a = Boot k \<longrightarrow> k < m"
  shows "false_leader cl' m"
proof (cases a)
  case (Handle i)
  with assms(3) obtain sv e es where s: "cl_nodes cl i = Some sv" "cl_queue cl i = e # es"
    by (auto split: option.splits list.splits)
  from assms(2) s have ok: "sup_ok prefix n i (e # es) sv" "ev_ok n e" by (metis cl_inv_def, metis cl_inv_def list.set_intros(1))
  have i: "i \<le> m" "\<forall>b. sv_runtime sv \<noteq> Some (LeaderRT, b)" and le: "\<And>k. PeerConnection (SupervisorLeader k) \<in> set (e # es) \<Longrightarrow> k \<le> m"
    using assms(1) s by (auto simp: false_leader_def) (metis list.set_intros)+
  have fm: "i = m \<Longrightarrow> is_leader sv" using assms(1) s by (auto simp: false_leader_def is_leader_def)
  let ?r = "up_only cl (\<lambda>_ _. True)"
  have "\<exists>sv' out own. handle_event ?r e sv = Inr (sv', out, own) \<and> (\<forall>b. sv_runtime sv' \<noteq> Some (LeaderRT, b)) \<and>
      (i = m \<longrightarrow> sv_leader sv' = sv_leader sv \<and> sv_runtime sv' = sv_runtime sv) \<and> set own \<subseteq> {LeaderDown} \<and>
      (\<forall>p k. (p, SupervisorLeader k) \<in> set out \<longrightarrow> k \<le> m)"
  proof (rule handle_without_leader [OF ok i fm le])
    fix p :: peer assume "pe_idx p = m"
    then show "up_only cl (\<lambda>_ _. True) SupervisorElection p" using assms(1) by (auto simp: up_only_def live_def false_leader_def)
  qed (use assms(1,2) in \<open>auto simp: false_leader_def cl_inv_def sup_ok_def\<close>)
  then obtain sv' out own where h: "handle_event ?r e sv = Inr (sv', out, own)" "\<forall>b. sv_runtime sv' \<noteq> Some (LeaderRT, b)"
    "i = m \<longrightarrow> sv_leader sv' = sv_leader sv \<and> sv_runtime sv' = sv_runtime sv" "set own \<subseteq> {LeaderDown}"
    "\<And>p k. (p, SupervisorLeader k) \<in> set out \<Longrightarrow> k \<le> m" by blast
  have "false_leader (cl\<lparr>cl_nodes := (cl_nodes cl)(i \<mapsto> sv'), cl_queue := (cl_queue cl)(i := es @ own)\<rparr>) m"
    by (rule false_leader_node [OF assms(1) s(1) h(2,3)]) (use le h(4) in auto)
  then have "false_leader (deliver out (cl\<lparr>cl_nodes := (cl_nodes cl)(i \<mapsto> sv'), cl_queue := (cl_queue cl)(i := es @ own)\<rparr>)) m"
    by (rule false_leader_deliver) (rule h(5))
  then show ?thesis using assms(3) Handle s h(1) by simp
next
  case (Announce i)
  with assms(3) obtain sv where sv: "cl_nodes cl i = Some sv" "cl' = deliver (announce (up_only cl (\<lambda>_ _. True)) sv) cl"
    by (auto split: option.splits)
  from assms(2) sv(1) have idx: "sv_idx sv = i" by (auto simp: cl_inv_def sup_ok_def)
  show ?thesis unfolding sv(2)
    by (rule false_leader_deliver [OF assms(1)]) (use announce_sends [OF idx] assms(1) sv(1) in \<open>fastforce simp: false_leader_def\<close>)
next
  case (LinkLost i)
  with assms(3) obtain sv sv' own where sv: "cl_nodes cl i = Some sv" "link_lost sv = (sv', own)"
    "cl' = cl\<lparr>cl_nodes := (cl_nodes cl)(i \<mapsto> sv'), cl_queue := (cl_queue cl)(i := cl_queue cl i @ own)\<rparr>"
    by (auto split: option.splits prod.splits)
  show ?thesis unfolding sv(3)
    by (rule false_leader_node [OF assms(1) sv(1)])
      (use assms(1) sv(1,2) in \<open>auto simp: false_leader_def link_lost_def split: option.splits prod.splits runtime_kind.splits bool.splits\<close>)
next
  case (Crash i)
  with assms(1,3,4) show ?thesis by (auto simp: false_leader_def split: if_splits)
next
  case (Boot i)
  with assms(3,5) have "cl_nodes cl i = None" "i < m"
    and c: "cl' = cl\<lparr>cl_nodes := (cl_nodes cl)(i \<mapsto> new_sup i (make_peers prefix n i)), cl_queue := (cl_queue cl)(i := [LeaderDown])\<rparr>"
    by (auto split: if_splits)
  with assms(1) show ?thesis by (auto simp: false_leader_def new_sup_def)
qed


text \<open>The leader dies and is booted again; 1 loses its link, has its election acknowledged by the new
  process, and that one dies before it handled anything.\<close>

definition demo_lost :: "cl_act list" where
  "demo_lost = [Boot 2, Handle 2, Boot 1, Handle 1, Handle 2, Handle 2, Handle 1, Crash 2, Boot 2, LinkLost 1, Handle 1, Crash 2]"


end
