(* ===== verification/Heartbeats.thy ===== *)
theory Heartbeats
  imports Registry Messages
begin

text \<open>
  How the nodes report that they are alive: the vocabulary of the connection
  (\<open>common/comms/supervisor/protocol.py\<close>), a node's client (\<open>common/heartbeat/client.py\<close>), the thread
  of the leading supervisor that serves it (\<open>_handle_clients\<close> of \<open>supervisor/runtime/leader_runtime.py\<close>),
  and the ping-pong of a replica with its leader (\<open>replica_runtime.py\<close> and \<open>ReplicaLink\<close>).  msgpack is the
  parameter pair \<open>packb\<close>/\<open>unpackb\<close> of the messages; what the sockets do is an input: the frames received, with
  the times they were handled at, and whether a reply could be sent.

  The property: what a node sends keeps it alive in the registry, and what it is answered keeps it
  sending.
\<close>

section \<open>Protocol\<close>

datatype sup_message = SRegister string string | SHeartbeat string

definition sup_fields :: "sup_message \<Rightarrow> pyval list" where
  "sup_fields m = (case m of SRegister nid kind \<Rightarrow> [VInt 0, VStr nid, VStr kind] | SHeartbeat nid \<Rightarrow> [VInt 1, VStr nid])"

definition encode_sup :: "(pyval list \<Rightarrow> bytes) \<Rightarrow> sup_message \<Rightarrow> bytes" where
  "encode_sup packb m = packb (sup_fields m)"

definition decode_sup :: "(bytes \<Rightarrow> pyval list option) \<Rightarrow> bytes \<Rightarrow> sup_message result" where
  "decode_sup unpackb data =
     (case unpackb data of
        None \<Rightarrow> Inl (ValueError ''unpackb'')
      | Some [] \<Rightarrow> Inl (ValueError ''values to unpack'')
      | Some (tag # rest) \<Rightarrow>
           if tag = VInt 0 then
             (case rest of [a, b] \<Rightarrow> bind_result (as_str a) (\<lambda>a. bind_result (as_str b) (\<lambda>b. Inr (SRegister a b)))
                         | _ \<Rightarrow> Inl TypeError)
           else if tag = VInt 1 then (case rest of [a] \<Rightarrow> bind_result (as_str a) (\<lambda>a. Inr (SHeartbeat a)) | _ \<Rightarrow> Inl TypeError)
           else Inl (ValueError ''unknown supervisor message tag''))"

section \<open>The leader's side\<close>

text \<open>A frame as the serving thread gets it: its bytes, the two clocks, and whether the reply goes through.\<close>

record received =
  rc_data :: bytes
  rc_now :: rat
  rc_wall :: "string \<Rightarrow> rat"
  rc_reply_ok :: bool

definition input_of :: "sup_message \<Rightarrow> rat \<Rightarrow> rg_input" where
  "input_of m now = (case m of SRegister nid kind \<Rightarrow> RRegister nid kind now | SHeartbeat nid \<Rightarrow> RHeartbeat nid now)"

fun handle_client ::
    "(pyval list \<Rightarrow> bytes) \<Rightarrow> (bytes \<Rightarrow> pyval list option) \<Rightarrow> received list \<Rightarrow> registry \<Rightarrow> bytes list \<times> registry" where
  "handle_client packb unpackb [] rg = ([], rg)"
| "handle_client packb unpackb (r # rs) rg =
     (if rc_data r = [] then ([], rg)
      else case decode_sup unpackb (rc_data r) of
             Inl _ \<Rightarrow> ([], rg)
           | Inr m \<Rightarrow>
               (let rg = rg_step (rc_wall r) (input_of m (rc_now r)) rg in
                if \<not> rc_reply_ok r then ([], rg)
                else case handle_client packb unpackb rs rg of
                       (replies, rg) \<Rightarrow> (encode_sup packb (SHeartbeat ''supervisor'') # replies, rg)))"

section \<open>The node's side\<close>

datatype hb_end = Lost | Died | Stopped

text \<open>One connection: the heartbeats sent, given the answers, and how it ends; with the answers the loop ends.\<close>

fun hb_session ::
    "(pyval list \<Rightarrow> bytes) \<Rightarrow> (bytes \<Rightarrow> pyval list option) \<Rightarrow> string \<Rightarrow> bytes result list \<Rightarrow> bytes list \<times> hb_end" where
  "hb_session packb unpackb nid [] = ([], Stopped)"
| "hb_session packb unpackb nid (r # rs) =
     (let beat = encode_sup packb (SHeartbeat nid) in
      case bind_result r (decode_sup unpackb) of
        Inl e \<Rightarrow> ([beat], if e = OSError then Lost else Died)
      | Inr (SRegister _ _) \<Rightarrow> ([beat], Lost)
      | Inr (SHeartbeat _) \<Rightarrow> (case hb_session packb unpackb nid rs of (beats, fin) \<Rightarrow> (beat # beats, fin)))"

text \<open>\<open>_run\<close>: a lost connection is made again, and opens with the registration.\<close>

fun hb_run ::
    "(pyval list \<Rightarrow> bytes) \<Rightarrow> (bytes \<Rightarrow> pyval list option) \<Rightarrow> string \<Rightarrow> string \<Rightarrow> bytes result list list \<Rightarrow> bytes list list" where
  "hb_run packb unpackb nid kind [] = []"
| "hb_run packb unpackb nid kind (rs # rss) =
     (case hb_session packb unpackb nid rs of
        (beats, fin) \<Rightarrow>
          (encode_sup packb (SRegister nid kind) # beats) # (if fin = Lost then hb_run packb unpackb nid kind rss else []))"

section \<open>Replica and leader\<close>

text \<open>\<open>_connect\<close>: five attempts; \<open>ping_pong\<close>: \<open>Inl\<close> is \<open>LeaderDownError\<close>; an answer is \<open>Inl\<close> of the socket's error.\<close>

definition connection_retries :: nat where
  "connection_retries = 5"

definition pong_msg :: bytes where
  "pong_msg = [112, 111, 110, 103]"

definition link_connect :: "(nat \<Rightarrow> bool) \<Rightarrow> bool" where
  "link_connect attempt_ok = list_ex attempt_ok [0..<connection_retries]"

definition ping_pong :: "bytes result \<Rightarrow> bool" where
  "ping_pong pong = (case pong of Inl _ \<Rightarrow> False | Inr bs \<Rightarrow> bs \<noteq> [])"

text \<open>\<open>ReplicaRuntime._run\<close>: whether it raises, given whether it could connect and the answers while it runs.\<close>

definition replica_raises :: "(nat \<Rightarrow> bool) \<Rightarrow> bytes result list \<Rightarrow> bool" where
  "replica_raises attempt_ok pongs = (pongs \<noteq> [] \<and> (\<not> link_connect attempt_ok \<or> \<not> list_all ping_pong pongs))"

text \<open>\<open>pong_ping\<close>: the pongs sent until a ping fails; then the replica's container is started.\<close>

fun pong_ping :: "bytes result list \<Rightarrow> bytes list \<times> bool" where
  "pong_ping [] = ([], False)"
| "pong_ping (r # rs) =
     (case r of
        Inl _ \<Rightarrow> ([], True)
      | Inr bs \<Rightarrow> if bs = [] then ([], True) else (case pong_ping rs of (out, down) \<Rightarrow> (pong_msg # out, down)))"

definition handle_replica :: "string \<Rightarrow> bytes result list \<Rightarrow> string list" where
  "handle_replica rep_id pings = (if snd (pong_ping pings) then [rep_id] else [])"

definition revive_supervisors :: "nat \<Rightarrow> string list" where
  "revive_supervisors nsupervisors = map (\<lambda>i. ''supervisor_'' @ int_str (int i)) [0..<nsupervisors]"

section \<open>Round trip\<close>

lemma decode_encode_sup [simp]:
  "unpackb (packb (sup_fields m)) = Some (sup_fields m) \<Longrightarrow> decode_sup unpackb (encode_sup packb m) = Inr m"
  by (cases m) (simp_all add: decode_sup_def encode_sup_def sup_fields_def as_str_def)

definition beats_of :: "string \<Rightarrow> received list \<Rightarrow> (rg_input \<times> (string \<Rightarrow> rat)) list" where
  "beats_of nid rs = map (\<lambda>r. (RHeartbeat nid (rc_now r), rc_wall r)) rs"

lemma rg_run_Cons: "rg_run ((e, w) # evs) rg = rg_run evs (rg_step w e rg)"
  by (simp add: rg_run_def)

lemma handle_beats:
  assumes "unpackb (packb (sup_fields (SHeartbeat nid))) = Some (sup_fields (SHeartbeat nid))" "packb (sup_fields (SHeartbeat nid)) \<noteq> []"
    and "\<forall>r\<in>set rs. rc_data r = encode_sup packb (SHeartbeat nid) \<and> rc_reply_ok r"
  shows "handle_client packb unpackb rs rg =
    (replicate (length rs) (encode_sup packb (SHeartbeat ''supervisor'')), rg_run (beats_of nid rs) rg)"
  using assms(3)
proof (induction rs arbitrary: rg)
  case (Cons r rs)
  have "rc_data r \<noteq> []" "decode_sup unpackb (rc_data r) = Inr (SHeartbeat nid)"
    using Cons.prems assms(1,2) by (simp_all add: encode_sup_def [of packb "SHeartbeat nid", symmetric])
  with Cons show ?case by (simp add: beats_of_def rg_run_Cons input_of_def Let_def)
qed (simp add: beats_of_def)

lemma session_beats:
  assumes "unpackb (packb (sup_fields (SHeartbeat x))) = Some (sup_fields (SHeartbeat x))"
  shows "hb_session packb unpackb nid (map Inr (replicate k (encode_sup packb (SHeartbeat x)))) =
    (replicate k (encode_sup packb (SHeartbeat nid)), Stopped)"
  using assms by (induction k) (simp_all add: Let_def)

lemma beats_alive:
  "status_of rg nid = Some ALIVE \<Longrightarrow> status_of (rg_run (beats_of nid rs) rg) nid = Some ALIVE"
proof (induction rs arbitrary: rg)
  case (Cons r rs)
  show ?case by (simp add: beats_of_def rg_run_Cons, fold beats_of_def, rule Cons.IH) (simp add: status_of_def lookup_step)
qed (simp add: beats_of_def)

section \<open>Property\<close>

text \<open>
  C40.  Heartbeats keep a node alive, and the answers keep it sending.  When a node's registration and
  heartbeats reach the leading supervisor, the registry takes exactly one registration and one
  heartbeat each, in order and at the times they were handled, the node is alive, every one is
  answered, and with those answers the node's loop sends each of its heartbeats and never takes the
  connection for lost; the hypotheses on msgpack are its round trip on the three messages.
\<close>

theorem heartbeats_keep_alive:
  assumes "\<forall>m\<in>{SRegister nid kind, SHeartbeat nid, SHeartbeat ''supervisor''}.
      unpackb (packb (sup_fields m)) = Some (sup_fields m) \<and> packb (sup_fields m) \<noteq> []"
    and "map rc_data (r # rs) = encode_sup packb (SRegister nid kind) # replicate k (encode_sup packb (SHeartbeat nid))"
    and "\<forall>x\<in>set (r # rs). rc_reply_ok x"
    and "handle_client packb unpackb (r # rs) rg = (replies, rg')"
  shows "rg' = rg_run ((RRegister nid kind (rc_now r), rc_wall r) # beats_of nid rs) rg \<and> status_of rg' nid = Some ALIVE \<and>
    length replies = k + 1 \<and>
    hb_session packb unpackb nid (map Inr (take k replies)) = (replicate k (encode_sup packb (SHeartbeat nid)), Stopped)"
proof -
  have rs: "\<forall>x\<in>set rs. rc_data x = encode_sup packb (SHeartbeat nid) \<and> rc_reply_ok x" "length rs = k"
  proof -
    have m: "map rc_data rs = replicate k (encode_sup packb (SHeartbeat nid))" using assms(2) by simp
    from arg_cong [OF m, of length] show "length rs = k" by simp
    from arg_cong [OF m, of set] assms(3) show "\<forall>x\<in>set rs. rc_data x = encode_sup packb (SHeartbeat nid) \<and> rc_reply_ok x"
      by (auto split: if_splits)
  qed
  have r: "rc_data r \<noteq> []" "decode_sup unpackb (rc_data r) = Inr (SRegister nid kind)" "rc_reply_ok r"
    using assms(1,2,3) by (simp_all add: encode_sup_def [of packb "SRegister nid kind", symmetric])
  let ?rg = "rg_step (rc_wall r) (RRegister nid kind (rc_now r)) rg"
  have h: "handle_client packb unpackb rs ?rg = (replicate k (encode_sup packb (SHeartbeat ''supervisor'')), rg_run (beats_of nid rs) ?rg)"
    using handle_beats [of unpackb packb nid rs ?rg] assms(1) rs by simp
  have "replies = replicate (k + 1) (encode_sup packb (SHeartbeat ''supervisor''))" "rg' = rg_run (beats_of nid rs) ?rg"
    using assms(4) r h by (auto simp: Let_def input_of_def)
  moreover from this(1) have "take k replies = replicate k (encode_sup packb (SHeartbeat ''supervisor''))" by (simp del: replicate_Suc)
  moreover have "status_of ?rg nid = Some ALIVE" by (simp add: status_of_def lookup_step)
  moreover have "hb_session packb unpackb nid (map Inr (replicate k (encode_sup packb (SHeartbeat ''supervisor'')))) =
      (replicate k (encode_sup packb (SHeartbeat nid)), Stopped)"
    by (rule session_beats) (use assms(1) in simp)
  ultimately show ?thesis using beats_alive [of ?rg nid rs] by (simp add: rg_run_Cons)
qed

text \<open>A packing of the three messages by their first byte, and a node that beats twice.\<close>

definition demo_pack :: "pyval list \<Rightarrow> bytes" where
  "demo_pack vs = (if length vs = 3 then [1] else if vs = [VInt 1, VStr ''join_0''] then [2] else [3])"

definition demo_unpack :: "bytes \<Rightarrow> pyval list option" where
  "demo_unpack bs =
     (if bs = [1] then Some [VInt 0, VStr ''join_0'', VStr ''join'']
      else if bs = [2] then Some [VInt 1, VStr ''join_0''] else Some [VInt 1, VStr ''supervisor''])"

definition demo_frame :: "sup_message \<Rightarrow> rat \<Rightarrow> received" where
  "demo_frame m t = \<lparr>rc_data = encode_sup demo_pack m, rc_now = t, rc_wall = (\<lambda>_. t), rc_reply_ok = True\<rparr>"

theorem heartbeats_keep_alive_witness:
  "\<exists>replies rg'. handle_client demo_pack demo_unpack
      [demo_frame (SRegister ''join_0'' ''join'') 1, demo_frame (SHeartbeat ''join_0'') 2, demo_frame (SHeartbeat ''join_0'') 4]
      (new_registry 6 [''join_0''] 200) = (replies, rg') \<and>
    status_of rg' ''join_0'' = Some ALIVE \<and> length replies = 3"
proof -
  let ?rs = "[demo_frame (SHeartbeat ''join_0'') 2, demo_frame (SHeartbeat ''join_0'') 4]"
  let ?r = "demo_frame (SRegister ''join_0'' ''join'') 1"
  obtain replies rg' where h: "handle_client demo_pack demo_unpack (?r # ?rs) (new_registry 6 [''join_0''] 200) = (replies, rg')" by fastforce
  have m: "\<forall>m\<in>{SRegister ''join_0'' ''join'', SHeartbeat ''join_0'', SHeartbeat ''supervisor''}.
      demo_unpack (demo_pack (sup_fields m)) = Some (sup_fields m) \<and> demo_pack (sup_fields m) \<noteq> []"
    by (simp add: demo_pack_def demo_unpack_def sup_fields_def)
  have "map rc_data (?r # ?rs) =
      encode_sup demo_pack (SRegister ''join_0'' ''join'') # replicate 2 (encode_sup demo_pack (SHeartbeat ''join_0''))"
    by (simp add: demo_frame_def numeral_2_eq_2)
  note H = heartbeats_keep_alive [OF m this _ h]
  have "status_of rg' ''join_0'' = Some ALIVE \<and> length replies = 2 + 1"
    by (rule H [THEN conjunct2, THEN conj_forward], simp add: demo_frame_def, assumption, erule conjunct1)
  with h show ?thesis by auto
qed

end
