(* ===== verification/Ring_Exactly_Once.thy ===== *)
theory Ring_Exactly_Once
  imports Ring_Nodes
begin

text \<open>
  An aggregate's ring node under its checkpointer (\<open>aggregate/main.py\<close>: \<open>make_aggregate\<close>): the
  checkpointed state is the aggregate's own, the outgoing sequences of the downstream writers and,
  under the key \<open>completion\<close>, the ring completion.  The locale \<open>aggregate_fn\<close> is what the node relies
  on of its aggregate; it makes the node a \<open>checkpointed_node\<close>, so that the exactly-once theorem of
  that interface holds of every interpretation: the maxima and the bank names of UC2.

  The property joins the two halves for the maxima: whatever is redelivered and wherever the node
  crashes, once everything is acknowledged the node holds the maxima over each message once.
\<close>

section \<open>The node over its checkpointer\<close>

definition to_rnode :: "('f, ring_completion) node_state \<Rightarrow> 'f rnode" where
  "to_rnode st =
     (case st of (f, q, x) \<Rightarrow>
       \<lparr>rn_fn = f, rn_rc = (case x of (k, rc) # _ \<Rightarrow> rc | [] \<Rightarrow> init_rc 0 []), rn_sent = [], rn_left = [], rn_right = [], rn_srcs = q\<rparr>)"

definition of_rnode :: "'f rnode \<Rightarrow> ('f, ring_completion) node_state" where
  "of_rnode st = (rn_fn st, rn_srcs st, [(''completion'', rn_rc st)])"

text \<open>What the node does of an event: \<open>_on_data\<close> on a data message, a step of a handler on a control event.\<close>

definition aggregate_event ::
    "('f \<Rightarrow> uuid \<Rightarrow> 'd \<Rightarrow> 'f) \<Rightarrow> ('f, 'm) ring_cfg \<Rightarrow> (msg_id \<times> 'd, ring_ctl) event \<Rightarrow> 'f rnode \<Rightarrow> 'f rnode \<times> 'm outgoing list" where
  "aggregate_event agg cf ev st =
     (case ev of
        Data (i, d) \<Rightarrow> data_done cf (m_client i) (ring_aggregate_data agg (m_client i) d st)
      | Ctl e \<Rightarrow> (case ctl_step cf e st of (st, outs, _) \<Rightarrow> (st, outs)))"

definition fn_snapshotable :: "'f \<Rightarrow> ('f \<Rightarrow> 'b) \<Rightarrow> ('b \<Rightarrow> 'f result) \<Rightarrow> ('f, 'b) snapshotable" where
  "fn_snapshotable f0 snapf restf =
     \<lparr>snap = (\<lambda>f. (f, snapf f)), rest = (\<lambda>b f. case restf b of Inl _ \<Rightarrow> f | Inr f \<Rightarrow> f), fresh_obj = (\<lambda>_. f0), clear_stale = (\<lambda>f. f)\<rparr>"

definition rc_snapshotable :: "(uuid fset \<Rightarrow> uuid list) \<Rightarrow> (ring_completion, rc_snap) snapshotable" where
  "rc_snapshotable order =
     \<lparr>snap = (\<lambda>rc. (rc, snapshot_rc order rc)), rest = (\<lambda>b rc. case restore_rc b rc of Inl _ \<Rightarrow> rc | Inr rc \<Rightarrow> rc),
      fresh_obj = (\<lambda>rc. rc), clear_stale = (\<lambda>rc. rc)\<rparr>"

definition aggregate_node ::
    "('f \<Rightarrow> uuid \<Rightarrow> 'd \<Rightarrow> 'f) \<Rightarrow> ('f, 'm) ring_cfg \<Rightarrow> ('f, 'b) snapshotable \<Rightarrow> (uuid fset \<Rightarrow> uuid list) \<Rightarrow>
     'f \<Rightarrow> ring_completion \<Rightarrow> (bytes \<times> int) list \<Rightarrow> int \<Rightarrow>
     ('f, 'b, ring_completion, rc_snap, msg_id \<times> 'd, ring_ctl) node" where
  "aggregate_node agg cf S order f0 rc0 srcs0 every =
     \<lparr>nd_fn = S, nd_extra = rc_snapshotable order, nd_ident = fst,
      nd_eff = (\<lambda>ev st. of_rnode (fst (aggregate_event agg cf ev (to_rnode st)))),
      nd_init = (f0, srcs0, [(''completion'', rc0)]), nd_every = every\<rparr>"

lemma to_of_rnode [simp]:
  "rn_fn (to_rnode (f, q, [(k, rc)])) = f" "rn_srcs (to_rnode (f, q, [(k, rc)])) = q" "rn_rc (to_rnode (f, q, [(k, rc)])) = rc"
  by (simp_all add: to_rnode_def)

section \<open>Well-formed nodes\<close>

definition rnode_wf :: "('f \<Rightarrow> bool) \<Rightarrow> ring_completion \<Rightarrow> (bytes \<times> int) list \<Rightarrow> 'f rnode \<Rightarrow> bool" where
  "rnode_wf fwf rc0 srcs0 st \<longleftrightarrow> fwf (rn_fn st) \<and> rc_wf (rn_rc st) \<and> same_peer (rn_rc st) rc0 \<and> map fst (rn_srcs st) = map fst srcs0"

lemma same_peer_step: "same_peer rc rc0 \<Longrightarrow> same_peer rc rc' \<Longrightarrow> same_peer rc' rc0"
  by (simp add: same_peer_def)

lemma wf_rc_update: "rnode_wf fwf rc0 srcs0 st \<Longrightarrow> rc_wf rc \<Longrightarrow> same_peer (rn_rc st) rc \<Longrightarrow> rnode_wf fwf rc0 srcs0 (st\<lparr>rn_rc := rc\<rparr>)"
  by (auto simp: rnode_wf_def intro: same_peer_step)

lemma wf_fn_update: "rnode_wf fwf rc0 srcs0 st \<Longrightarrow> fwf f \<Longrightarrow> rnode_wf fwf rc0 srcs0 (st\<lparr>rn_fn := f\<rparr>)"
  by (simp add: rnode_wf_def)

lemma keys_after_send: "map fst (q[j := (fst (q ! j), c)]) = map fst q"
  by (simp add: map_update) (metis list_update_beyond list_update_id map_update not_le nth_map)

lemma wf_send_msg: "rnode_wf fwf rc0 srcs0 st \<Longrightarrow> rnode_wf fwf rc0 srcs0 (fst (send_msg src j m st))"
  using keys_after_send [of "rn_srcs st" "src j"]
  by (auto simp: send_msg_def rnode_wf_def split: prod.split)

lemma wf_send_shards:
  "rnode_wf fwf rc0 srcs0 (fst w) \<Longrightarrow> wf_dict (snd (snd w)) \<Longrightarrow>
   rnode_wf fwf rc0 srcs0 (fst (send_shards src m js w)) \<and> wf_dict (snd (snd (send_shards src m js w)))"
proof (induction src m js w rule: send_shards.induct)
  case (2 src m j js st outs sent)
  obtain st' x where s: "send_msg src j m st = (st', x)" by fastforce
  from 2(2,3) wf_send_msg [of fwf rc0 srcs0 st src j m] s have "rnode_wf fwf rc0 srcs0 st'" "wf_dict (add_shard (int j) sent)"
    by (simp_all add: add_shard_def)
  with 2(1) [OF s [symmetric]] s show ?case by simp
qed simp

lemma wf_send_results:
  "rnode_wf fwf rc0 srcs0 (fst w) \<Longrightarrow> wf_dict (snd (snd w)) \<Longrightarrow>
   rnode_wf fwf rc0 srcs0 (fst (foldl (\<lambda>w (m, aff). send_shards src m (js aff) w) w rs)) \<and>
   wf_dict (snd (snd (foldl (\<lambda>w (m, aff). send_shards src m (js aff) w) w rs)))"
  by (induction rs arbitrary: w) (simp_all add: wf_send_shards split: prod.split)

lemma wf_run_emit:
  assumes "rnode_wf fwf rc0 srcs0 (fst (cf_emit cf cid st))" "wf_dict (snd (snd (cf_emit cf cid st)))"
  shows "rnode_wf fwf rc0 srcs0 (fst (run_emit cf cid st))"
proof -
  obtain st' outs sent where e: "cf_emit cf cid st = (st', outs, sent)" by (metis prod_cases3)
  obtain rc as where r: "report_sent (rn_rc st') cid sent = (rc, as)" by fastforce
  have "rc_wf rc" "same_peer (rn_rc st') rc"
    using rc_wf_report [of "rn_rc st'" sent cid] same_peer_ops(6) [of "rn_rc st'" cid sent] assms r e by (simp_all add: rnode_wf_def)
  with assms(1) r e show ?thesis by (auto simp: run_emit_def intro: wf_rc_update)
qed

lemma wf_run_acts:
  assumes "\<And>cid st. rnode_wf fwf rc0 srcs0 st \<Longrightarrow> rnode_wf fwf rc0 srcs0 (fst (run_emit cf cid st))" "rnode_wf fwf rc0 srcs0 st"
  shows "rnode_wf fwf rc0 srcs0 (fst (run_acts cf as st))"
  using assms(2)
proof (induction as arbitrary: st)
  case (Cons a as)
  show ?case
  proof (cases a)
    case (Emit cid)
    have "rnode_wf fwf rc0 srcs0 (fst (run_acts cf as (fst (run_emit cf cid st))))"
      by (intro Cons.IH assms(1) Cons.prems)
    then show ?thesis by (auto simp: Emit split: prod.splits)
  qed (use Cons.IH [OF Cons.prems] in \<open>auto split: prod.splits\<close>)
qed simp

lemma recheck_frame:
  "rc_wf rc \<Longrightarrow> rc_wf (fst (recheck_list rc cids))" "same_peer rc (fst (recheck_list rc cids))"
proof -
  have "(rc_wf rc \<longrightarrow> rc_wf (fst (recheck_list rc cids))) \<and> same_peer rc (fst (recheck_list rc cids))"
  proof (induction rc cids rule: recheck_list.induct)
    case (2 rc cid cids)
    obtain rc1 as where m: "maybe_local_complete rc cid = (rc1, as)" by fastforce
    obtain rc2 bs where r: "recheck_list rc1 cids = (rc2, bs)" by fastforce
    from 2 [OF m [symmetric] refl] rc_wf_maybe [of rc cid] same_peer_ops(1) [of rc cid] m r show ?case by (auto simp: same_peer_def)
  qed (simp add: same_peer_def)
  then show "rc_wf rc \<Longrightarrow> rc_wf (fst (recheck_list rc cids))" "same_peer rc (fst (recheck_list rc cids))" by auto
qed

section \<open>The interface of an aggregate\<close>

locale aggregate_fn =
  fixes agg :: "'f \<Rightarrow> uuid \<Rightarrow> 'd \<Rightarrow> 'f"
    and get :: "'f \<Rightarrow> uuid \<Rightarrow> ('m \<times> int) list \<times> 'f"
    and dis :: "'f \<Rightarrow> uuid \<Rightarrow> 'f"
    and f0 :: 'f
    and snapf :: "'f \<Rightarrow> 'b"
    and restf :: "'b \<Rightarrow> 'f result"
    and fwf :: "'f \<Rightarrow> bool"
    and order :: "uuid fset \<Rightarrow> uuid list"
    and broadcast :: bool
    and ntx :: nat
    and rc0 :: ring_completion
    and srcs0 :: "(bytes \<times> int) list"
    and every :: int
  assumes fwf_init: "fwf f0"
    and fwf_agg: "fwf f \<Longrightarrow> fwf (agg f cid d)"
    and fwf_get: "fwf f \<Longrightarrow> fwf (snd (get f cid))"
    and fwf_dis: "fwf f \<Longrightarrow> fwf (dis f cid)"
    and rest_snap: "fwf f \<Longrightarrow> restf (snapf f) = Inr f"
    and order_set: "set (order A) = fset A"
    and fresh_ring: "rc_wf rc0"
    and own_producers: "distinct (map fst srcs0)"
begin

abbreviation wfn :: "'f rnode \<Rightarrow> bool" where
  "wfn \<equiv> rnode_wf fwf rc0 srcs0"

abbreviation acfg :: "('f, 'm) ring_cfg" where
  "acfg \<equiv> aggregate_cfg get dis broadcast ntx"

lemma wf_emit: "wfn st \<Longrightarrow> wfn (fst (run_emit acfg cid st))"
proof (rule wf_run_emit)
  assume st: "wfn st"
  obtain rs f where g: "get (rn_fn st) cid = (rs, f)" by fastforce
  have "wfn (st\<lparr>rn_fn := f\<rparr>)" using fwf_get [of "rn_fn st" cid] st g by (auto intro: wf_fn_update simp: rnode_wf_def)
  with wf_send_results [of fwf rc0 srcs0 "(st\<lparr>rn_fn := f\<rparr>, [], [])" "\<lambda>j. j"
      "\<lambda>aff. if broadcast then [0..<ntx] else [nat (aff mod int ntx)]" rs]
  show "wfn (fst (cf_emit acfg cid st))" "wf_dict (snd (snd (cf_emit acfg cid st)))"
    by (simp_all add: aggregate_cfg_def aggregate_emit_def g)
qed

lemma wf_with_rc:
  assumes "wfn st" "\<And>rc. rc_wf rc \<Longrightarrow> rc_wf (fst (f rc))" "\<And>rc. same_peer rc (fst (f rc))"
  shows "wfn (fst (with_rc acfg f st))"
proof -
  obtain rc as where r: "f (rn_rc st) = (rc, as)" by fastforce
  from assms r have "wfn (st\<lparr>rn_rc := rc\<rparr>)" by (intro wf_rc_update) (auto simp: rnode_wf_def dest: spec, metis fst_conv, metis fst_conv)
  with wf_run_acts [OF wf_emit] show ?thesis by (simp add: with_rc_def r)
qed

lemma wf_step: "wfn st \<Longrightarrow> wfn (fst (aggregate_event agg acfg ev st))"
proof (cases ev)
  case (Data x)
  assume st: "wfn st"
  obtain i d where x: "x = (i, d)" by (cases x)
  have "wfn (ring_aggregate_data agg (m_client i) d st)"
    using st fwf_agg by (auto simp: ring_aggregate_data_def rnode_wf_def)
  then have "wfn (fst (with_rc acfg (\<lambda>rc. on_data rc (m_client i)) (ring_aggregate_data agg (m_client i) d st)))"
    by (rule wf_with_rc) (auto intro: rc_wf_ops)
  then show ?thesis by (auto simp: aggregate_event_def Data x data_done_def split: prod.splits)
next
  case (Ctl e)
  assume st: "wfn st"
  have "wfn (fst (ctl_step acfg e st))"
  proof (cases e)
    case (CRun as)
    with wf_run_acts [OF wf_emit st] show ?thesis by (simp add: ctl_step_def)
  next
    case (CToken tk)
    with wf_with_rc [OF st, of "\<lambda>rc. on_token rc tk"] show ?thesis by (auto simp: ctl_step_def intro: rc_wf_ops)
  next
    case CRecheck
    with wf_with_rc [OF st, of recheck] show ?thesis by (auto simp: ctl_step_def recheck_def recheck_frame)
  next
    case (CCombine cid)
    with st show ?thesis by (auto simp: ctl_step_def rnode_wf_def combined_expected_def intro!: wf_rc_update rc_wf_ops split: option.splits
          intro: same_peer_step)
  qed (use st in \<open>auto simp: ctl_step_def rnode_wf_def aggregate_cfg_def discard_fn_def
        intro: rc_wf_ops fwf_dis same_peer_step\<close>)
  then show ?thesis by (auto simp: aggregate_event_def Ctl split: prod.splits)
qed

abbreviation anode :: "('f, 'b, ring_completion, rc_snap, msg_id \<times> 'd, ring_ctl) node" where
  "anode \<equiv> aggregate_node agg acfg (fn_snapshotable f0 snapf restf) order f0 rc0 srcs0 every"

definition wfs :: "('f, ring_completion) node_state \<Rightarrow> bool" where
  "wfs st \<longleftrightarrow> wfn (to_rnode st) \<and> (\<exists>rc. snd (snd st) = [(''completion'', rc)])"

lemma wfs_eff: "wfs st \<Longrightarrow> wfs (nd_eff anode ev st)"
  using wf_step [of "to_rnode st" ev] by (auto simp: wfs_def aggregate_node_def of_rnode_def rnode_wf_def)

end

sublocale aggregate_fn \<subseteq> checkpointed_node anode wfs
proof
  show "wfs (nd_init anode)"
    using fwf_init fresh_ring by (simp add: wfs_def aggregate_node_def rnode_wf_def same_peer_def)
next
  fix st and ev :: "(msg_id \<times> 'd, ring_ctl) event"
  show "wfs st \<Longrightarrow> wfs (nd_eff anode ev st)" by (rule wfs_eff)
next
  fix s q e s' assume "wfs (s, q, e)"
  then show "rest (nd_fn anode) (snd (snap (nd_fn anode) s)) (fresh_obj (nd_fn anode) s') = s"
    by (auto simp: wfs_def aggregate_node_def fn_snapshotable_def rnode_wf_def rest_snap)
next
  fix s q e k x x0 assume "wfs (s, q, e)" "(k, x) \<in> set e" "(k, x0) \<in> set (snd (snd (nd_init anode)))"
  then show "rest (nd_extra anode) (snd (snap (nd_extra anode) x)) x0 = x"
    using restore_snapshot_rc [of x order x0] order_set
    by (auto simp: wfs_def aggregate_node_def rc_snapshotable_def rnode_wf_def same_peer_def)
qed (use own_producers in \<open>auto simp: wfs_def aggregate_node_def fn_snapshotable_def rc_snapshotable_def rnode_wf_def\<close>)

section \<open>The in-memory aggregates of UC2\<close>

definition wf_clients :: "('k, 'v) dict per_client \<Rightarrow> bool" where
  "wf_clients st \<longleftrightarrow> wf_dict st \<and> (\<forall>(c, d)\<in>set st. wf_dict d)"

text \<open>The writers' identities; a node whose writers were not told apart would have none.\<close>

definition own_sources :: "(bytes \<times> int) list \<Rightarrow> (bytes \<times> int) list" where
  "own_sources srcs = (if distinct (map fst srcs) then srcs else [])"

lemma wf_clients_put: "wf_clients st \<Longrightarrow> wf_dict d \<Longrightarrow> wf_clients (dict_set cid d st)"
  using set_dict_set [of st _ cid d] by (fastforce simp: wf_clients_def)

lemma wf_clients_pop: "wf_clients st \<Longrightarrow> wf_clients (dict_pop cid st)"
  using set_dict_pop [of _ cid st] by (fastforce simp: wf_clients_def)

lemma wf_clients_get: "wf_clients st \<Longrightarrow> wf_dict (dict_get st cid [])"
  by (auto simp: wf_clients_def dict_get_def split: option.split dest: map_of_SomeD)

lemma wf_clients_default: "wf_clients st \<Longrightarrow> wf_clients (dict_setdefault cid [] st)"
  using wf_clients_put [of st "[]" cid] by (simp add: dict_setdefault_def)

lemma max_update_keeps_wf: "wf_dict d \<Longrightarrow> wf_dict (max_update d es)"
  unfolding max_update_def by (induction es arbitrary: d) (auto simp: max_step_def split: prod.split option.split)

lemma restore_snapshot_wf: "wf_clients st \<Longrightarrow> restore_clients (snapshot_clients st) = Inr st"
  by (rule restore_snapshot_clients) (auto simp: wf_clients_def)

interpretation uc2_max: aggregate_fn uc2_max_aggregate "uc2_max_result h" discard_client "[]" snapshot_clients restore_clients
    wf_clients sorted_list_of_fset broadcast ntx "init_rc node peers" "own_sources srcs" every
  for h broadcast ntx node peers srcs every
proof
  fix f :: "(string, string \<times> amount) dict per_client" and cid d assume f: "wf_clients f"
  show "wf_clients (uc2_max_aggregate f cid d)"
    using wf_clients_default [OF f] wf_clients_get [OF f]
    by (auto simp: uc2_max_aggregate_def Let_def intro!: wf_clients_put max_update_keeps_wf)
  show "wf_clients (snd (uc2_max_result h f cid))" using f wf_clients_pop [OF f, of cid] by (simp add: uc2_max_result_def split: option.split)
  show "wf_clients (discard_client f cid)" using f wf_clients_pop [OF f, of cid] by (simp add: discard_client_def)
  show "restore_clients (snapshot_clients f) = Inr f" using f by (rule restore_snapshot_wf)
qed (auto simp: wf_clients_def rc_wf_init own_sources_def)

interpretation uc2_names: aggregate_fn uc2_names_aggregate "uc2_names_result h" discard_client "[]" snapshot_clients restore_clients
    wf_clients sorted_list_of_fset broadcast ntx "init_rc node peers" "own_sources srcs" every
  for h broadcast ntx node peers srcs every
proof
  fix f :: "(string, string) dict per_client" and cid d assume f: "wf_clients f"
  show "wf_clients (uc2_names_aggregate f cid d)"
    using wf_clients_default [OF f] wf_clients_get [OF f]
    by (auto simp: uc2_names_aggregate_def Let_def intro!: wf_clients_put)
  show "wf_clients (snd (uc2_names_result h f cid))" using f wf_clients_pop [OF f, of cid] by (simp add: uc2_names_result_def split: option.split)
  show "wf_clients (discard_client f cid)" using f wf_clients_pop [OF f, of cid] by (simp add: discard_client_def)
  show "restore_clients (snapshot_clients f) = Inr f" using f by (rule restore_snapshot_wf)
qed (auto simp: wf_clients_def rc_wf_init own_sources_def)

section \<open>What the maxima node holds of a client it has not emitted\<close>

type_synonym max_dict = "(string, string \<times> amount) dict"
type_synonym max_event = "(msg_id \<times> max_dict, ring_ctl) event"

abbreviation max_cfg :: "pyhash \<Rightarrow> bool \<Rightarrow> nat \<Rightarrow> (max_dict per_client, max_dict) ring_cfg" where
  "max_cfg h broadcast ntx \<equiv> aggregate_cfg (uc2_max_result h) discard_client broadcast ntx"

definition held :: "uuid \<Rightarrow> max_dict per_client rnode \<Rightarrow> max_dict \<times> int \<times> bool" where
  "held cid st = (dict_get (rn_fn st) cid [], rc_received (client_of (rn_rc st) cid), cid |\<in>| rc_aborted (rn_rc st))"

text \<open>After a step that leaves the client unfinished it was unfinished before, and holds the same.\<close>

definition spares :: "uuid \<Rightarrow> max_dict per_client rnode \<Rightarrow> max_dict per_client rnode \<Rightarrow> bool" where
  "spares cid st st' \<longleftrightarrow>
     (rc_phase (client_of (rn_rc st') cid) = PROCESSING \<longrightarrow> rc_phase (client_of (rn_rc st) cid) = PROCESSING \<and> held cid st' = held cid st)"

lemma spares_refl [simp]: "spares cid st st"
  by (simp add: spares_def)

lemma spares_trans: "spares cid st st1 \<Longrightarrow> spares cid st1 st' \<Longrightarrow> spares cid st st'"
  by (simp add: spares_def)

lemma spares_advance: "fst (advance rc tk) = rc' \<Longrightarrow> rn_fn st = rn_fn st' \<Longrightarrow> rn_rc st = rc \<Longrightarrow> rn_rc st' = rc' \<Longrightarrow> spares cid st st'"
  by (auto simp: spares_def held_def client_advance split: if_splits)

lemma report_spares_other:
  "cid \<noteq> c \<Longrightarrow> rc_phase (client_of (fst (report_sent rc c sent)) cid) = rc_phase (client_of rc cid) \<and>
     rc_received (client_of (fst (report_sent rc c sent)) cid) = rc_received (client_of rc cid)"
  by (cases "rc_phase (client_of rc c) = PROCESSING") (auto simp: report_sent_done report_sent_processing Let_def client_advance)

lemma report_finishes: "rc_phase (client_of (fst (report_sent rc c sent)) c) \<noteq> PROCESSING"
  by (cases "rc_phase (client_of rc c) = PROCESSING") (auto simp: report_sent_done report_sent_processing Let_def client_advance)

lemma send_shards_frame:
  "rn_fn (fst (send_shards src m js w)) = rn_fn (fst w) \<and> rn_rc (fst (send_shards src m js w)) = rn_rc (fst w)"
proof (induction src m js w rule: send_shards.induct)
  case (2 src m j js st outs sent)
  obtain st' x where s: "send_msg src j m st = (st', x)" by fastforce
  then have "rn_fn st' = rn_fn st" "rn_rc st' = rn_rc st" by (auto simp: send_msg_def split: prod.splits)
  with 2 [OF s [symmetric]] s show ?case by simp
qed simp

lemma send_results_frame:
  "rn_fn (fst (foldl (\<lambda>w (m, aff). send_shards src m (js aff) w) w rs)) = rn_fn (fst w) \<and>
   rn_rc (fst (foldl (\<lambda>w (m, aff). send_shards src m (js aff) w) w rs)) = rn_rc (fst w)"
  by (induction rs arbitrary: w) (simp_all add: send_shards_frame split: prod.split)

lemma spares_emit: "spares cid st (fst (run_emit (max_cfg h b ntx) c st))"
proof -
  obtain rs f where g: "uc2_max_result h (rn_fn st) c = (rs, f)" by fastforce
  obtain st' outs sent where e: "cf_emit (max_cfg h b ntx) c st = (st', outs, sent)" by (metis prod_cases3)
  have fr: "rn_fn st' = f" "rn_rc st' = rn_rc st"
    using e g send_results_frame [of "\<lambda>j. j" "\<lambda>aff. if b then [0..<ntx] else [nat (aff mod int ntx)]" "(st\<lparr>rn_fn := f\<rparr>, [], [])" rs]
    by (auto simp: aggregate_cfg_def aggregate_emit_def)
  obtain rc as where r: "report_sent (rn_rc st) c sent = (rc, as)" by fastforce
  have "fst (run_emit (max_cfg h b ntx) c st) = st'\<lparr>rn_rc := rc\<rparr>" by (simp add: run_emit_def e fr r)
  moreover have "dict_get f cid [] = dict_get (rn_fn st) cid []" if "cid \<noteq> c"
    using g that by (auto simp: uc2_max_result_def split: option.splits)
  moreover have "rc_aborted rc = rc_aborted (rn_rc st)" using aborted_ops(5) [of "rn_rc st" c sent] by (simp add: r)
  ultimately show ?thesis
    using report_spares_other [of cid c "rn_rc st" sent] report_finishes [of "rn_rc st" c sent] fr r
    by (cases "cid = c") (auto simp: spares_def held_def)
qed

lemma spares_acts: "spares cid st (fst (run_acts (max_cfg h b ntx) as st))"
proof (induction as arbitrary: st)
  case (Cons a as)
  show ?case
  proof (cases a)
    case (Emit c)
    have "spares cid st (fst (run_acts (max_cfg h b ntx) as (fst (run_emit (max_cfg h b ntx) c st))))"
      by (rule spares_trans [OF spares_emit Cons.IH])
    then show ?thesis by (auto simp: Emit split: prod.splits)
  qed (use Cons.IH [of st] in \<open>auto split: prod.splits\<close>)
qed simp

lemma spares_with_rc:
  assumes "spares cid st (st\<lparr>rn_rc := fst (f (rn_rc st))\<rparr>)"
  shows "spares cid st (fst (with_rc (max_cfg h b ntx) f st))"
proof -
  obtain rc as where r: "f (rn_rc st) = (rc, as)" by fastforce
  from spares_trans [OF assms spares_acts] show ?thesis by (simp add: with_rc_def r)
qed

lemma client_of_recheck: "client_of (fst (recheck_list rc cids)) = client_of rc \<and> rc_aborted (fst (recheck_list rc cids)) = rc_aborted rc"
proof (induction rc cids rule: recheck_list.induct)
  case (2 rc cid cids)
  obtain rc1 as where m: "maybe_local_complete rc cid = (rc1, as)" by fastforce
  obtain rc2 bs where r: "recheck_list rc1 cids = (rc2, bs)" by fastforce
  from 2 [OF m [symmetric] refl] client_maybe [of rc cid] aborted_ops(1) [of rc cid] m r show ?case by simp
qed simp

lemma ctl_spares:
  assumes "e \<noteq> CFree cid" "e \<noteq> CDrop cid"
  shows "spares cid st (fst (ctl_step (max_cfg h b ntx) e st))"
proof (cases e)
  case (CEof c n)
  then show ?thesis by (auto simp: ctl_step_def spares_def held_def client_on_eof split: if_splits)
next
  case (CCombine c)
  then show ?thesis by (auto simp: ctl_step_def spares_def held_def client_on_eof split: if_splits option.splits)
next
  case (CRun as)
  then show ?thesis by (simp add: ctl_step_def spares_acts)
next
  case (CToken tk)
  have "spares cid st (st\<lparr>rn_rc := fst (on_token (rn_rc st) tk)\<rparr>)"
    by (cases "tk_client tk |\<in>| rc_aborted (rn_rc st)")
      (auto simp: on_token_aborted on_token_live spares_def held_def client_advance split: if_splits)
  then show ?thesis unfolding CToken ctl_step_def by (auto intro: spares_with_rc)
next
  case (CFree c)
  then show ?thesis using assms by (auto simp: ctl_step_def aggregate_cfg_def discard_fn_def discard_client_def spares_def held_def)
next
  case (CDrop c)
  then show ?thesis using assms
    by (auto simp: ctl_step_def aggregate_cfg_def discard_fn_def discard_client_def spares_def held_def drop_client_def client_of_def)
next
  case CRecheck
  have "spares cid st (st\<lparr>rn_rc := fst (recheck (rn_rc st))\<rparr>)"
    by (simp add: spares_def held_def recheck_def client_of_recheck)
  then show ?thesis unfolding CRecheck ctl_step_def by (auto intro: spares_with_rc)
qed (auto simp: ctl_step_def spares_def held_def)

lemma data_holds:
  assumes "rc_phase (client_of (rn_rc st') cid) = PROCESSING"
    and "st' = fst (aggregate_event uc2_max_aggregate (max_cfg h b ntx) (Data (i, d)) st)"
  shows "rc_phase (client_of (rn_rc st) cid) = PROCESSING \<and> held cid st' =
    (if m_client i = cid
     then (max_update (dict_get (rn_fn st) cid []) d,
           rc_received (client_of (rn_rc st) cid) + (if cid |\<in>| rc_aborted (rn_rc st) then 0 else 1), cid |\<in>| rc_aborted (rn_rc st))
     else held cid st)"
proof -
  let ?st = "ring_aggregate_data uc2_max_aggregate (m_client i) d st"
  obtain rc as where r: "on_data (rn_rc ?st) (m_client i) = (rc, as)" by fastforce
  have "st' = fst (run_acts (max_cfg h b ntx) as (?st\<lparr>rn_rc := rc\<rparr>))"
    using assms(2) r by (auto simp: aggregate_event_def data_done_def with_rc_def split: prod.splits)
  with spares_acts [of cid "?st\<lparr>rn_rc := rc\<rparr>" h b ntx as] assms(1)
  have "rc_phase (client_of rc cid) = PROCESSING" "held cid st' = held cid (?st\<lparr>rn_rc := rc\<rparr>)"
    by (simp_all add: spares_def)
  moreover have "rc = fst (on_data (rn_rc st) (m_client i))" using r by (simp add: ring_aggregate_data_def)
  moreover have "dict_get (rn_fn ?st) cid [] =
      (if m_client i = cid then max_update (dict_get (rn_fn st) cid []) d else dict_get (rn_fn st) cid [])"
    by (auto simp: ring_aggregate_data_def maxes.view_aggregate)
  ultimately show ?thesis by (auto simp: held_def client_on_data split: if_splits)
qed

definition data_for_client :: "uuid \<Rightarrow> max_event list \<Rightarrow> max_dict list" where
  "data_for_client cid evs = map snd (filter (\<lambda>m. m_client (fst m) = cid) (data_of evs))"

lemma data_for_client_snoc:
  "data_for_client cid (evs @ [Data (i, d)]) = data_for_client cid evs @ (if m_client i = cid then [d] else [])"
  "data_for_client cid (evs @ [Ctl e]) = data_for_client cid evs"
  by (simp_all add: data_for_client_def)

lemma max_update_append: "max_update (max_update d es) es' = max_update d (es @ es')"
  by (simp add: max_update_def)

abbreviation max_node where
  "max_node h broadcast ntx node peers srcs every \<equiv>
     aggregate_node uc2_max_aggregate (max_cfg h broadcast ntx) (fn_snapshotable [] snapshot_clients restore_clients)
       sorted_list_of_fset [] (init_rc node peers) srcs every"

lemma replay_step:
  "to_rnode (replay (aggregate_node agg cf S order f0 rc0 srcs0 every) (evs @ [ev])) =
   (fst (aggregate_event agg cf ev (to_rnode (replay (aggregate_node agg cf S order f0 rc0 srcs0 every) evs))))
     \<lparr>rn_sent := [], rn_left := [], rn_right := []\<rparr>"
  by (simp add: aggregate_node_def of_rnode_def to_rnode_def)

lemma replay_holds:
  assumes "Ctl (CFree cid) \<notin> set evs" "Ctl (CDrop cid) \<notin> set evs"
    and "rc_phase (client_of (rn_rc (to_rnode (replay (max_node h b ntx node peers srcs every) evs))) cid) = PROCESSING"
  shows "held cid (to_rnode (replay (max_node h b ntx node peers srcs every) evs)) =
    (max_update [] (concat (data_for_client cid evs)), int (length (data_for_client cid evs)), False)"
  using assms
proof (induction evs rule: rev_induct)
  case Nil
  show ?case
    by (simp add: held_def data_for_client_def max_update_def aggregate_node_def to_rnode_def init_rc_def client_of_def new_client_def)
next
  case (snoc ev evs)
  let ?N = "max_node h b ntx node peers srcs every"
  let ?st = "to_rnode (replay ?N evs)"
  let ?st' = "fst (aggregate_event uc2_max_aggregate (max_cfg h b ntx) ev ?st)"
  have p: "rc_phase (client_of (rn_rc ?st') cid) = PROCESSING" using snoc.prems(3) unfolding replay_step by simp
  have h: "held cid (to_rnode (replay ?N (evs @ [ev]))) = held cid ?st'" unfolding replay_step by (simp add: held_def)
  have IH: "rc_phase (client_of (rn_rc ?st) cid) = PROCESSING \<Longrightarrow>
      held cid ?st = (max_update [] (concat (data_for_client cid evs)), int (length (data_for_client cid evs)), False)"
    using snoc by simp
  show ?case
  proof (cases ev)
    case (Data x)
    obtain i d where x: "x = (i, d)" by (cases x)
    note D = data_holds [OF p, unfolded Data x, OF refl]
    have IH': "held cid ?st = (max_update [] (concat (data_for_client cid evs)), int (length (data_for_client cid evs)), False)"
      by (rule IH) (rule conjunct1 [OF D])
    then have c: "dict_get (rn_fn ?st) cid [] = max_update [] (concat (data_for_client cid evs))"
      "rc_received (client_of (rn_rc ?st) cid) = int (length (data_for_client cid evs))" "cid |\<notin>| rc_aborted (rn_rc ?st)"
      by (simp_all add: held_def)
    show ?thesis unfolding Data x h [unfolded Data x] conjunct2 [OF D]
      by (simp add: IH' c data_for_client_snoc max_update_append)
  next
    case (Ctl e)
    with snoc.prems(1,2) have "spares cid ?st (fst (ctl_step (max_cfg h b ntx) e ?st))" by (intro ctl_spares) auto
    with p have "rc_phase (client_of (rn_rc ?st) cid) = PROCESSING" "held cid ?st' = held cid ?st"
      by (auto simp: Ctl aggregate_event_def spares_def split: prod.splits)
    with IH show ?thesis unfolding h by (simp add: Ctl data_for_client_snoc)
  qed
qed

section \<open>Property\<close>

text \<open>
  C2.  UC2's aggregate counts every message once, through redelivery and crashes.  However the
  broker repeats and reorders the partial maxima, wherever the process crashes (between calls, after
  a message was applied, while the checkpoint is written, among the acknowledgements) and whatever
  EOFs, tokens, aborts and flushes come between: once everything is acknowledged, a process started
  over the checkpoint is in the state of a log that holds each message of a client not aborted
  exactly once; and for every such client that is still being processed and was not released, the
  state is a largest payment of each bank over exactly the distinct messages, and the completion
  counts their number.
\<close>

theorem uc2_node_exactly_once:
  assumes "distinct (map fst srcs)" and "N = max_node h broadcast ntx node peers srcs every"
    and "cp_reach N q c" and "stamped_queue N q" and "dom q \<subseteq> set (acked c)"
    and "st = to_rnode (node_state (boot N c))"
  shows "\<exists>devs. node_state (boot N c) = replay N devs \<and> distinct (data_of devs) \<and> set (data_of devs) \<subseteq> ran q \<and>
    (\<forall>m\<in>ran q. m_client (fst m) |\<notin>| durable_aborted (ckpt_store c) \<longrightarrow> m \<in> set (data_of devs)) \<and>
    (\<forall>cid. cid |\<notin>| durable_aborted (ckpt_store c) \<and> Ctl (CFree cid) \<notin> set devs \<and> Ctl (CDrop cid) \<notin> set devs \<and>
       rc_phase (client_of (rn_rc st) cid) = PROCESSING \<longrightarrow>
       (\<forall>bank. is_max_entry (\<Union>m \<in> {m \<in> ran q. m_client (fst m) = cid}. set (snd m)) bank
          (dict_lookup (dict_get (rn_fn st) cid []) bank)) \<and>
       rc_received (client_of (rn_rc st) cid) = int (card {m \<in> ran q. m_client (fst m) = cid}))"
proof -
  have src: "own_sources srcs = srcs" using assms(1) by (simp add: own_sources_def)
  have id: "nd_ident N = fst" by (simp add: assms(2) aggregate_node_def)
  from uc2_max.exactly_once [where h = h and broadcast = broadcast and ntx = ntx and node = node and peers = peers and srcs = srcs and every = every, unfolded src, folded assms(2), OF assms(3-5)] obtain devs where
    d: "distinct (data_of devs)" "set (data_of devs) \<subseteq> ran q" "node_state (boot N c) = replay N devs"
      "\<forall>m\<in>ran q. m_client (fst m) |\<notin>| durable_aborted (ckpt_store c) \<longrightarrow> m \<in> set (data_of devs)"
    unfolding id by blast
  have "(\<forall>bank. is_max_entry (\<Union>m \<in> {m \<in> ran q. m_client (fst m) = cid}. set (snd m)) bank
          (dict_lookup (dict_get (rn_fn st) cid []) bank)) \<and>
       rc_received (client_of (rn_rc st) cid) = int (card {m \<in> ran q. m_client (fst m) = cid})"
    if cid: "cid |\<notin>| durable_aborted (ckpt_store c)" "Ctl (CFree cid) \<notin> set devs" "Ctl (CDrop cid) \<notin> set devs"
      "rc_phase (client_of (rn_rc st) cid) = PROCESSING" for cid
  proof -
    let ?ms = "filter (\<lambda>m. m_client (fst m) = cid) (data_of devs)"
    have ms: "set ?ms = {m \<in> ran q. m_client (fst m) = cid}" using d(2,4) cid(1) by auto
    have st: "st = to_rnode (replay N devs)" using assms(6) d(3) by simp
    have "held cid st = (max_update [] (concat (data_for_client cid devs)), int (length (data_for_client cid devs)), False)"
      using replay_holds [OF cid(2,3)] cid(4) unfolding st assms(2) by blast
    then have h: "dict_get (rn_fn st) cid [] = max_update [] (concat (map snd ?ms))"
      "rc_received (client_of (rn_rc st) cid) = int (length ?ms)"
      by (simp_all add: held_def data_for_client_def)
    have "set (concat (map snd ?ms)) = (\<Union>m \<in> {m \<in> ran q. m_client (fst m) = cid}. set (snd m))"
      unfolding ms [symmetric] by auto
    moreover have "length ?ms = card {m \<in> ran q. m_client (fst m) = cid}"
      unfolding ms [symmetric] by (rule distinct_card [symmetric]) (use d(1) in simp)
    ultimately show ?thesis using max_update_Nil [of "concat (map snd ?ms)"] h by simp
  qed
  with d show ?thesis by (intro exI [of _ devs] conjI allI impI) auto
qed

text \<open>One message, delivered twice to a node that checkpoints after each.\<close>

definition demo_max_node where
  "demo_max_node = max_node demo_hash False 1 0 [] [(default_producer, 0)] 1"

definition demo_partial :: "msg_id \<times> max_dict" where
  "demo_partial = (\<lparr>m_client = 7, m_producer = default_producer, m_seq = 1\<rparr>, [(''1'', ''A'', 5)])"

definition demo_deliver where
  "demo_deliver t c = handle_data (nd_fn demo_max_node) (nd_extra demo_max_node) (nd_ident demo_max_node demo_partial)
     (\<lambda>c. Inr (run_eff demo_max_node (Data demo_partial) c)) t c"

lemma demo_eff_fields:
  "nd_ident demo_max_node demo_partial = \<lparr>m_client = 7, m_producer = default_producer, m_seq = 1\<rparr>" "nd_every demo_max_node = 1"
  "nd_init demo_max_node = ([], [(default_producer, 0)], [(''completion'', init_rc 0 [])])"
  by (simp_all add: demo_max_node_def aggregate_node_def demo_partial_def)

lemma deliver_new:
  assumes "\<not> ckpt_lock c" "caborted c = {||}" "ckpt_every c = 1" "\<not> is_duplicate (cdedup c) default_producer 1" "pending_acks c = []"
  shows "\<exists>c'. demo_deliver t c = Inr c' \<and> acked c' = acked c @ [t] \<and> pending_acks c' = [] \<and> \<not> ckpt_lock c' \<and> caborted c' = {||} \<and>
    cdedup c' = record_seq (cdedup c) default_producer 1 \<and> durable_aborted (ckpt_store c') = {||}"
  using assms
  by (simp add: demo_deliver_def handle_data_def with_lock_def demo_eff_fields apply_and_record_def checkpoint_and_flush_def
      write_checkpoint_def flush_acks_def make_blob_def durable_aborted_def run_eff_def put_state_def split: prod.splits)

lemma deliver_known:
  assumes "\<not> ckpt_lock c" "caborted c = {||}" "is_duplicate (cdedup c) default_producer 1"
  shows "\<exists>c'. demo_deliver t c = Inr c' \<and> acked c' = acked c @ [t] \<and> ckpt_store c' = ckpt_store c"
  using assms by (simp add: demo_deliver_def handle_data_def with_lock_def demo_eff_fields do_ack_def)

theorem uc2_node_exactly_once_witness:
  "\<exists>c devs. cp_reach demo_max_node [0 \<mapsto> demo_partial, 1 \<mapsto> demo_partial] c \<and> acked c = [0, 1] \<and>
     node_state (boot demo_max_node c) = replay demo_max_node devs \<and> distinct (data_of devs) \<and> set (data_of devs) = {demo_partial}"
proof -
  let ?q = "[0 :: nat \<mapsto> demo_partial, 1 \<mapsto> demo_partial]"
  let ?c = "first_boot demo_max_node"
  have f: "\<not> ckpt_lock ?c" "caborted ?c = {||}" "ckpt_every ?c = 1" "cdedup ?c = init_dedup None" "pending_acks ?c = []" "acked ?c = []"
    by (simp_all add: first_boot_def demo_eff_fields restore_cp_def new_checkpointer_def)
  have new: "\<not> is_duplicate (cdedup ?c) default_producer 1" unfolding f(4) by (simp add: dd.dup_known dd.known_fresh dd.invar_fresh)
  obtain c1 where c1: "demo_deliver 0 ?c = Inr c1" "acked c1 = [0]" "pending_acks c1 = []" "\<not> ckpt_lock c1" "caborted c1 = {||}"
    "cdedup c1 = record_seq (cdedup ?c) default_producer 1" "durable_aborted (ckpt_store c1) = {||}"
    using deliver_new [OF f(1-3) new f(5), of 0] f(6) by auto
  have "is_duplicate (cdedup c1) default_producer 1"
    unfolding c1(6) f(4) by (simp add: dd.dup_known dd.known_rec dd.invar_rec dd.invar_fresh)
  from deliver_known [OF c1(4,5) this, of 1] obtain c2 where c2: "demo_deliver 1 c1 = Inr c2" "acked c2 = [0, 1]"
    "durable_aborted (ckpt_store c2) = {||}" using c1(2,7) by auto
  have "cp_step demo_max_node ?q ?c c1"
    by (rule cp_step.deliver [of _ 0 demo_partial]) (use c1(1) f in \<open>auto simp: demo_deliver_def\<close>)
  then have "cp_reach demo_max_node ?q c1" by (rule cp_reach.step [OF cp_reach.start])
  moreover have "cp_step demo_max_node ?q c1 c2"
    by (rule cp_step.deliver [of _ 1 demo_partial]) (use c1(2,3) c2(1) in \<open>auto simp: demo_deliver_def\<close>)
  ultimately have reach: "cp_reach demo_max_node ?q c2" by (rule cp_reach.step)
  have sq: "stamped_queue demo_max_node ?q" by (auto simp: stamped_queue_def demo_eff_fields split: if_splits)
  have src: "distinct (map fst [(default_producer, 0 :: int)])" by simp
  have acks: "dom ?q \<subseteq> set (acked c2)" by (simp add: c2(2))
  obtain devs where
    d: "node_state (boot demo_max_node c2) = replay demo_max_node devs" "distinct (data_of devs)" "set (data_of devs) \<subseteq> ran ?q"
      "\<forall>m\<in>ran ?q. m_client (fst m) |\<notin>| durable_aborted (ckpt_store c2) \<longrightarrow> m \<in> set (data_of devs)"
    by (rule exE [OF uc2_node_exactly_once [OF src demo_max_node_def reach sq acks refl]], elim conjE) (rule that, assumption+)
  have "ran ?q = {demo_partial}" by auto
  with d c2(3) have "set (data_of devs) = {demo_partial}" by auto
  with reach c2(2) d(1,2) show ?thesis by blast
qed

end
