(* ===== verification/UC4_Pipeline.thy ===== *)
theory UC4_Pipeline
  imports Prune Join_Fns
begin

text \<open>
  UC4 from its filtered payments to the response: the graph and degree aggregates, the pruning merge,
  the two path counters and the join, wired as the deployment wires them (\<open>gen_uc4.py\<close>).  Graphs are
  split over the prune workers by affinity, the high-degree nodes go to every one of them, pruned
  graphs go round the counters and counts are split by the affinity of their path.  A run records what
  each worker received, in its order; \<open>uc4_delivers\<close> says that of one client this is exactly what the
  previous stage sent, in any order and interleaved with any other client.

  \<open>uc4_run_paths\<close> composes the stages: the paths that reach the join are the pairs of accounts with
  five or more intermediaries.
\<close>

section \<open>The stages and their wiring\<close>

definition yields :: "'a list result \<times> 's \<Rightarrow> 'a list" where
  "yields r = (case fst r of Inl _ \<Rightarrow> [] | Inr xs \<Rightarrow> xs)"

definition graph_out :: "pyhash \<Rightarrow> nat \<Rightarrow> uuid \<Rightarrow> (uuid \<times> graph) list \<Rightarrow> (graph \<times> int) list" where
  "graph_out h th cid ins = yields (graph_result h (foldl (\<lambda>st (c, g). graph_aggregate h th st c g) new_graph_agg ins) cid)"

definition degree_out :: "pyhash \<Rightarrow> nat \<Rightarrow> uuid \<Rightarrow> (uuid \<times> graph) list \<Rightarrow> ((gnode list \<times> gnode list) \<times> int) list" where
  "degree_out h th cid ins = yields (degree_result h (foldl (\<lambda>st (c, g). degree_aggregate h th st c g) new_degree_agg ins) cid)"

definition prune_out :: "nat \<Rightarrow> nat \<Rightarrow> uuid \<Rightarrow> (uuid \<times> ((gnode list \<times> gnode list) + graph)) list \<Rightarrow> graph list" where
  "prune_out split chunk cid ins = yields (prune_result split chunk (foldl (\<lambda>st (c, m). prune_msg st c m) new_prune ins) cid)"

definition path_out :: "pyhash \<Rightarrow> nat \<Rightarrow> uuid \<Rightarrow> (uuid \<times> counts) list \<Rightarrow> (counts \<times> int) list" where
  "path_out h th cid ins = yields (agg_paths_result h (foldl (\<lambda>st (c, d). agg_paths_aggregate h th st c d) new_path_agg ins) cid)"

record uc4_run =
  ur_batches :: "transaction list list"
  ur_graph :: "(uuid \<times> graph) list list"
  ur_degree :: "(uuid \<times> graph) list list"
  ur_prune :: "(uuid \<times> ((gnode list \<times> gnode list) + graph)) list list"
  ur_count :: "(uuid \<times> graph) list list"
  ur_path :: "(uuid \<times> counts) list list"
  ur_join :: "(uuid \<times> counts) list"

definition by_affinity :: "('d \<times> int) list \<Rightarrow> nat \<Rightarrow> nat \<Rightarrow> 'd list" where
  "by_affinity R N i = map fst (filter (\<lambda>(d, a). a mod int N = int i) R)"

definition uc4_delivers :: "pyhash \<Rightarrow> nat \<Rightarrow> nat \<Rightarrow> nat \<Rightarrow> uuid \<Rightarrow> uc4_run \<Rightarrow> bool" where
  "uc4_delivers h th split chunk cid r \<longleftrightarrow>
     (\<forall>i<length (ur_graph r). mset (client_items cid (ur_graph r ! i)) =
        mset (by_affinity (concat (map (group_uc4_graph h) (ur_batches r))) (length (ur_graph r)) i)) \<and>
     (\<forall>i<length (ur_degree r). mset (client_items cid (ur_degree r ! i)) =
        mset (by_affinity (concat (map (group_uc4_graph h) (ur_batches r))) (length (ur_degree r)) i)) \<and>
     (\<forall>i<length (ur_prune r).
        mset (rights (client_items cid (ur_prune r ! i))) =
          mset (by_affinity (concat (map (graph_out h th cid) (ur_graph r))) (length (ur_prune r)) i) \<and>
        mset (lefts (client_items cid (ur_prune r ! i))) =
          mset (map fst (concat (map (degree_out h th cid) (ur_degree r))))) \<and>
     mset (client_items cid (concat (ur_count r))) = mset (concat (map (prune_out split chunk cid) (ur_prune r))) \<and>
     (\<forall>i<length (ur_path r). mset (client_items cid (ur_path r ! i)) =
        mset (by_affinity (counted h th (ur_count r) cid) (length (ur_path r)) i)) \<and>
     mset (client_items cid (ur_join r)) = mset (map fst (concat (map (path_out h th cid) (ur_path r))))"

definition uc4_staffed :: "uc4_run \<Rightarrow> bool" where
  "uc4_staffed r \<longleftrightarrow> ur_graph r \<noteq> [] \<and> ur_degree r \<noteq> [] \<and> ur_prune r \<noteq> [] \<and> ur_path r \<noteq> []"

text \<open>What the other clients send is well-formed.\<close>

definition foreign :: "uuid \<Rightarrow> ('d \<Rightarrow> bool) \<Rightarrow> (uuid \<times> 'd) list list \<Rightarrow> bool" where
  "foreign cid ok inboxes \<longleftrightarrow> (\<forall>ins\<in>set inboxes. \<forall>x\<in>set ins. fst x \<noteq> cid \<longrightarrow> ok (snd x))"

definition uc4_foreign :: "nat \<Rightarrow> gnode set \<Rightarrow> uuid \<Rightarrow> uc4_run \<Rightarrow> bool" where
  "uc4_foreign k N cid r \<longleftrightarrow>
     foreign cid (clean_graph k) (ur_graph r) \<and> foreign cid (clean_graph k) (ur_degree r) \<and>
     foreign cid (prune_good k) (ur_prune r) \<and> foreign cid (nodes_in N) (ur_count r) \<and>
     foreign cid (\<lambda>d. fst ` set d \<subseteq> paths_over N) (ur_path r)"

text \<open>The accounts of the answer, and the response that names them.\<close>

definition uc4_answer :: "uc4_run \<Rightarrow> uuid \<Rightarrow> (string \<times> string) list" where
  "uc4_answer r cid = accounts_of (dict_get (foldl (\<lambda>st (c, d). uc4_join st c d) [] (ur_join r)) cid [])"

section \<open>Inboxes\<close>

lemma foreign_own:
  assumes "foreign cid ok inboxes" "ins \<in> set inboxes" "\<forall>d\<in>set (client_items cid ins). ok d"
  shows "\<forall>x\<in>set ins. ok (snd x)"
proof
  fix x assume x: "x \<in> set ins"
  show "ok (snd x)"
  proof (cases "fst x = cid")
    case True
    then have "snd x \<in> set (client_items cid ins)" using x by (auto simp: client_items_def)
    with assms(3) show ?thesis by blast
  qed (use assms(1,2) x in \<open>auto simp: foreign_def\<close>)
qed

lemma set_by_affinity: "set (by_affinity R N i) \<subseteq> fst ` set R"
  by (auto simp: by_affinity_def)

lemma by_affinity_routed: "by_affinity (concat (map grp batches)) N i = routed grp (int N) (int i) batches"
  by (simp add: by_affinity_def routed_def)

lemma count_list_distinct: "distinct xs \<Longrightarrow> count_list xs x = (if x \<in> set xs then 1 else 0)"
  by (induction xs) auto

text \<open>Affinities split the messages among the workers.\<close>

lemma by_affinity_partition:
  assumes "0 < N"
  shows "mset (concat (map (by_affinity R N) [0..<N])) = mset (map fst R)"
proof (induction R)
  case Nil
  then show ?case by (simp add: by_affinity_def comp_def)
next
  case (Cons r R)
  obtain d a where r: "r = (d, a)" by (cases r)
  let ?i = "nat (a mod int N)"
  have i: "?i < N" "a mod int N = int i \<longleftrightarrow> i = ?i" for i using assms by (auto simp: nat_less_iff)
  have "mset (concat (map (\<lambda>i. (if i = j then [d] else []) @ f i) is)) =
      mset (replicate (count_list is j) d) + mset (concat (map f is))" for f :: "nat \<Rightarrow> 'a list" and j "is"
    by (induction "is") auto
  moreover have "by_affinity (r # R) N i = (if i = ?i then [d] else []) @ by_affinity R N i" for i
    by (simp add: by_affinity_def r i(2))
  moreover have "count_list [0..<N] ?i = 1"
    using i(1) by (simp add: count_list_distinct)
  ultimately show ?case using Cons by (simp add: r)
qed

section \<open>From payments to graphs\<close>

lemma group_graph_clean:
  assumes "\<forall>t\<in>set ts. clean_transaction k t" "(g, aff) \<in> set (group_uc4_graph h ts)"
  shows "clean_graph k g"
proof -
  note C = compute_graph_clean(1) [OF assms(1)]
  have wf: "wf_dict (compute_graph ts)" using clean_graphD(1) [OF C] by (simp add: wf_dict_def)
  let ?f = "\<lambda>n. h_str h (node_key n) mod 50"
  have g: "(aff, g) \<in> set (shard_dict ?f (compute_graph ts))"
    using assms(2) by (auto simp: group_uc4_graph_def shard_graph_dict [OF C])
  have "set g \<subseteq> set (compute_graph ts)" using shard_dict_sound [OF wf g] by auto
  moreover have "distinct (map fst g)"
    using wf_shard_part [of ?f "compute_graph ts" aff] shard_dict_parts [OF g] by (simp add: wf_dict_def)
  ultimately show ?thesis using C by (auto simp: clean_graph_def)
qed

lemma inbox_clean:
  assumes "foreign cid (clean_graph k) inboxes" "ins \<in> set inboxes" "\<forall>t\<in>set (concat batches). clean_transaction k t"
    and "mset (client_items cid ins) = mset (by_affinity (concat (map (group_uc4_graph h) batches)) N i)"
  shows "\<forall>x\<in>set ins. clean_graph k (snd x)"
proof (rule foreign_own [OF assms(1,2)])
  have "set (client_items cid ins) \<subseteq> fst ` set (concat (map (group_uc4_graph h) batches))"
    using mset_eq_setD [OF assms(4)] set_by_affinity by metis
  then show "\<forall>g\<in>set (client_items cid ins). clean_graph k g"
    using group_graph_clean [of _ k _ _ h] assms(3) by fastforce
qed

definition pays :: "uc4_run \<Rightarrow> (gnode \<times> gnode) set" where
  "pays r = edges (concat (ur_batches r))"

definition hub_out :: "uc4_run \<Rightarrow> gnode set" where
  "hub_out r = {n. 5 \<le> card {b. (n, b) \<in> pays r}}"

definition hub_in :: "uc4_run \<Rightarrow> gnode set" where
  "hub_in r = {n. 5 \<le> card {a. (a, n) \<in> pays r}}"

text \<open>A run of one client's well-formed payments, the other clients sending well-formed messages.\<close>

definition uc4_clean_run :: "pyhash \<Rightarrow> nat \<Rightarrow> nat \<Rightarrow> nat \<Rightarrow> nat \<Rightarrow> gnode set \<Rightarrow> uuid \<Rightarrow> uc4_run \<Rightarrow> bool" where
  "uc4_clean_run h th split chunk k N cid r \<longleftrightarrow>
     uc4_delivers h th split chunk cid r \<and> uc4_staffed r \<and> uc4_foreign k N cid r \<and>
     (\<forall>t\<in>set (concat (ur_batches r)). clean_transaction k t) \<and> unambiguous N \<and> Field (pays r) \<subseteq> N"

lemma owner_in_range:
  assumes "0 < N"
  shows "\<exists>i<N. owned h (int N) (int i) n"
  using assms by (intro exI [of _ "nat (h_str h (node_key n) mod 50 mod int N)"]) (auto simp: owned_def nat_less_iff)

lemma run_graphs:
  assumes "uc4_clean_run h th split chunk k N cid r" "i < length (ur_graph r)"
  shows "clean_graph k (concat (map fst (graph_out h th cid (ur_graph r ! i))))"
    and "gview (concat (map fst (graph_out h th cid (ur_graph r ! i)))) =
      ({(n, a). owned h (int (length (ur_graph r))) (int i) n \<and> (a, n) \<in> pays r},
       {(n, b). owned h (int (length (ur_graph r))) (int i) n \<and> (n, b) \<in> pays r})"
proof -
  note d = assms(1) [unfolded uc4_clean_run_def]
  have m: "mset (client_items cid (ur_graph r ! i)) =
      mset (by_affinity (concat (map (group_uc4_graph h) (ur_batches r))) (length (ur_graph r)) i)"
    using d assms(2) by (simp add: uc4_delivers_def)
  have c: "\<forall>x\<in>set (ur_graph r ! i). clean_graph k (snd x)"
    by (rule inbox_clean [OF _ _ _ m]) (use d assms(2) in \<open>auto simp: uc4_foreign_def\<close>)
  have t: "\<forall>t\<in>set (concat (ur_batches r)). clean_transaction k t" using d by blast
  from graph_worker [OF m [unfolded by_affinity_routed client_items_def] c t, of th]
  show "clean_graph k (concat (map fst (graph_out h th cid (ur_graph r ! i))))"
    "gview (concat (map fst (graph_out h th cid (ur_graph r ! i)))) =
      ({(n, a). owned h (int (length (ur_graph r))) (int i) n \<and> (a, n) \<in> pays r},
       {(n, b). owned h (int (length (ur_graph r))) (int i) n \<and> (n, b) \<in> pays r})"
    by (auto simp: graph_out_def yields_def pays_def)
qed

lemma run_degrees:
  assumes "uc4_clean_run h th split chunk k N cid r" "i < length (ur_degree r)"
  shows "\<exists>ho hi. degree_out h th cid (ur_degree r ! i) = [((ho, hi), 0)] \<and>
    set ho = {n. owned h (int (length (ur_degree r))) (int i) n \<and> n \<in> hub_out r} \<and>
    set hi = {n. owned h (int (length (ur_degree r))) (int i) n \<and> n \<in> hub_in r}"
proof -
  note d = assms(1) [unfolded uc4_clean_run_def]
  have m: "mset (client_items cid (ur_degree r ! i)) =
      mset (by_affinity (concat (map (group_uc4_graph h) (ur_batches r))) (length (ur_degree r)) i)"
    using d assms(2) by (simp add: uc4_delivers_def)
  have c: "\<forall>x\<in>set (ur_degree r ! i). clean_graph k (snd x)"
    by (rule inbox_clean [where inboxes = "ur_degree r", OF _ _ _ m]) (use d assms(2) in \<open>auto simp: uc4_foreign_def\<close>)
  have t: "\<forall>t\<in>set (concat (ur_batches r)). clean_transaction k t" using d by blast
  from degree_worker [OF m [unfolded by_affinity_routed client_items_def] c t, of th]
  show ?thesis by (auto simp: degree_out_def yields_def pays_def hub_out_def hub_in_def)
qed

section \<open>The whole graph\<close>

definition whole_graph :: "pyhash \<Rightarrow> nat \<Rightarrow> uuid \<Rightarrow> uc4_run \<Rightarrow> graph" where
  "whole_graph h th cid r = concat (map fst (concat (map (graph_out h th cid) (ur_graph r))))"

lemma concat_fst_concat: "concat (map fst (concat (map f xs))) = concat (map (\<lambda>x. concat (map fst (f x))) xs)"
  by (induction xs) simp_all

lemma whole_graph_parts:
  "whole_graph h th cid r =
     concat (map snd (map (\<lambda>i. (int i, concat (map fst (graph_out h th cid (ur_graph r ! i))))) [0..<length (ur_graph r)]))"
proof -
  have ix: "map F xs = map (\<lambda>i. F (xs ! i)) [0..<length xs]" for F :: "'a \<Rightarrow> 'b" and xs
    by (rule nth_equalityI) simp_all
  show ?thesis
    unfolding whole_graph_def concat_fst_concat ix [of _ "ur_graph r"] by (simp add: comp_def)
qed

lemma set_concat_parts: "e \<in> set (concat (map snd (map (\<lambda>i. (int i, G i)) [0..<N]))) \<longleftrightarrow> (\<exists>i<N. e \<in> set (G i))"
  by auto

lemma clean_entry_pairs:
  "clean_entry k e \<Longrightarrow> e \<in> set g \<Longrightarrow> (\<exists>a. (fst e, a) \<in> pred_pairs g) \<or> (\<exists>b. (fst e, b) \<in> succ_pairs g)"
proof -
  assume c: "clean_entry k e" and e: "e \<in> set g"
  obtain n p s where x: "e = (n, p, s)" by (cases e)
  from c have "p \<noteq> [] \<or> s \<noteq> []" by (simp add: x clean_entry_def)
  then obtain v where "v \<in> set p \<or> v \<in> set s" by (metis last_in_set)
  with e show ?thesis unfolding pair_iff x fst_conv by blast
qed

lemma run_whole_graph:
  assumes "uc4_clean_run h th split chunk k N cid r"
  shows "clean_graph k (whole_graph h th cid r)" "gview (whole_graph h th cid r) = ((pays r)\<inverse>, pays r)"
proof -
  let ?N = "length (ur_graph r)"
  let ?G = "\<lambda>i. concat (map fst (graph_out h th cid (ur_graph r ! i)))"
  have N: "0 < ?N" using assms by (simp add: uc4_clean_run_def uc4_staffed_def)
  note g = run_graphs [OF assms]
  have pairs: "pred_pairs (?G i) = {(n, a). owned h (int ?N) (int i) n \<and> (a, n) \<in> pays r}"
    "succ_pairs (?G i) = {(n, b). owned h (int ?N) (int i) n \<and> (n, b) \<in> pays r}" if "i < ?N" for i
    using g(2) [OF that] by (simp_all add: gview_def)
  have mem: "e \<in> set (whole_graph h th cid r) \<longleftrightarrow> (\<exists>i<?N. e \<in> set (?G i))" for e
    unfolding whole_graph_parts by (rule set_concat_parts)
  have "distinct (map fst (whole_graph h th cid r))"
    unfolding whole_graph_parts
  proof (rule distinct_tagged [where f = "\<lambda>n. h_str h (node_key n) mod 50 mod int ?N"])
    show "distinct (map fst (map (\<lambda>i. (int i, ?G i)) [0..<?N]))" by (simp add: comp_def distinct_map inj_on_def)
    have "owned h (int ?N) (int i) (fst e)" if "i < ?N" "e \<in> set (?G i)" for i e
      using clean_entry_pairs [of k e "?G i"] g(1) [OF that(1)] that unfolding pairs [OF that(1)] clean_graph_def by blast
    then show "\<forall>(i, p)\<in>set (map (\<lambda>i. (int i, ?G i)) [0..<?N]).
        distinct (map fst p) \<and> (\<forall>x\<in>set p. h_str h (node_key (fst x)) mod 50 mod int ?N = i)"
      using g(1) by (auto simp: clean_graph_def owned_def simp del: set_concat)
  qed
  moreover have "\<forall>e\<in>set (whole_graph h th cid r). clean_entry k e"
    using g(1) unfolding Ball_def mem clean_graph_def by blast
  ultimately show "clean_graph k (whole_graph h th cid r)" by (simp only: clean_graph_def simp_thms)
  have "(n, a) \<in> pred_pairs (whole_graph h th cid r) \<longleftrightarrow> (\<exists>i<?N. (n, a) \<in> pred_pairs (?G i))"
    "(n, a) \<in> succ_pairs (whole_graph h th cid r) \<longleftrightarrow> (\<exists>i<?N. (n, a) \<in> succ_pairs (?G i))" for n a
    unfolding pair_iff mem by blast+
  then have "(n, a) \<in> pred_pairs (whole_graph h th cid r) \<longleftrightarrow> (a, n) \<in> pays r"
    "(n, a) \<in> succ_pairs (whole_graph h th cid r) \<longleftrightarrow> (n, a) \<in> pays r" for n a
    using owner_in_range [OF N, of h n] pairs by auto
  then show "gview (whole_graph h th cid r) = ((pays r)\<inverse>, pays r)" by (auto simp: gview_def)
qed

lemma set_triples: "(n, a, c) \<in> set (triples g) \<longleftrightarrow> (\<exists>p s. (n, p, s) \<in> set g \<and> a \<in> set p \<and> c \<in> set s)"
proof (induction g)
  case (Cons e g)
  obtain m p s where e: "e = (m, p, s)" by (cases e)
  have "(n, a, c) \<in> set (triples [(m, p, s)]) \<longleftrightarrow> m = n \<and> a \<in> set p \<and> c \<in> set s" by (auto simp: triples_def)
  with Cons triples_append [of "[e]" g] show ?case by (auto simp: e)
qed simp

lemma clean_triples:
  assumes "clean_graph k g" "gview g = (E\<inverse>, E)"
  shows "set (triples g) = {(n, a, c). (a, n) \<in> E \<and> (n, c) \<in> E}" "distinct (triples g)"
proof -
  have P: "pred_pairs g = E\<inverse>" "succ_pairs g = E" using assms(2) by (simp_all add: gview_def)
  note d = clean_graphD(1) [OF assms(1)]
  have "(n, a, c) \<in> set (triples g) \<longleftrightarrow> (n, a) \<in> pred_pairs g \<and> (n, c) \<in> succ_pairs g" for n a c
  proof -
    have "(n, a, c) \<in> set (triples g) \<longleftrightarrow> (\<exists>p s. map_of g n = Some (p, s) \<and> a \<in> set p \<and> c \<in> set s)"
      unfolding set_triples map_of_eq_Some_iff [OF d] by blast
    then show ?thesis unfolding pairs_lookup [OF d] by (cases "map_of g n") auto
  qed
  then show "set (triples g) = {(n, a, c). (a, n) \<in> E \<and> (n, c) \<in> E}" unfolding P by auto
  show "distinct (triples g)"
    using assms(1)
  proof (induction g)
    case (Cons e g)
    obtain n p s where e: "e = (n, p, s)" by (cases e)
    have ps: "distinct p" "distinct s" using Cons.prems by (auto simp: clean_graph_def clean_entry_def e)
    have "distinct (triples [(n, p, s)])" using ps(1)
    proof (induction p)
      case (Cons a p)
      have "triples [(n, a # p, s)] = map (\<lambda>c. (n, a, c)) s @ triples [(n, p, s)]" by (simp add: triples_def)
      moreover have "(n, a, c) \<notin> set (triples [(n, p, s)])" for c using Cons.prems by (simp add: set_triples)
      ultimately show ?case using Cons ps(2) by (auto simp: distinct_map inj_on_def)
    qed simp
    moreover have "x \<notin> set (triples g)" if "x \<in> set (triples [(n, p, s)])" for x
    proof -
      obtain m a c where x: "x = (m, a, c)" by (cases x)
      have m: "m = n" using that unfolding x set_triples by simp
      have "n \<notin> fst ` set g" using Cons.prems by (simp add: clean_graph_def e)
      then show ?thesis unfolding x m set_triples by force
    qed
    moreover have "clean_graph k g" using Cons.prems by (simp add: clean_graph_def)
    ultimately show ?case using Cons.IH triples_append [of "[(n, p, s)]" g] by (auto simp: e)
  qed simp
qed

section \<open>Pruning\<close>

lemma pays_clean:
  assumes "uc4_clean_run h th split chunk k N cid r" "(a, b) \<in> pays r"
  shows "clean_node k a" "clean_node k b"
  using assms by (auto simp: uc4_clean_run_def pays_def edges_def clean_transaction_def)

lemma hub_clean:
  assumes "uc4_clean_run h th split chunk k N cid r"
  shows "n \<in> hub_out r \<Longrightarrow> clean_node k n" "n \<in> hub_in r \<Longrightarrow> clean_node k n"
proof -
  assume "n \<in> hub_out r"
  then have "{b. (n, b) \<in> pays r} \<noteq> {}" by (auto simp: hub_out_def simp del: Collect_empty_eq)
  then show "clean_node k n" using pays_clean [OF assms] by blast
next
  assume "n \<in> hub_in r"
  then have "{a. (a, n) \<in> pays r} \<noteq> {}" by (auto simp: hub_in_def simp del: Collect_empty_eq)
  then show "clean_node k n" using pays_clean [OF assms] by blast
qed

lemma set_concat_nth: "set (concat (map f xs)) = (\<Union>i<length xs. set (f (xs ! i)))"
proof -
  have "set xs = nth xs ` {..<length xs}" by (auto simp: in_set_conv_nth)
  then show ?thesis by simp
qed

lemma distinct_submset: "mset xs \<subseteq># mset ys \<Longrightarrow> distinct ys \<Longrightarrow> distinct xs"
  unfolding distinct_count_atmost_1 subseteq_mset_def
  by (metis count_greater_zero_iff count_mset_0_iff le_antisym less_one linorder_not_le not_gr_zero set_mset_mset)

lemma clean_subgraph: "mset g \<subseteq># mset g' \<Longrightarrow> clean_graph k g' \<Longrightarrow> clean_graph k g"
  using distinct_submset [of "map fst g" "map fst g'"] image_mset_subseteq_mono [of "mset g" "mset g'" fst]
  by (auto simp: clean_graph_def dest: mset_subset_eqD)

lemma run_hubs:
  assumes "uc4_clean_run h th split chunk k N cid r"
  shows "(\<Union>l\<in>fst ` set (concat (map (degree_out h th cid) (ur_degree r))). set (fst l)) = hub_out r"
    and "(\<Union>l\<in>fst ` set (concat (map (degree_out h th cid) (ur_degree r))). set (snd l)) = hub_in r"
proof -
  let ?D = "length (ur_degree r)"
  have D: "0 < ?D" using assms by (simp add: uc4_clean_run_def uc4_staffed_def)
  have "\<forall>i. \<exists>l. i < ?D \<longrightarrow> degree_out h th cid (ur_degree r ! i) = [(l, 0)] \<and>
      set (fst l) = {n. owned h (int ?D) (int i) n \<and> n \<in> hub_out r} \<and>
      set (snd l) = {n. owned h (int ?D) (int i) n \<and> n \<in> hub_in r}"
  proof (intro allI, goal_cases)
    case (1 i)
    show ?case
    proof (cases "i < ?D")
      case True
      from run_degrees [OF assms True] obtain ho hi where "degree_out h th cid (ur_degree r ! i) = [((ho, hi), 0)]"
        "set ho = {n. owned h (int ?D) (int i) n \<and> n \<in> hub_out r}" "set hi = {n. owned h (int ?D) (int i) n \<and> n \<in> hub_in r}" by blast
      then show ?thesis by (intro exI [of _ "(ho, hi)"]) simp
    qed simp
  qed
  then obtain L where L: "\<forall>i<?D. degree_out h th cid (ur_degree r ! i) = [(L i, 0)] \<and>
      set (fst (L i)) = {n. owned h (int ?D) (int i) n \<and> n \<in> hub_out r} \<and>
      set (snd (L i)) = {n. owned h (int ?D) (int i) n \<and> n \<in> hub_in r}" by (rule exE [OF choice]) blast
  have "set (concat (map (degree_out h th cid) (ur_degree r))) = (\<Union>i<?D. set (degree_out h th cid (ur_degree r ! i)))"
    by (rule set_concat_nth)
  also have "\<dots> = (\<Union>i<?D. {(L i, 0)})" using L by (intro SUP_cong) simp_all
  finally have e: "fst ` set (concat (map (degree_out h th cid) (ur_degree r))) = L ` {..<?D}"
    by (simp add: UNION_singleton_eq_range image_image)
  have ex: "x \<in> (\<Union>l\<in>L ` {..<?D}. S l) \<longleftrightarrow> (\<exists>i<?D. x \<in> S (L i))" for S :: "_ \<Rightarrow> gnode set" and x by auto
  have own: "(\<exists>i<?D. owned h (int ?D) (int i) x \<and> P) \<longleftrightarrow> P" for x P using owner_in_range [OF D, of h x] by blast
  have mo: "x \<in> set (fst (L i)) \<longleftrightarrow> owned h (int ?D) (int i) x \<and> x \<in> hub_out r"
    "x \<in> set (snd (L i)) \<longleftrightarrow> owned h (int ?D) (int i) x \<and> x \<in> hub_in r" if "i < ?D" for i x
  proof -
    from L that have "set (fst (L i)) = {n. owned h (int ?D) (int i) n \<and> n \<in> hub_out r}"
      "set (snd (L i)) = {n. owned h (int ?D) (int i) n \<and> n \<in> hub_in r}" by blast+
    then show "x \<in> set (fst (L i)) \<longleftrightarrow> owned h (int ?D) (int i) x \<and> x \<in> hub_out r"
      "x \<in> set (snd (L i)) \<longleftrightarrow> owned h (int ?D) (int i) x \<and> x \<in> hub_in r" by simp_all
  qed
  have "(\<exists>i<?D. x \<in> set (fst (L i))) \<longleftrightarrow> (\<exists>i<?D. owned h (int ?D) (int i) x \<and> x \<in> hub_out r)"
    "(\<exists>i<?D. x \<in> set (snd (L i))) \<longleftrightarrow> (\<exists>i<?D. owned h (int ?D) (int i) x \<and> x \<in> hub_in r)" for x
    by (intro ex_cong1 conj_cong refl mo; assumption)+
  then show "(\<Union>l\<in>fst ` set (concat (map (degree_out h th cid) (ur_degree r))). set (fst l)) = hub_out r"
    "(\<Union>l\<in>fst ` set (concat (map (degree_out h th cid) (ur_degree r))). set (snd l)) = hub_in r"
    unfolding e set_eq_iff ex own by (simp_all only: simp_thms)
qed

lemma triples_mset: "mset g = mset g' \<Longrightarrow> mset (triples g) = mset (triples g')"
  unfolding triples_def by (rule mset_concat_cong) simp

lemma mem_lefts: "l \<in> set (lefts ms) \<longleftrightarrow> Inl l \<in> set ms"
  by (induction ms) (auto simp: lefts_def split: sum.splits)

lemma run_prune:
  assumes "uc4_clean_run h th split chunk k N cid r" "j < length (ur_prune r)"
  defines "part \<equiv> concat (by_affinity (concat (map (graph_out h th cid) (ur_graph r))) (length (ur_prune r)) j)"
  shows "mset (concat (map triples (prune_out split chunk cid (ur_prune r ! j)))) =
      mset (filter (\<lambda>(n, a, c). a \<in> hub_out r \<and> c \<in> hub_in r) (triples part))"
    and "\<forall>g\<in>set (prune_out split chunk cid (ur_prune r ! j)). ends_of g \<subseteq> ends_of part"
proof -
  let ?ms = "client_items cid (ur_prune r ! j)"
  let ?part = "by_affinity (concat (map (graph_out h th cid) (ur_graph r))) (length (ur_prune r)) j"
  note d = assms(1) [unfolded uc4_clean_run_def]
  have R: "mset (rights ?ms) = mset ?part"
    and L: "mset (lefts ?ms) = mset (map fst (concat (map (degree_out h th cid) (ur_degree r))))"
    using d assms(2) by (simp_all add: uc4_delivers_def)
  have L': "set (lefts ?ms) = fst ` set (concat (map (degree_out h th cid) (ur_degree r)))"
    using mset_eq_setD [OF L] by simp
  note H = run_hubs [OF assms(1), folded L']
  have sub: "mset (concat (rights ?ms)) = mset part" unfolding part_def by (rule mset_concat_cong [OF R])
  note W = run_whole_graph(1) [OF assms(1)]
  have "mset part \<subseteq># mset (whole_graph h th cid r)"
  proof -
    have "mset (concat (map fst (filter P xs))) \<subseteq># mset (concat (map fst xs))" for P and xs :: "(graph \<times> int) list"
      by (induction xs) (auto intro: subset_mset.add_mono simp: subset_mset.add_increasing)
    then show ?thesis by (simp add: part_def by_affinity_def whole_graph_def)
  qed
  then have part: "clean_graph k part" using W by (rule clean_subgraph)
  have "\<forall>m\<in>set ?ms. prune_good k m"
  proof
    fix m assume m: "m \<in> set ?ms"
    show "prune_good k m"
    proof (cases m)
      case (Inl l)
      then have "l \<in> set (lefts ?ms)" using m by (simp add: mem_lefts)
      then have "set (fst l) \<subseteq> hub_out r" "set (snd l) \<subseteq> hub_in r" using H by blast+
      then show ?thesis using hub_clean [OF assms(1)] by (auto simp: Inl)
    next
      case (Inr g)
      then have "g \<in> set (rights ?ms)" using m by (simp add: set_rights)
      then have "set g \<subseteq> set part" using mset_eq_setD [OF sub] by auto
      then show ?thesis using part by (auto simp: Inr clean_graph_def)
    qed
  qed
  then have good: "\<forall>x\<in>set (ur_prune r ! j). prune_good k (snd x)"
    using foreign_own [of cid "prune_good k" "ur_prune r" "ur_prune r ! j"] d nth_mem [OF assms(2)] by (auto simp: uc4_foreign_def)
  have dist: "distinct (map fst (concat (rights ?ms)))"
    using part sub by (metis clean_graphD(1) mset_eq_imp_distinct_iff mset_map)
  obtain gs st' where gs: "prune_result split chunk (foldl (\<lambda>st (c, m). prune_msg st c m) new_prune (ur_prune r ! j)) cid = (Inr gs, st')"
    "mset (concat (map triples gs)) = mset (filter (\<lambda>(n, a, c). (\<exists>l\<in>set (lefts ?ms). a \<in> set (fst l)) \<and>
        (\<exists>l\<in>set (lefts ?ms). c \<in> set (snd l))) (triples (concat (rights ?ms))))"
    "\<forall>g\<in>set gs. ends_of g \<subseteq> ends_of (concat (rights ?ms))"
    using prune_worker [OF good dist, of split chunk] by blast
  have out: "prune_out split chunk cid (ur_prune r ! j) = gs" by (simp add: prune_out_def yields_def gs(1))
  have "(\<exists>l\<in>set (lefts ?ms). a \<in> set (fst l)) \<longleftrightarrow> a \<in> hub_out r" "(\<exists>l\<in>set (lefts ?ms). c \<in> set (snd l)) \<longleftrightarrow> c \<in> hub_in r" for a c
    unfolding H [symmetric] by blast+
  then have "mset (concat (map triples gs)) =
      filter_mset (\<lambda>(n, a, c). a \<in> hub_out r \<and> c \<in> hub_in r) (mset (triples (concat (rights ?ms))))"
    unfolding gs(2) by simp
  also have "mset (triples (concat (rights ?ms))) = mset (triples part)" by (rule triples_mset [OF sub])
  finally show "mset (concat (map triples (prune_out split chunk cid (ur_prune r ! j)))) =
      mset (filter (\<lambda>(n, a, c). a \<in> hub_out r \<and> c \<in> hub_in r) (triples part))"
    unfolding out by simp
  have "ends_of (concat (rights ?ms)) = ends_of part" unfolding ends_of_def mset_eq_setD [OF sub] ..
  then show "\<forall>g\<in>set (prune_out split chunk cid (ur_prune r ! j)). ends_of g \<subseteq> ends_of part"
    using gs(3) unfolding out by simp
qed

section \<open>The pruned graph as a whole\<close>

definition whole_pruned :: "nat \<Rightarrow> nat \<Rightarrow> uuid \<Rightarrow> uc4_run \<Rightarrow> graph list" where
  "whole_pruned split chunk cid r = concat (map (prune_out split chunk cid) (ur_prune r))"

lemma concat_map_nth: "concat (map f xs) = concat (map (\<lambda>i. f (xs ! i)) [0..<length xs])"
  by (rule arg_cong [of _ _ concat]) (rule nth_equalityI, simp_all)

lemma mset_concat_map_cong:
  "(\<And>x. x \<in> set xs \<Longrightarrow> mset (f x) = mset (g x)) \<Longrightarrow> mset (concat (map f xs)) = mset (concat (map g xs))"
  by (induction xs) simp_all

lemma run_pruned:
  assumes "uc4_clean_run h th split chunk k N cid r"
  shows "mset (concat (map triples (whole_pruned split chunk cid r))) =
      mset (filter (\<lambda>(n, a, c). a \<in> hub_out r \<and> c \<in> hub_in r) (triples (whole_graph h th cid r)))"
    and "\<forall>g\<in>set (whole_pruned split chunk cid r). nodes_in N g"
proof -
  let ?P = "length (ur_prune r)" and ?R = "concat (map (graph_out h th cid) (ur_graph r))"
  let ?Q = "\<lambda>(n, a, c). a \<in> hub_out r \<and> c \<in> hub_in r"
  let ?out = "\<lambda>j. prune_out split chunk cid (ur_prune r ! j)"
  have P: "0 < ?P" using assms by (simp add: uc4_clean_run_def uc4_staffed_def)
  note p = run_prune [OF assms]
  have tc: "concat (map triples (concat (map f xs))) = concat (map (\<lambda>x. concat (map triples (f x))) xs)" for f :: "nat \<Rightarrow> graph list" and xs
    by (induction xs) simp_all
  have "mset (concat (map triples (whole_pruned split chunk cid r))) = mset (concat (map (\<lambda>j. concat (map triples (?out j))) [0..<?P]))"
    unfolding whole_pruned_def concat_map_nth [of _ "ur_prune r"] tc ..
  also have "\<dots> = mset (concat (map (\<lambda>j. filter ?Q (triples (concat (by_affinity ?R ?P j)))) [0..<?P]))"
    by (rule mset_concat_map_cong) (use p(1) in simp)
  also have "concat (map (\<lambda>j. filter ?Q (triples (concat (f j)))) js) = filter ?Q (triples (concat (concat (map f js))))"
    for f :: "nat \<Rightarrow> graph list" and js by (induction js) simp_all
  also have "mset (filter ?Q (triples (concat (concat (map (by_affinity ?R ?P) [0..<?P]))))) = mset (filter ?Q (triples (whole_graph h th cid r)))"
    unfolding mset_filter whole_graph_def
    by (rule arg_cong [of _ _ "filter_mset ?Q"], rule triples_mset, rule mset_concat_cong, rule by_affinity_partition [OF P])
  finally show "mset (concat (map triples (whole_pruned split chunk cid r))) = mset (filter ?Q (triples (whole_graph h th cid r)))" .
  have ends: "ends_of (whole_graph h th cid r) \<subseteq> Field (pays r)"
  proof -
    have "ends_of g = snd ` pred_pairs g \<union> snd ` succ_pairs g" for g
      by (force simp: ends_of_def pred_pairs_def succ_pairs_def)
    then show ?thesis using run_whole_graph(2) [OF assms] by (auto simp: gview_def Field_def)
  qed
  have "ends_of g \<subseteq> N" if g: "g \<in> set (?out j)" "j < ?P" for g j
  proof -
    have "ends_of g \<subseteq> ends_of (concat (by_affinity ?R ?P j))" using p(2) g by blast
    also have "\<dots> \<subseteq> ends_of (whole_graph h th cid r)"
      using set_by_affinity [of ?R ?P j] unfolding ends_of_def whole_graph_def by (force simp del: set_concat simp: set_concat [of "by_affinity _ _ _"] set_concat [of "map fst _"])
    finally show ?thesis using ends assms by (auto simp: uc4_clean_run_def)
  qed
  then show "\<forall>g\<in>set (whole_pruned split chunk cid r). nodes_in N g"
    unfolding whole_pruned_def set_concat_nth nodes_in_ends by blast
qed

section \<open>Counting\<close>

definition between :: "uc4_run \<Rightarrow> gnode \<Rightarrow> gnode \<Rightarrow> gnode set" where
  "between r a c = {b. (a, b) \<in> pays r \<and> (b, c) \<in> pays r}"

lemma finite_pays: "finite (pays r)"
  by (simp add: pays_def edges_def)

lemma finite_beside: "finite {b. (a, b) \<in> pays r}" "finite {b. (b, c) \<in> pays r}"
  by (rule finite_subset [OF _ finite_imageI [OF finite_pays [of r], of snd]], force)
    (rule finite_subset [OF _ finite_imageI [OF finite_pays [of r], of fst]], force)

text \<open>Five intermediaries make both ends hubs.\<close>

lemma between_hubs:
  assumes "5 \<le> card (between r a c)" shows "a \<in> hub_out r" "c \<in> hub_in r"
proof -
  have "card (between r a c) \<le> card {b. (a, b) \<in> pays r}" "card (between r a c) \<le> card {b. (b, c) \<in> pays r}"
    by (intro card_mono finite_beside; auto simp: between_def)+
  with assms show "a \<in> hub_out r" "c \<in> hub_in r" by (auto simp: hub_out_def hub_in_def)
qed

lemma graph_paths_triples:
  "concat (map graph_paths gs) = map (\<lambda>(n, a, c). mk_path a c) (filter (\<lambda>(n, a, c). c \<noteq> a) (concat (map triples gs)))"
proof -
  have one: "graph_paths g = map (\<lambda>(n, a, c). mk_path a c) (filter (\<lambda>(n, a, c). c \<noteq> a) (triples g))" for g
  proof (induction g)
    case Nil
    then show ?case by (simp add: graph_paths_def)
  next
    case (Cons e g)
    obtain n p s where e: "e = (n, p, s)" by (cases e)
    have "concat (map (\<lambda>a. map (mk_path a) (filter (\<lambda>c. c \<noteq> a) s)) p) =
        map (\<lambda>(n, a, c). mk_path a c) (filter (\<lambda>(n, a, c). c \<noteq> a) (triples [(n, p, s)]))"
      by (induction p) (simp_all add: triples_def filter_map comp_def)
    then have "graph_paths [(n, p, s)] = map (\<lambda>(n, a, c). mk_path a c) (filter (\<lambda>(n, a, c). c \<noteq> a) (triples [(n, p, s)]))"
      by (simp add: graph_paths_def)
    moreover have "graph_paths (e # g) = graph_paths [e] @ graph_paths g" by (simp add: graph_paths_def)
    moreover have "triples (e # g) = triples [e] @ triples g" by (simp add: triples_def)
    ultimately show ?case using Cons by (simp add: e)
  qed
  show ?thesis by (induction gs) (simp_all add: one)
qed

lemma run_count_nodes:
  assumes "uc4_clean_run h th split chunk k N cid r"
  shows "\<forall>ins\<in>set (ur_count r). \<forall>x\<in>set ins. nodes_in N (snd x)"
proof
  note d = assms(1) [unfolded uc4_clean_run_def]
  fix ins assume ins: "ins \<in> set (ur_count r)"
  have "set (client_items cid ins) \<subseteq> set (client_items cid (concat (ur_count r)))" using ins by (auto simp: client_items_def)
  also have "\<dots> = set (whole_pruned split chunk cid r)"
    unfolding whole_pruned_def using d mset_eq_setD unfolding uc4_delivers_def by blast
  finally have "\<forall>g\<in>set (client_items cid ins). nodes_in N g" using run_pruned(2) [OF assms] by blast
  with ins show "\<forall>x\<in>set ins. nodes_in N (snd x)"
    using foreign_own [of cid "nodes_in N" "ur_count r" ins] d by (auto simp: uc4_foreign_def)
qed

lemma run_count:
  assumes "uc4_clean_run h th split chunk k N cid r"
  shows "count_list (concat (map graph_paths (client_items cid (concat (ur_count r))))) (mk_path a c) =
    (if c \<noteq> a \<and> a \<in> hub_out r \<and> c \<in> hub_in r then card (between r a c) else 0)"
proof -
  note d = assms(1) [unfolded uc4_clean_run_def]
  let ?gs = "client_items cid (concat (ur_count r))"
  let ?T = "triples (whole_graph h th cid r)"
  let ?q = "\<lambda>(n, a', c'). mk_path a' c' = mk_path a c" and ?ne = "\<lambda>(n, a, c). c \<noteq> a"
    and ?hub = "\<lambda>(n, a, c). a \<in> hub_out r \<and> c \<in> hub_in r"
  let ?F = "filter (\<lambda>(n, a', c'). a' = a \<and> c' = c \<and> c \<noteq> a \<and> a \<in> hub_out r \<and> c \<in> hub_in r) ?T"
  have "mset ?gs = mset (whole_pruned split chunk cid r)" unfolding whole_pruned_def using d by (simp add: uc4_delivers_def)
  then have "mset (concat (map triples ?gs)) = mset (concat (map triples (whole_pruned split chunk cid r)))"
    by (intro mset_concat_cong) simp
  also note run_pruned(1) [OF assms]
  finally have M: "mset (concat (map triples ?gs)) = mset (filter ?hub ?T)" .
  have "count_list (concat (map graph_paths ?gs)) (mk_path a c) = count (mset (concat (map graph_paths ?gs))) (mk_path a c)"
    by (simp add: count_mset)
  also have "\<dots> = size (filter_mset ?q (filter_mset ?ne (mset (concat (map triples ?gs)))))"
    unfolding graph_paths_triples mset_map mset_filter
    by (simp add: count_conv_size_mset filter_mset_image_mset split_def comp_def)
  also have "\<dots> = length (filter ?q (filter ?ne (filter ?hub ?T)))"
    unfolding M by (simp only: mset_filter [symmetric] size_mset)
  also have "filter ?q (filter ?ne (filter ?hub ?T)) = ?F"
    by (auto simp: filter_filter mk_path_def split_def intro!: filter_cong)
  also have "length ?F = card (set ?F)"
    using clean_triples(2) [OF run_whole_graph [OF assms]] by (intro distinct_card [symmetric] distinct_filter)
  also have "set ?F = (if c \<noteq> a \<and> a \<in> hub_out r \<and> c \<in> hub_in r then (\<lambda>n. (n, a, c)) ` between r a c else {})"
    using clean_triples(1) [OF run_whole_graph [OF assms]] by (auto simp: between_def)
  also have "card \<dots> = (if c \<noteq> a \<and> a \<in> hub_out r \<and> c \<in> hub_in r then card (between r a c) else 0)"
    by (auto intro!: card_image simp: inj_on_def)
  finally show ?thesis .
qed

section \<open>Adding up and joining\<close>

definition reported :: "uc4_run \<Rightarrow> gpath set" where
  "reported r = {p. p_origin p \<noteq> p_destination p \<and> 5 \<le> card (between r (p_origin p) (p_destination p))}"

lemma run_paths:
  assumes "uc4_clean_run h th split chunk k N cid r" "i < length (ur_path r)"
  shows "fst ` set (concat (map fst (path_out h th cid (ur_path r ! i)))) =
    {p \<in> reported r. path_affinity h p mod int (length (ur_path r)) = int i}"
proof -
  note d = assms(1) [unfolded uc4_clean_run_def]
  let ?M = "length (ur_path r)"
  note nodes = run_count_nodes [OF assms(1)]
  have un: "unambiguous N" using d by blast
  have m: "mset (client_items cid (ur_path r ! i)) =
      mset (map fst (filter (\<lambda>(d, a). a mod int ?M = int i) (counted h th (ur_count r) cid)))"
    using d assms(2) by (simp add: uc4_delivers_def by_affinity_def)
  have c: "fst ` set (concat (map fst (counted h th (ur_count r) cid))) \<subseteq> paths_over N"
    using counted_workers [OF un nodes] by blast
  have "set (client_items cid (ur_path r ! i)) \<subseteq> fst ` set (counted h th (ur_count r) cid)"
    using mset_eq_setD [OF m] by auto
  then have "\<forall>d\<in>set (client_items cid (ur_path r ! i)). fst ` set d \<subseteq> paths_over N" using c by fastforce
  then have good: "\<forall>x\<in>set (ur_path r ! i). fst ` set (snd x) \<subseteq> paths_over N"
    using foreign_own [of cid "\<lambda>d. fst ` set d \<subseteq> paths_over N" "ur_path r" "ur_path r ! i"] d nth_mem [OF assms(2)]
    by (auto simp: uc4_foreign_def)
  from path_worker [OF un nodes m good, of th] have out: "set (concat (map fst (path_out h th cid (ur_path r ! i)))) =
      {(p, n). path_affinity h p mod int ?M = int i \<and> 5 \<le> n \<and>
        n = int (count_list (concat (map graph_paths (client_items cid (concat (ur_count r))))) p)}"
    by (elim exE conjE) (simp only: path_out_def yields_def fst_conv sum.case)
  have "5 \<le> int (count_list (concat (map graph_paths (client_items cid (concat (ur_count r))))) p) \<longleftrightarrow> p \<in> reported r" for p
    using run_count [OF assms(1), of "p_origin p" "p_destination p"] between_hubs [of r "p_origin p" "p_destination p"]
    by (cases p) (auto simp: reported_def mk_path_def split: if_splits)
  then show ?thesis unfolding out by (auto simp: image_def)
qed

definition join_inbox :: "pyhash \<Rightarrow> nat \<Rightarrow> uuid \<Rightarrow> uc4_run \<Rightarrow> counts" where
  "join_inbox h th cid r = concat (map fst (concat (map (path_out h th cid) (ur_path r))))"

lemma run_paths_all:
  assumes "uc4_clean_run h th split chunk k N cid r"
  shows "fst ` set (join_inbox h th cid r) = reported r"
proof -
  let ?M = "length (ur_path r)"
  have M: "0 < ?M" using assms by (simp add: uc4_clean_run_def uc4_staffed_def)
  have "fst ` set (join_inbox h th cid r) = (\<Union>i<?M. fst ` set (concat (map fst (path_out h th cid (ur_path r ! i)))))"
    unfolding join_inbox_def concat_fst_concat set_concat_nth [of _ "ur_path r"] image_UN ..
  also have "\<dots> = (\<Union>i<?M. {p \<in> reported r. path_affinity h p mod int ?M = int i})"
    by (rule SUP_cong [OF refl]) (use run_paths [OF assms] in simp)
  also have "\<dots> = reported r"
  proof -
    have "\<exists>i<?M. path_affinity h p mod int ?M = int i" for p
      using M by (intro exI [of _ "nat (path_affinity h p mod int ?M)"]) (auto simp: nat_less_iff)
    then show ?thesis by blast
  qed
  finally show ?thesis .
qed

lemma put_paths_keys:
  assumes "inj_on path_key P" "fst ` set d \<subseteq> P" "fst ` set cs \<subseteq> P"
  shows "fst ` set (foldl (\<lambda>d (p, n). keyed_put path_key p n d) d cs) = fst ` set d \<union> fst ` set cs"
  using assms(2,3)
proof (induction cs arbitrary: d)
  case (Cons x cs)
  obtain p n where x: "x = (p, n)" by (cases x)
  have "fst ` set (keyed_put path_key p n d) = insert p (fst ` set d)"
    unfolding keyed_put_mod by (rule keyed_mod_keys [OF assms(1)]) (use Cons.prems in \<open>auto simp: x\<close>)
  with Cons show ?case by (auto simp: x)
qed simp

lemma accounts_of_props:
  "distinct (accounts_of cs)"
  "set (accounts_of cs) = (\<lambda>n. (n_bank n, n_account n)) ` (p_origin ` fst ` set cs \<union> p_destination ` fst ` set cs)"
proof -
  let ?f = "\<lambda>acc p. List.insert (n_bank (p_destination p), n_account (p_destination p))
                     (List.insert (n_bank (p_origin p), n_account (p_origin p)) acc)"
  have "distinct (foldl ?f acc ps)" if "distinct acc" for acc ps
    using that by (induction ps arbitrary: acc) simp_all
  from this [of "[]"] show "distinct (accounts_of cs)" by (simp add: accounts_of_def)
  have "set (foldl ?f acc ps) = set acc \<union> (\<lambda>n. (n_bank n, n_account n)) ` (p_origin ` set ps \<union> p_destination ` set ps)" for acc ps
    by (induction ps arbitrary: acc) auto
  from this [of "[]" "map fst cs"] show "set (accounts_of cs) = (\<lambda>n. (n_bank n, n_account n)) ` (p_origin ` fst ` set cs \<union> p_destination ` fst ` set cs)"
    by (simp add: accounts_of_def)
qed

lemma run_answer:
  assumes "uc4_clean_run h th split chunk k N cid r"
  shows "distinct (uc4_answer r cid)"
    and "set (uc4_answer r cid) = (\<lambda>n. (n_bank n, n_account n)) ` (p_origin ` reported r \<union> p_destination ` reported r)"
proof -
  note d = assms [unfolded uc4_clean_run_def]
  let ?ds = "client_items cid (ur_join r)"
  let ?put = "\<lambda>d cs. foldl (\<lambda>d (p, n). keyed_put path_key p n d) d cs"
  have v: "dict_get (foldl (\<lambda>st (c, d). uc4_join st c d) [] (ur_join r)) cid [] = foldl ?put [] ?ds"
    unfolding client_items_def by (rule path_join.view_run_init) simp
  have "mset (concat ?ds) = mset (join_inbox h th cid r)"
    unfolding join_inbox_def using d by (intro mset_concat_cong) (simp add: uc4_delivers_def)
  from mset_eq_setD [OF this] have keys: "fst ` set (concat ?ds) = reported r" using run_paths_all [OF assms] by simp
  have "reported r \<subseteq> paths_over N"
  proof
    fix p assume "p \<in> reported r"
    then have "between r (p_origin p) (p_destination p) \<noteq> {}" by (auto simp: reported_def)
    then show "p \<in> paths_over N" using d by (auto simp: between_def paths_over_def Field_def)
  qed
  moreover have "inj_on path_key (paths_over N)" using d by (simp add: unambiguous_def)
  moreover have "foldl ?put [] ?ds = ?put [] (concat ?ds)"
  proof -
    have "foldl ?put acc xss = ?put acc (concat xss)" for acc xss by (induction xss arbitrary: acc) simp_all
    then show ?thesis .
  qed
  ultimately have "fst ` set (foldl ?put [] ?ds) = reported r"
    using put_paths_keys [of "paths_over N" "[]" "concat ?ds"] keys by simp
  then show "distinct (uc4_answer r cid)"
    "set (uc4_answer r cid) = (\<lambda>n. (n_bank n, n_account n)) ` (p_origin ` reported r \<union> p_destination ` reported r)"
    unfolding uc4_answer_def v accounts_of_props(2) by (simp_all add: accounts_of_props(1))
qed

end
