(* ===== verification/Reference.thy ===== *)
theory Reference
  imports Filters
begin

text \<open>
  The reference computation (\<open>scripts/gen_input_output.py\<close>): the rows of the transactions file as the
  script reads them with pandas, the selections by currency and by the text of the timestamp, and the
  answers it expects of the system, computed on a whole data frame (sampled mode) or chunk by chunk
  (streaming mode).  The pandas operations are parameters; \<open>pandas_ok\<close> states their documented
  behaviour.

  The lemmas show that comparing the timestamp texts is comparing the dates (\<open>in_period_a\<close>,
  \<open>in_period_b\<close>), so that the script's masks are the system's filters.
\<close>

section \<open>Rows\<close>

text \<open>The columns the script uses; the bank columns are read as integers.\<close>

record trans_row =
  tr_time :: string
  tr_from_bank :: int
  tr_from_account :: string
  tr_to_bank :: int
  tr_to_account :: string
  tr_paid :: amount
  tr_currency :: string
  tr_format :: string

text \<open>Python compares texts by code points, a proper prefix first.\<close>

fun str_less :: "string \<Rightarrow> string \<Rightarrow> bool" where
  "str_less s [] \<longleftrightarrow> False"
| "str_less [] (c # t) \<longleftrightarrow> True"
| "str_less (a # s) (b # t) \<longleftrightarrow> (of_char a :: nat) < of_char b \<or> a = b \<and> str_less s t"

definition str_le :: "string \<Rightarrow> string \<Rightarrow> bool" where
  "str_le s t \<longleftrightarrow> \<not> str_less t s"

definition usd_row :: "trans_row \<Rightarrow> bool" where
  "usd_row r \<longleftrightarrow> tr_currency r = ''US Dollar''"

definition period_a_row :: "trans_row \<Rightarrow> bool" where
  "period_a_row r \<longleftrightarrow> str_le ''2022/09/01'' (tr_time r) \<and> str_le (tr_time r) ''2022/09/06''"

definition period_b_row :: "trans_row \<Rightarrow> bool" where
  "period_b_row r \<longleftrightarrow> str_le ''2022/09/06'' (tr_time r) \<and> str_less (tr_time r) ''2022/09/16''"

definition period_uc5_row :: "trans_row \<Rightarrow> bool" where
  "period_uc5_row r \<longleftrightarrow> str_le ''2022/09/01'' (tr_time r) \<and> str_less (tr_time r) ''2022/09/06''"

definition wire_ach_row :: "trans_row \<Rightarrow> bool" where
  "wire_ach_row r \<longleftrightarrow> tr_format r = ''Wire'' \<or> tr_format r = ''ACH''"

section \<open>Timestamps of the dataset\<close>

text \<open>\<open>YYYY/MM/DD HH:MM\<close>\<close>

definition minute_text :: "datetime \<Rightarrow> string" where
  "minute_text d =
     fixed_digits 10 4 (nat (dt_year d)) @ ''/'' @ fixed_digits 10 2 (nat (dt_month d)) @ ''/'' @
     fixed_digits 10 2 (nat (dt_day d)) @ '' '' @ fixed_digits 10 2 (nat (dt_hour d)) @ '':'' @
     fixed_digits 10 2 (nat (dt_minute d))"

lemma digit_code: "n < 10 \<Longrightarrow> (of_char (digit_char n) :: nat) = 48 + n"
  by (simp add: digit_char_def)

lemma less_div_mod:
  fixes m n :: nat
  shows "m div 10 < n div 10 \<or> m div 10 = n div 10 \<and> (m mod 10 < n mod 10 \<or> m mod 10 = n mod 10 \<and> X) \<longleftrightarrow>
    m < n \<or> m = n \<and> X"
proof -
  have ten: "10 * a + b < 10 * c + d \<longleftrightarrow> a < c \<or> a = c \<and> b < d" if "b < 10" "d < 10" for a b c d :: nat
    using that by (cases a c rule: linorder_cases) auto
  have "10 * (m div 10) + m mod 10 = m" "10 * (n div 10) + n mod 10 = n" by simp_all
  with ten [of "m mod 10" "n mod 10" "m div 10" "n div 10"]
  have lt: "m < n \<longleftrightarrow> m div 10 < n div 10 \<or> m div 10 = n div 10 \<and> m mod 10 < n mod 10" by simp
  have eq: "m = n \<longleftrightarrow> m div 10 = n div 10 \<and> m mod 10 = n mod 10" by (metis mult_div_mod_eq)
  show ?thesis unfolding lt eq by blast
qed

lemma str_less_digits:
  assumes "m < 10 ^ k" "n < 10 ^ k"
  shows "str_less (fixed_digits 10 k m @ s) (fixed_digits 10 k n @ t) \<longleftrightarrow> m < n \<or> m = n \<and> str_less s t"
  using assms
proof (induction k arbitrary: m n s t)
  case (Suc k)
  have lt: "m div 10 < 10 ^ k" "n div 10 < 10 ^ k" using Suc.prems by auto
  have d: "(of_char (digit_char (m mod 10)) :: nat) = 48 + m mod 10" "(of_char (digit_char (n mod 10)) :: nat) = 48 + n mod 10"
    by (simp_all add: digit_code)
  have e: "digit_char (m mod 10) = digit_char (n mod 10) \<longleftrightarrow> m mod 10 = n mod 10" using d by (metis add_left_cancel)
  show ?case
    unfolding fixed_digits.simps append_assoc Suc.IH [OF lt] append_Cons append_Nil str_less.simps d e
    unfolding add_less_cancel_left by (rule less_div_mod)
qed simp

definition plain_date :: "int \<Rightarrow> int \<Rightarrow> int \<Rightarrow> string" where
  "plain_date y m d = fixed_digits 10 4 (nat y) @ ''/'' @ fixed_digits 10 2 (nat m) @ ''/'' @ fixed_digits 10 2 (nat d)"

lemma dates_text:
  "''2022/09/01'' = plain_date 2022 9 1" "''2022/09/06'' = plain_date 2022 9 6" "''2022/09/16'' = plain_date 2022 9 16"
  by code_simp+

text \<open>A timestamp against a bare date: the date decides, and the timestamp is longer.\<close>

lemma valid_ranges:
  assumes "valid_datetime d"
  shows "nat (dt_year d) < 10 ^ 4" "nat (dt_month d) < 10 ^ 2" "nat (dt_day d) < 10 ^ 2"
proof -
  have "days_in_month (dt_year d) (dt_month d) \<le> 31" by (simp add: days_in_month_def)
  then show "nat (dt_year d) < 10 ^ 4" "nat (dt_month d) < 10 ^ 2" "nat (dt_day d) < 10 ^ 2"
    using assms by (auto simp: valid_datetime_def nat_less_iff)
qed

lemma minute_text_less:
  assumes "valid_datetime d" "1 \<le> x" "x \<le> 31"
  shows "str_less (minute_text d) (plain_date 2022 9 x) \<longleftrightarrow> \<not> date_le (2022, 9, x) (date_of d)"
    and "str_less (plain_date 2022 9 x) (minute_text d) \<longleftrightarrow> date_le (2022, 9, x) (date_of d)"
proof -
  note v = valid_ranges [OF assms(1)]
  have x: "nat 2022 < 10 ^ 4" "nat 9 < 10 ^ 2" "nat x < 10 ^ 2" using assms(2,3) by auto
  have p: "0 \<le> dt_year d" "0 \<le> dt_month d" "0 \<le> dt_day d" using assms(1) by (simp_all add: valid_datetime_def)
  have "str_less (minute_text d) (plain_date 2022 9 x) \<longleftrightarrow>
      nat (dt_year d) < nat 2022 \<or> nat (dt_year d) = nat 2022 \<and>
        (nat (dt_month d) < nat 9 \<or> nat (dt_month d) = nat 9 \<and> (nat (dt_day d) < nat x \<or> nat (dt_day d) = nat x \<and> False))"
    using str_less_digits [OF v(1) x(1)] str_less_digits [OF v(2) x(2)] str_less_digits [OF v(3) x(3), of _ "[]"]
    unfolding minute_text_def plain_date_def by (simp del: fixed_digits.simps)
  then show "str_less (minute_text d) (plain_date 2022 9 x) \<longleftrightarrow> \<not> date_le (2022, 9, x) (date_of d)"
    using p assms(2) by (auto simp: date_le_def date_of_def nat_less_eq_zless eq_nat_nat_iff)
  have "str_less (plain_date 2022 9 x) (minute_text d) \<longleftrightarrow>
      nat 2022 < nat (dt_year d) \<or> nat 2022 = nat (dt_year d) \<and>
        (nat 9 < nat (dt_month d) \<or> nat 9 = nat (dt_month d) \<and> (nat x < nat (dt_day d) \<or> nat x = nat (dt_day d) \<and> True))"
    using str_less_digits [OF x(1) v(1)] str_less_digits [OF x(2) v(2)] str_less_digits [OF x(3) v(3), of "[]"]
    unfolding minute_text_def plain_date_def by (simp del: fixed_digits.simps)
  then show "str_less (plain_date 2022 9 x) (minute_text d) \<longleftrightarrow> date_le (2022, 9, x) (date_of d)"
    using p assms(2) by (auto simp: date_le_def date_of_def nat_less_eq_zless eq_nat_nat_iff)
qed

section \<open>The rows and the transactions the client sends\<close>

text \<open>
  A row and the transaction the client makes of the same line: the parser writes bank ids in normal
  form and reads the timestamp as a datetime.
\<close>

definition reads :: "trans_row \<Rightarrow> transaction \<Rightarrow> bool" where
  "reads r t \<longleftrightarrow>
     t_from_bank t = int_str (tr_from_bank r) \<and> t_from_account t = tr_from_account r \<and>
     t_to_bank t = int_str (tr_to_bank r) \<and> t_to_account t = tr_to_account r \<and>
     t_amount_paid t = tr_paid r \<and> t_payment_currency t = tr_currency r \<and> t_payment_format t = tr_format r \<and>
     (\<exists>d. valid_datetime d \<and> t_timestamp t = TTime d \<and> tr_time r = minute_text d)"

lemma reads_masks:
  assumes "reads r t"
  shows "usd_row r \<longleftrightarrow> is_usd t" "period_a_row r \<longleftrightarrow> on_days 1 5 t" "period_b_row r \<longleftrightarrow> on_days 6 15 t"
    "period_uc5_row r \<longleftrightarrow> on_days 1 5 t" "wire_ach_row r \<longleftrightarrow> t_payment_format t = ''Wire'' \<or> t_payment_format t = ''ACH''"
    "timed t"
proof -
  from assms obtain d where d: "valid_datetime d" "t_timestamp t = TTime d" "tr_time r = minute_text d"
    by (auto simp: reads_def)
  note m = minute_text_less [OF d(1)]
  have o: "on_days lo hi t \<longleftrightarrow> dt_year d = 2022 \<and> dt_month d = 9 \<and> lo \<le> dt_day d \<and> dt_day d \<le> hi" for lo hi
    by (auto simp: on_days_def d(2))
  have dl: "date_le (2022, 9, x) (date_of d) \<longleftrightarrow>
      2022 < dt_year d \<or> dt_year d = 2022 \<and> (9 < dt_month d \<or> dt_month d = 9 \<and> x \<le> dt_day d)" for x
    by (auto simp: date_le_def date_of_def)
  show "usd_row r \<longleftrightarrow> is_usd t" "wire_ach_row r \<longleftrightarrow> t_payment_format t = ''Wire'' \<or> t_payment_format t = ''ACH''" "timed t"
    using assms d(1,2) by (auto simp: reads_def usd_row_def is_usd_def wire_ach_row_def timed_def)
  show "period_a_row r \<longleftrightarrow> on_days 1 5 t" "period_b_row r \<longleftrightarrow> on_days 6 15 t" "period_uc5_row r \<longleftrightarrow> on_days 1 5 t"
    unfolding period_a_row_def period_b_row_def period_uc5_row_def str_le_def d(3) dates_text
      m(1) [of 1, simplified] m [of 6, simplified] m(1) [of 16, simplified] dl o by auto
qed

section \<open>pandas\<close>

type_synonym ref_node = "int \<times> string"
type_synonym ref_edge = "ref_node \<times> ref_node"
type_synonym uc2_best = "int \<times> string \<times> amount"

text \<open>
  Boolean indexing, \<open>drop_duplicates\<close> on edges, \<open>loc[groupby("From Bank")["Amount Paid"].idxmax()]\<close>,
  \<open>groupby("Payment Format")["Amount Paid"].mean()\<close>, the iteration over those groups, and the inner
  merges of UC2 and UC3, and the number of rows whose new column is below a bound.
\<close>

record pandas =
  pd_where :: "(trans_row \<Rightarrow> bool) \<Rightarrow> trans_row list \<Rightarrow> trans_row list"
  pd_unique :: "ref_edge list \<Rightarrow> ref_edge list"
  pd_idxmax :: "trans_row list \<Rightarrow> trans_row list"
  pd_means :: "trans_row list \<Rightarrow> (string \<times> amount) list"
  pd_formats :: "trans_row list \<Rightarrow> (string \<times> trans_row list) list"
  pd_merge_names :: "uc2_best list \<Rightarrow> (int \<times> string) list \<Rightarrow> (int \<times> string \<times> string \<times> amount) list"
  pd_merge_means :: "trans_row list \<Rightarrow> (string \<times> amount) list \<Rightarrow> (trans_row \<times> amount) list"
  pd_rows_below :: "amount \<Rightarrow> amount list \<Rightarrow> nat"

definition first_max :: "trans_row list \<Rightarrow> trans_row \<Rightarrow> bool" where
  "first_max rows r \<longleftrightarrow>
     (\<exists>us vs. rows = us @ r # vs \<and> (\<forall>x\<in>set us. tr_from_bank x = tr_from_bank r \<longrightarrow> tr_paid x < tr_paid r) \<and>
        (\<forall>x\<in>set vs. tr_from_bank x = tr_from_bank r \<longrightarrow> tr_paid x \<le> tr_paid r))"

definition of_format :: "string \<Rightarrow> trans_row list \<Rightarrow> trans_row list" where
  "of_format f rows = filter (\<lambda>r. tr_format r = f) rows"

definition mean :: "trans_row list \<Rightarrow> amount" where
  "mean rows = sum_list (map tr_paid rows) / of_nat (length rows)"

text \<open>Their documented behaviour.\<close>

definition where_law :: "pandas \<Rightarrow> bool" where
  "where_law pd \<longleftrightarrow> (\<forall>P rows. pd_where pd P rows = filter P rows) \<and> (\<forall>b xs. pd_rows_below pd b xs = length (filter (\<lambda>x. x < b) xs))"

definition unique_law :: "pandas \<Rightarrow> bool" where
  "unique_law pd \<longleftrightarrow> (\<forall>es. set (pd_unique pd es) = set es \<and> distinct (pd_unique pd es))"

definition idxmax_law :: "pandas \<Rightarrow> bool" where
  "idxmax_law pd \<longleftrightarrow>
     (\<forall>rows. distinct (map tr_from_bank (pd_idxmax pd rows)) \<and> tr_from_bank ` set (pd_idxmax pd rows) = tr_from_bank ` set rows \<and>
        (\<forall>r\<in>set (pd_idxmax pd rows). first_max rows r))"

definition groups_law :: "pandas \<Rightarrow> bool" where
  "groups_law pd \<longleftrightarrow>
     (\<forall>rows. distinct (map fst (pd_means pd rows)) \<and> set (pd_means pd rows) = (\<lambda>f. (f, mean (of_format f rows))) ` tr_format ` set rows \<and>
        distinct (map fst (pd_formats pd rows)) \<and> set (pd_formats pd rows) = (\<lambda>f. (f, of_format f rows)) ` tr_format ` set rows)"

definition merge_law :: "pandas \<Rightarrow> bool" where
  "merge_law pd \<longleftrightarrow>
     (\<forall>l names. set (pd_merge_names pd l names) = {(b, acc, nm, x). (b, acc, x) \<in> set l \<and> (b, nm) \<in> set names}) \<and>
     (\<forall>l ms. pd_merge_means pd l ms = concat (map (\<lambda>r. map (\<lambda>(f, m). (r, m)) (filter (\<lambda>(f, m). f = tr_format r) ms)) l))"

definition pandas_ok :: "pandas \<Rightarrow> bool" where
  "pandas_ok pd \<longleftrightarrow> where_law pd \<and> unique_law pd \<and> idxmax_law pd \<and> groups_law pd \<and> merge_law pd"

section \<open>Sampled mode\<close>

type_synonym uc1_row = "int \<times> string \<times> int \<times> string \<times> amount"

definition uc1_cols :: "trans_row \<Rightarrow> uc1_row" where
  "uc1_cols r = (tr_from_bank r, tr_from_account r, tr_to_bank r, tr_to_account r, tr_paid r)"

definition gen_uc1_results :: "pandas \<Rightarrow> trans_row list \<Rightarrow> uc1_row list" where
  "gen_uc1_results pd df = map uc1_cols (pd_where pd (\<lambda>r. tr_paid r < 50) (pd_where pd usd_row df))"

definition uc2_cols :: "trans_row \<Rightarrow> uc2_best" where
  "uc2_cols r = (tr_from_bank r, tr_from_account r, tr_paid r)"

definition gen_uc2_results :: "pandas \<Rightarrow> (int \<times> string) list \<Rightarrow> trans_row list \<Rightarrow> (int \<times> string \<times> string \<times> amount) list" where
  "gen_uc2_results pd bank_names df = pd_merge_names pd (map uc2_cols (pd_idxmax pd (pd_where pd usd_row df))) bank_names"

type_synonym uc3_row = "int \<times> string \<times> string \<times> amount"

definition uc3_cols :: "trans_row \<Rightarrow> uc3_row" where
  "uc3_cols r = (tr_from_bank r, tr_from_account r, tr_format r, tr_paid r)"

definition gen_uc3_results :: "pandas \<Rightarrow> trans_row list \<Rightarrow> uc3_row list" where
  "gen_uc3_results pd df =
     (let usd = pd_where pd usd_row df; avgs = pd_means pd (pd_where pd period_a_row usd)
      in map (\<lambda>(r, avg). uc3_cols r)
           (filter (\<lambda>(r, avg). tr_paid r < avg * (1 / 100)) (pd_merge_means pd (pd_where pd period_b_row usd) avgs)))"

text \<open>
  UC5: the rates of a day, asked once and kept, with Bitcoin's from a table.  \<open>api\<close> answers the
  request for a day given as ISO text, or fails.
\<close>

type_synonym day_rates = "(string, amount) dict"

definition ref_bitcoin_rates :: day_rates where
  "ref_bitcoin_rates =
     [(''2022-09-01'', 2013146 / 100), (''2022-09-02'', 1995186 / 100), (''2022-09-03'', 1983190 / 100),
      (''2022-09-04'', 2000030 / 100), (''2022-09-05'', 1979684 / 100)]"

definition ref_get_rates :: "(string \<Rightarrow> day_rates result) \<Rightarrow> (string, day_rates) dict \<Rightarrow> string \<Rightarrow> (day_rates \<times> (string, day_rates) dict) result" where
  "ref_get_rates api cache date_slash =
     (let day = map (\<lambda>c. if c = CHR ''/'' then CHR ''-'' else c) date_slash
      in case dict_lookup cache day of
           Some rates \<Rightarrow> Inr (rates, cache)
         | None \<Rightarrow> bind_result (api day) (\<lambda>rates.
             let rates = (case dict_lookup ref_bitcoin_rates day of None \<Rightarrow> rates | Some x \<Rightarrow> dict_set ''Bitcoin'' x rates)
             in Inr (rates, dict_set day rates cache)))"

text \<open>The list comprehension of the converted amounts.\<close>

fun usd_amounts :: "(string \<Rightarrow> day_rates result) \<Rightarrow> (string, day_rates) dict \<Rightarrow> trans_row list \<Rightarrow> (amount list \<times> (string, day_rates) dict) result" where
  "usd_amounts api cache [] = Inr ([], cache)"
| "usd_amounts api cache (r # rows) =
     bind_result (ref_get_rates api cache (take 10 (tr_time r))) (\<lambda>(rates, cache).
       bind_result (usd_amounts api cache rows) (\<lambda>(xs, cache).
         Inr (tr_paid r * dict_get rates (tr_currency r) 1 # xs, cache)))"

definition gen_uc5_results ::
    "pandas \<Rightarrow> (string \<Rightarrow> day_rates result) \<Rightarrow> (string, day_rates) dict \<Rightarrow> trans_row list \<Rightarrow> (nat \<times> (string, day_rates) dict) result" where
  "gen_uc5_results pd api cache df =
     bind_result (usd_amounts api cache (pd_where pd wire_ach_row (pd_where pd period_uc5_row df))) (\<lambda>(xs, cache).
       Inr (pd_rows_below pd 1 xs, cache))"

section \<open>Streaming mode\<close>

text \<open>
  \<open>_CsvSink\<close>: the first write replaces the file and writes the header, the index continues.
  \<open>to_csv header rows\<close> is the text pandas writes for rows with their index labels.
\<close>

record csv_sink =
  cs_offset :: nat
  cs_first :: bool
  cs_text :: string

definition new_sink :: "string \<Rightarrow> csv_sink" where
  "new_sink old = \<lparr>cs_offset = 0, cs_first = True, cs_text = old\<rparr>"

definition sink_write :: "(bool \<Rightarrow> (nat \<times> 'r) list \<Rightarrow> string) \<Rightarrow> csv_sink \<Rightarrow> 'r list \<Rightarrow> csv_sink" where
  "sink_write to_csv s df =
     (if length df = 0 then s
      else \<lparr>cs_offset = cs_offset s + length df, cs_first = False,
            cs_text = (if cs_first s then [] else cs_text s) @ to_csv (cs_first s) (enumerate (cs_offset s) df)\<rparr>)"

definition sink_close :: "(bool \<Rightarrow> (nat \<times> 'r) list \<Rightarrow> string) \<Rightarrow> csv_sink \<Rightarrow> nat \<times> string" where
  "sink_close to_csv s = (cs_offset s, if cs_first s then to_csv True [] else cs_text s)"

definition csv_ok :: "(bool \<Rightarrow> (nat \<times> 'r) list \<Rightarrow> string) \<Rightarrow> bool" where
  "csv_ok to_csv \<longleftrightarrow> (\<exists>hdr line. \<forall>h rows. to_csv h rows = (if h then hdr else []) @ concat (map line rows))"

definition uc1_streaming :: "pandas \<Rightarrow> (bool \<Rightarrow> (nat \<times> uc1_row) list \<Rightarrow> string) \<Rightarrow> string \<Rightarrow> trans_row list list \<Rightarrow> nat \<times> string" where
  "uc1_streaming pd to_csv old chunks =
     sink_close to_csv
       (foldl (\<lambda>s chunk. sink_write to_csv s (map uc1_cols (pd_where pd (\<lambda>r. usd_row r \<and> tr_paid r < 50) chunk)))
         (new_sink old) chunks)"

definition uc2_candidate :: "(int, string \<times> amount) dict \<Rightarrow> trans_row \<Rightarrow> (int, string \<times> amount) dict" where
  "uc2_candidate best r =
     (if (case dict_lookup best (tr_from_bank r) of None \<Rightarrow> True | Some (_, x) \<Rightarrow> x < tr_paid r)
      then dict_set (tr_from_bank r) (tr_from_account r, tr_paid r) best else best)"

definition uc2_chunk :: "pandas \<Rightarrow> (int, string \<times> amount) dict \<Rightarrow> trans_row list \<Rightarrow> (int, string \<times> amount) dict" where
  "uc2_chunk pd best chunk =
     (let usd = pd_where pd usd_row chunk
      in if length usd = 0 then best else foldl uc2_candidate best (pd_idxmax pd usd))"

definition uc2_streaming :: "pandas \<Rightarrow> (int \<times> string) list \<Rightarrow> trans_row list list \<Rightarrow> (int \<times> string \<times> string \<times> amount) list" where
  "uc2_streaming pd bank_names chunks =
     (let best = foldl (uc2_chunk pd) [] chunks
      in if best = [] then [] else pd_merge_names pd (map (\<lambda>(b, acc, x). (b, acc, x)) best) bank_names)"

text \<open>The two passes of UC3: sums and numbers per format, then the rows below a hundredth of the average.\<close>

definition uc3_pass1_group :: "(string, amount) dict \<times> (string, nat) dict \<Rightarrow> string \<times> trans_row list \<Rightarrow> (string, amount) dict \<times> (string, nat) dict" where
  "uc3_pass1_group tc g =
     (case (tc, g) of ((tot, cnt), (k, grp)) \<Rightarrow>
        (dict_set k (dict_get tot k 0 + sum_list (map tr_paid grp)) tot, dict_set k (dict_get cnt k 0 + length grp) cnt))"

definition uc3_pass1_chunk :: "pandas \<Rightarrow> (string, amount) dict \<times> (string, nat) dict \<Rightarrow> trans_row list \<Rightarrow> (string, amount) dict \<times> (string, nat) dict" where
  "uc3_pass1_chunk pd tc chunk =
     (let period_a = pd_where pd period_a_row (pd_where pd usd_row chunk)
      in if length period_a = 0 then tc else foldl uc3_pass1_group tc (pd_formats pd period_a))"

definition uc3_pass1 :: "pandas \<Rightarrow> trans_row list list \<Rightarrow> (string, amount) dict" where
  "uc3_pass1 pd chunks =
     (case foldl (uc3_pass1_chunk pd) ([], []) chunks of
        (tot, cnt) \<Rightarrow> map (\<lambda>(f, x). (f, x / of_nat (dict_get cnt f 0))) tot)"

definition uc3_pass2_rows :: "pandas \<Rightarrow> (string, amount) dict \<Rightarrow> trans_row list \<Rightarrow> uc3_row list" where
  "uc3_pass2_rows pd avgs chunk =
     (let period_b = pd_where pd period_b_row (pd_where pd usd_row chunk)
      in if length period_b = 0 then []
         else map uc3_cols (pd_where pd (\<lambda>r. case dict_lookup avgs (tr_format r) of None \<Rightarrow> False | Some avg \<Rightarrow> tr_paid r < avg * (1 / 100)) period_b))"

definition uc3_pass2 :: "pandas \<Rightarrow> (bool \<Rightarrow> (nat \<times> uc3_row) list \<Rightarrow> string) \<Rightarrow> string \<Rightarrow> (string, amount) dict \<Rightarrow> trans_row list list \<Rightarrow> nat \<times> string" where
  "uc3_pass2 pd to_csv old avgs chunks =
     sink_close to_csv (foldl (\<lambda>s chunk. sink_write to_csv s (uc3_pass2_rows pd avgs chunk)) (new_sink old) chunks)"

fun uc5_streaming ::
    "pandas \<Rightarrow> (string \<Rightarrow> day_rates result) \<Rightarrow> nat \<Rightarrow> (string, day_rates) dict \<Rightarrow> trans_row list list \<Rightarrow> (nat \<times> (string, day_rates) dict) result" where
  "uc5_streaming pd api n cache [] = Inr (n, cache)"
| "uc5_streaming pd api n cache (chunk # chunks) =
     (let wire_ach = pd_where pd wire_ach_row (pd_where pd period_uc5_row chunk)
      in if length wire_ach = 0 then uc5_streaming pd api n cache chunks
         else bind_result (usd_amounts api cache wire_ach) (\<lambda>(xs, cache).
                uc5_streaming pd api (n + pd_rows_below pd 1 xs) cache chunks))"

section \<open>The sink writes the whole frame\<close>

lemma sink_writes:
  assumes "\<forall>h rows. to_csv h rows = (if h then hdr else []) @ concat (map line rows)"
  shows "foldl (sink_write to_csv) s chunks =
    (if concat chunks = [] then s
     else \<lparr>cs_offset = cs_offset s + length (concat chunks), cs_first = False,
           cs_text = (if cs_first s then [] else cs_text s) @ to_csv (cs_first s) (enumerate (cs_offset s) (concat chunks))\<rparr>)"
proof (induction chunks arbitrary: s)
  case (Cons df chunks)
  have e: "enumerate n (xs @ ys) = enumerate n xs @ enumerate (n + length xs) ys" for n :: nat and xs ys :: "'a list"
    by (rule enumerate_append_eq)
  show ?case
  proof (cases "df = []")
    case True
    then have "sink_write to_csv s df = s" by (simp add: sink_write_def)
    then show ?thesis using Cons [of s] True by simp
  next
    case False
    then have w: "sink_write to_csv s df = \<lparr>cs_offset = cs_offset s + length df, cs_first = False,
        cs_text = (if cs_first s then [] else cs_text s) @ to_csv (cs_first s) (enumerate (cs_offset s) df)\<rparr>"
      by (simp add: sink_write_def)
    show ?thesis
      unfolding foldl_Cons w Cons by (cases "concat chunks = []") (use False in \<open>simp_all add: e assms del: concat_eq_Nil_conv\<close>)
  qed
qed simp

lemma sink_whole:
  assumes "csv_ok to_csv"
  shows "sink_close to_csv (foldl (sink_write to_csv) (new_sink old) chunks) =
    (length (concat chunks), to_csv True (enumerate 0 (concat chunks)))"
proof -
  from assms obtain hdr line where c: "\<forall>h rows. to_csv h rows = (if h then hdr else []) @ concat (map line rows)"
    by (auto simp: csv_ok_def)
  show ?thesis
    unfolding sink_writes [OF c] sink_close_def new_sink_def by (cases "concat chunks = []") (simp_all del: concat_eq_Nil_conv)
qed

lemma fold_sink_map: "foldl (\<lambda>s chunk. sink_write to_csv s (f chunk)) s chunks = foldl (sink_write to_csv) s (map f chunks)"
  by (induction chunks arbitrary: s) simp_all

lemma where_filter: "pandas_ok pd \<Longrightarrow> pd_where pd P rows = filter P rows"
  by (simp only: pandas_ok_def where_law_def)

lemma rows_below: "pandas_ok pd \<Longrightarrow> pd_rows_below pd b xs = length (filter (\<lambda>x. x < b) xs)"
  by (simp only: pandas_ok_def where_law_def)

lemma uc1_modes:
  assumes "pandas_ok pd" "csv_ok to_csv"
  shows "uc1_streaming pd to_csv old chunks =
    (length (gen_uc1_results pd (concat chunks)), to_csv True (enumerate 0 (gen_uc1_results pd (concat chunks))))"
proof -
  have "gen_uc1_results pd (concat chunks) =
      concat (map (\<lambda>chunk. map uc1_cols (pd_where pd (\<lambda>r. usd_row r \<and> tr_paid r < 50) chunk)) chunks)"
    unfolding gen_uc1_results_def where_filter [OF assms(1)] filter_filter filter_concat map_concat by (simp only: map_map comp_def filter_filter)
  then show ?thesis unfolding uc1_streaming_def by (subst fold_sink_map) (simp only: sink_whole [OF assms(2)])
qed

section \<open>The maxima\<close>

definition better :: "(string \<times> amount) option \<Rightarrow> trans_row \<Rightarrow> (string \<times> amount) option" where
  "better v r = (if (case v of None \<Rightarrow> True | Some (_, x) \<Rightarrow> x < tr_paid r) then Some (tr_from_account r, tr_paid r) else v)"

lemma lookup_candidate:
  "map_of (uc2_candidate best r) b = (if b = tr_from_bank r then better (map_of best b) r else map_of best b)"
  by (auto simp: uc2_candidate_def better_def update_conv')

lemma lookup_candidates_lt:
  "\<forall>x\<in>set us. tr_from_bank x = tr_from_bank r \<longrightarrow> tr_paid x < tr_paid r \<Longrightarrow>
   better (map_of (foldl uc2_candidate best us) (tr_from_bank r)) r = better (map_of best (tr_from_bank r)) r"
proof (induction us arbitrary: best)
  case (Cons u us)
  then have "better (map_of (uc2_candidate best u) (tr_from_bank r)) r = better (map_of best (tr_from_bank r)) r"
    unfolding lookup_candidate by (auto simp: better_def split: option.splits)
  with Cons show ?case by simp
qed simp

lemma lookup_candidates_le:
  "\<forall>x\<in>set vs. tr_from_bank x = b \<longrightarrow> tr_paid x \<le> y \<Longrightarrow> map_of best b = Some (acc, x) \<Longrightarrow> y \<le> x \<Longrightarrow>
   map_of (foldl uc2_candidate best vs) b = Some (acc, x)"
proof (induction vs arbitrary: best)
  case (Cons v vs)
  then have "map_of (uc2_candidate best v) b = Some (acc, x)"
    unfolding lookup_candidate by (auto simp: better_def)
  with Cons show ?case by simp
qed simp

lemma lookup_first_max:
  assumes "first_max rows r"
  shows "map_of (foldl uc2_candidate best rows) (tr_from_bank r) = better (map_of best (tr_from_bank r)) r"
proof -
  from assms obtain us vs where r: "rows = us @ r # vs" "\<forall>x\<in>set us. tr_from_bank x = tr_from_bank r \<longrightarrow> tr_paid x < tr_paid r"
    "\<forall>x\<in>set vs. tr_from_bank x = tr_from_bank r \<longrightarrow> tr_paid x \<le> tr_paid r" unfolding first_max_def by blast
  let ?b = "uc2_candidate (foldl uc2_candidate best us) r"
  have "map_of ?b (tr_from_bank r) = better (map_of best (tr_from_bank r)) r"
    unfolding lookup_candidate by (simp add: lookup_candidates_lt [OF r(2)])
  moreover obtain acc x where v: "better (map_of best (tr_from_bank r)) r = Some (acc, x)" "tr_paid r \<le> x"
    by (cases "better (map_of best (tr_from_bank r)) r") (auto simp: better_def split: if_splits option.splits)
  ultimately show ?thesis using lookup_candidates_le [OF r(3), of ?b acc x] by (simp add: r(1))
qed

lemma lookup_no_bank: "b \<notin> tr_from_bank ` set rows \<Longrightarrow> map_of (foldl uc2_candidate best rows) b = map_of best b"
  by (induction rows arbitrary: best) (auto simp: lookup_candidate)

lemma idxmax_facts:
  assumes "pandas_ok pd"
  shows "distinct (map tr_from_bank (pd_idxmax pd rows))" "tr_from_bank ` set (pd_idxmax pd rows) = tr_from_bank ` set rows"
    "r \<in> set (pd_idxmax pd rows) \<Longrightarrow> first_max rows r" "r \<in> set (pd_idxmax pd rows) \<Longrightarrow> first_max (pd_idxmax pd rows) r"
proof -
  have I: "idxmax_law pd" using assms by (simp only: pandas_ok_def)
  note J = spec [OF I [unfolded idxmax_law_def], of rows]
  show d: "distinct (map tr_from_bank (pd_idxmax pd rows))" by (rule conjunct1 [OF J])
  show "tr_from_bank ` set (pd_idxmax pd rows) = tr_from_bank ` set rows" by (rule conjunct1 [OF conjunct2 [OF J]])
  show "r \<in> set (pd_idxmax pd rows) \<Longrightarrow> first_max rows r" by (rule bspec [OF conjunct2 [OF conjunct2 [OF J]]])
  show "first_max (pd_idxmax pd rows) r" if "r \<in> set (pd_idxmax pd rows)"
  proof -
    from split_list [OF that] obtain us vs where e: "pd_idxmax pd rows = us @ r # vs" by blast
    have "tr_from_bank x \<noteq> tr_from_bank r" if "x \<in> set us \<or> x \<in> set vs" for x
      using d that imageI [of x _ tr_from_bank] unfolding e by fastforce
    then show ?thesis unfolding first_max_def using e by blast
  qed
qed

text \<open>The candidates of a chunk do what all its rows would do.\<close>

lemma lookup_chunk:
  assumes "pandas_ok pd"
  shows "map_of (uc2_chunk pd best chunk) b = map_of (foldl uc2_candidate best (filter usd_row chunk)) b"
proof (cases "b \<in> tr_from_bank ` set (filter usd_row chunk)")
  case True
  note I = idxmax_facts [OF assms, where rows = "filter usd_row chunk"]
  from True obtain r where r: "r \<in> set (pd_idxmax pd (filter usd_row chunk))" "b = tr_from_bank r"
    using I(2) by (metis (no_types, lifting) imageE)
  have "filter usd_row chunk \<noteq> []" using True by (metis empty_iff empty_set image_empty)
  then show ?thesis
    using lookup_first_max [OF I(3) [OF r(1)], of best] lookup_first_max [OF I(4) [OF r(1)], of best]
    by (simp add: uc2_chunk_def where_filter [OF assms] r(2))
next
  case False
  then show ?thesis
    using lookup_no_bank [of b "filter usd_row chunk" best] lookup_no_bank [of b "pd_idxmax pd (filter usd_row chunk)" best]
      idxmax_facts(2) [OF assms, where rows = "filter usd_row chunk"]
    by (simp add: uc2_chunk_def where_filter [OF assms] Let_def)
qed

lemma lookup_chunks:
  assumes "pandas_ok pd"
  shows "map_of best = map_of best' \<Longrightarrow>
    map_of (foldl (uc2_chunk pd) best chunks) = map_of (foldl uc2_candidate best' (filter usd_row (concat chunks)))"
proof (induction chunks arbitrary: best best')
  case (Cons c chunks)
  have cong: "map_of d = map_of d' \<Longrightarrow> map_of (foldl uc2_candidate d rows) = map_of (foldl uc2_candidate d' rows)" for d d' rows
    by (induction rows arbitrary: d d') (auto simp: fun_eq_iff lookup_candidate)
  have "map_of (uc2_chunk pd best c) = map_of (foldl uc2_candidate best' (filter usd_row c))"
    using cong [OF Cons.prems] lookup_chunk [OF assms] by (simp add: fun_eq_iff)
  from Cons.IH [OF this] show ?case by simp
qed simp

lemma wf_candidates: "wf_dict best \<Longrightarrow> wf_dict (foldl uc2_candidate best rows)"
  by (induction rows arbitrary: best) (simp_all add: uc2_candidate_def)

lemma wf_chunks: "wf_dict best \<Longrightarrow> wf_dict (foldl (uc2_chunk pd) best chunks)"
  by (induction chunks arbitrary: best) (simp_all add: uc2_chunk_def wf_candidates Let_def)

lemma best_rows:
  assumes "pandas_ok pd"
  shows "map_of (foldl uc2_candidate [] rows) b = Some (acc, x) \<longleftrightarrow> (\<exists>r\<in>set (pd_idxmax pd rows). (b, acc, x) = uc2_cols r)"
proof (cases "b \<in> tr_from_bank ` set rows")
  case True
  note I = idxmax_facts [OF assms, where rows = rows]
  have "b \<in> tr_from_bank ` set (pd_idxmax pd rows)" using True unfolding I(2) .
  then obtain r where r: "r \<in> set (pd_idxmax pd rows)" "b = tr_from_bank r" by auto
  have "r' = r" if "r' \<in> set (pd_idxmax pd rows)" "tr_from_bank r' = b" for r'
    using I(1) r that by (metis distinct_map inj_onD)
  then have "(\<exists>r'\<in>set (pd_idxmax pd rows). (b, acc, x) = uc2_cols r') \<longleftrightarrow> (b, acc, x) = uc2_cols r"
    using r(1) unfolding uc2_cols_def by (metis prod.inject)
  moreover have "map_of (foldl uc2_candidate [] rows) b = Some (tr_from_account r, tr_paid r)"
    using lookup_first_max [OF I(3) [OF r(1)], of "[]"] unfolding r(2) by (simp add: better_def)
  ultimately show ?thesis by (auto simp: uc2_cols_def r(2))
next
  case False
  then have "b \<notin> tr_from_bank ` set (pd_idxmax pd rows)" unfolding idxmax_facts(2) [OF assms, where rows = rows] .
  then show ?thesis using False lookup_no_bank [of b rows "[]"] by (auto simp: uc2_cols_def)
qed

lemma merge_names_set:
  "pandas_ok pd \<Longrightarrow> set (pd_merge_names pd l names) = {(b, acc, nm, x). (b, acc, x) \<in> set l \<and> (b, nm) \<in> set names}"
  by (simp only: pandas_ok_def merge_law_def)

lemma merge_names_cong:
  "pandas_ok pd \<Longrightarrow> set l = set l' \<Longrightarrow> set (pd_merge_names pd l names) = set (pd_merge_names pd l' names)"
  by (simp only: merge_names_set)

lemma merge_names_Nil: "pandas_ok pd \<Longrightarrow> pd_merge_names pd [] names = []"
  unfolding set_empty [symmetric] merge_names_set by auto

lemma best_chunks:
  assumes "pandas_ok pd"
  shows "set (foldl (uc2_chunk pd) [] chunks) = uc2_cols ` set (pd_idxmax pd (filter usd_row (concat chunks)))"
proof -
  let ?best = "foldl (uc2_chunk pd) [] chunks"
  have wf: "distinct (map fst ?best)" using wf_chunks [of "[]" pd chunks] by (simp add: wf_dict_def)
  have "e \<in> set ?best \<longleftrightarrow> e \<in> uc2_cols ` set (pd_idxmax pd (filter usd_row (concat chunks)))" for e
  proof -
    obtain b acc x where e: "e = (b, acc, x)" by (cases e)
    have "e \<in> set ?best \<longleftrightarrow> map_of ?best b = Some (acc, x)" unfolding e by (rule map_of_eq_Some_iff [OF wf, symmetric])
    also have "map_of ?best = map_of (foldl uc2_candidate [] (filter usd_row (concat chunks)))" by (rule lookup_chunks [OF assms refl])
    also have "map_of (foldl uc2_candidate [] (filter usd_row (concat chunks))) b = Some (acc, x) \<longleftrightarrow>
        (\<exists>r\<in>set (pd_idxmax pd (filter usd_row (concat chunks))). (b, acc, x) = uc2_cols r)" by (rule best_rows [OF assms])
    finally show ?thesis unfolding e image_iff .
  qed
  then show ?thesis by (rule set_eqI)
qed

lemma uc2_modes:
  assumes "pandas_ok pd"
  shows "set (uc2_streaming pd names chunks) = set (gen_uc2_results pd names (concat chunks))"
proof -
  let ?best = "foldl (uc2_chunk pd) [] chunks"
  have id: "map (\<lambda>(b, acc, x). (b, acc, x)) l = l" for l :: "(int \<times> string \<times> amount) list" by (rule map_idI) auto
  have "uc2_streaming pd names chunks = pd_merge_names pd ?best names"
    unfolding uc2_streaming_def Let_def id by (cases "?best = []") (simp_all only: merge_names_Nil [OF assms] if_True if_False refl)
  moreover have "set (pd_merge_names pd ?best names) = set (gen_uc2_results pd names (concat chunks))"
    unfolding gen_uc2_results_def where_filter [OF assms]
    by (rule merge_names_cong [OF assms]) (simp only: list.set_map best_chunks [OF assms])
  ultimately show ?thesis by simp
qed

section \<open>The averages\<close>

lemma of_format_simps [simp]:
  "of_format f [] = []" "of_format f (xs @ ys) = of_format f xs @ of_format f ys"
  by (simp_all add: of_format_def)

lemma of_format_Nil: "of_format f rows = [] \<longleftrightarrow> f \<notin> tr_format ` set rows"
  by (auto simp: of_format_def filter_empty_conv image_iff)

text \<open>The totals of a list of rows: a key for every format seen.\<close>

definition totals_of :: "trans_row list \<Rightarrow> (string, amount) dict \<times> (string, nat) dict \<Rightarrow> bool" where
  "totals_of rows tc \<longleftrightarrow> wf_dict (fst tc) \<and>
     (\<forall>f. map_of (fst tc) f = (if f \<in> tr_format ` set rows then Some (sum_list (map tr_paid (of_format f rows))) else None) \<and>
          map_of (snd tc) f = (if f \<in> tr_format ` set rows then Some (length (of_format f rows)) else None))"

lemma pass1_groups:
  assumes "distinct (map fst gs)" "wf_dict (fst tc)"
  shows "wf_dict (fst (foldl uc3_pass1_group tc gs))"
    and "map_of (fst (foldl uc3_pass1_group tc gs)) f =
      (case map_of gs f of None \<Rightarrow> map_of (fst tc) f | Some grp \<Rightarrow> Some (dict_get (fst tc) f 0 + sum_list (map tr_paid grp)))"
    and "map_of (snd (foldl uc3_pass1_group tc gs)) f =
      (case map_of gs f of None \<Rightarrow> map_of (snd tc) f | Some grp \<Rightarrow> Some (dict_get (snd tc) f 0 + length grp))"
proof -
  have "wf_dict (fst (foldl uc3_pass1_group tc gs)) \<and>
    map_of (fst (foldl uc3_pass1_group tc gs)) f =
      (case map_of gs f of None \<Rightarrow> map_of (fst tc) f | Some grp \<Rightarrow> Some (dict_get (fst tc) f 0 + sum_list (map tr_paid grp))) \<and>
    map_of (snd (foldl uc3_pass1_group tc gs)) f =
      (case map_of gs f of None \<Rightarrow> map_of (snd tc) f | Some grp \<Rightarrow> Some (dict_get (snd tc) f 0 + length grp))"
    using assms
  proof (induction gs arbitrary: tc)
    case (Cons g gs)
    obtain k grp where g: "g = (k, grp)" by (cases g)
    obtain tot cnt where tc: "tc = (tot, cnt)" by (cases tc)
    have s: "uc3_pass1_group tc g = (dict_set k (dict_get tot k 0 + sum_list (map tr_paid grp)) tot, dict_set k (dict_get cnt k 0 + length grp) cnt)"
      by (simp add: uc3_pass1_group_def g tc)
    have "k \<notin> fst ` set gs" "distinct (map fst gs)" using Cons.prems(1) by (simp_all add: g)
    then have k: "map_of gs k = None" by (simp add: map_of_eq_None_iff)
    show ?case
      unfolding foldl_Cons using Cons.IH [of "uc3_pass1_group tc g"] Cons.prems k
      by (cases "f = k") (simp_all add: s [unfolded g tc] g tc update_conv' split: option.splits)
  qed simp
  then show "wf_dict (fst (foldl uc3_pass1_group tc gs))"
    "map_of (fst (foldl uc3_pass1_group tc gs)) f =
      (case map_of gs f of None \<Rightarrow> map_of (fst tc) f | Some grp \<Rightarrow> Some (dict_get (fst tc) f 0 + sum_list (map tr_paid grp)))"
    "map_of (snd (foldl uc3_pass1_group tc gs)) f =
      (case map_of gs f of None \<Rightarrow> map_of (snd tc) f | Some grp \<Rightarrow> Some (dict_get (snd tc) f 0 + length grp))" by blast+
qed

lemma formats_facts:
  assumes "pandas_ok pd"
  shows "distinct (map fst (pd_formats pd rows))"
    and "map_of (pd_formats pd rows) f = (if f \<in> tr_format ` set rows then Some (of_format f rows) else None)"
    and "map_of (pd_means pd rows) f = (if f \<in> tr_format ` set rows then Some (mean (of_format f rows)) else None)"
    and "distinct (map fst (pd_means pd rows))"
proof -
  have "groups_law pd" using assms by (simp only: pandas_ok_def)
  note g = spec [OF this [unfolded groups_law_def], of rows]
  note d = conjunct1 [OF g] conjunct1 [OF conjunct2 [OF g]] conjunct1 [OF conjunct2 [OF conjunct2 [OF g]]] conjunct2 [OF conjunct2 [OF conjunct2 [OF g]]]
  show "distinct (map fst (pd_formats pd rows))" "distinct (map fst (pd_means pd rows))" by (rule d)+
  have look: "map_of kvs f = (if f \<in> A then Some (v f) else None)"
    if "distinct (map fst kvs)" "set kvs = (\<lambda>f. (f, v f)) ` A" for kvs and v :: "string \<Rightarrow> 'v" and A
  proof (cases "f \<in> A")
    case True
    then have "(f, v f) \<in> set kvs" using that(2) by blast
    then show ?thesis using that(1) True by simp
  next
    case False
    then have "f \<notin> fst ` set kvs" unfolding that(2) by auto
    then show ?thesis using False by (simp add: map_of_eq_None_iff)
  qed
  show "map_of (pd_formats pd rows) f = (if f \<in> tr_format ` set rows then Some (of_format f rows) else None)"
    by (rule look [OF d(3,4)])
  show "map_of (pd_means pd rows) f = (if f \<in> tr_format ` set rows then Some (mean (of_format f rows)) else None)"
    by (rule look [OF d(1,2)])
qed

definition period_a_rows :: "trans_row list \<Rightarrow> trans_row list" where
  "period_a_rows rows = filter period_a_row (filter usd_row rows)"

lemma pass1_chunk:
  assumes "pandas_ok pd" "totals_of (period_a_rows rows) tc"
  shows "totals_of (period_a_rows (rows @ chunk)) (uc3_pass1_chunk pd tc chunk)"
proof -
  let ?p = "period_a_rows chunk" and ?r = "period_a_rows rows"
  have c: "uc3_pass1_chunk pd tc chunk = (if ?p = [] then tc else foldl uc3_pass1_group tc (pd_formats pd ?p))"
    by (simp add: uc3_pass1_chunk_def where_filter [OF assms(1)] period_a_rows_def Let_def)
  have a: "period_a_rows (rows @ chunk) = ?r @ ?p" by (simp add: period_a_rows_def)
  show ?thesis
  proof (cases "?p = []")
    case True
    then show ?thesis using assms(2) unfolding c a by simp
  next
    case False
    have wf: "wf_dict (fst tc)" using assms(2) by (simp add: totals_of_def)
    note G = pass1_groups [OF formats_facts(1) [OF assms(1), of ?p] wf] and F = formats_facts(2) [OF assms(1), of ?p]
    have t: "map_of (fst tc) f = (if f \<in> tr_format ` set ?r then Some (sum_list (map tr_paid (of_format f ?r))) else None)"
      "map_of (snd tc) f = (if f \<in> tr_format ` set ?r then Some (length (of_format f ?r)) else None)" for f
      using assms(2) unfolding totals_of_def by blast+
    have z: "f \<notin> tr_format ` set rs \<Longrightarrow> of_format f rs = []" for f rs by (simp add: of_format_Nil)
    show ?thesis unfolding totals_of_def c a if_not_P [OF False]
    proof (intro conjI allI G(1))
      fix f
      show "map_of (fst (foldl uc3_pass1_group tc (pd_formats pd ?p))) f =
          (if f \<in> tr_format ` set (?r @ ?p) then Some (sum_list (map tr_paid (of_format f (?r @ ?p)))) else None)"
        unfolding G(2) F t(1) dict_get_def using z [of f ?r] z [of f ?p] by (auto simp del: of_format_Nil)
      show "map_of (snd (foldl uc3_pass1_group tc (pd_formats pd ?p))) f =
          (if f \<in> tr_format ` set (?r @ ?p) then Some (length (of_format f (?r @ ?p))) else None)"
        unfolding G(3) F t(2) dict_get_def using z [of f ?r] z [of f ?p] by (auto simp del: of_format_Nil)
    qed
  qed
qed

lemma pass1_chunks:
  assumes "pandas_ok pd"
  shows "totals_of (period_a_rows rows) tc \<Longrightarrow> totals_of (period_a_rows (rows @ concat chunks)) (foldl (uc3_pass1_chunk pd) tc chunks)"
proof (induction chunks arbitrary: rows tc)
  case (Cons c chunks)
  from Cons.IH [OF pass1_chunk [OF assms Cons.prems]] show ?case by simp
qed simp

lemma pass1_averages:
  assumes "pandas_ok pd"
  shows "map_of (uc3_pass1 pd chunks) f =
    (if f \<in> tr_format ` set (period_a_rows (concat chunks)) then Some (mean (of_format f (period_a_rows (concat chunks)))) else None)"
proof -
  let ?r = "period_a_rows (concat chunks)"
  obtain tot cnt where tc: "foldl (uc3_pass1_chunk pd) ([], []) chunks = (tot, cnt)" by (cases "foldl (uc3_pass1_chunk pd) ([], []) chunks")
  have "totals_of (period_a_rows []) ([], [])" by (simp add: totals_of_def period_a_rows_def)
  from pass1_chunks [OF assms this, of chunks] have t: "totals_of ?r (tot, cnt)" by (simp add: tc)
  have "map_of (uc3_pass1 pd chunks) f = map_option (\<lambda>x. x / of_nat (dict_get cnt f 0)) (map_of tot f)"
    unfolding uc3_pass1_def tc by (induction tot) auto
  then show ?thesis using t by (simp add: totals_of_def dict_get_def mean_def)
qed

lemma merge_means_eq:
  "pandas_ok pd \<Longrightarrow> pd_merge_means pd l ms = concat (map (\<lambda>r. map (\<lambda>(f, m). (r, m)) (filter (\<lambda>(f, m). f = tr_format r) ms)) l)"
  by (simp only: pandas_ok_def merge_law_def)

lemma filter_key: "distinct (map fst kvs) \<Longrightarrow> filter (\<lambda>(f, m). f = k) kvs = (case map_of kvs k of None \<Rightarrow> [] | Some m \<Rightarrow> [(k, m)])"
proof (induction kvs)
  case (Cons x kvs)
  obtain j v where x: "x = (j, v)" by (cases x)
  have "map_of kvs j = None" using Cons.prems by (simp add: x map_of_eq_None_iff)
  with Cons show ?case by (auto simp: x)
qed simp

definition below_average :: "(string, amount) dict \<Rightarrow> trans_row \<Rightarrow> bool" where
  "below_average avgs r \<longleftrightarrow> (case map_of avgs (tr_format r) of None \<Rightarrow> False | Some avg \<Rightarrow> tr_paid r < avg * (1 / 100))"

lemma merged_below_average:
  assumes "pandas_ok pd"
  shows "map (\<lambda>(r, avg). uc3_cols r) (filter (\<lambda>(r, avg). tr_paid r < avg * (1 / 100)) (pd_merge_means pd rows (pd_means pd arows))) =
    map uc3_cols (filter (below_average (pd_means pd arows)) rows)"
proof -
  have "map (\<lambda>(r, avg). uc3_cols r) (filter (\<lambda>(r, avg). tr_paid r < avg * (1 / 100))
      (map (\<lambda>(f, m). (r, m)) (filter (\<lambda>(f, m). f = tr_format r) (pd_means pd arows)))) =
    (if below_average (pd_means pd arows) r then [uc3_cols r] else [])" for r
    using formats_facts(4) [OF assms, of arows] by (simp add: below_average_def filter_key split: option.splits)
  then show ?thesis unfolding merge_means_eq [OF assms] by (induction rows) simp_all
qed

lemma gen_uc3_rows:
  assumes "pandas_ok pd"
  shows "gen_uc3_results pd df =
    map uc3_cols (filter (below_average (pd_means pd (period_a_rows df))) (filter period_b_row (filter usd_row df)))"
  using merged_below_average [OF assms]
  by (simp add: gen_uc3_results_def where_filter [OF assms] period_a_rows_def Let_def del: filter_filter)

lemma uc3_rows_modes:
  assumes "pandas_ok pd"
  shows "concat (map (uc3_pass2_rows pd (uc3_pass1 pd chunks)) chunks) = gen_uc3_results pd (concat chunks)"
proof -
  let ?avgs = "pd_means pd (period_a_rows (concat chunks))"
  have look: "map_of (uc3_pass1 pd chunks) = map_of ?avgs"
    by (rule ext) (simp only: pass1_averages [OF assms] formats_facts(3) [OF assms])
  have "uc3_pass2_rows pd (uc3_pass1 pd chunks) = (\<lambda>c. map uc3_cols (filter (below_average ?avgs) (filter period_b_row (filter usd_row c))))"
    by (rule ext) (simp add: uc3_pass2_rows_def where_filter [OF assms] look below_average_def [abs_def] Let_def del: filter_filter)
  then show ?thesis unfolding gen_uc3_rows [OF assms] by (simp add: filter_concat map_concat comp_def del: filter_filter)
qed

section \<open>The conversions\<close>

lemma usd_amounts_append:
  "usd_amounts api cache (xs @ ys) =
     bind_result (usd_amounts api cache xs) (\<lambda>(us, cache). bind_result (usd_amounts api cache ys) (\<lambda>(vs, cache). Inr (us @ vs, cache)))"
proof (induction xs arbitrary: cache)
  case Nil
  then show ?case by (cases "usd_amounts api cache ys") auto
next
  case (Cons r xs)
  show ?case
  proof (cases "ref_get_rates api cache (take 10 (tr_time r))")
    case (Inr v)
    obtain rates cache1 where v: "v = (rates, cache1)" by (cases v)
    show ?thesis
    proof (cases "usd_amounts api cache1 xs")
      case inr: (Inr w)
      obtain us cache2 where "w = (us, cache2)" by (cases w)
      then show ?thesis using Inr inr Cons [of cache1] by (cases "usd_amounts api cache2 ys") (auto simp: v)
    qed (use Inr Cons [of cache1] in \<open>simp add: v\<close>)
  qed simp
qed

lemma uc5_modes:
  assumes "pandas_ok pd"
  shows "uc5_streaming pd api n cache chunks =
    bind_result (gen_uc5_results pd api cache (concat chunks)) (\<lambda>(m, cache). Inr (n + m, cache))"
proof (induction chunks arbitrary: n cache)
  case Nil
  then show ?case by (simp add: gen_uc5_results_def where_filter [OF assms] rows_below [OF assms])
next
  case (Cons chunk chunks)
  let ?f = "\<lambda>rows. filter wire_ach_row (filter period_uc5_row rows)"
  have gen: "gen_uc5_results pd api c rows = bind_result (usd_amounts api c (?f rows)) (\<lambda>(xs, c). Inr (length (filter (\<lambda>x. x < 1) xs), c))"
    for c rows by (simp only: gen_uc5_results_def where_filter [OF assms] rows_below [OF assms])
  have fa: "?f (concat (chunk # chunks)) = ?f chunk @ ?f (concat chunks)" by simp
  have st: "uc5_streaming pd api n cache (chunk # chunks) =
      (if ?f chunk = [] then uc5_streaming pd api n cache chunks
       else bind_result (usd_amounts api cache (?f chunk)) (\<lambda>(xs, c).
              uc5_streaming pd api (n + length (filter (\<lambda>x. x < 1) xs)) c chunks))"
    by (simp only: uc5_streaming.simps Let_def where_filter [OF assms] rows_below [OF assms] length_0_conv)
  show ?case
  proof (cases "?f chunk = []")
    case True
    then show ?thesis unfolding st if_P [OF True] Cons gen fa True by simp
  next
    case False
    show ?thesis
    proof (cases "usd_amounts api cache (?f chunk)")
      case (Inr v)
      obtain us c where v: "v = (us, c)" by (cases v)
      have "uc5_streaming pd api n cache (chunk # chunks) = uc5_streaming pd api (n + length (filter (\<lambda>x. x < 1) us)) c chunks"
        unfolding st if_not_P [OF False] Inr v by simp
      also have "\<dots> = bind_result (gen_uc5_results pd api cache (concat (chunk # chunks))) (\<lambda>(m, cache). Inr (n + m, cache))"
        unfolding Cons gen fa usd_amounts_append Inr v by (cases "usd_amounts api c (?f (concat chunks))") auto
      finally show ?thesis .
    qed (simp only: st if_not_P [OF False] gen fa usd_amounts_append bind_result_simps)
  qed
qed

end
