(* ===== verification/Reference_UC4.thy ===== *)
theory Reference_UC4
  imports Reference UC4_Pipeline
begin

text \<open>
  The reference answer of UC4 (\<open>gen_uc4_results\<close>, \<open>_uc4_streaming\<close>, \<open>_uc4_pairs_to_accounts\<close>): the
  accounts of the edges numbered in order of appearance, both adjacency maps, the number of
  intermediaries of every pair in an SQLite table filled in batches, and the accounts of the pairs
  with five or more.

  \<open>ref_accounts\<close> shows what it computes, independently of the numbering and of the batches; the
  properties compare it with the answer of the distributed pipeline, and streaming mode with sampled
  mode.
\<close>

section \<open>Numbering the accounts\<close>

type_synonym numbering = "(ref_node, nat) dict \<times> ref_node list"

definition node_id :: "numbering \<Rightarrow> ref_node \<Rightarrow> nat \<times> numbering" where
  "node_id ids key =
     (case ids of (node_to_id, id_to_node) \<Rightarrow>
        let ids = (if dict_in key node_to_id then ids
                   else (dict_set key (length id_to_node) node_to_id, id_to_node @ [key]))
        in (dict_get (fst ids) key 0, ids))"

definition number_edge :: "numbering \<times> (nat \<times> nat) list \<Rightarrow> ref_edge \<Rightarrow> numbering \<times> (nat \<times> nat) list" where
  "number_edge st e =
     (case st of (ids, es) \<Rightarrow>
        (case node_id ids (fst e) of (a, ids) \<Rightarrow> (case node_id ids (snd e) of (b, ids) \<Rightarrow> (ids, es @ [(a, b)]))))"

definition number_edges :: "ref_edge list \<Rightarrow> numbering \<times> (nat \<times> nat) list" where
  "number_edges es = foldl number_edge (([], []), []) es"

section \<open>Adjacency and pairs\<close>

type_synonym adjacency = "(nat, nat list) dict"

text \<open>\<open>succs_of[a].add(b)\<close> on a \<open>defaultdict(set)\<close>; sets are iterated in insertion order here.\<close>

definition adjacent :: "nat \<Rightarrow> nat \<Rightarrow> adjacency \<Rightarrow> adjacency" where
  "adjacent a b d = dict_set a (List.insert b (dict_get d a [])) d"

definition adjacency_maps :: "(nat \<times> nat) list \<Rightarrow> adjacency \<times> adjacency" where
  "adjacency_maps es = foldl (\<lambda>(succs, preds) (a, b). (adjacent a b succs, adjacent b a preds)) ([], []) es"

type_synonym pair_table = "(nat \<times> nat, nat) dict"

text \<open>\<open>INSERT INTO pc VALUES (a, c, 1) ON CONFLICT DO UPDATE SET cnt = cnt + 1\<close>, for every pair of the batch.\<close>

definition flush_pairs :: "pair_table \<Rightarrow> (nat \<times> nat) list \<Rightarrow> pair_table" where
  "flush_pairs tbl batch = foldl (\<lambda>tbl p. dict_set p (dict_get tbl p 0 + 1) tbl) tbl batch"

definition pair_step :: "nat \<Rightarrow> nat list \<Rightarrow> pair_table \<times> (nat \<times> nat) list \<Rightarrow> nat \<Rightarrow> pair_table \<times> (nat \<times> nat) list" where
  "pair_step pair_batch cs st a =
     (case st of (tbl, batch) \<Rightarrow>
        let batch = batch @ map (Pair a) (filter (\<lambda>c. a \<noteq> c) cs)
        in if pair_batch \<le> length batch then (flush_pairs tbl batch, []) else (tbl, batch))"

definition pair_node :: "nat \<Rightarrow> adjacency \<Rightarrow> pair_table \<times> (nat \<times> nat) list \<Rightarrow> nat \<times> nat list \<Rightarrow> pair_table \<times> (nat \<times> nat) list" where
  "pair_node pair_batch preds st bcs =
     (case bcs of (b, cs) \<Rightarrow>
        if dict_in b preds then foldl (pair_step pair_batch cs) st (dict_get preds b []) else st)"

definition uc4_pairs_to_accounts :: "nat \<Rightarrow> adjacency \<Rightarrow> adjacency \<Rightarrow> ref_node list \<Rightarrow> ref_node list" where
  "uc4_pairs_to_accounts pair_batch succs preds id_to_node =
     (case foldl (pair_node pair_batch preds) ([], []) succs of
        (tbl, batch) \<Rightarrow>
          let qualifying = map fst (filter (\<lambda>(p, cnt). 5 \<le> cnt) (flush_pairs tbl batch))
          in foldl (\<lambda>acc (a, c). List.insert (id_to_node ! c) (List.insert (id_to_node ! a) acc)) [] qualifying)"

definition accounts_of_edges :: "nat \<Rightarrow> ref_edge list \<Rightarrow> ref_node list" where
  "accounts_of_edges pair_batch es =
     (case number_edges es of ((_, id_to_node), ies) \<Rightarrow>
        (case adjacency_maps ies of (succs, preds) \<Rightarrow> uc4_pairs_to_accounts pair_batch succs preds id_to_node))"

definition edge_cols :: "trans_row \<Rightarrow> ref_edge" where
  "edge_cols r = ((tr_from_bank r, tr_from_account r), (tr_to_bank r, tr_to_account r))"

definition gen_uc4_results :: "pandas \<Rightarrow> nat \<Rightarrow> trans_row list \<Rightarrow> ref_node list" where
  "gen_uc4_results pd pair_batch df =
     accounts_of_edges pair_batch (pd_unique pd (map edge_cols (pd_where pd period_a_row (pd_where pd usd_row df))))"

definition uc4_streaming :: "pandas \<Rightarrow> nat \<Rightarrow> trans_row list list \<Rightarrow> ref_node list" where
  "uc4_streaming pd pair_batch chunks =
     (let edge_chunks = concat (map (\<lambda>chunk.
            let period = pd_where pd period_a_row (pd_where pd usd_row chunk)
            in if length period = 0 then [] else [map edge_cols period]) chunks)
      in if edge_chunks = [] then [] else accounts_of_edges pair_batch (pd_unique pd (concat edge_chunks)))"

section \<open>What the numbering keeps\<close>

definition numbering_ok :: "numbering \<Rightarrow> bool" where
  "numbering_ok ids \<longleftrightarrow> distinct (snd ids) \<and> wf_dict (fst ids) \<and> (\<forall>k i. map_of (fst ids) k = Some i \<longleftrightarrow> i < length (snd ids) \<and> snd ids ! i = k)"

lemma node_id_ok:
  assumes "numbering_ok ids" "node_id ids key = (i, ids')"
  shows "numbering_ok ids'" "i < length (snd ids')" "snd ids' ! i = key" "\<exists>ys. snd ids' = snd ids @ ys"
proof -
  obtain m l where ids: "ids = (m, l)" by (cases ids)
  have ok: "distinct l" "wf_dict m" "\<And>k i. map_of m k = Some i \<longleftrightarrow> i < length l \<and> l ! i = k"
    using assms(1) unfolding numbering_ok_def ids fst_conv snd_conv by blast+
  have new: "numbering_ok ids' \<and> i < length (snd ids') \<and> snd ids' ! i = key \<and> (\<exists>ys. snd ids' = snd ids @ ys)"
  proof (cases "dict_in key m")
    case True
    then obtain j where "map_of m key = Some j" by (auto simp: dict_in_lookup)
    moreover from this have "i = j" "ids' = ids" using assms(2) True by (auto simp: node_id_def ids dict_get_def)
    ultimately show ?thesis using assms(1) ok(3) [of key j] by (simp add: ids)
  next
    case False
    then have f: "map_of m key = None" by (simp add: dict_in_lookup)
    then have k: "key \<notin> set l" using ok(3) by (metis in_set_conv_nth option.distinct(1))
    have e: "ids' = (dict_set key (length l) m, l @ [key])" "i = length l"
      using assms(2) False by (auto simp: node_id_def ids)
    have "map_of (dict_set key (length l) m) k' = Some j \<longleftrightarrow> j < length (l @ [key]) \<and> (l @ [key]) ! j = k'" for k' j
      using ok(3) [of k' j] k f by (auto simp: update_conv' nth_append less_Suc_eq in_set_conv_nth)
    then show ?thesis using ok(1,2) k by (simp add: e ids numbering_ok_def)
  qed
  then show "numbering_ok ids'" "i < length (snd ids')" "snd ids' ! i = key" "\<exists>ys. snd ids' = snd ids @ ys" by blast+
qed

lemma number_edges_ok:
  assumes "number_edges es = (ids, ies)"
  shows "distinct (snd ids)" "\<forall>(a, b)\<in>set ies. a < length (snd ids) \<and> b < length (snd ids)"
    "map (\<lambda>(a, b). (snd ids ! a, snd ids ! b)) ies = es"
proof -
  have "numbering_ok ids \<and> (\<forall>(a, b)\<in>set ies. a < length (snd ids) \<and> b < length (snd ids)) \<and>
      map (\<lambda>(a, b). (snd ids ! a, snd ids ! b)) ies = es"
    using assms
  proof (induction es arbitrary: ids ies rule: rev_induct)
    case Nil
    then show ?case by (auto simp: number_edges_def numbering_ok_def)
  next
    case (snoc e es)
    obtain ids0 ies0 where 0: "number_edges es = (ids0, ies0)" by (cases "number_edges es")
    obtain a ids1 where 1: "node_id ids0 (fst e) = (a, ids1)" by (cases "node_id ids0 (fst e)")
    obtain b ids2 where 2: "node_id ids1 (snd e) = (b, ids2)" by (cases "node_id ids1 (snd e)")
    have e: "ids = ids2" "ies = ies0 @ [(a, b)]"
      using snoc.prems 0 1 2 by (simp_all add: number_edges_def number_edge_def)
    from snoc.IH [OF 0] have I: "numbering_ok ids0" "\<forall>(a, b)\<in>set ies0. a < length (snd ids0) \<and> b < length (snd ids0)"
      "map (\<lambda>(a, b). (snd ids0 ! a, snd ids0 ! b)) ies0 = es" by blast+
    note A = node_id_ok [OF I(1) 1] and B = node_id_ok [OF node_id_ok(1) [OF I(1) 1] 2]
    obtain ys zs where y: "snd ids1 = snd ids0 @ ys" "snd ids2 = snd ids1 @ zs" using A(4) B(4) by blast
    have "map (\<lambda>(a, b). (snd ids2 ! a, snd ids2 ! b)) ies0 = map (\<lambda>(a, b). (snd ids0 ! a, snd ids0 ! b)) ies0"
      using I(2) by (auto simp: y nth_append)
    moreover have "snd ids2 ! a = fst e" using A(2,3) by (simp add: y(2) nth_append)
    moreover have "\<forall>(a, b)\<in>set ies0. a < length (snd ids2) \<and> b < length (snd ids2)" using I(2) by (auto simp: y)
    ultimately show ?case using I(3) A(2) B(1-3) by (auto simp: e y(2))
  qed
  then show "distinct (snd ids)" "\<forall>(a, b)\<in>set ies. a < length (snd ids) \<and> b < length (snd ids)"
    "map (\<lambda>(a, b). (snd ids ! a, snd ids ! b)) ies = es" by (auto simp: numbering_ok_def)
qed

section \<open>The adjacency maps\<close>

definition adjacency_ok :: "(nat \<times> nat) set \<Rightarrow> adjacency \<Rightarrow> bool" where
  "adjacency_ok E d \<longleftrightarrow> wf_dict d \<and>
     (\<forall>a. set (dict_get d a []) = {b. (a, b) \<in> E} \<and> distinct (dict_get d a []) \<and> (dict_in a d \<longleftrightarrow> (\<exists>b. (a, b) \<in> E)))"

lemma adjacent_ok: "adjacency_ok E d \<Longrightarrow> adjacency_ok (insert (a, b) E) (adjacent a b d)"
  by (auto simp: adjacency_ok_def adjacent_def)

lemma adjacency_maps_ok:
  assumes "adjacency_maps es = (succs, preds)"
  shows "adjacency_ok (set es) succs" "adjacency_ok ((set es)\<inverse>) preds"
proof -
  have "adjacency_ok (set es) succs \<and> adjacency_ok ((set es)\<inverse>) preds"
    using assms
  proof (induction es arbitrary: succs preds rule: rev_induct)
    case Nil
    then show ?case by (simp add: adjacency_maps_def adjacency_ok_def)
  next
    case (snoc e es)
    obtain a b where e: "e = (a, b)" by (cases e)
    obtain s0 p0 where 0: "adjacency_maps es = (s0, p0)" by (cases "adjacency_maps es")
    have n: "succs = adjacent a b s0" "preds = adjacent b a p0"
      using snoc.prems 0 by (simp_all add: adjacency_maps_def e)
    have "set (es @ [e]) = insert (a, b) (set es)" "(set (es @ [e]))\<inverse> = insert (b, a) ((set es)\<inverse>)" by (auto simp: e)
    then show ?case using snoc.IH [OF 0] adjacent_ok by (simp add: n)
  qed
  then show "adjacency_ok (set es) succs" "adjacency_ok ((set es)\<inverse>) preds" by blast+
qed

section \<open>The pair table\<close>

lemma flush_append: "flush_pairs tbl (xs @ ys) = flush_pairs (flush_pairs tbl xs) ys"
  by (simp add: flush_pairs_def)

lemma flush_Nil [simp]: "flush_pairs tbl [] = tbl"
  by (simp add: flush_pairs_def)

definition pairs_at :: "adjacency \<Rightarrow> nat \<times> nat list \<Rightarrow> (nat \<times> nat) list" where
  "pairs_at preds bcs =
     (if dict_in (fst bcs) preds
      then concat (map (\<lambda>a. map (Pair a) (filter (\<lambda>c. a \<noteq> c) (snd bcs))) (dict_get preds (fst bcs) [])) else [])"

text \<open>Whenever the batches are flushed, the table in the end counts every pair.\<close>

lemma pair_steps_flush:
  "(case foldl (pair_step pair_batch cs) st as of (tbl, batch) \<Rightarrow> flush_pairs tbl batch) =
   flush_pairs (case st of (tbl, batch) \<Rightarrow> flush_pairs tbl batch) (concat (map (\<lambda>a. map (Pair a) (filter (\<lambda>c. a \<noteq> c) cs)) as))"
proof (induction as arbitrary: st)
  case (Cons a as)
  obtain tbl batch where st: "st = (tbl, batch)" by (cases st)
  let ?new = "map (Pair a) (filter (\<lambda>c. a \<noteq> c) cs)"
  have "(case pair_step pair_batch cs st a of (tbl, batch) \<Rightarrow> flush_pairs tbl batch) = flush_pairs (flush_pairs tbl batch) ?new"
    by (simp add: pair_step_def st Let_def flush_append)
  then show ?case by (simp add: Cons st flush_append)
qed simp

lemma pair_nodes_flush:
  "(case foldl (pair_node pair_batch preds) st succs of (tbl, batch) \<Rightarrow> flush_pairs tbl batch) =
   flush_pairs (case st of (tbl, batch) \<Rightarrow> flush_pairs tbl batch) (concat (map (pairs_at preds) succs))"
proof (induction succs arbitrary: st)
  case (Cons bcs succs)
  have "(case pair_node pair_batch preds st bcs of (tbl, batch) \<Rightarrow> flush_pairs tbl batch) =
      flush_pairs (case st of (tbl, batch) \<Rightarrow> flush_pairs tbl batch) (pairs_at preds bcs)"
    by (cases bcs) (simp add: pair_node_def pairs_at_def pair_steps_flush)
  then show ?case by (simp add: Cons flush_append)
qed simp

lemma flush_counts:
  "map_of (flush_pairs [] ps) p = (if p \<in> set ps then Some (count_list ps p) else None) \<and> wf_dict (flush_pairs [] ps)"
proof (induction ps rule: rev_induct)
  case (snoc q ps)
  have "flush_pairs [] (ps @ [q]) = dict_set q (dict_get (flush_pairs [] ps) q 0 + 1) (flush_pairs [] ps)"
    by (simp add: flush_pairs_def)
  with snoc show ?case by (auto simp: update_conv' dict_get_def)
qed simp

lemma count_pairs_of:
  "distinct cs \<Longrightarrow> count_list (map (Pair a) (filter (\<lambda>c. a \<noteq> c) cs)) (a', c') = (if a = a' \<and> a \<noteq> c' \<and> c' \<in> set cs then 1 else 0)"
  by (induction cs) auto

lemma count_pairs_at:
  assumes "distinct cs" "adjacency_ok (E\<inverse>) preds"
  shows "count_list (pairs_at preds (b, cs)) (a, c) = (if a \<noteq> c \<and> (a, b) \<in> E \<and> c \<in> set cs then 1 else 0)"
proof -
  have "count_list (concat (map (\<lambda>a. map (Pair a) (filter (\<lambda>c. a \<noteq> c) cs)) as)) (a, c) =
      (if a \<noteq> c \<and> a \<in> set as \<and> c \<in> set cs then 1 else 0)" if "distinct as" for as
    using that by (induction as) (auto simp: count_pairs_of [OF assms(1)])
  moreover have "distinct (dict_get preds b [])" "set (dict_get preds b []) = {a. (a, b) \<in> E}" "dict_in b preds \<longleftrightarrow> (\<exists>a. (a, b) \<in> E)"
    using assms(2) by (auto simp: adjacency_ok_def)
  ultimately show ?thesis by (auto simp: pairs_at_def)
qed

lemma count_all_pairs:
  assumes "adjacency_ok E succs" "adjacency_ok (E\<inverse>) preds" "finite E"
  shows "count_list (concat (map (pairs_at preds) succs)) (a, c) =
    (if a \<noteq> c then card {b. (a, b) \<in> E \<and> (b, c) \<in> E} else 0)"
proof -
  have wf: "distinct (map fst succs)" using assms(1) by (simp add: adjacency_ok_def wf_dict_def)
  let ?P = "\<lambda>(b, cs). a \<noteq> c \<and> (a, b) \<in> E \<and> c \<in> set cs"
  have mem: "(b, cs) \<in> set succs \<longleftrightarrow> dict_in b succs \<and> cs = dict_get succs b []" for b cs
    unfolding map_of_eq_Some_iff [OF wf, symmetric] by (auto simp: dict_in_lookup dict_get_def simp del: map_of_eq_Some_iff)
  have d: "\<forall>(b, cs)\<in>set succs. distinct cs" using assms(1) by (auto simp: mem adjacency_ok_def)
  have "count_list (concat (map (pairs_at preds) xs)) (a, c) = length (filter ?P xs)" if "\<forall>(b, cs)\<in>set xs. distinct cs" for xs
    using that by (induction xs) (auto simp: count_pairs_at [OF _ assms(2)] split: if_splits)
  then have "count_list (concat (map (pairs_at preds) succs)) (a, c) = length (map fst (filter ?P succs))" using d by simp
  also have "\<dots> = card (fst ` set (filter ?P succs))"
    using distinct_card [of "map fst (filter ?P succs)"] distinct_map_filter [OF wf] by simp
  also have "fst ` set (filter ?P succs) = (if a \<noteq> c then {b. (a, b) \<in> E \<and> (b, c) \<in> E} else {})"
    using assms(1) by (auto simp: mem adjacency_ok_def image_iff)
  finally show ?thesis by simp
qed

section \<open>The accounts\<close>

definition ref_between :: "ref_edge list \<Rightarrow> ref_node \<Rightarrow> ref_node \<Rightarrow> ref_node set" where
  "ref_between es a c = {b. (a, b) \<in> set es \<and> (b, c) \<in> set es}"

lemma pairs_to_accounts_set:
  assumes "adjacency_ok E succs" "adjacency_ok (E\<inverse>) preds" "finite E"
  shows "set (uc4_pairs_to_accounts pair_batch succs preds l) =
    {l ! x | x a c. a \<noteq> c \<and> 5 \<le> card {b. (a, b) \<in> E \<and> (b, c) \<in> E} \<and> (x = a \<or> x = c)}"
proof -
  obtain tbl batch where f: "foldl (pair_node pair_batch preds) ([], []) succs = (tbl, batch)"
    by (cases "foldl (pair_node pair_batch preds) ([], []) succs")
  let ?ps = "concat (map (pairs_at preds) succs)"
  let ?q = "map fst (filter (\<lambda>(p, cnt). 5 \<le> cnt) (flush_pairs tbl batch))"
  have t: "flush_pairs tbl batch = flush_pairs [] ?ps" using pair_nodes_flush [of pair_batch preds "([], [])" succs] by (simp add: f)
  have wf: "distinct (map fst (flush_pairs [] ?ps))" using flush_counts [of ?ps] by (simp add: wf_dict_def)
  have "p \<in> set ?q \<longleftrightarrow> 5 \<le> count_list ?ps p" for p
  proof -
    have "p \<in> set ?q \<longleftrightarrow> (\<exists>n. (p, n) \<in> set (flush_pairs [] ?ps) \<and> 5 \<le> n)" unfolding t by force
    also have "\<dots> \<longleftrightarrow> (\<exists>n. map_of (flush_pairs [] ?ps) p = Some n \<and> 5 \<le> n)" using map_of_eq_Some_iff [OF wf] by simp
    also have "\<dots> \<longleftrightarrow> 5 \<le> count_list ?ps p"
      using flush_counts [of ?ps p] count_list_0_iff [of ?ps p] by auto
    finally show ?thesis .
  qed
  then have q: "(a, c) \<in> set ?q \<longleftrightarrow> a \<noteq> c \<and> 5 \<le> card {b. (a, b) \<in> E \<and> (b, c) \<in> E}" for a c
    using count_all_pairs [OF assms, of a c] by simp
  have ins: "set (foldl (\<lambda>acc (a, c). List.insert (l ! c) (List.insert (l ! a) acc)) acc ps) =
      set acc \<union> nth l ` (fst ` set ps \<union> snd ` set ps)" for acc ps
    by (induction ps arbitrary: acc) auto
  have ends: "nth l ` (fst ` S \<union> snd ` S) = {l ! x | x a c. (a, c) \<in> S \<and> (x = a \<or> x = c)}" for S by force
  have "uc4_pairs_to_accounts pair_batch succs preds l = foldl (\<lambda>acc (a, c). List.insert (l ! c) (List.insert (l ! a) acc)) [] ?q"
    by (simp add: uc4_pairs_to_accounts_def f)
  then have "set (uc4_pairs_to_accounts pair_batch succs preds l) = {l ! x | x a c. (a, c) \<in> set ?q \<and> (x = a \<or> x = c)}"
    by (simp only: ins ends list.set(1) Un_empty_left)
  then show ?thesis unfolding q by blast
qed

text \<open>The reference answer: both ends of every pair with five or more intermediaries.\<close>

definition ref_ends :: "ref_edge list \<Rightarrow> ref_node set" where
  "ref_ends es = {x. \<exists>a c. a \<noteq> c \<and> 5 \<le> card (ref_between es a c) \<and> (x = a \<or> x = c)}"

lemma ref_accounts:
  "set (accounts_of_edges pair_batch es) = ref_ends es"
proof -
  obtain ids ies where n: "number_edges es = (ids, ies)" by (cases "number_edges es")
  obtain m l where ids: "ids = (m, l)" by (cases ids)
  obtain succs preds where a: "adjacency_maps ies = (succs, preds)" by (cases "adjacency_maps ies")
  note N = number_edges_ok [OF n, unfolded ids snd_conv]
  let ?E = "set ies"
  have inj: "l ! i = l ! j \<longleftrightarrow> i = j" if "i < length l" "j < length l" for i j using nth_eq_iff_index_eq [OF N(1) that] .
  have lt: "a < length l" "b < length l" if "(a, b) \<in> ?E" for a b using N(2) that by auto
  have E: "set es = (\<lambda>(a, b). (l ! a, l ! b)) ` ?E" using arg_cong [OF N(3), of set] by simp
  have edge: "(l ! a, l ! b) \<in> set es \<longleftrightarrow> (a, b) \<in> ?E" if "a < length l" "b < length l" for a b
  proof
    assume "(l ! a, l ! b) \<in> set es"
    then obtain a' b' where e: "(a', b') \<in> ?E" "l ! a = l ! a'" "l ! b = l ! b'" unfolding E by auto
    then have "a = a'" "b = b'" using inj [OF that(1) lt(1) [OF e(1)]] inj [OF that(2) lt(2) [OF e(1)]] by simp_all
    with e(1) show "(a, b) \<in> ?E" by simp
  next
    assume "(a, b) \<in> ?E"
    then show "(l ! a, l ! b) \<in> set es" unfolding E by (rule rev_image_eqI) simp
  qed
  have btw: "ref_between es (l ! a) (l ! c) = nth l ` {b. (a, b) \<in> ?E \<and> (b, c) \<in> ?E}" if "a < length l" "c < length l" for a c
  proof -
    have "x \<in> ref_between es (l ! a) (l ! c) \<longleftrightarrow> (\<exists>b. x = l ! b \<and> (a, b) \<in> ?E \<and> (b, c) \<in> ?E)" for x
    proof
      assume "x \<in> ref_between es (l ! a) (l ! c)"
      then have x: "(l ! a, x) \<in> set es" "(x, l ! c) \<in> set es" by (simp_all add: ref_between_def)
      then obtain a' b where b: "(a', b) \<in> ?E" "x = l ! b" unfolding E by auto
      then have "(a, b) \<in> ?E" "(b, c) \<in> ?E"
        using x edge [OF that(1) lt(2) [OF b(1)]] edge [OF lt(2) [OF b(1)] that(2)] by simp_all
      with b(2) show "\<exists>b. x = l ! b \<and> (a, b) \<in> ?E \<and> (b, c) \<in> ?E" by blast
    next
      assume "\<exists>b. x = l ! b \<and> (a, b) \<in> ?E \<and> (b, c) \<in> ?E"
      then obtain b where b: "x = l ! b" "(a, b) \<in> ?E" "(b, c) \<in> ?E" by blast
      then show "x \<in> ref_between es (l ! a) (l ! c)"
        using edge [OF lt [OF b(2)]] edge [OF lt [OF b(3)]] by (simp add: ref_between_def)
    qed
    then show ?thesis unfolding set_eq_iff image_iff by blast
  qed
  have card: "card (ref_between es (l ! a) (l ! c)) = card {b. (a, b) \<in> ?E \<and> (b, c) \<in> ?E}" if "a < length l" "c < length l" for a c
    unfolding btw [OF that]
  proof (rule card_image, rule inj_onI)
    fix i j assume "i \<in> {b. (a, b) \<in> ?E \<and> (b, c) \<in> ?E}" "j \<in> {b. (a, b) \<in> ?E \<and> (b, c) \<in> ?E}" "l ! i = l ! j"
    then show "i = j" using inj [of i j] lt by blast
  qed
  have ends: "x \<in> ref_ends es \<longleftrightarrow>
      (\<exists>i a c. x = l ! i \<and> a \<noteq> c \<and> 5 \<le> card {b. (a, b) \<in> ?E \<and> (b, c) \<in> ?E} \<and> (i = a \<or> i = c))" for x
  proof
    assume "x \<in> ref_ends es"
    then obtain u v where u: "u \<noteq> v" "5 \<le> card (ref_between es u v)" "x = u \<or> x = v" by (auto simp: ref_ends_def)
    then have "ref_between es u v \<noteq> {}" by auto
    then obtain b where "(u, b) \<in> set es" "(b, v) \<in> set es" by (auto simp: ref_between_def)
    then obtain a b1 b2 c where e: "u = l ! a" "v = l ! c" "(a, b1) \<in> ?E" "(b2, c) \<in> ?E" unfolding E by auto
    have i: "u = l ! a" "v = l ! c" "a < length l" "c < length l" using e lt by blast+
    have "a \<noteq> c" "5 \<le> card {b. (a, b) \<in> ?E \<and> (b, c) \<in> ?E}" using u(1,2) card [OF i(3,4)] unfolding i(1,2) by auto
    with u(3) i show "\<exists>i a c. x = l ! i \<and> a \<noteq> c \<and> 5 \<le> card {b. (a, b) \<in> ?E \<and> (b, c) \<in> ?E} \<and> (i = a \<or> i = c)" by blast
  next
    assume "\<exists>i a c. x = l ! i \<and> a \<noteq> c \<and> 5 \<le> card {b. (a, b) \<in> ?E \<and> (b, c) \<in> ?E} \<and> (i = a \<or> i = c)"
    then obtain i a c where i: "x = l ! i" "a \<noteq> c" "5 \<le> card {b. (a, b) \<in> ?E \<and> (b, c) \<in> ?E}" "i = a \<or> i = c" by blast
    then have "{b. (a, b) \<in> ?E \<and> (b, c) \<in> ?E} \<noteq> {}" by (metis card.empty le_zero_eq zero_neq_numeral)
    then have "a < length l" "c < length l" using lt by blast+
    then have "l ! a \<noteq> l ! c" "5 \<le> card (ref_between es (l ! a) (l ! c))"
      using i(2,3) card [of a c] inj [of a c] by simp_all
    with i(1,4) show "x \<in> ref_ends es" unfolding ref_ends_def by blast
  qed
  have "set (accounts_of_edges pair_batch es) = {l ! x | x a c. a \<noteq> c \<and> 5 \<le> card {b. (a, b) \<in> ?E \<and> (b, c) \<in> ?E} \<and> (x = a \<or> x = c)}"
    using pairs_to_accounts_set [OF adjacency_maps_ok [OF a]] by (simp add: accounts_of_edges_def n ids a)
  then show ?thesis using ends by blast
qed

lemma ref_ends_cong: "set es = set es' \<Longrightarrow> ref_ends es = ref_ends es'"
  by (simp add: ref_ends_def ref_between_def)

lemma unique_set: "pandas_ok pd \<Longrightarrow> set (pd_unique pd es) = set es"
  by (simp add: pandas_ok_def unique_law_def)

lemma uc4_modes:
  assumes "pandas_ok pd"
  shows "set (gen_uc4_results pd n df) = ref_ends (map edge_cols (filter period_a_row (filter usd_row df)))"
    and "set (uc4_streaming pd n chunks) = ref_ends (map edge_cols (filter period_a_row (filter usd_row (concat chunks))))"
proof -
  show "set (gen_uc4_results pd n df) = ref_ends (map edge_cols (filter period_a_row (filter usd_row df)))"
    unfolding gen_uc4_results_def ref_accounts where_filter [OF assms] by (rule ref_ends_cong) (simp add: unique_set [OF assms])
  let ?part = "\<lambda>chunk. filter period_a_row (filter usd_row chunk)"
  let ?ec = "concat (map (\<lambda>chunk. if ?part chunk = [] then [] else [map edge_cols (?part chunk)]) chunks)"
  have c: "concat ?ec = map edge_cols (?part (concat chunks))" by (induction chunks) simp_all
  have st: "uc4_streaming pd n chunks = (if ?ec = [] then [] else accounts_of_edges n (pd_unique pd (concat ?ec)))"
    by (simp only: uc4_streaming_def where_filter [OF assms] Let_def length_0_conv)
  have "set (uc4_streaming pd n chunks) = ref_ends (concat ?ec)"
  proof (cases "?ec = []")
    case True
    then show ?thesis unfolding st if_P [OF True] True by (simp add: ref_ends_def ref_between_def)
  next
    case False
    show ?thesis unfolding st if_not_P [OF False] ref_accounts by (rule ref_ends_cong [OF unique_set [OF assms]])
  qed
  then show "set (uc4_streaming pd n chunks) = ref_ends (map edge_cols (filter period_a_row (filter usd_row (concat chunks))))"
    unfolding c .
qed

section \<open>The pipeline's answer\<close>

definition ref_gnode :: "ref_node \<Rightarrow> gnode" where
  "ref_gnode x = \<lparr>n_bank = int_str (fst x), n_account = snd x\<rparr>"

lemma ref_gnode_inj: "ref_gnode x = ref_gnode y \<longleftrightarrow> x = y"
  by (cases x; cases y) (simp add: ref_gnode_def)

lemma reads_edge: "reads r t \<Longrightarrow> (from_node t, to_node t) = (ref_gnode (fst (edge_cols r)), ref_gnode (snd (edge_cols r)))"
  by (simp add: reads_def from_node_def to_node_def ref_gnode_def edge_cols_def)

lemma reads_edges:
  assumes "list_all2 reads df ts"
  shows "edges (filter (filter_spec UC4Filter) ts) =
    (\<lambda>(a, b). (ref_gnode a, ref_gnode b)) ` set (map edge_cols (filter period_a_row (filter usd_row df)))"
  using assms
proof (induction rule: list_all2_induct)
  case (Cons r df t ts)
  then show ?case using reads_masks(1,2) [OF Cons(1)] reads_edge [OF Cons(1)] by (auto simp: edges_def split_def)
qed (simp add: edges_def)

lemma answer_ends:
  assumes "pays r = (\<lambda>(a, b). (ref_gnode a, ref_gnode b)) ` set es"
  shows "p_origin ` reported r \<union> p_destination ` reported r = ref_gnode ` ref_ends es"
proof -
  have e: "(ref_gnode a, ref_gnode b) \<in> pays r \<longleftrightarrow> (a, b) \<in> set es" for a b
    unfolding assms by (auto simp: ref_gnode_inj intro: rev_image_eqI [of "(a, b)"])
  have n: "x \<in> range ref_gnode \<and> y \<in> range ref_gnode" if "(x, y) \<in> pays r" for x y using that unfolding assms by auto
  have b: "between r (ref_gnode a) (ref_gnode c) = ref_gnode ` ref_between es a c" for a c
  proof (intro set_eqI iffI)
    fix x assume x: "x \<in> between r (ref_gnode a) (ref_gnode c)"
    then obtain y where "x = ref_gnode y" using n unfolding between_def by blast
    with x show "x \<in> ref_gnode ` ref_between es a c" unfolding between_def ref_between_def using e by blast
  next
    fix x assume "x \<in> ref_gnode ` ref_between es a c"
    then obtain y where "x = ref_gnode y" "(a, y) \<in> set es" "(y, c) \<in> set es" unfolding ref_between_def by blast
    then show "x \<in> between r (ref_gnode a) (ref_gnode c)" unfolding between_def using e by blast
  qed
  have "card (between r (ref_gnode a) (ref_gnode c)) = card (ref_between es a c)" for a c
    unfolding b by (rule card_image) (auto simp: inj_on_def ref_gnode_inj)
  then have rep: "mk_path (ref_gnode a) (ref_gnode c) \<in> reported r \<longleftrightarrow> a \<noteq> c \<and> 5 \<le> card (ref_between es a c)" for a c
    by (simp add: reported_def mk_path_def ref_gnode_inj)
  have ex: "\<exists>a c. p = mk_path (ref_gnode a) (ref_gnode c)" if "p \<in> reported r" for p
  proof -
    have "between r (p_origin p) (p_destination p) \<noteq> {}" using that by (auto simp: reported_def)
    then have "p_origin p \<in> range ref_gnode" "p_destination p \<in> range ref_gnode" using n by (auto simp: between_def)
    then show ?thesis by (cases p) (auto simp: mk_path_def)
  qed
  show ?thesis
  proof (intro set_eqI iffI)
    fix x assume "x \<in> p_origin ` reported r \<union> p_destination ` reported r"
    then obtain p where p: "p \<in> reported r" "x = p_origin p \<or> x = p_destination p" by blast
    from ex [OF p(1)] obtain a c where c: "p = mk_path (ref_gnode a) (ref_gnode c)" by blast
    then have "a \<noteq> c \<and> 5 \<le> card (ref_between es a c)" using p(1) rep by simp
    then have "a \<in> ref_ends es" "c \<in> ref_ends es" unfolding ref_ends_def by blast+
    with p(2) show "x \<in> ref_gnode ` ref_ends es" by (auto simp: c mk_path_def)
  next
    fix x assume "x \<in> ref_gnode ` ref_ends es"
    then obtain y a c where y: "x = ref_gnode y" "a \<noteq> c" "5 \<le> card (ref_between es a c)" "y = a \<or> y = c" unfolding ref_ends_def by blast
    then have "mk_path (ref_gnode a) (ref_gnode c) \<in> reported r" using rep by blast
    with y(1,4) show "x \<in> p_origin ` reported r \<union> p_destination ` reported r" by (force simp: mk_path_def)
  qed
qed

section \<open>Properties\<close>

text \<open>
  C3.  UC4's answer is the reference answer.  Whatever batches, workers, orders, interleavings,
  spills and tiles a run has, the response UC4's join sends a client names each account once, and
  exactly the accounts the reference script computes from the client's file.
\<close>

theorem uc4_answer_is_reference:
  assumes "pandas_ok pd" "list_all2 reads df ts"
    and "mset (concat (ur_batches r)) = mset (filter (filter_spec UC4Filter) ts)"
    and "uc4_clean_run h th split chunk k N cid r"
  shows "fst (uc4_response (foldl (\<lambda>st (c, d). uc4_join st c d) [] (ur_join r)) cid) =
      [(''--- UC4 ---'' @ concat (map uc4_line (uc4_answer r cid)) @ newline, True)] \<and>
    distinct (uc4_answer r cid) \<and>
    set (uc4_answer r cid) = (\<lambda>(b, acc). (int_str b, acc)) ` set (gen_uc4_results pd pair_batch df)"
proof -
  let ?es = "map edge_cols (filter period_a_row (filter usd_row df))"
  have "pays r = edges (filter (filter_spec UC4Filter) ts)"
    unfolding pays_def edges_def mset_eq_setD [OF assms(3)] ..
  with reads_edges [OF assms(2)] have "pays r = (\<lambda>(a, b). (ref_gnode a, ref_gnode b)) ` set ?es" by simp
  from answer_ends [OF this] have "set (uc4_answer r cid) = (\<lambda>n. (n_bank n, n_account n)) ` ref_gnode ` ref_ends ?es"
    using run_answer(2) [OF assms(4)] by simp
  also have "\<dots> = (\<lambda>(b, acc). (int_str b, acc)) ` set (gen_uc4_results pd pair_batch df)"
    unfolding uc4_modes(1) [OF assms(1)] by (simp add: image_image ref_gnode_def split_def)
  finally show ?thesis using run_answer(1) [OF assms(4)] by (simp add: uc4_response_def uc4_answer_def)
qed

text \<open>
  C25.  Streaming mode of the reference script computes what sampled mode computes.  However the file
  is cut into chunks, UC1's and UC3's files are the texts of the whole frames with their row numbers,
  whatever stood at their paths before, UC2's and UC4's rows are the same, and UC5 counts the same
  number, asks for the same rates and fails in the same way.
\<close>

theorem reference_modes_agree:
  assumes "pandas_ok pd" "csv_ok to_csv1" "csv_ok to_csv3"
  shows "uc1_streaming pd to_csv1 old1 chunks =
      (length (gen_uc1_results pd (concat chunks)), to_csv1 True (enumerate 0 (gen_uc1_results pd (concat chunks)))) \<and>
    set (uc2_streaming pd names chunks) = set (gen_uc2_results pd names (concat chunks)) \<and>
    uc3_pass2 pd to_csv3 old3 (uc3_pass1 pd chunks) chunks =
      (length (gen_uc3_results pd (concat chunks)), to_csv3 True (enumerate 0 (gen_uc3_results pd (concat chunks)))) \<and>
    set (uc4_streaming pd pair_batch chunks) = set (gen_uc4_results pd pair_batch (concat chunks)) \<and>
    uc5_streaming pd api 0 cache chunks = gen_uc5_results pd api cache (concat chunks)"
proof (intro conjI uc1_modes uc2_modes assms)
  show "uc3_pass2 pd to_csv3 old3 (uc3_pass1 pd chunks) chunks =
      (length (gen_uc3_results pd (concat chunks)), to_csv3 True (enumerate 0 (gen_uc3_results pd (concat chunks))))"
    unfolding uc3_pass2_def by (subst fold_sink_map) (simp only: sink_whole [OF assms(3)] uc3_rows_modes [OF assms(1)])
  show "set (uc4_streaming pd pair_batch chunks) = set (gen_uc4_results pd pair_batch (concat chunks))"
    by (simp only: uc4_modes [OF assms(1)])
  show "uc5_streaming pd api 0 cache chunks = gen_uc5_results pd api cache (concat chunks)"
    unfolding uc5_modes [OF assms(1)] by (cases "gen_uc5_results pd api cache (concat chunks)") auto
qed

section \<open>An instance\<close>

text \<open>The pandas operations as functions on lists.\<close>

definition list_idxmax :: "trans_row list \<Rightarrow> trans_row list" where
  "list_idxmax rows =
     map (\<lambda>b. the (find (\<lambda>r. tr_from_bank r = b \<and> (\<forall>x\<in>set rows. tr_from_bank x = b \<longrightarrow> tr_paid x \<le> tr_paid r)) rows))
       (remdups (map tr_from_bank rows))"

definition list_pandas :: pandas where
  "list_pandas =
     \<lparr>pd_where = filter, pd_unique = remdups, pd_idxmax = list_idxmax,
      pd_means = (\<lambda>rows. map (\<lambda>f. (f, mean (of_format f rows))) (remdups (map tr_format rows))),
      pd_formats = (\<lambda>rows. map (\<lambda>f. (f, of_format f rows)) (remdups (map tr_format rows))),
      pd_merge_names = (\<lambda>l names. concat (map (\<lambda>(b, acc, x). map (\<lambda>(b', nm). (b, acc, nm, x)) (filter (\<lambda>(b', nm). b' = b) names)) l)),
      pd_merge_means = (\<lambda>l ms. concat (map (\<lambda>r. map (\<lambda>(f, m). (r, m)) (filter (\<lambda>(f, m). f = tr_format r) ms)) l)),
      pd_rows_below = (\<lambda>b xs. length (filter (\<lambda>x. x < b) xs))\<rparr>"

lemma find_max:
  assumes "b \<in> tr_from_bank ` set rows"
  shows "\<exists>r. find (\<lambda>r. tr_from_bank r = b \<and> (\<forall>x\<in>set rows. tr_from_bank x = b \<longrightarrow> tr_paid x \<le> tr_paid r)) rows = Some r \<and>
    tr_from_bank r = b \<and> first_max rows r"
proof -
  let ?P = "\<lambda>r. tr_from_bank r = b \<and> (\<forall>x\<in>set rows. tr_from_bank x = b \<longrightarrow> tr_paid x \<le> tr_paid r)"
  let ?m = "Max (tr_paid ` {x \<in> set rows. tr_from_bank x = b})"
  have fin: "finite (tr_paid ` {x \<in> set rows. tr_from_bank x = b})" "tr_paid ` {x \<in> set rows. tr_from_bank x = b} \<noteq> {}" using assms by auto
  obtain q where "?m = tr_paid q" "q \<in> {x \<in> set rows. tr_from_bank x = b}" using Max_in [OF fin] by (rule imageE)
  then have q: "q \<in> set rows" "tr_from_bank q = b" "tr_paid q = ?m" by simp_all
  then have "?P q" using Max_ge [OF fin(1)] by auto
  with q(1) have "find ?P rows \<noteq> None" by (auto simp: find_None_iff)
  then obtain r where r: "find ?P rows = Some r" by blast
  then obtain i where i: "i < length rows" "?P r" "r = rows ! i" "\<forall>j<i. \<not> ?P (rows ! j)" by (auto simp: find_Some_iff)
  have "first_max rows r"
    unfolding first_max_def
  proof (intro exI conjI ballI impI)
    show "rows = take i rows @ r # drop (Suc i) rows" using i(1,3) by (simp add: id_take_nth_drop)
    fix x assume x: "x \<in> set (take i rows)" "tr_from_bank x = tr_from_bank r"
    then obtain j where j: "j < i" "x = rows ! j" using i(1) by (auto simp: in_set_conv_nth)
    then have "\<not> ?P x" using i(4) by blast
    then obtain y where "y \<in> set rows" "tr_from_bank y = b" "tr_paid x < tr_paid y" using x(2) i(2) by fastforce
    then show "tr_paid x < tr_paid r" using i(2) by fastforce
  next
    fix x assume "x \<in> set (drop (Suc i) rows)" "tr_from_bank x = tr_from_bank r"
    then show "tr_paid x \<le> tr_paid r" using i(2) by (meson in_set_dropD)
  qed
  with r i(2) show ?thesis by blast
qed

lemma list_pandas_ok: "pandas_ok list_pandas"
proof -
  have "idxmax_law list_pandas"
    unfolding idxmax_law_def
  proof (intro allI)
    fix rows :: "trans_row list"
    let ?f = "\<lambda>b. the (find (\<lambda>r. tr_from_bank r = b \<and> (\<forall>x\<in>set rows. tr_from_bank x = b \<longrightarrow> tr_paid x \<le> tr_paid r)) rows)"
    have f: "tr_from_bank (?f b) = b" "first_max rows (?f b)" if "b \<in> tr_from_bank ` set rows" for b
      using find_max [OF that] by auto
    have e: "pd_idxmax list_pandas rows = map ?f (remdups (map tr_from_bank rows))" by (simp add: list_pandas_def list_idxmax_def)
    have m: "map tr_from_bank (map ?f bs) = bs" if "set bs \<subseteq> tr_from_bank ` set rows" for bs
      using that f(1) by (induction bs) auto
    have "map tr_from_bank (pd_idxmax list_pandas rows) = remdups (map tr_from_bank rows)" unfolding e by (rule m) simp
    then show "distinct (map tr_from_bank (pd_idxmax list_pandas rows)) \<and>
        tr_from_bank ` set (pd_idxmax list_pandas rows) = tr_from_bank ` set rows \<and>
        (\<forall>r\<in>set (pd_idxmax list_pandas rows). first_max rows r)"
      using f(2) by (metis (no_types, lifting) distinct_remdups e imageE list.set_map set_remdups)
  qed
  moreover have "groups_law list_pandas" by (simp add: groups_law_def list_pandas_def comp_def image_image)
  moreover have "merge_law list_pandas" by (auto simp: merge_law_def list_pandas_def image_iff)
  ultimately show ?thesis by (simp add: pandas_ok_def where_law_def unique_law_def list_pandas_def)
qed

text \<open>A run with one worker per stage, each receiving what the stage before sent, in its order.\<close>

definition single_run :: "pyhash \<Rightarrow> nat \<Rightarrow> nat \<Rightarrow> nat \<Rightarrow> uuid \<Rightarrow> transaction list list \<Rightarrow> uc4_run" where
  "single_run h th split chunk cid batches =
     (let graphs = map (Pair cid) (by_affinity (concat (map (group_uc4_graph h) batches)) 1 0);
          pruning = map (\<lambda>g. (cid, Inr g)) (by_affinity (graph_out h th cid graphs) 1 0) @
                    map (\<lambda>l. (cid, Inl l)) (map fst (degree_out h th cid graphs));
          counting = map (Pair cid) (prune_out split chunk cid pruning);
          adding = map (Pair cid) (by_affinity (counted h th [counting] cid) 1 0)
      in \<lparr>ur_batches = batches, ur_graph = [graphs], ur_degree = [graphs], ur_prune = [pruning], ur_count = [counting],
          ur_path = [adding], ur_join = map (Pair cid) (map fst (path_out h th cid adding))\<rparr>)"

lemma own_items [simp]:
  "client_items c (map (Pair c) xs) = xs"
  "client_items c (map (\<lambda>g. (c, Inr g)) gs @ map (\<lambda>l. (c, Inl l)) ls) = map Inr gs @ map Inl ls"
  by (simp_all add: client_items_def comp_def)

lemma rights_lefts_sums [simp]: "rights (map Inr gs @ map Inl ls) = gs" "lefts (map Inr gs @ map Inl ls) = ls"
proof -
  have "rights (map Inl ls) = []" "lefts (map Inl ls) = ls" by (induction ls) simp_all
  then show "rights (map Inr gs @ map Inl ls) = gs" "lefts (map Inr gs @ map Inl ls) = ls" by (induction gs) simp_all
qed

lemma single_run_delivers:
  "uc4_delivers h th split chunk cid (single_run h th split chunk cid batches) \<and> uc4_staffed (single_run h th split chunk cid batches) \<and>
   uc4_foreign k N cid (single_run h th split chunk cid batches)"
  unfolding uc4_delivers_def uc4_staffed_def uc4_foreign_def foreign_def single_run_def Let_def by (auto simp del: map_map)

definition demo_pay :: "(string \<times> string) list" where
  "demo_pay = map (\<lambda>x. (''A'', [x])) ''BCDEF'' @ map (\<lambda>x. ([x], ''Z'')) ''BCDEF''"

definition demo_batches :: "transaction list list" where
  "demo_batches = [map (\<lambda>(a, b). demo_payment a b) (take 3 demo_pay), map (\<lambda>(a, b). demo_payment a b) (drop 3 demo_pay)]"

definition demo_rows :: "trans_row list" where
  "demo_rows = map (\<lambda>(a, b).
     \<lparr>tr_time = minute_text (day_time 1), tr_from_bank = 1, tr_from_account = a, tr_to_bank = 1, tr_to_account = b,
      tr_paid = 1, tr_currency = ''US Dollar'', tr_format = ''Wire''\<rparr>) demo_pay"

definition short_nodes :: "gnode set" where
  "short_nodes = {n. n_bank n = ''1'' \<and> length (n_account n) = 1}"

lemma short_unambiguous: "unambiguous short_nodes"
proof -
  have "p = q" if "p \<in> paths_over short_nodes" "q \<in> paths_over short_nodes" "path_key p = path_key q" for p q
    using that by (cases p; cases q) (auto simp: paths_over_def short_nodes_def path_key_def node_key_def length_Suc_conv gnode.equality)
  moreover have "a = b" if "a \<in> short_nodes" "b \<in> short_nodes" "node_key a = node_key b" for a b
    using that by (simp add: short_nodes_def node_key_def gnode.equality)
  ultimately show ?thesis by (auto simp: unambiguous_def inj_on_def)
qed

lemma demo_run_clean:
  "uc4_clean_run demo_hash 2 3 2 1 short_nodes 7 (single_run demo_hash 2 3 2 7 demo_batches)"
proof -
  have b: "ur_batches (single_run demo_hash 2 3 2 7 demo_batches) = demo_batches" by (simp add: single_run_def Let_def)
  have "\<forall>t\<in>set (concat demo_batches). clean_transaction 1 t \<and> from_node t \<in> short_nodes \<and> to_node t \<in> short_nodes"
    by (simp add: demo_batches_def demo_pay_def clean_transaction_def clean_node_def from_node_def to_node_def demo_payment_def
        demo_transaction_def short_nodes_def)
  then show ?thesis
    unfolding uc4_clean_run_def b
    using single_run_delivers short_unambiguous by (auto simp: pays_def b edges_def Field_def)
qed

theorem uc4_answer_is_reference_witness:
  "set (uc4_answer (single_run demo_hash 2 3 2 7 demo_batches) 7) = {(''1'', ''A''), (''1'', ''Z'')}"
proof -
  have one: "int_str 1 = ''1''" by code_simp
  have reads: "list_all2 reads demo_rows (concat demo_batches)"
    by (simp add: demo_rows_def demo_batches_def demo_pay_def reads_def demo_payment_def demo_transaction_def day_time_def
        valid_datetime_def days_in_month_def one)
  have f: "filter (filter_spec UC4Filter) (concat demo_batches) = concat demo_batches"
    by (rule filter_True) (simp add: demo_batches_def demo_pay_def demo_payment_def demo_transaction_def is_usd_def on_days_def day_time_def)
  have b: "ur_batches (single_run demo_hash 2 3 2 7 demo_batches) = demo_batches" by (simp add: single_run_def Let_def)
  have "set (gen_uc4_results list_pandas 4 demo_rows) = {(1, ''A''), (1, ''Z'')}"
    by code_simp
  then show ?thesis
    using uc4_answer_is_reference [OF list_pandas_ok reads _ demo_run_clean, of 4] unfolding b f
    by (simp add: one)
qed

definition demo_csv :: "('r \<Rightarrow> string) \<Rightarrow> bool \<Rightarrow> (nat \<times> 'r) list \<Rightarrow> string" where
  "demo_csv line header rows = (if header then ''h;'' else []) @ concat (map (\<lambda>(i, r). nat_str i @ '','' @ line r @ '';'') rows)"

lemma demo_csv_ok: "csv_ok (demo_csv line)"
  unfolding csv_ok_def demo_csv_def by blast

theorem reference_modes_agree_witness:
  "snd (uc1_streaming list_pandas (demo_csv (\<lambda>r. fst (snd r))) ''old'' [take 1 demo_rows, drop 1 (take 3 demo_rows)]) = ''h;0,A;1,A;2,A;'' \<and>
   set (uc4_streaming list_pandas 4 [take 4 demo_rows, drop 4 demo_rows]) = set (gen_uc4_results list_pandas 4 demo_rows)"
proof -
  have "demo_csv (\<lambda>r. fst (snd r)) True (enumerate 0 (gen_uc1_results list_pandas (concat [take 1 demo_rows, drop 1 (take 3 demo_rows)]))) = ''h;0,A;1,A;2,A;''"
    by code_simp
  then show ?thesis
    using reference_modes_agree [OF list_pandas_ok demo_csv_ok demo_csv_ok, where chunks = "[take 1 demo_rows, drop 1 (take 3 demo_rows)]"]
      reference_modes_agree [OF list_pandas_ok demo_csv_ok demo_csv_ok, where chunks = "[take 4 demo_rows, drop 4 demo_rows]"]
    by (metis append_take_drop_id concat.simps snd_conv append_Nil2)
qed

end
