(* ===== verification/UC2_Pipeline.thy ===== *)
theory UC2_Pipeline
  imports Reference_UC4 Merges
begin

text \<open>
  UC2 from its filtered payments and the accounts to the response: the two group-bys and aggregates,
  the merges and the join, wired as the deployment wires them (\<open>gen_uc2.py\<close>), against the reference
  script.  As for UC4, a run records what each worker received, in its order, and \<open>uc2_delivers\<close> says
  that of one client this is what the stage before sent, in any order and interleaved with any other
  clients: partials are split by the affinity of their bank, the maxima go to every merge, the names to
  the merge that owns their bank.

  \<open>uc2_answer_is_reference\<close>: whatever the run, the response names the banks, names and largest
  amounts the script computes from the client's files.
\<close>

section \<open>Dictionaries received in any order\<close>

lemma functional_lookup: "single_valued (set kvs) \<Longrightarrow> map_of kvs k = Some v \<longleftrightarrow> (k, v) \<in> set kvs"
proof (induction kvs)
  case (Cons e kvs)
  have "single_valued (set kvs)" using Cons.prems by (auto simp: single_valued_def)
  with Cons show ?case by (cases e) (auto simp: single_valued_def)
qed simp

lemma dict_update_append: "dict_update d (xs @ ys) = dict_update (dict_update d xs) ys"
  by (induction d xs rule: dict_update.induct) simp_all

lemma dict_update_concat: "foldl dict_update d ds = dict_update d (concat ds)"
  by (induction ds arbitrary: d) (simp_all add: dict_update_append)

lemma set_dict_update:
  assumes "single_valued (set kvs)"
  shows "set (dict_update [] kvs) = set kvs"
proof -
  have wf: "distinct (map fst (dict_update [] kvs))" using wf_dict_update [of "[]" kvs] by (simp add: wf_dict_def)
  have "map_of (dict_update [] kvs) k = Some v \<longleftrightarrow> (k, v) \<in> set kvs" for k v
    using functional_lookup [of "rev kvs" k v] assms by (simp add: lookup_dict_update)
  then show ?thesis unfolding map_of_eq_Some_iff [OF wf] by auto
qed

lemma reads_filter:
  assumes "list_all2 reads df ts" "\<And>r t. reads r t \<Longrightarrow> P r \<longleftrightarrow> Q t"
  shows "list_all2 reads (filter P df) (filter Q ts)"
  using assms(1) by (induction rule: list_all2_induct) (simp_all add: assms(2))

lemma reads_image:
  assumes "list_all2 reads df ts" "\<And>r t. reads r t \<Longrightarrow> f r = g t"
  shows "map f df = map g ts"
  using assms(1) by (induction rule: list_all2_induct) (simp_all add: assms(2))

section \<open>UC2\<close>

definition max_out :: "pyhash \<Rightarrow> uuid \<Rightarrow> (uuid \<times> (string, string \<times> amount) dict) list \<Rightarrow> ((string, string \<times> amount) dict \<times> int) list" where
  "max_out h cid ins = fst (uc2_max_result h (foldl (\<lambda>st (c, d). uc2_max_aggregate st c d) [] ins) cid)"

definition names_out :: "pyhash \<Rightarrow> uuid \<Rightarrow> (uuid \<times> (string, string) dict) list \<Rightarrow> ((string, string) dict \<times> int) list" where
  "names_out h cid ins = fst (uc2_names_result h (foldl (\<lambda>st (c, d). uc2_names_aggregate st c d) [] ins) cid)"

definition uc2_merge_out :: "uuid \<Rightarrow> (uuid \<times> ((string, string \<times> amount) dict + (string, string) dict)) list \<Rightarrow> bank_entry list list" where
  "uc2_merge_out cid ins = fst (uc2_merge_result (foldl (\<lambda>st (c, m). uc2_msg st c m) new_uc2_merge ins) cid)"

record uc2_run =
  u2_batches :: "transaction list list"
  u2_accounts :: "account list list"
  u2_max :: "(uuid \<times> (string, string \<times> amount) dict) list list"
  u2_names :: "(uuid \<times> (string, string) dict) list list"
  u2_merge :: "(uuid \<times> ((string, string \<times> amount) dict + (string, string) dict)) list list"
  u2_join :: "(uuid \<times> bank_entry list) list"

text \<open>The maxima are broadcast to every merge; the names go to the merge that owns their bank.\<close>

definition uc2_delivers :: "pyhash \<Rightarrow> uuid \<Rightarrow> uc2_run \<Rightarrow> bool" where
  "uc2_delivers h cid r \<longleftrightarrow>
     u2_max r \<noteq> [] \<and> u2_names r \<noteq> [] \<and> u2_merge r \<noteq> [] \<and>
     (\<forall>i<length (u2_max r). mset (client_items cid (u2_max r ! i)) =
        mset (by_affinity (concat (map (group_uc2_max h) (u2_batches r))) (length (u2_max r)) i)) \<and>
     (\<forall>i<length (u2_names r). mset (client_items cid (u2_names r ! i)) =
        mset (by_affinity (concat (map (group_uc2_names h) (u2_accounts r))) (length (u2_names r)) i)) \<and>
     (\<forall>i<length (u2_merge r).
        mset (lefts (client_items cid (u2_merge r ! i))) = mset (map fst (concat (map (max_out h cid) (u2_max r)))) \<and>
        mset (rights (client_items cid (u2_merge r ! i))) =
          mset (by_affinity (concat (map (names_out h cid) (u2_names r))) (length (u2_merge r)) i)) \<and>
     mset (client_items cid (u2_join r)) = mset (concat (map (uc2_merge_out cid) (u2_merge r)))"

definition uc2_answer :: "uc2_run \<Rightarrow> uuid \<Rightarrow> bank_entry list" where
  "uc2_answer r cid = dict_get (foldl (\<lambda>st (c, es). uc2_join st c es) [] (u2_join r)) cid []"

definition bank_pairs :: "account list \<Rightarrow> (string \<times> string) set" where
  "bank_pairs accs = (\<lambda>a. (a_bank_id a, a_bank_name a)) ` set accs"

text \<open>What an aggregate of either kind holds of a client is what its result carries.\<close>

lemma names_out_iff:
  "(d, a) \<in> set (names_out h cid ins) \<longleftrightarrow>
     (\<exists>b n. d = [(b, n)] \<and> a = h_str h b \<and> (b, n) \<in> set (dict_update [] (concat (client_items cid ins))))"
proof -
  have v: "dict_get (foldl (\<lambda>st (c, d). uc2_names_aggregate st c d) [] ins) cid [] = dict_update [] (concat (client_items cid ins))"
    using names.view_run_init [of ins cid] by (simp add: dict_update_concat client_items_def)
  show ?thesis unfolding v [symmetric] by (auto simp: names_out_def uc2_names_result_def dict_get_def split: option.splits)
qed

lemma max_out_iff:
  "(d, a) \<in> set (max_out h cid ins) \<longleftrightarrow>
     (\<exists>b e. d = [(b, e)] \<and> a = h_str h b \<and> (b, e) \<in> set (max_update [] (concat (client_items cid ins))))"
proof -
  have v: "dict_get (foldl (\<lambda>st (c, d). uc2_max_aggregate st c d) [] ins) cid [] = max_update [] (concat (client_items cid ins))"
    using maxes.view_run_init [of ins cid] by (simp add: max_update_concat client_items_def)
  show ?thesis unfolding v [symmetric] by (auto simp: max_out_def uc2_max_result_def dict_get_def split: option.splits)
qed

section \<open>UC2: the maxima\<close>

lemma max_dict_mem: "(b, e) \<in> set (max_update [] es) \<longleftrightarrow> map_of (max_update [] es) b = Some e"
  using wf_max_update [OF wf_dict_Nil, of es] by (simp add: wf_dict_def)

lemma routed_max_owned:
  assumes "d \<in> set (routed (group_uc2_max h) n i batches)" "(b, e) \<in> set d"
  shows "h_str h b mod affinity_shards mod n = i"
proof -
  from assms(1) obtain ts a where "(d, a) \<in> set (group_uc2_max h ts)" "a mod n = i" by (auto simp: set_routed)
  with shard_dict_sound [OF wf_max_update [OF wf_dict_Nil] _ assms(2)] show ?thesis
    unfolding group_uc2_max_iff by fastforce
qed

text \<open>An aggregate's dictionary holds the maxima of the banks it owns, and no others.\<close>

lemma max_worker:
  assumes "set items = set (routed (group_uc2_max h) n i batches)"
  shows "h_str h b mod affinity_shards mod n = i \<Longrightarrow>
      is_max_entry (max_entry ` set (concat batches)) b (map_of (max_update [] (concat items)) b)"
    and "(b, e) \<in> set (max_update [] (concat items)) \<Longrightarrow> h_str h b mod affinity_shards mod n = i"
proof -
  have m: "is_max_entry (\<Union>d \<in> set (routed (group_uc2_max h) n i batches). set d) b (map_of (max_update [] (concat items)) b)"
    using max_update_Nil [of "concat items" b] by (simp only: set_concat assms)
  show "h_str h b mod affinity_shards mod n = i \<Longrightarrow>
      is_max_entry (max_entry ` set (concat batches)) b (map_of (max_update [] (concat items)) b)"
    using m by (rule uc2_max_routed [rotated])
  assume "(b, e) \<in> set (max_update [] (concat items))"
  with m obtain d where "d \<in> set (routed (group_uc2_max h) n i batches)" "(b, e) \<in> set d"
    unfolding max_dict_mem is_max_entry_def by (cases e) auto
  then show "h_str h b mod affinity_shards mod n = i" by (rule routed_max_owned)
qed

definition u2_pays :: "uc2_run \<Rightarrow> (string \<times> string \<times> amount) set" where
  "u2_pays r = max_entry ` set (concat (u2_batches r))"

lemma set_items: "mset xs = mset (by_affinity (concat (map grp batches)) N i) \<Longrightarrow> set xs = set (routed grp (int N) (int i) batches)"
  unfolding by_affinity_routed by (rule mset_eq_setD)

lemma set_fst_nth: "d \<in> fst ` set (concat (map f xs)) \<longleftrightarrow> (\<exists>i<length xs. \<exists>a. (d, a) \<in> set (f (xs ! i)))"
  unfolding set_concat_nth by force

text \<open>Results of one entry each, put together again.\<close>

lemma singletons_mem:
  assumes "set L = fst ` set (concat (map f xs))"
    and "\<And>d a x. x \<in> set xs \<Longrightarrow> (d, a) \<in> set (f x) \<longleftrightarrow> (\<exists>b e. d = [(b, e)] \<and> a = k b \<and> (b, e) \<in> set (W x))"
  shows "(b, e) \<in> set (concat L) \<longleftrightarrow> (\<exists>i<length xs. (b, e) \<in> set (W (xs ! i)))"
proof -
  have one: "(\<exists>d a. (d, a) \<in> set (f (xs ! i)) \<and> (b, e) \<in> set d) \<longleftrightarrow> (b, e) \<in> set (W (xs ! i))" if "i < length xs" for i
    unfolding assms(2) [OF nth_mem [OF that]] by force
  have "d \<in> set L \<longleftrightarrow> (\<exists>i<length xs. \<exists>a. (d, a) \<in> set (f (xs ! i)))" for d by (simp only: assms(1) set_fst_nth)
  then have "(b, e) \<in> set (concat L) \<longleftrightarrow> (\<exists>i<length xs. \<exists>d a. (d, a) \<in> set (f (xs ! i)) \<and> (b, e) \<in> set d)"
    unfolding set_concat UN_iff Bex_def by blast
  then show ?thesis using one by blast
qed

text \<open>Whatever a merge received, its maxima are those of the whole input.\<close>

lemma run_maxima:
  assumes "uc2_delivers h cid r" "j < length (u2_merge r)"
  shows "is_max_entry (u2_pays r) b (map_of (max_update [] (concat (lefts (client_items cid (u2_merge r ! j))))) b)"
proof (rule is_max_entry_trans [OF max_update_Nil])
  let ?N = "length (u2_max r)" and ?L = "lefts (client_items cid (u2_merge r ! j))"
  let ?W = "\<lambda>i. max_update [] (concat (client_items cid (u2_max r ! i)))"
  note d = assms(1) [unfolded uc2_delivers_def]
  have N: "0 < ?N" using d by simp
  have it: "set (client_items cid (u2_max r ! i)) = set (routed (group_uc2_max h) (int ?N) (int i) (u2_batches r))" if "i < ?N" for i
    by (rule set_items) (use d that in blast)
  note W = max_worker [OF it]
  have "mset ?L = mset (map fst (concat (map (max_out h cid) (u2_max r))))" using d assms(2) by blast
  then have "set ?L = fst ` set (concat (map (max_out h cid) (u2_max r)))" by (metis mset_eq_setD set_map)
  then have L: "(b, e) \<in> set (concat ?L) \<longleftrightarrow> (\<exists>i<?N. (b, e) \<in> set (?W i))" for b e
    by (rule singletons_mem [OF _ max_out_iff])
  show "e \<in> u2_pays r" if e: "e \<in> set (concat ?L)" "fst e = b" for e
  proof -
    obtain acc x where v: "e = (b, acc, x)" using e(2) by (cases e) auto
    from e(1) obtain i where i: "i < ?N" "(b, acc, x) \<in> set (?W i)" unfolding v L by blast
    with W(1) [OF i(1) W(2) [OF i]] show ?thesis unfolding max_dict_mem v u2_pays_def by (simp add: is_max_entry_def)
  qed
  show "\<exists>acc' z. (b, acc', z) \<in> set (concat ?L) \<and> y \<le> z" if p: "(b, acc, y) \<in> u2_pays r" for acc y
  proof -
    let ?i = "nat (h_str h b mod affinity_shards mod int ?N)"
    have i: "?i < ?N" "h_str h b mod affinity_shards mod int ?N = int ?i" using N by (simp_all add: nat_less_iff)
    from is_max_entry_found [OF W(1) [OF i] p [unfolded u2_pays_def]] show ?thesis
      using i(1) unfolding L max_dict_mem by blast
  qed
qed

section \<open>UC2: the names\<close>

lemma group_names_iff:
  assumes "single_valued (bank_pairs accs)"
  shows "(\<exists>d. (d, a) \<in> set (group_uc2_names h accs) \<and> (b, n) \<in> set d) \<longleftrightarrow>
    (b, n) \<in> bank_pairs accs \<and> a = h_str h b mod affinity_shards"
proof -
  let ?d = "dict_of (map (\<lambda>x. (a_bank_id x, a_bank_name x)) accs)"
  have d: "set ?d = bank_pairs accs" "wf_dict ?d"
    using assms set_dict_update [of "map (\<lambda>x. (a_bank_id x, a_bank_name x)) accs"] by (simp_all add: dict_of_def bank_pairs_def)
  show ?thesis
    using shard_dict_sound [OF d(2)] shard_dict_complete [OF d(2)] unfolding group_uc2_names_def d(1) [symmetric] by fastforce
qed

lemma bank_pairs_concat: "bank_pairs (concat batches) = (\<Union>accs\<in>set batches. bank_pairs accs)"
  by (auto simp: bank_pairs_def)

lemma names_worker:
  assumes "set items = set (routed (group_uc2_names h) n i batches)" "single_valued (bank_pairs (concat batches))"
  shows "set (dict_update [] (concat items)) = {(b, m) \<in> bank_pairs (concat batches). h_str h b mod affinity_shards mod n = i}"
proof -
  have g: "(\<exists>d. (d, a) \<in> set (group_uc2_names h accs) \<and> (b, m) \<in> set d) \<longleftrightarrow> (b, m) \<in> bank_pairs accs \<and> a = h_str h b mod affinity_shards"
    if "accs \<in> set batches" for accs a b m
    by (rule group_names_iff) (use assms(2) that in \<open>auto simp: single_valued_def bank_pairs_concat\<close>)
  have "(b, m) \<in> set (concat items) \<longleftrightarrow> (\<exists>accs\<in>set batches. \<exists>a. a mod n = i \<and> (\<exists>d. (d, a) \<in> set (group_uc2_names h accs) \<and> (b, m) \<in> set d))" for b m
    unfolding set_concat UN_iff assms(1) Bex_def set_routed by blast
  then have c: "set (concat items) = {(b, m) \<in> bank_pairs (concat batches). h_str h b mod affinity_shards mod n = i}"
    unfolding bank_pairs_concat by (auto simp: g simp del: set_concat)
  have "single_valued (set (concat items))" using assms(2) unfolding c by (auto simp: single_valued_def)
  then show ?thesis unfolding c [symmetric] by (rule set_dict_update)
qed

text \<open>The merge that owns a bank received its name, and no other did.\<close>

lemma by_affinity_concat: "by_affinity (concat (map f xs)) N i = map fst (concat (map (\<lambda>x. filter (\<lambda>(d, a). a mod int N = int i) (f x)) xs))"
  by (simp add: by_affinity_def filter_concat comp_def)

lemma owner_unique: "0 < N \<Longrightarrow> (\<exists>i<N. a mod int N = int i \<and> P) \<longleftrightarrow> P" for a :: int
proof
  assume "0 < N" "P"
  then show "\<exists>i<N. a mod int N = int i \<and> P" by (intro exI [of _ "nat (a mod int N)"]) (simp add: nat_less_iff)
qed blast

lemma run_names:
  assumes "uc2_delivers h cid r" "single_valued (bank_pairs (concat (u2_accounts r)))" "j < length (u2_merge r)"
  shows "set (concat (rights (client_items cid (u2_merge r ! j)))) =
    {(b, n) \<in> bank_pairs (concat (u2_accounts r)). h_str h b mod int (length (u2_merge r)) = int j}"
proof -
  let ?N = "length (u2_names r)" and ?M = "length (u2_merge r)" and ?R = "rights (client_items cid (u2_merge r ! j))"
  let ?W = "\<lambda>ins. dict_update [] (concat (client_items cid ins))"
  let ?f = "\<lambda>ins. filter (\<lambda>(d, a). a mod int ?M = int j) (names_out h cid ins)"
  let ?V = "\<lambda>ins. filter (\<lambda>(b, n). h_str h b mod int ?M = int j) (?W ins)"
  note d = assms(1) [unfolded uc2_delivers_def]
  have N: "0 < ?N" using d by simp
  have it: "set (client_items cid (u2_names r ! i)) = set (routed (group_uc2_names h) (int ?N) (int i) (u2_accounts r))" if "i < ?N" for i
    by (rule set_items) (use d that in blast)
  have "mset ?R = mset (by_affinity (concat (map (names_out h cid) (u2_names r))) ?M j)" using d assms(3) by blast
  then have R: "set ?R = fst ` set (concat (map ?f (u2_names r)))" unfolding by_affinity_concat by (metis (no_types) mset_eq_setD list.set_map)
  have f: "(d, a) \<in> set (?f x) \<longleftrightarrow> (\<exists>b e. d = [(b, e)] \<and> a = h_str h b \<and> (b, e) \<in> set (?V x))" for d a x
    by (auto simp: names_out_iff)
  have W: "(b, n) \<in> set (?W (u2_names r ! i)) \<longleftrightarrow>
      (b, n) \<in> bank_pairs (concat (u2_accounts r)) \<and> h_str h b mod affinity_shards mod int ?N = int i" if "i < ?N" for i b n
    unfolding names_worker [OF it [OF that] assms(2)] by simp
  have "(b, n) \<in> set (concat ?R) \<longleftrightarrow> (\<exists>i<?N. (b, n) \<in> set (?V (u2_names r ! i)))" for b n
    by (rule singletons_mem [OF R f])
  also have "(\<exists>i<?N. (b, n) \<in> set (?V (u2_names r ! i))) \<longleftrightarrow>
      (\<exists>i<?N. h_str h b mod affinity_shards mod int ?N = int i \<and> ((b, n) \<in> bank_pairs (concat (u2_accounts r)) \<and> h_str h b mod int ?M = int j))" for b n
    unfolding set_filter mem_Collect_eq prod.case using W by blast
  finally have "(b, n) \<in> set (concat ?R) \<longleftrightarrow> (b, n) \<in> bank_pairs (concat (u2_accounts r)) \<and> h_str h b mod int ?M = int j" for b n
    unfolding owner_unique [OF N] .
  then show ?thesis by (auto simp del: set_concat)
qed

section \<open>UC2: the answer\<close>

definition merge_entries :: "uuid \<Rightarrow> (uuid \<times> ((string, string \<times> amount) dict + (string, string) dict)) list \<Rightarrow> bank_entry list" where
  "merge_entries cid ins =
     merged_entries (max_update [] (concat (lefts (client_items cid ins)))) (dict_update [] (concat (rights (client_items cid ins))))"

lemma merge_out_entries: "uc2_merge_out cid ins = [merge_entries cid ins]"
  using uc2.view_run_init [of ins cid]
  by (simp add: uc2_merge_out_def uc2_merge_result_def merge_entries_def fold_uc2_view client_items_def dict_update_concat)

lemma merges_entries: "concat (map (uc2_merge_out cid) xs) = map (merge_entries cid) xs"
  by (induction xs) (simp_all add: merge_out_entries)

lemma foldl_concat: "foldl (@) xs xss = xs @ concat xss"
  by (induction xss arbitrary: xs) simp_all

lemma answer_entries:
  assumes "uc2_delivers h cid r"
  shows "mset (uc2_answer r cid) = mset (concat (map snd (map (\<lambda>j. (int j, merge_entries cid (u2_merge r ! j))) [0..<length (u2_merge r)])))"
proof -
  have "uc2_answer r cid = concat (client_items cid (u2_join r))"
    using bank_join.view_run_init [of "u2_join r" cid] by (simp add: uc2_answer_def client_items_def foldl_concat)
  moreover have "mset (client_items cid (u2_join r)) = mset (map (merge_entries cid) (u2_merge r))"
    using assms unfolding uc2_delivers_def merges_entries by blast
  moreover have "map (merge_entries cid) (u2_merge r) = map snd (map (\<lambda>j. (int j, merge_entries cid (u2_merge r ! j))) [0..<length (u2_merge r)])"
    by (rule nth_equalityI) simp_all
  ultimately show ?thesis by (metis mset_concat_cong)
qed

lemma merge_entries_iff:
  assumes "uc2_delivers h cid r" "single_valued (bank_pairs (concat (u2_accounts r)))" "j < length (u2_merge r)"
  shows "(b, acc, x, n) \<in> set (merge_entries cid (u2_merge r ! j)) \<longleftrightarrow>
    map_of (max_update [] (concat (lefts (client_items cid (u2_merge r ! j))))) b = Some (acc, x) \<and>
    (b, n) \<in> bank_pairs (concat (u2_accounts r)) \<and> h_str h b mod int (length (u2_merge r)) = int j"
proof -
  let ?R = "concat (rights (client_items cid (u2_merge r ! j)))"
  note R = run_names [OF assms]
  have "single_valued (set (rev ?R))" using assms(2) unfolding set_rev R by (auto simp: single_valued_def)
  then have "dict_lookup (dict_update [] ?R) b = Some n \<longleftrightarrow> (b, n) \<in> set ?R"
    using functional_lookup [of "rev ?R" b n] by (simp add: lookup_dict_update del: set_concat)
  then show ?thesis unfolding merge_entries_def merged_entries_iff max_dict_mem R by simp
qed

lemma run_uc2_answer:
  assumes "uc2_delivers h cid r" "single_valued (bank_pairs (concat (u2_accounts r)))"
  shows "distinct (map fst (uc2_answer r cid))"
    and "(b, acc, x, n) \<in> set (uc2_answer r cid) \<Longrightarrow>
      is_max_entry (u2_pays r) b (Some (acc, x)) \<and> (b, n) \<in> bank_pairs (concat (u2_accounts r))"
    and "(b, acc, y) \<in> u2_pays r \<Longrightarrow> (b, n) \<in> bank_pairs (concat (u2_accounts r)) \<Longrightarrow>
      \<exists>acc' x. (b, acc', x, n) \<in> set (uc2_answer r cid)"
proof -
  let ?M = "length (u2_merge r)" and ?e = "\<lambda>j. merge_entries cid (u2_merge r ! j)"
  let ?ps = "map (\<lambda>j. (int j, ?e j)) [0..<?M]"
  have M: "0 < ?M" using assms(1) by (simp add: uc2_delivers_def)
  note ms = answer_entries [OF assms(1)]
  note e = merge_entries_iff [OF assms]
  have mem: "p \<in> set (uc2_answer r cid) \<longleftrightarrow> (\<exists>j<?M. p \<in> set (?e j))" for p
    unfolding mset_eq_setD [OF ms] by (rule set_concat_parts)
  have "distinct (map fst (concat (map snd ?ps)))"
  proof (rule distinct_tagged [where f = "\<lambda>b. h_str h b mod int ?M"])
    have "distinct (map fst (merged_entries d nm))" if "wf_dict d" for d nm
    proof -
      have "map fst (merged_entries d nm) = filter (\<lambda>b. dict_lookup nm b \<noteq> None) (map fst d)"
        by (induction d) (auto simp: merged_entries_def split: option.splits)
      with that show ?thesis by (simp add: wf_dict_def)
    qed
    then have "distinct (map fst (?e j))" for j by (simp add: merge_entries_def)
    moreover have "h_str h (fst p) mod int ?M = int j" if "j < ?M" "p \<in> set (?e j)" for j p
    proof -
      obtain b acc x n where "p = (b, acc, x, n)" by (cases p)
      with that(2) e [OF that(1), of b acc x n] show ?thesis by simp
    qed
    ultimately show "\<forall>(i, p)\<in>set ?ps. distinct (map fst p) \<and> (\<forall>x\<in>set p. h_str h (fst x) mod int ?M = i)"
      by simp
  qed (simp add: comp_def distinct_map inj_on_def)
  then show "distinct (map fst (uc2_answer r cid))"
    using ms by (metis (no_types) mset_map mset_eq_imp_distinct_iff)
  show "is_max_entry (u2_pays r) b (Some (acc, x)) \<and> (b, n) \<in> bank_pairs (concat (u2_accounts r))"
    if "(b, acc, x, n) \<in> set (uc2_answer r cid)"
  proof -
    from that obtain j where j: "j < ?M" "(b, acc, x, n) \<in> set (?e j)" unfolding mem by blast
    from j(2) run_maxima [OF assms(1) j(1), of b] show ?thesis unfolding e [OF j(1)] by simp
  qed
  show "\<exists>acc' x. (b, acc', x, n) \<in> set (uc2_answer r cid)"
    if p: "(b, acc, y) \<in> u2_pays r" "(b, n) \<in> bank_pairs (concat (u2_accounts r))"
  proof -
    have "\<exists>j<?M. h_str h b mod int ?M = int j \<and> True" using owner_unique [OF M] by blast
    then obtain j where j: "j < ?M" "h_str h b mod int ?M = int j" by blast
    from is_max_entry_found [OF run_maxima [OF assms(1) j(1)] p(1)] obtain acc' x where
      "map_of (max_update [] (concat (lefts (client_items cid (u2_merge r ! j))))) b = Some (acc', x)" by blast
    then have "(b, acc', x, n) \<in> set (?e j)" using j(2) p(2) unfolding e [OF j(1)] by simp
    with j(1) show ?thesis unfolding mem by blast
  qed
qed

lemma max_entry_amount: "is_max_entry S b (Some (acc, x)) \<Longrightarrow> is_max_entry S b (Some (acc', y)) \<Longrightarrow> x = y"
  unfolding is_max_entry_def option.case prod.case by (blast intro: order_antisym)

lemma answer_triples:
  assumes "uc2_delivers h cid r" "single_valued (bank_pairs (concat (u2_accounts r)))"
  shows "(\<exists>acc. (b, acc, x, n) \<in> set (uc2_answer r cid)) \<longleftrightarrow>
    (\<exists>acc. is_max_entry (u2_pays r) b (Some (acc, x))) \<and> (b, n) \<in> bank_pairs (concat (u2_accounts r))"
proof
  assume r: "(\<exists>acc. is_max_entry (u2_pays r) b (Some (acc, x))) \<and> (b, n) \<in> bank_pairs (concat (u2_accounts r))"
  then obtain acc where m: "is_max_entry (u2_pays r) b (Some (acc, x))" by blast
  then have "(b, acc, x) \<in> u2_pays r" by (simp add: is_max_entry_def)
  from run_uc2_answer(3) [OF assms this] r obtain acc' y where y: "(b, acc', y, n) \<in> set (uc2_answer r cid)" by blast
  from run_uc2_answer(2) [OF assms y] m have "y = x" using max_entry_amount by blast
  with y show "\<exists>acc. (b, acc, x, n) \<in> set (uc2_answer r cid)" by blast
qed (use run_uc2_answer(2) [OF assms] in blast)

text \<open>\<open>idxmax\<close> picks the maxima of the banks.\<close>

lemma first_max_max: "first_max rows r \<Longrightarrow> r \<in> set rows \<and> (\<forall>x\<in>set rows. tr_from_bank x = tr_from_bank r \<longrightarrow> tr_paid x \<le> tr_paid r)"
  by (auto simp: first_max_def less_imp_le)

definition row_entry :: "trans_row \<Rightarrow> string \<times> string \<times> amount" where
  "row_entry r = (int_str (tr_from_bank r), tr_from_account r, tr_paid r)"

lemma idxmax_maxima:
  assumes "pandas_ok pd"
  shows "(\<exists>acc. is_max_entry (row_entry ` set rows) (int_str b) (Some (acc, x))) \<longleftrightarrow>
    (\<exists>acc. (b, acc, x) \<in> uc2_cols ` set (pd_idxmax pd rows))"
proof -
  note I = idxmax_facts [OF assms, where rows = rows]
  have top: "is_max_entry (row_entry ` set rows) (int_str (tr_from_bank r)) (Some (tr_from_account r, tr_paid r))"
    if "r \<in> set (pd_idxmax pd rows)" for r
    using first_max_max [OF I(3) [OF that]] by (auto simp: is_max_entry_def row_entry_def)
  show ?thesis
  proof
    assume "\<exists>acc. is_max_entry (row_entry ` set rows) (int_str b) (Some (acc, x))"
    then obtain acc where m: "is_max_entry (row_entry ` set rows) (int_str b) (Some (acc, x))" by blast
    then have "b \<in> tr_from_bank ` set rows" by (auto simp: is_max_entry_def row_entry_def)
    then obtain r where r: "r \<in> set (pd_idxmax pd rows)" "b = tr_from_bank r" unfolding I(2) [symmetric] by blast
    from max_entry_amount [OF m [unfolded r(2)] top [OF r(1)]] have "x = tr_paid r" .
    with r show "\<exists>acc. (b, acc, x) \<in> uc2_cols ` set (pd_idxmax pd rows)" by (auto simp: uc2_cols_def)
  next
    assume "\<exists>acc. (b, acc, x) \<in> uc2_cols ` set (pd_idxmax pd rows)"
    with top show "\<exists>acc. is_max_entry (row_entry ` set rows) (int_str b) (Some (acc, x))" by (auto simp: uc2_cols_def)
  qed
qed

text \<open>
  C4.  UC2's answer is the reference answer.  Whatever batches, workers, orders and interleavings a run
  has, the response UC2's join sends a client names each bank once, with exactly the banks, names and
  largest amounts the reference script computes from the client's files, and the account of each is
  one that paid that amount (the script names one of them too).
\<close>

theorem uc2_answer_is_reference:
  assumes "pandas_ok pd" "list_all2 reads df ts"
    and "mset (concat (u2_batches r)) = mset (filter (filter_spec UC2Filter) ts)"
    and "bank_pairs (concat (u2_accounts r)) = (\<lambda>(b, n). (int_str b, n)) ` set names" "single_valued (set names)"
    and "uc2_delivers h cid r"
  shows "fst (uc2_response repr (foldl (\<lambda>st (c, es). uc2_join st c es) [] (u2_join r)) cid) =
      [(''--- UC2 ---'' @ concat (map (uc2_line repr) (uc2_answer r cid)) @ newline, True)] \<and>
    distinct (map fst (uc2_answer r cid)) \<and>
    (\<lambda>(b, acc, x, n). (b, n, x)) ` set (uc2_answer r cid) =
      (\<lambda>(b, acc, n, x). (int_str b, n, x)) ` set (gen_uc2_results pd names df) \<and>
    (\<forall>(b, acc, x, n)\<in>set (uc2_answer r cid). \<exists>t\<in>set ts. filter_spec UC2Filter t \<and> max_entry t = (b, acc, x))"
proof -
  let ?rows = "filter usd_row df" and ?N = "bank_pairs (concat (u2_accounts r))"
  have sv: "single_valued ?N"
    using assms(5) unfolding assms(4) by (auto simp: single_valued_def)
  have P: "u2_pays r = max_entry ` set (filter (filter_spec UC2Filter) ts)"
    unfolding u2_pays_def mset_eq_setD [OF assms(3)] ..
  have "list_all2 reads ?rows (filter (filter_spec UC2Filter) ts)"
    by (rule reads_filter [OF assms(2)]) (simp add: reads_masks)
  then have "map row_entry ?rows = map max_entry (filter (filter_spec UC2Filter) ts)"
    by (rule reads_image) (simp add: reads_def max_entry_def row_entry_def)
  then have rows: "u2_pays r = row_entry ` set ?rows" unfolding P by (metis list.set_map)
  have g: "(b, acc, n, x) \<in> set (gen_uc2_results pd names df) \<longleftrightarrow> (b, acc, x) \<in> uc2_cols ` set (pd_idxmax pd ?rows) \<and> (b, n) \<in> set names" for b acc n x
    by (simp add: gen_uc2_results_def merge_names_set [OF assms(1)] where_filter [OF assms(1)])
  have "(b, n, x) \<in> (\<lambda>(b, acc, x, n). (b, n, x)) ` set (uc2_answer r cid) \<longleftrightarrow>
      (b, n, x) \<in> (\<lambda>(b, acc, n, x). (int_str b, n, x)) ` set (gen_uc2_results pd names df)" for b n x
  proof -
    have "(b, n, x) \<in> (\<lambda>(b, acc, x, n). (b, n, x)) ` set (uc2_answer r cid) \<longleftrightarrow> (\<exists>acc. (b, acc, x, n) \<in> set (uc2_answer r cid))"
      by force
    also have "\<dots> \<longleftrightarrow> (\<exists>i. b = int_str i \<and> (\<exists>acc. (i, acc, x) \<in> uc2_cols ` set (pd_idxmax pd ?rows)) \<and> (i, n) \<in> set names)"
      unfolding answer_triples [OF assms(6) sv] rows assms(4) idxmax_maxima [OF assms(1), symmetric] by force
    also have "\<dots> \<longleftrightarrow> (b, n, x) \<in> (\<lambda>(b, acc, n, x). (int_str b, n, x)) ` set (gen_uc2_results pd names df)"
      unfolding image_iff Bex_def using g by force
    finally show ?thesis .
  qed
  then have "(\<lambda>(b, acc, x, n). (b, n, x)) ` set (uc2_answer r cid) =
      (\<lambda>(b, acc, n, x). (int_str b, n, x)) ` set (gen_uc2_results pd names df)"
    unfolding set_eq_iff split_paired_All by blast
  moreover have "\<exists>t\<in>set ts. filter_spec UC2Filter t \<and> max_entry t = (b, acc, x)" if "(b, acc, x, n) \<in> set (uc2_answer r cid)" for b acc x n
    using run_uc2_answer(2) [OF assms(6) sv that] unfolding P by (auto simp: is_max_entry_def)
  ultimately show ?thesis
    using run_uc2_answer(1) [OF assms(6) sv] by (auto simp: uc2_response_def uc2_answer_def)
qed

definition uc2_single_run :: "pyhash \<Rightarrow> uuid \<Rightarrow> transaction list list \<Rightarrow> account list list \<Rightarrow> uc2_run" where
  "uc2_single_run h cid batches accounts =
     (let maxima = map (Pair cid) (by_affinity (concat (map (group_uc2_max h) batches)) 1 0);
          names = map (Pair cid) (by_affinity (concat (map (group_uc2_names h) accounts)) 1 0);
          merging = map (\<lambda>d. (cid, Inr d)) (by_affinity (names_out h cid names) 1 0) @
                    map (\<lambda>d. (cid, Inl d)) (map fst (max_out h cid maxima))
      in \<lparr>u2_batches = batches, u2_accounts = accounts, u2_max = [maxima], u2_names = [names], u2_merge = [merging],
          u2_join = map (Pair cid) (uc2_merge_out cid merging)\<rparr>)"

lemma uc2_single_delivers: "uc2_delivers h cid (uc2_single_run h cid batches accounts)"
  unfolding uc2_delivers_def uc2_single_run_def Let_def by (auto simp del: map_map)

definition demo_row :: "int \<Rightarrow> amount \<Rightarrow> trans_row" where
  "demo_row d a =
     \<lparr>tr_time = minute_text (day_time d), tr_from_bank = 1, tr_from_account = ''A'', tr_to_bank = 2, tr_to_account = ''B'',
      tr_paid = a, tr_currency = ''US Dollar'', tr_format = ''Wire''\<rparr>"

lemma demo_reads: "1 \<le> d \<Longrightarrow> d \<le> 30 \<Longrightarrow> reads (demo_row d a) (demo_transaction d a)"
proof -
  assume d: "1 \<le> d" "d \<le> 30"
  have "int_str 1 = ''1''" "int_str 2 = ''2''" by code_simp+
  moreover have "valid_datetime (day_time d)" using d by (simp add: day_time_def valid_datetime_def days_in_month_def)
  ultimately show ?thesis by (auto simp: reads_def demo_row_def demo_transaction_def)
qed

lemma demo_usd: "is_usd (demo_transaction d a)"
  by (simp add: is_usd_def demo_transaction_def)

definition demo_accounts :: "account list list" where
  "demo_accounts =
     [[\<lparr>a_bank_name = ''First'', a_bank_id = ''1'', a_account_number = ''A'', a_entity_id = ''E'', a_entity_name = ''Ann''\<rparr>,
       \<lparr>a_bank_name = ''Second'', a_bank_id = ''2'', a_account_number = ''B'', a_entity_id = ''F'', a_entity_name = ''Bob''\<rparr>]]"

theorem uc2_answer_is_reference_witness:
  "(\<lambda>(b, acc, x, n). (b, n, x)) `
     set (uc2_answer (uc2_single_run demo_hash 7 [[demo_transaction 1 5], [demo_transaction 2 8]] demo_accounts) 7) =
   {(''1'', ''First'', 8)}"
proof -
  let ?r = "uc2_single_run demo_hash 7 [[demo_transaction 1 5], [demo_transaction 2 8]] demo_accounts"
  have r: "u2_batches ?r = [[demo_transaction 1 5], [demo_transaction 2 8]]" "u2_accounts ?r = demo_accounts"
    by (simp_all add: uc2_single_run_def Let_def)
  have reads: "list_all2 reads [demo_row 1 5, demo_row 2 8] [demo_transaction 1 5, demo_transaction 2 8]"
    by (simp add: demo_reads)
  have f: "mset (concat (u2_batches ?r)) = mset (filter (filter_spec UC2Filter) [demo_transaction 1 5, demo_transaction 2 8])"
    unfolding r by (simp add: demo_usd)
  have one: "int_str 1 = ''1''" "int_str 2 = ''2''" by code_simp+
  have n: "bank_pairs (concat (u2_accounts ?r)) = (\<lambda>(b, n). (int_str b, n)) ` set [(1, ''First''), (2, ''Second'')]"
    unfolding r by (simp add: bank_pairs_def demo_accounts_def one)
  have "gen_uc2_results list_pandas [(1, ''First''), (2, ''Second'')] [demo_row 1 5, demo_row 2 8] = [(1, ''A'', ''First'', 8)]"
    by code_simp
  then show ?thesis
    using uc2_answer_is_reference [OF list_pandas_ok reads f n _ uc2_single_delivers]
    by (simp add: one single_valued_def)
qed

end
