(* ===== verification/UC3_Pipeline.thy ===== *)
theory UC3_Pipeline
  imports UC2_Pipeline
begin

text \<open>
  UC3 from its filtered payments to the response: the sums, the averages, the merges, the filter of the
  payments below their average and the join, wired as the deployment wires them (\<open>gen_uc3.py\<close>), against
  the reference script.  The averages go to every merge, the payments of the second period to any one of
  them, the merged batches to any filter.

  \<open>uc3_answer_is_reference\<close>: whatever the run, the lines of the response are those of the payments the
  script selects from the client's file.
\<close>

section \<open>The stages and their wiring\<close>

definition sum_out :: "pyhash \<Rightarrow> uuid \<Rightarrow> (uuid \<times> (string, amount \<times> int) dict) list \<Rightarrow> ((string, amount) dict \<times> int) list" where
  "sum_out h cid ins = yields (uc3_avg_result h (foldl (\<lambda>st (c, d). uc3_avg_aggregate st c d) [] ins) cid)"

definition uc3_merge_out ::
    "(amount \<Rightarrow> string) \<Rightarrow> nat \<Rightarrow> uuid \<Rightarrow> (uuid \<times> ((string, amount) dict + transaction list)) list \<Rightarrow> (transaction list \<times> (string, amount) dict) list" where
  "uc3_merge_out repr chunk cid ins = yields (uc3_merge_result chunk (foldl (\<lambda>st (c, m). uc3_msg repr st c m) new_uc3_merge ins) cid)"

text \<open>A batch that the filter passes on.\<close>

definition kept_below :: "uuid \<Rightarrow> transaction list \<times> (string, amount) dict \<Rightarrow> transaction list" where
  "kept_below cid b =
     (case bind_result (filter_msg UC3AvgFilter (new_message cid (MergedTransactions (fst b) (snd b)))) transactions_of of
        Inl _ \<Rightarrow> [] | Inr ts \<Rightarrow> ts)"

record uc3_run =
  u3_batches :: "transaction list list"
  u3_period_b :: "transaction list list"
  u3_sum :: "(uuid \<times> (string, amount \<times> int) dict) list list"
  u3_merge :: "(uuid \<times> ((string, amount) dict + transaction list)) list list"
  u3_filter :: "(uuid \<times> (transaction list \<times> (string, amount) dict)) list list"
  u3_join :: "(uuid \<times> transaction list) list"

definition uc3_delivers :: "pyhash \<Rightarrow> (amount \<Rightarrow> string) \<Rightarrow> nat \<Rightarrow> uuid \<Rightarrow> uc3_run \<Rightarrow> bool" where
  "uc3_delivers h repr chunk cid r \<longleftrightarrow>
     u3_sum r \<noteq> [] \<and>
     (\<forall>i<length (u3_sum r). mset (client_items cid (u3_sum r ! i)) =
        mset (by_affinity (concat (map (group_uc3_sum h) (u3_batches r))) (length (u3_sum r)) i)) \<and>
     (\<forall>ins\<in>set (u3_merge r). mset (lefts (client_items cid ins)) = mset (map fst (concat (map (sum_out h cid) (u3_sum r))))) \<and>
     mset (concat (map (\<lambda>ins. rights (client_items cid ins)) (u3_merge r))) = mset (u3_period_b r) \<and>
     mset (concat (map (client_items cid) (u3_filter r))) = mset (concat (map (uc3_merge_out repr chunk cid) (u3_merge r))) \<and>
     mset (client_items cid (u3_join r)) = mset (map (kept_below cid) (concat (map (client_items cid) (u3_filter r))))"

text \<open>What any client sends a merge can be spilled: parsed timestamps and amounts whose text reads back.\<close>

definition uc3_spillable :: "(amount \<Rightarrow> string) \<Rightarrow> uc3_run \<Rightarrow> bool" where
  "uc3_spillable repr r \<longleftrightarrow>
     (\<forall>ins\<in>set (u3_merge r). \<forall>x\<in>set ins. case snd x of Inl _ \<Rightarrow> True | Inr ts \<Rightarrow> \<forall>t\<in>set ts. spillable repr t)"

definition uc3_answer :: "uc3_run \<Rightarrow> uuid \<Rightarrow> transaction list" where
  "uc3_answer r cid = concat (client_items cid (u3_join r))"

section \<open>The averages\<close>

text \<open>The average of a format, when a payment of it occurs.\<close>

definition format_avg :: "transaction list \<Rightarrow> string \<Rightarrow> amount option" where
  "format_avg ts f =
     (if f \<in> t_payment_format ` set ts then Some (fst (format_total f ts) / of_int (snd (format_total f ts))) else None)"

lemma format_total_pos: "f \<in> t_payment_format ` set ts \<longleftrightarrow> 0 < snd (format_total f ts)"
  by (auto simp: format_total_def filter_empty_conv)

lemma sum_dict_mem: "(f, e) \<in> set (sum_update [] es) \<longleftrightarrow> map_of (sum_update [] es) f = Some e"
  using wf_sum_update [OF wf_dict_Nil, of es] by (simp add: wf_dict_def)

lemma routed_sum_owned:
  assumes "d \<in> set (routed (group_uc3_sum h) n i batches)" "(f, e) \<in> set d"
  shows "h_str h f mod n = i" "f \<in> t_payment_format ` set (concat batches)"
proof -
  from assms(1) obtain ts a where g: "ts \<in> set batches" "(d, a) \<in> set (group_uc3_sum h ts)" "a mod n = i" by (auto simp: set_routed)
  let ?es = "map (\<lambda>t. (t_payment_format t, t_amount_paid t, 1 :: int)) ts"
  from g(2) assms(2) have k: "(f, e) \<in> set (sum_update [] ?es)" "a = h_str h f" by (auto simp: group_uc3_sum_def)
  from k(1) have "f \<in> set (map fst (sum_update [] ?es))" by force
  then show "f \<in> t_payment_format ` set (concat batches)" unfolding sum_update_keys using g(1) by auto
  show "h_str h f mod n = i" using g(3) k(2) by simp
qed

text \<open>An aggregate's dictionary holds the totals of the formats it owns, and no others.\<close>

lemma sum_worker:
  assumes "mset items = mset (routed (group_uc3_sum h) n i batches)"
  shows "(f, e) \<in> set (sum_update [] (concat items)) \<longleftrightarrow>
    h_str h f mod n = i \<and> f \<in> t_payment_format ` set (concat batches) \<and> e = format_total f (concat batches)"
proof -
  let ?r = "routed (group_uc3_sum h) n i batches" and ?d = "sum_update [] (concat items)"
  have es: "entry_sum f (concat items) = entry_sum f (concat ?r)"
    by (rule entry_sum_mset) (rule mset_concat_cong [OF assms])
  have key: "f \<in> set (map fst ?d) \<longleftrightarrow> (\<exists>d\<in>set ?r. \<exists>e. (f, e) \<in> set d)"
    unfolding sum_update_keys using mset_eq_setD [OF assms] by force
  have own: "dict_get ?d f (0, 0) = format_total f (concat batches)" if "h_str h f mod n = i"
    using uc3_routed [OF that, of batches] by (simp add: sum_update_get es)
  have get: "(f, e) \<in> set ?d \<longleftrightarrow> f \<in> set (map fst ?d) \<and> e = dict_get ?d f (0, 0)" for e
    unfolding sum_dict_mem dict_in_def [symmetric] dict_in_lookup by (auto simp: dict_get_def)
  have occurs: "f \<in> set (map fst ?d)" if "h_str h f mod n = i" "f \<in> t_payment_format ` set (concat batches)"
  proof (rule ccontr)
    assume "f \<notin> set (map fst ?d)"
    then have "dict_get ?d f (0, 0) = (0, 0)" by (rule dict_get_default [unfolded dict_in_def])
    then show False using own [OF that(1)] that(2) unfolding format_total_pos by simp
  qed
  have k: "f \<in> set (map fst ?d) \<longleftrightarrow> h_str h f mod n = i \<and> f \<in> t_payment_format ` set (concat batches)"
    using occurs routed_sum_owned unfolding key by blast
  show ?thesis unfolding get k by (cases "h_str h f mod n = i") (simp_all add: own del: set_concat)
qed

lemma averages_total:
  assumes "\<forall>(f, sc)\<in>set d. snd sc \<noteq> 0"
  shows "averages_of d = Inr (map (\<lambda>(f, sc). (f, fst sc / of_int (snd sc))) d)"
  using assms by (induction d) (auto simp: averages_of_def average_def)

definition worker_avgs :: "uuid \<Rightarrow> (uuid \<times> (string, amount \<times> int) dict) list \<Rightarrow> (string, amount) dict" where
  "worker_avgs cid ins = map (\<lambda>(f, sc). (f, fst sc / of_int (snd sc))) (sum_update [] (concat (client_items cid ins)))"

lemma sum_out_iff:
  assumes "mset (client_items cid ins) = mset (routed (group_uc3_sum h) n i batches)"
  shows "(d, a) \<in> set (sum_out h cid ins) \<longleftrightarrow> (\<exists>f v. d = [(f, v)] \<and> a = h_str h f \<and> (f, v) \<in> set (worker_avgs cid ins))"
proof -
  let ?st = "foldl (\<lambda>st (c, d). uc3_avg_aggregate st c d) [] ins" and ?W = "sum_update [] (concat (client_items cid ins))"
  have v: "dict_get ?st cid [] = ?W"
    using sums.view_run_init [of ins cid] by (simp add: sum_update_concat client_items_def)
  have "snd sc \<noteq> 0" if "(f, sc) \<in> set ?W" for f sc
    using that format_total_pos [of f "concat batches"] unfolding sum_worker [OF assms] by (simp del: set_concat)
  then have avg: "averages_of ?W = Inr (worker_avgs cid ins)"
    unfolding worker_avgs_def by (intro averages_total) blast
  have "sum_out h cid ins = map (\<lambda>(f, a). ([(f, a)], h_str h f)) (worker_avgs cid ins)"
    using v avg by (cases "map_of ?st cid") (simp_all add: sum_out_def yields_def uc3_avg_result_def dict_get_def worker_avgs_def)
  then show ?thesis by auto
qed

lemma worker_avgs_mem: "(f, v) \<in> set (worker_avgs cid ins) \<longleftrightarrow>
    (\<exists>sc. (f, sc) \<in> set (sum_update [] (concat (client_items cid ins))) \<and> v = fst sc / of_int (snd sc))"
  unfolding worker_avgs_def set_map by force

lemma same_option: "(\<And>v. x = Some v \<longleftrightarrow> y = Some v) \<Longrightarrow> x = y"
  by (cases x; cases y) auto

lemma set_all_update: "set_all d kvs = dict_update d kvs"
  by (induction d kvs rule: dict_update.induct) (simp_all add: set_all_def)

text \<open>Whatever a merge received, its averages are those of the whole input.\<close>

lemma run_averages:
  assumes "uc3_delivers h repr chunk cid r" "ins \<in> set (u3_merge r)"
  shows "map_of (foldl set_all [] (lefts (client_items cid ins))) f = format_avg (concat (u3_batches r)) f"
proof -
  let ?N = "length (u3_sum r)" and ?L = "lefts (client_items cid ins)" and ?ts = "concat (u3_batches r)"
  note d = assms(1) [unfolded uc3_delivers_def]
  have N: "0 < ?N" using d by simp
  have it: "mset (client_items cid (u3_sum r ! i)) = mset (routed (group_uc3_sum h) (int ?N) (int i) (u3_batches r))" if "i < ?N" for i
    using d that unfolding by_affinity_routed by blast
  have W: "(f, v) \<in> set (worker_avgs cid (u3_sum r ! i)) \<longleftrightarrow> h_str h f mod int ?N = int i \<and> format_avg ?ts f = Some v" if "i < ?N" for i f v
    unfolding worker_avgs_mem sum_worker [OF it [OF that]] by (auto simp: format_avg_def simp del: set_concat)
  have "mset ?L = mset (map fst (concat (map (sum_out h cid) (u3_sum r))))" using d assms(2) by blast
  then have L: "set ?L = fst ` set (concat (map (sum_out h cid) (u3_sum r)))" by (metis mset_eq_setD list.set_map)
  have out: "(d, a) \<in> set (sum_out h cid x) \<longleftrightarrow> (\<exists>f v. d = [(f, v)] \<and> a = h_str h f \<and> (f, v) \<in> set (worker_avgs cid x))"
    if "x \<in> set (u3_sum r)" for d a x
  proof -
    from that obtain i where "i < ?N" "u3_sum r ! i = x" unfolding in_set_conv_nth by blast
    with sum_out_iff [OF it] show ?thesis by blast
  qed
  have "(f, v) \<in> set (concat ?L) \<longleftrightarrow> (\<exists>i<?N. (f, v) \<in> set (worker_avgs cid (u3_sum r ! i)))" for f v
    by (rule singletons_mem [OF L out])
  also have "(\<exists>i<?N. (f, v) \<in> set (worker_avgs cid (u3_sum r ! i))) \<longleftrightarrow>
      (\<exists>i<?N. h_str h f mod int ?N = int i \<and> format_avg ?ts f = Some v)" for f v using W by blast
  finally have m: "(f, v) \<in> set (concat ?L) \<longleftrightarrow> format_avg ?ts f = Some v" for f v unfolding owner_unique [OF N] .
  have "single_valued (set (rev (concat ?L)))" unfolding set_rev single_valued_def m by auto
  from functional_lookup [OF this] have "map_of (rev (concat ?L)) f = Some v \<longleftrightarrow> format_avg ?ts f = Some v" for v
    unfolding set_rev m .
  then have "map_of (rev (concat ?L)) f = format_avg ?ts f" by (rule same_option)
  then show ?thesis by (simp add: set_all_update [abs_def] dict_update_concat lookup_dict_update)
qed

section \<open>The payments below their average\<close>

definition below_avg :: "transaction list \<Rightarrow> transaction \<Rightarrow> bool" where
  "below_avg ts t \<longleftrightarrow> (case format_avg ts (t_payment_format t) of None \<Rightarrow> False | Some a \<Rightarrow> t_amount_paid t < 1 / 100 * a)"

lemma kept_below_eq: "map_of avgs = format_avg ts \<Longrightarrow> kept_below cid (b, avgs) = filter (below_avg ts) b"
  by (simp add: kept_below_def filter_msg_def filter_uc3_avg_def new_message_def has_client_def client_of_msg_def
      transactions_of_def below_avg_def [abs_def])

lemma merge_kept:
  assumes "uc3_delivers h repr chunk cid r" "uc3_spillable repr r" "0 < chunk" "ins \<in> set (u3_merge r)"
  shows "concat (map (kept_below cid) (uc3_merge_out repr chunk cid ins)) =
    filter (below_avg (concat (u3_batches r))) (concat (rights (client_items cid ins)))"
proof -
  let ?avgs = "foldl set_all [] (lefts (client_items cid ins))" and ?P = "below_avg (concat (u3_batches r))"
  have a: "map_of ?avgs = format_avg (concat (u3_batches r))"
    by (rule ext) (rule run_averages [OF assms(1,4)])
  have sp: "\<forall>x\<in>set ins. case snd x of Inl _ \<Rightarrow> True | Inr ts \<Rightarrow> \<forall>t\<in>set ts. spillable repr t"
    using assms(2,4) unfolding uc3_spillable_def by blast
  have in_avgs: "dict_in (t_payment_format t) ?avgs \<and> ?P t \<longleftrightarrow> ?P t" for t
    unfolding dict_in_lookup a by (auto simp: below_avg_def split: option.splits)
  from uc3_merge_batches [OF sp assms(3) refl refl, of cid] obtain bs where
    bs: "uc3_merge_out repr chunk cid ins = map (\<lambda>b. (b, ?avgs)) bs"
      "concat bs = filter (\<lambda>t. dict_in (t_payment_format t) ?avgs) (concat (rights (client_items cid ins)))"
    by (auto simp: uc3_merge_out_def yields_def)
  have "concat (map (kept_below cid) (uc3_merge_out repr chunk cid ins)) = filter ?P (concat bs)"
    unfolding bs(1) by (simp add: comp_def kept_below_eq [OF a] filter_concat)
  also have "\<dots> = filter ?P (concat (rights (client_items cid ins)))"
    unfolding bs(2) filter_filter in_avgs ..
  finally show ?thesis .
qed

lemma run_uc3_answer:
  assumes "uc3_delivers h repr chunk cid r" "uc3_spillable repr r" "0 < chunk"
  shows "mset (uc3_answer r cid) = mset (filter (below_avg (concat (u3_batches r))) (concat (u3_period_b r)))"
proof -
  let ?P = "below_avg (concat (u3_batches r))" and ?k = "kept_below cid" and ?out = "uc3_merge_out repr chunk cid"
  note d = assms(1) [unfolded uc3_delivers_def]
  have nest: "concat (map ?k (concat (map f xs))) = concat (map (\<lambda>ins. concat (map ?k (f ins))) xs)"
    "concat (map (\<lambda>ins. filter ?P (concat (g ins))) xs) = filter ?P (concat (concat (map g xs)))" for f g and xs :: "'x list"
    by (induction xs) simp_all
  have "mset (concat (map (client_items cid) (u3_filter r))) = mset (concat (map ?out (u3_merge r)))" using d by blast
  then have "mset (map ?k (concat (map (client_items cid) (u3_filter r)))) = mset (map ?k (concat (map ?out (u3_merge r))))"
    by (simp only: mset_map)
  moreover have "mset (client_items cid (u3_join r)) = mset (map ?k (concat (map (client_items cid) (u3_filter r))))" using d by blast
  ultimately have "mset (uc3_answer r cid) = mset (concat (map ?k (concat (map ?out (u3_merge r)))))"
    unfolding uc3_answer_def by (intro mset_concat_cong) simp
  also have "concat (map ?k (concat (map ?out (u3_merge r)))) =
      concat (map (\<lambda>ins. filter ?P (concat (rights (client_items cid ins)))) (u3_merge r))"
    unfolding nest(1) by (intro arg_cong [where f = concat] map_cong refl merge_kept [OF assms])
  also have "\<dots> = filter ?P (concat (concat (map (\<lambda>ins. rights (client_items cid ins)) (u3_merge r))))" by (rule nest(2))
  also have "mset (filter ?P (concat (concat (map (\<lambda>ins. rights (client_items cid ins)) (u3_merge r))))) =
      mset (filter ?P (concat (u3_period_b r)))"
    unfolding mset_filter by (intro arg_cong [where f = "filter_mset ?P"] mset_concat_cong) (use d in blast)
  finally show ?thesis .
qed

section \<open>The response\<close>

lemma stream_text:
  "concat (map fst (fst (stream_responses (foldl (\<lambda>sp (c, is). append_all line sp c is) (new_spill []) ins) cid header n))) =
     header @ concat (map line (concat (client_items cid ins))) @ newline"
proof -
  let ?sp = "foldl (\<lambda>sp (c, is). append_all line sp c is) (new_spill []) ins"
  have "content ?sp cid = concat (map line (concat (client_items cid ins)))"
    using spilled_join.view_run_init [of ins line cid] by (simp add: fold_text client_items_def)
  then show ?thesis
    using iter_lines_content [of ?sp cid]
    by (cases "iter_lines ?sp cid") (simp add: stream_responses_def iter_chunks_def stream_bodies concat_chunk_loop)
qed

text \<open>The columns of a payment the answer shows, and those of a row.\<close>

definition shown :: "transaction \<Rightarrow> string \<times> string \<times> string \<times> amount" where
  "shown t = (t_from_bank t, t_from_account t, t_payment_format t, t_amount_paid t)"

definition row_shown :: "trans_row \<Rightarrow> string \<times> string \<times> string \<times> amount" where
  "row_shown r = (int_str (tr_from_bank r), tr_from_account r, tr_format r, tr_paid r)"

lemma reads_format_total:
  assumes "list_all2 reads rows ts"
  shows "format_total f ts = (sum_list (map tr_paid (of_format f rows)), int (length (of_format f rows)))"
    and "t_payment_format ` set ts = tr_format ` set rows"
proof -
  have "list_all2 reads (of_format f rows) (filter (\<lambda>t. t_payment_format t = f) ts)"
    unfolding of_format_def by (rule reads_filter [OF assms]) (simp add: reads_def)
  then have "map tr_paid (of_format f rows) = map t_amount_paid (filter (\<lambda>t. t_payment_format t = f) ts)"
    by (rule reads_image) (simp add: reads_def)
  then show "format_total f ts = (sum_list (map tr_paid (of_format f rows)), int (length (of_format f rows)))"
    unfolding format_total_def by (metis length_map)
  have "map tr_format rows = map t_payment_format ts" by (rule reads_image [OF assms]) (simp add: reads_def)
  then show "t_payment_format ` set ts = tr_format ` set rows" by (metis list.set_map)
qed

lemma format_avg_mset:
  assumes "mset xs = mset ys"
  shows "format_avg xs f = format_avg ys f"
proof -
  have m: "mset (filter (\<lambda>t. t_payment_format t = f) xs) = mset (filter (\<lambda>t. t_payment_format t = f) ys)" using assms by simp
  then have "mset (map t_amount_paid (filter (\<lambda>t. t_payment_format t = f) xs)) = mset (map t_amount_paid (filter (\<lambda>t. t_payment_format t = f) ys))"
    by (simp only: mset_map)
  then have "format_total f xs = format_total f ys"
    unfolding format_total_def using mset_eq_length [OF m] by (metis sum_mset_sum_list)
  then show ?thesis unfolding format_avg_def mset_eq_setD [OF assms] by simp
qed

lemma reads_avg:
  assumes "pandas_ok pd" "list_all2 reads rows ts"
  shows "map_of (pd_means pd rows) f = format_avg ts f"
  unfolding formats_facts(3) [OF assms(1)] format_avg_def reads_format_total(2) [OF assms(2)] reads_format_total(1) [OF assms(2)]
  by (simp add: mean_def)

text \<open>
  UC1's answer goes through the same stream: whatever batches of filtered payments its join receives,
  in any order, the responses hold one line for each payment the script selects.
\<close>

lemma uc1_answer_is_reference:
  assumes "pandas_ok pd" "list_all2 reads df ts"
    and "mset (concat (client_items cid ins)) = mset (filter (filter_spec UC1Filter) ts)"
  shows "concat (map fst (fst (uc1_responses (foldl (\<lambda>sp (c, ts). uc1_join repr sp c ts) (new_spill []) ins) cid n))) =
      ''--- UC1 ---'' @ concat (map (uc1_line repr) (concat (client_items cid ins))) @ newline \<and>
    mset (map (\<lambda>t. (t_from_bank t, t_from_account t, t_to_bank t, t_to_account t, t_amount_paid t)) (concat (client_items cid ins))) =
      mset (map (\<lambda>(b, acc, b', acc', x). (int_str b, acc, int_str b', acc', x)) (gen_uc1_results pd df))"
proof -
  let ?row = "\<lambda>r. (int_str (tr_from_bank r), tr_from_account r, int_str (tr_to_bank r), tr_to_account r, tr_paid r)"
  let ?pay = "\<lambda>t. (t_from_bank t, t_from_account t, t_to_bank t, t_to_account t, t_amount_paid t)"
  have "list_all2 reads (filter (\<lambda>r. usd_row r \<and> tr_paid r < 50) df) (filter (filter_spec UC1Filter) ts)"
    by (rule reads_filter [OF assms(2)]) (auto simp: reads_masks, auto simp: reads_def)
  then have "map ?row (filter (\<lambda>r. usd_row r \<and> tr_paid r < 50) df) = map ?pay (filter (filter_spec UC1Filter) ts)"
    by (rule reads_image) (simp add: reads_def)
  moreover have "map (\<lambda>(b, acc, b', acc', x). (int_str b, acc, int_str b', acc', x)) (gen_uc1_results pd df) =
      map ?row (filter (\<lambda>r. usd_row r \<and> tr_paid r < 50) df)"
    by (simp add: gen_uc1_results_def where_filter [OF assms(1)] uc1_cols_def)
  ultimately show ?thesis
    using assms(3) unfolding uc1_responses_def uc1_join_def by (simp add: stream_text)
qed

section \<open>Property\<close>


definition uc3_single_run ::
    "pyhash \<Rightarrow> (amount \<Rightarrow> string) \<Rightarrow> nat \<Rightarrow> uuid \<Rightarrow> transaction list list \<Rightarrow> transaction list list \<Rightarrow> uc3_run" where
  "uc3_single_run h repr chunk cid batches period_b =
     (let summing = map (Pair cid) (by_affinity (concat (map (group_uc3_sum h) batches)) 1 0);
          merging = map (\<lambda>ts. (cid, Inr ts)) period_b @ map (\<lambda>d. (cid, Inl d)) (map fst (sum_out h cid summing));
          filtering = map (Pair cid) (uc3_merge_out repr chunk cid merging)
      in \<lparr>u3_batches = batches, u3_period_b = period_b, u3_sum = [summing], u3_merge = [merging], u3_filter = [filtering],
          u3_join = map (Pair cid) (map (kept_below cid) (client_items cid filtering))\<rparr>)"

lemma uc3_single_delivers: "uc3_delivers h repr chunk cid (uc3_single_run h repr chunk cid batches period_b)"
  unfolding uc3_delivers_def uc3_single_run_def Let_def by (auto simp del: map_map)

lemma uc3_single_spillable:
  "\<forall>t\<in>set (concat period_b). spillable repr t \<Longrightarrow> uc3_spillable repr (uc3_single_run h repr chunk cid batches period_b)"
  by (auto simp: uc3_spillable_def uc3_single_run_def Let_def)

definition two_floats :: "amount \<Rightarrow> string" where
  "two_floats x = (if x = 3 then ''3.0'' else ''0.5'')"


end
