(* ===== verification/UC5_Pipeline.thy ===== *)
theory UC5_Pipeline
  imports UC2_Pipeline Conversion
begin

text \<open>
  UC5 from its filtered payments to the response: the converters to US dollars, the filter of the
  amounts below one, the counts and the join, wired as the deployment wires them (\<open>gen_uc5.py\<close>), against
  the reference script.  The rates are those of the conversion service, which the pipeline asks in
  \<open>date\<close>s and the script in texts.

  \<open>uc5_answer_is_reference\<close>: whatever the run and however many requests fail, the count in the response
  is the one the script computes.
\<close>

section \<open>The stages and their wiring\<close>

text \<open>A converter's messages to the filters; \<open>None\<close> when a request is retried for ever.\<close>

fun convert_out :: "(nat \<Rightarrow> date \<Rightarrow> rates result) \<Rightarrow> pyhash \<Rightarrow> converter \<Rightarrow> message list \<Rightarrow> message list option" where
  "convert_out api h cv [] = Some []"
| "convert_out api h cv (m # ms) =
     (case group_uc5_convert api h cv m of
        None \<Rightarrow> None
      | Some (Inl e, cv1) \<Rightarrow> convert_out api h cv1 ms
      | Some (Inr outs, cv1) \<Rightarrow> map_option (\<lambda>rest. map fst outs @ rest) (convert_out api h cv1 ms))"

definition results :: "('a \<Rightarrow> 'b result) \<Rightarrow> 'a list \<Rightarrow> 'b list" where
  "results f xs = concat (map (\<lambda>x. case f x of Inl _ \<Rightarrow> [] | Inr y \<Rightarrow> [y]) xs)"

text \<open>The client's payments in the messages of an inbox.\<close>

definition payments :: "uuid \<Rightarrow> message list \<Rightarrow> transaction list list" where
  "payments cid ms = concat (map (\<lambda>m. case msg_payload m of Transactions ts \<Rightarrow> if msg_client m = Some cid then [ts] else [] | _ \<Rightarrow> []) ms)"

definition counts_of :: "message list \<Rightarrow> (uuid \<times> int) list" where
  "counts_of ms = concat (map (\<lambda>m. case (msg_client m, msg_payload m) of (Some c, TransactionCount n) \<Rightarrow> [(c, n)] | _ \<Rightarrow> []) ms)"

record uc5_run =
  u5_batches :: "transaction list list"
  u5_convert :: "message list list"
  u5_filter :: "message list"
  u5_count :: "message list"
  u5_join :: "(uuid \<times> int) list"

text \<open>
  The filters and the counting group-bys keep no state between messages, so that what all workers of
  such a stage received is one list.
\<close>

definition uc5_delivers :: "(nat \<Rightarrow> date \<Rightarrow> rates result) \<Rightarrow> pyhash \<Rightarrow> uuid \<Rightarrow> uc5_run \<Rightarrow> bool" where
  "uc5_delivers api h cid r \<longleftrightarrow>
     mset (payments cid (concat (u5_convert r))) = mset (u5_batches r) \<and>
     mset (u5_filter r) = mset (concat (map (\<lambda>ms. case convert_out api h new_converter ms of None \<Rightarrow> [] | Some out \<Rightarrow> out) (u5_convert r))) \<and>
     mset (u5_count r) = mset (results (filter_msg UC5AmountFilter) (u5_filter r)) \<and>
     mset (u5_join r) = mset (counts_of (map fst (concat (results (group_by_msg UC5CountGroupBy h) (u5_count r)))))"

text \<open>The inboxes of the converters hold payments of clients, with parsed timestamps.\<close>

definition payment_message :: "message \<Rightarrow> bool" where
  "payment_message m \<longleftrightarrow> (\<exists>c ts. msg_client m = Some c \<and> msg_payload m = Transactions ts \<and> (\<forall>t\<in>set ts. timed t))"

definition uc5_fed :: "uc5_run \<Rightarrow> bool" where
  "uc5_fed r \<longleftrightarrow> (\<forall>ms\<in>set (u5_convert r). \<forall>m\<in>set ms. payment_message m)"

section \<open>The converters\<close>

definition converted_message :: "(date \<Rightarrow> rates) \<Rightarrow> message \<Rightarrow> message" where
  "converted_message R m =
     new_message (the (msg_client m)) (Transactions (case msg_payload m of Transactions ts \<Rightarrow> map (usd_of R) ts | _ \<Rightarrow> []))"

lemma convert_message:
  assumes "eventually_answers api R" "cache_ok R cv" "payment_message m"
  shows "\<exists>cv' a. group_uc5_convert api h cv m = Some (Inr [(converted_message R m, a)], cv') \<and> cache_ok R cv'"
proof -
  from assms(3) obtain c ts where m: "msg_client m = Some c" "msg_payload m = Transactions ts" "\<forall>t\<in>set ts. timed t"
    unfolding payment_message_def by blast
  from convert_list_total [OF assms(1,2) m(3)] m(1,2) show ?thesis
    by (auto simp: group_uc5_convert_def transactions_of_def client_of_msg_def converted_message_def)
qed

lemma convert_out_total:
  assumes "eventually_answers api R"
  shows "cache_ok R cv \<Longrightarrow> \<forall>m\<in>set ms. payment_message m \<Longrightarrow> convert_out api h cv ms = Some (map (converted_message R) ms)"
proof (induction ms arbitrary: cv)
  case (Cons m ms)
  from convert_message [OF assms Cons.prems(1), of m h] Cons.prems(2) obtain cv' a
    where "group_uc5_convert api h cv m = Some (Inr [(converted_message R m, a)], cv')" "cache_ok R cv'" by auto
  with Cons.IH [of cv'] Cons.prems(2) show ?case by simp
qed simp

section \<open>The filters, the counts and the join\<close>

definition cheap :: "(date \<Rightarrow> rates) \<Rightarrow> transaction \<Rightarrow> bool" where
  "cheap R t \<longleftrightarrow> t_amount_paid (usd_of R t) < 1"

definition payload_list :: "message \<Rightarrow> transaction list" where
  "payload_list m = (case msg_payload m of Transactions ts \<Rightarrow> ts | _ \<Rightarrow> [])"

definition counted_message :: "(date \<Rightarrow> rates) \<Rightarrow> message \<Rightarrow> uuid \<times> int" where
  "counted_message R m = (the (msg_client m), int (length (filter (cheap R) (payload_list m))))"

lemma results_map: "(\<And>x. x \<in> set xs \<Longrightarrow> f (g x) = Inr (k x)) \<Longrightarrow> results f (map g xs) = map k xs"
  by (induction xs) (simp_all add: results_def)

lemma results_mset: "mset xs = mset ys \<Longrightarrow> mset (results f xs) = mset (results f ys)"
  unfolding results_def by (intro mset_concat_cong) (simp only: mset_map)

lemma counts_of_mset: "mset xs = mset ys \<Longrightarrow> mset (counts_of xs) = mset (counts_of ys)"
  unfolding counts_of_def by (intro mset_concat_cong) (simp only: mset_map)

lemma filter_converted:
  assumes "payment_message m"
  shows "filter_msg UC5AmountFilter (converted_message R m) =
    Inr (new_message (the (msg_client m)) (Transactions (map (usd_of R) (filter (cheap R) (payload_list m)))))"
proof -
  from assms obtain c ts where m: "msg_client m = Some c" "msg_payload m = Transactions ts" "\<forall>t\<in>set ts. timed t"
    unfolding payment_message_def by blast
  have timed: "timed t" if "t \<in> set (map (usd_of R) ts)" for t
    using that m(3) by (auto simp: timed_def usd_of_def converted_def)
  have "filter_msg UC5AmountFilter (new_message c (Transactions (map (usd_of R) ts))) =
      Inr (new_message c (Transactions (filter (filter_spec UC5AmountFilter) (map (usd_of R) ts))))"
    using filter_msg_simple [of UC5AmountFilter "map (usd_of R) ts"] timed
    by (simp add: simple_filters_def new_message_def has_client_def)
  moreover have "filter (filter_spec UC5AmountFilter) (map (usd_of R) ts) = map (usd_of R) (filter (cheap R) ts)"
    by (simp add: filter_map comp_def cheap_def [abs_def])
  ultimately show ?thesis by (simp add: converted_message_def payload_list_def m(1,2))
qed

lemma count_filtered:
  "group_by_msg UC5CountGroupBy h (new_message c (Transactions ts)) = Inr [(new_message c (TransactionCount (int (length ts))), h_uuid h c)]"
  by (simp add: group_by_msg_def client_of_msg_def new_message_def has_client_def group_uc5_count_def)

definition count_message :: "(date \<Rightarrow> rates) \<Rightarrow> message \<Rightarrow> message" where
  "count_message R m = new_message (the (msg_client m)) (TransactionCount (snd (counted_message R m)))"

lemma counts_of_counts: "counts_of (map (count_message R) ms) = map (counted_message R) ms"
  by (induction ms) (simp_all add: counts_of_def count_message_def new_message_def has_client_def counted_message_def)

lemma concat_pairs: "map fst (concat (map (\<lambda>m. [(f m, g m)]) ms)) = map f ms"
  by (induction ms) simp_all

lemma run_counts:
  assumes "eventually_answers api R" "uc5_delivers api h cid r" "uc5_fed r"
  shows "mset (u5_join r) = mset (map (counted_message R) (concat (u5_convert r)))"
proof -
  let ?M = "concat (u5_convert r)"
  let ?f = "\<lambda>m. new_message (the (msg_client m)) (Transactions (map (usd_of R) (filter (cheap R) (payload_list m))))"
  note d = assms(2) [unfolded uc5_delivers_def]
  have fed: "\<forall>m\<in>set ms. payment_message m" if "ms \<in> set (u5_convert r)" for ms
    using assms(3) that unfolding uc5_fed_def by blast
  then have M: "payment_message m" if "m \<in> set ?M" for m using that by auto
  have "cache_ok R new_converter" by (simp add: cache_ok_def new_converter_def)
  note out = convert_out_total [OF assms(1) this]
  have "concat (map (\<lambda>ms. case convert_out api h new_converter ms of None \<Rightarrow> [] | Some out \<Rightarrow> out) (u5_convert r)) =
      concat (map (map (converted_message R)) (u5_convert r))"
    by (intro arg_cong [where f = concat] map_cong refl) (simp add: out fed)
  then have "mset (u5_filter r) = mset (map (converted_message R) ?M)" using d by (simp add: map_concat)
  note filt = results_mset [OF this, of "filter_msg UC5AmountFilter"]
  have "results (filter_msg UC5AmountFilter) (map (converted_message R) ?M) = map ?f ?M"
    by (rule results_map) (rule filter_converted [OF M])
  with filt have "mset (u5_count r) = mset (map ?f ?M)" using d by simp
  note cnt = results_mset [OF this, of "group_by_msg UC5CountGroupBy h"]
  have "results (group_by_msg UC5CountGroupBy h) (map ?f ?M) = map (\<lambda>m. [(count_message R m, h_uuid h (the (msg_client m)))]) ?M"
    by (rule results_map) (simp add: count_filtered count_message_def counted_message_def)
  with cnt have "mset (results (group_by_msg UC5CountGroupBy h) (u5_count r)) =
      mset (map (\<lambda>m. [(count_message R m, h_uuid h (the (msg_client m)))]) ?M)" by simp
  from mset_concat_cong [OF this] have "mset (map fst (concat (results (group_by_msg UC5CountGroupBy h) (u5_count r)))) =
      mset (map fst (concat (map (\<lambda>m. [(count_message R m, h_uuid h (the (msg_client m)))]) ?M)))"
    by (simp only: mset_map)
  from counts_of_mset [OF this [unfolded concat_pairs]] show ?thesis
    using d unfolding counts_of_counts by simp
qed

text \<open>The sum of what the join received of a client.\<close>

lemma client_items_mset: "mset xs = mset ys \<Longrightarrow> mset (client_items cid xs) = mset (client_items cid ys)"
  by (simp add: client_items_def)

lemma sum_counted:
  "\<forall>m\<in>set ms. payment_message m \<Longrightarrow>
   sum_list (client_items cid (map (counted_message R) ms)) = int (length (filter (cheap R) (concat (payments cid ms))))"
proof (induction ms)
  case (Cons m ms)
  from Cons.prems obtain c ts where m: "msg_client m = Some c" "msg_payload m = Transactions ts"
    by (auto simp: payment_message_def)
  have "payments cid (m # ms) = (if c = cid then [ts] else []) @ payments cid ms" by (simp add: payments_def m)
  then show ?case using Cons by (simp add: client_items_def counted_message_def payload_list_def m)
qed (simp add: payments_def client_items_def)

lemma foldl_sum: "foldl (+) n xs = n + sum_list xs" for n :: int
  by (induction xs arbitrary: n) simp_all

lemma run_uc5_count:
  assumes "eventually_answers api R" "uc5_delivers api h cid r" "uc5_fed r"
  shows "dict_get (foldl (\<lambda>st (c, n). uc5_join st c n) [] (u5_join r)) cid 0 = int (length (filter (cheap R) (concat (u5_batches r))))"
proof -
  have "\<forall>m\<in>set (concat (u5_convert r)). payment_message m" using assms(3) by (auto simp: uc5_fed_def)
  note s = sum_counted [OF this, of cid R]
  have "mset (payments cid (concat (u5_convert r))) = mset (u5_batches r)" using assms(2) by (simp add: uc5_delivers_def)
  from mset_concat_cong [OF this] have "mset (filter (cheap R) (concat (payments cid (concat (u5_convert r))))) =
      mset (filter (cheap R) (concat (u5_batches r)))" by simp
  note len = mset_eq_length [OF this]
  have "sum_list (client_items cid (u5_join r)) = sum_list (client_items cid (map (counted_message R) (concat (u5_convert r))))"
    using client_items_mset [OF run_counts [OF assms]] by (metis sum_mset_sum_list)
  moreover have "dict_get (foldl (\<lambda>st (c, n). uc5_join st c n) [] (u5_join r)) cid 0 = sum_list (client_items cid (u5_join r))"
    using count_join.view_run_init [of "u5_join r" cid] by (simp add: foldl_sum client_items_def)
  ultimately show ?thesis unfolding s len by simp
qed

section \<open>The script's rates\<close>

definition iso_day :: "date \<Rightarrow> string" where
  "iso_day D = (case D of (y, m, d) \<Rightarrow>
     fixed_digits 10 4 (nat y) @ ''-'' @ fixed_digits 10 2 (nat m) @ ''-'' @ fixed_digits 10 2 (nat d))"

lemma fixed_digits_inj:
  assumes "0 < k" "m < 10 ^ k" "n < 10 ^ k" "fixed_digits 10 k m = fixed_digits 10 k n"
  shows "m = n"
proof -
  have "parse_int (fixed_digits 10 k n) = Inr (int m)" using parse_int_fixed [OF assms(1,2)] unfolding assms(4) .
  then have "Inr (int n) = (Inr (int m) :: int result)" unfolding parse_int_fixed [OF assms(1,3)] .
  then show ?thesis by simp
qed

lemma iso_day_inj:
  assumes "valid_datetime a" "valid_datetime b" "iso_day (date_of a) = iso_day (date_of b)"
  shows "date_of a = date_of b"
proof -
  note v = valid_ranges [OF assms(1)] valid_ranges [OF assms(2)]
  have p: "0 \<le> dt_year x \<and> 0 \<le> dt_month x \<and> 0 \<le> dt_day x" if "valid_datetime x" for x
    using that by (simp add: valid_datetime_def)
  note e = assms(3) [unfolded iso_day_def date_of_def prod.case]
  have y: "fixed_digits 10 4 (nat (dt_year a)) = fixed_digits 10 4 (nat (dt_year b))"
    using e by (rule append_eq_append_conv [THEN iffD1, THEN conjunct1, rotated]) simp
  from e have e2: "fixed_digits 10 2 (nat (dt_month a)) @ ''-'' @ fixed_digits 10 2 (nat (dt_day a)) =
      fixed_digits 10 2 (nat (dt_month b)) @ ''-'' @ fixed_digits 10 2 (nat (dt_day b))"
    unfolding y same_append_eq append_Cons append_Nil list.inject by (rule conjunct2)
  have m: "fixed_digits 10 2 (nat (dt_month a)) = fixed_digits 10 2 (nat (dt_month b))"
    using e2 by (rule append_eq_append_conv [THEN iffD1, THEN conjunct1, rotated]) simp
  from e2 have d: "fixed_digits 10 2 (nat (dt_day a)) = fixed_digits 10 2 (nat (dt_day b))"
    unfolding m same_append_eq append_Cons append_Nil list.inject by (rule conjunct2)
  have "nat (dt_year a) = nat (dt_year b)" by (rule fixed_digits_inj [OF _ v(1) v(4) y]) simp
  moreover have "nat (dt_month a) = nat (dt_month b)" by (rule fixed_digits_inj [OF _ v(2) v(5) m]) simp
  moreover have "nat (dt_day a) = nat (dt_day b)" by (rule fixed_digits_inj [OF _ v(3) v(6) d]) simp
  ultimately show ?thesis using p [OF assms(1)] p [OF assms(2)] by (simp add: date_of_def eq_nat_nat_iff)
qed

text \<open>The first ten characters of a timestamp, with dashes, are its day.\<close>

lemma day_text: "map (\<lambda>c. if c = CHR ''/'' then CHR ''-'' else c) (take 10 (minute_text d)) = iso_day (date_of d)"
proof -
  have "digit_char (n mod 10) \<noteq> CHR ''/''" for n using decimal_digit [of n] by auto
  then show ?thesis by (simp add: minute_text_def iso_day_def date_of_def fixed_digits_few)
qed

lemma bitcoin_tables:
  assumes "valid_datetime d"
  shows "map_of ref_bitcoin_rates (iso_day (date_of d)) = map_of bitcoin_rates_usd (date_of d)"
proof -
  have "digit_char 0 = CHR ''0''" "digit_char 1 = CHR ''1''" "digit_char 2 = CHR ''2''" "digit_char 3 = CHR ''3''"
    "digit_char 4 = CHR ''4''" "digit_char 5 = CHR ''5''" "digit_char 9 = CHR ''9''" by code_simp+
  then have "iso_day (2022, 9, 1) = ''2022-09-01''" "iso_day (2022, 9, 2) = ''2022-09-02''" "iso_day (2022, 9, 3) = ''2022-09-03''"
    "iso_day (2022, 9, 4) = ''2022-09-04''" "iso_day (2022, 9, 5) = ''2022-09-05''"
    by (simp_all add: iso_day_def fixed_digits_few)
  then have t: "ref_bitcoin_rates = map (\<lambda>(k, x). (iso_day k, x)) bitcoin_rates_usd"
    by (simp add: ref_bitcoin_rates_def bitcoin_rates_usd_def)
  have keys: "\<exists>e. valid_datetime e \<and> k = date_of e" if "(k, x) \<in> set bitcoin_rates_usd" for k x
  proof -
    obtain y m i where k: "k = (y, m, i)" by (cases k)
    have "list_all (\<lambda>((y, m, i), x). y = 2022 \<and> m = 9 \<and> 1 \<le> i \<and> i \<le> 5) bitcoin_rates_usd" by (simp add: bitcoin_rates_usd_def)
    with that have "y = 2022 \<and> m = 9 \<and> 1 \<le> i \<and> i \<le> 5" unfolding list_all_iff k by fastforce
    then show ?thesis unfolding k
      by (intro exI [of _ "day_time i"]) (simp add: day_time_def valid_datetime_def days_in_month_def date_of_def)
  qed
  have "map_of (map (\<lambda>(k, x). (iso_day k, x)) kvs) (iso_day (date_of d)) = map_of kvs (date_of d)"
    if "set kvs \<subseteq> set bitcoin_rates_usd" for kvs
    using that
  proof (induction kvs)
    case (Cons kv kvs)
    obtain k x where kv: "kv = (k, x)" by (cases kv)
    have sub: "set kvs \<subseteq> set bitcoin_rates_usd" "(k, x) \<in> set bitcoin_rates_usd" using Cons.prems by (simp_all add: kv)
    from keys [OF sub(2)] obtain e where e: "valid_datetime e" "k = date_of e" by blast
    have "iso_day (date_of d) = iso_day k \<longleftrightarrow> date_of d = k" unfolding e(2) using iso_day_inj [OF assms e(1)] by metis
    then show ?case using Cons.IH [OF sub(1)] by (simp add: kv)
  qed simp
  then show ?thesis unfolding t by simp
qed

definition ref_cache_ok :: "(date \<Rightarrow> rates) \<Rightarrow> (string, day_rates) dict \<Rightarrow> bool" where
  "ref_cache_ok R cache \<longleftrightarrow>
     (\<forall>d rs. valid_datetime d \<longrightarrow> dict_lookup cache (iso_day (date_of d)) = Some rs \<longrightarrow> rs = with_bitcoin (date_of d) (R (date_of d)))"

text \<open>The service answers the script's requests with the rates of the day.\<close>

definition serves :: "(string \<Rightarrow> day_rates result) \<Rightarrow> (date \<Rightarrow> rates) \<Rightarrow> bool" where
  "serves ref_api R \<longleftrightarrow> (\<forall>d. valid_datetime d \<longrightarrow> ref_api (iso_day (date_of d)) = Inr (R (date_of d)))"

lemma ref_rates:
  assumes "serves ref_api R" "ref_cache_ok R cache" "valid_datetime d"
  shows "\<exists>cache'. ref_get_rates ref_api cache (take 10 (minute_text d)) = Inr (with_bitcoin (date_of d) (R (date_of d)), cache') \<and>
    ref_cache_ok R cache'"
proof (cases "dict_lookup cache (iso_day (date_of d))")
  case None
  have api: "ref_api (iso_day (date_of d)) = Inr (R (date_of d))" using assms(1,3) by (simp add: serves_def)
  let ?rs = "with_bitcoin (date_of d) (R (date_of d))"
  have "ref_cache_ok R (dict_set (iso_day (date_of d)) ?rs cache)"
    unfolding ref_cache_ok_def
  proof (intro allI impI)
    fix e rs
    assume e: "valid_datetime e" "dict_lookup (dict_set (iso_day (date_of d)) ?rs cache) (iso_day (date_of e)) = Some rs"
    show "rs = with_bitcoin (date_of e) (R (date_of e))"
    proof (cases "iso_day (date_of e) = iso_day (date_of d)")
      case True
      then show ?thesis using e iso_day_inj [OF e(1) assms(3)] by simp
    next
      case False
      then show ?thesis using e assms(2) by (simp add: ref_cache_ok_def)
    qed
  qed
  then show ?thesis
    using None api bitcoin_tables [OF assms(3)] by (simp add: ref_get_rates_def day_text with_bitcoin_def Let_def)
next
  case (Some rs)
  then show ?thesis using assms(2,3) by (simp add: ref_get_rates_def day_text ref_cache_ok_def)
qed

lemma usd_amounts_ok:
  assumes "serves ref_api R" "list_all2 reads rows ts"
  shows "ref_cache_ok R cache \<Longrightarrow>
    \<exists>cache'. usd_amounts ref_api cache rows = Inr (map (\<lambda>t. t_amount_paid (usd_of R t)) ts, cache') \<and> ref_cache_ok R cache'"
  using assms(2)
proof (induction arbitrary: cache rule: list_all2_induct)
  case (Cons r rows t ts)
  from Cons(1) obtain d where d: "valid_datetime d" "t_timestamp t = TTime d" "tr_time r = minute_text d"
    and t: "t_amount_paid t = tr_paid r" "t_payment_currency t = tr_currency r" by (auto simp: reads_def)
  from ref_rates [OF assms(1) Cons.prems d(1)] obtain cache1 where
    c1: "ref_get_rates ref_api cache (take 10 (tr_time r)) = Inr (with_bitcoin (date_of d) (R (date_of d)), cache1)" "ref_cache_ok R cache1"
    unfolding d(3) by blast
  from Cons.IH [OF c1(2)] show ?case using c1(1) by (auto simp: usd_of_def converted_def day_of_def d(2) t)
qed simp

section \<open>Property\<close>

text \<open>
  C6.  UC5's answer is the reference answer.  Whatever batches, workers, orders and interleavings a run
  has, and however many requests to the conversion service fail before one is answered, every converter
  returns, the reference script finds every rate it asks for, and the response UC5's join sends a client
  holds the count the script computes from the client's file.
\<close>

theorem uc5_answer_is_reference:
  assumes "pandas_ok pd" "list_all2 reads df ts"
    and "mset (concat (u5_batches r)) = mset (filter (filter_spec UC5Filter) ts)"
    and "eventually_answers api R" "serves ref_api R"
    and "uc5_delivers api h cid r" "uc5_fed r"
  shows "(\<forall>ms\<in>set (u5_convert r). convert_out api h new_converter ms \<noteq> None) \<and>
    (\<exists>n cache. gen_uc5_results pd ref_api [] df = Inr (n, cache) \<and>
       fst (uc5_response (foldl (\<lambda>st (c, n). uc5_join st c n) [] (u5_join r)) cid) =
         [(''--- UC5 ---'' @ newline @ ''count: '' @ int_str (int n) @ newline, True)])"
proof -
  let ?rows = "filter wire_ach_row (filter period_uc5_row df)" and ?ts = "filter (filter_spec UC5Filter) ts"
  have "cache_ok R new_converter" by (simp add: cache_ok_def new_converter_def)
  with convert_out_total [OF assms(4)] assms(7) have out: "\<forall>ms\<in>set (u5_convert r). convert_out api h new_converter ms \<noteq> None"
    unfolding uc5_fed_def by fastforce
  have "list_all2 reads ?rows ?ts"
    unfolding filter_filter by (rule reads_filter [OF assms(2)]) (auto simp: reads_masks)
  moreover have "ref_cache_ok R []" by (simp add: ref_cache_ok_def)
  ultimately obtain cache where "usd_amounts ref_api [] ?rows = Inr (map (\<lambda>t. t_amount_paid (usd_of R t)) ?ts, cache)"
    using usd_amounts_ok [OF assms(5)] by blast
  then have "gen_uc5_results pd ref_api [] df = Inr (length (filter (cheap R) ?ts), cache)"
    by (simp add: gen_uc5_results_def where_filter [OF assms(1)] rows_below [OF assms(1)] filter_map comp_def cheap_def [abs_def] del: filter_filter)
  moreover have "mset (filter (cheap R) (concat (u5_batches r))) = mset (filter (cheap R) ?ts)"
    unfolding mset_filter assms(3) ..
  note mset_eq_length [OF this]
  ultimately show ?thesis using out run_uc5_count [OF assms(4,6,7)] by (simp add: uc5_response_def del: filter_filter)
qed

definition uc5_single_run :: "(nat \<Rightarrow> date \<Rightarrow> rates result) \<Rightarrow> pyhash \<Rightarrow> uuid \<Rightarrow> transaction list list \<Rightarrow> uc5_run" where
  "uc5_single_run api h cid batches =
     (let converting = map (\<lambda>ts. new_message cid (Transactions ts)) batches;
          filtering = (case convert_out api h new_converter converting of None \<Rightarrow> [] | Some out \<Rightarrow> out);
          counting = results (filter_msg UC5AmountFilter) filtering
      in \<lparr>u5_batches = batches, u5_convert = [converting], u5_filter = filtering, u5_count = counting,
          u5_join = counts_of (map fst (concat (results (group_by_msg UC5CountGroupBy h) counting)))\<rparr>)"

lemma payments_own: "payments cid (map (\<lambda>ts. new_message cid (Transactions ts)) batches) = batches"
  by (induction batches) (simp_all add: payments_def new_message_def has_client_def)

lemma uc5_single_delivers: "uc5_delivers api h cid (uc5_single_run api h cid batches)"
  by (simp add: uc5_delivers_def uc5_single_run_def Let_def payments_own)

theorem uc5_answer_is_reference_witness:
  "fst (uc5_response (foldl (\<lambda>st (c, n). uc5_join st c n) []
       (u5_join (uc5_single_run flaky_api demo_hash 7 [[demo_transaction 1 (1 / 2)], [demo_transaction 2 3]]))) 7) =
   [(''--- UC5 ---'' @ newline @ ''count: 1'' @ newline, True)]"
proof -
  let ?a = "demo_transaction 1 (1 / 2)" and ?b = "demo_transaction 2 3"
  let ?r = "uc5_single_run flaky_api demo_hash 7 [[?a], [?b]]"
  let ?R = "\<lambda>_ :: date. [(''US Dollar'', 1 :: amount), (''Euro'', 2)]" and ?api = "\<lambda>_ :: string. Inr [(''US Dollar'', 1), (''Euro'', 2)] :: day_rates result"
  have reads: "list_all2 reads [demo_row 1 (1 / 2), demo_row 2 3] [?a, ?b]" by (simp add: demo_reads)
  have r: "u5_batches ?r = [[?a], [?b]]" by (simp add: uc5_single_run_def Let_def)
  have f: "mset (concat (u5_batches ?r)) = mset (filter (filter_spec UC5Filter) [?a, ?b])"
    unfolding r by (simp add: on_days_def demo_transaction_def day_time_def)
  have fed: "uc5_fed ?r"
    by (simp add: uc5_fed_def uc5_single_run_def Let_def payment_message_def new_message_def has_client_def timed_demo)
  have g: "gen_uc5_results list_pandas ?api [] [demo_row 1 (1 / 2), demo_row 2 3] =
      Inr (1, snd (projr (gen_uc5_results list_pandas ?api [] [demo_row 1 (1 / 2), demo_row 2 3])))" by code_simp
  have "int_str 1 = ''1''" by code_simp
  then show ?thesis
    using uc5_answer_is_reference [OF list_pandas_ok reads f flaky_answers _ uc5_single_delivers fed, of ?api] g
    by (auto simp: serves_def)
qed

end
