(* ===== verification/Deployment.thy ===== *)
theory Deployment
  imports Pystr
begin

text \<open>
  The generator of the deployment (\<open>scripts/gen_compose\<close>).  A service block of the compose file is
  the record of what its f-string interpolates: the container, the image it is built from, its
  restart policy, its environment in the order it is written and its volumes.  The list of
  supervised nodes the generator keeps in a module variable is threaded through.  The environment
  of the generator and of \<open>docker compose\<close> is a map from names to values; the sizes of the rings are
  the record \<open>topology\<close>.
\<close>

section \<open>The blocks and the environment they are generated in\<close>

type_synonym env = "(string \<times> string) list"

record container =
  ct_name :: string
  ct_docker :: string
  ct_restart :: "string option"
  ct_env :: env
  ct_volumes :: "(string \<times> string) list"

record gen_env =
  ge_var :: "string \<Rightarrow> string option"
  ge_nclients :: nat
  ge_accounts :: string

text \<open>\<open>${NAME:-default}\<close> of \<open>docker compose\<close>: the default also replaces an empty value.\<close>

definition interpolate :: "gen_env \<Rightarrow> string \<Rightarrow> string \<Rightarrow> string" where
  "interpolate ge k d = (case ge_var ge k of None \<Rightarrow> d | Some v \<Rightarrow> if v = [] then d else v)"

definition checkpoint_every :: "gen_env \<Rightarrow> int result" where
  "checkpoint_every ge = parse_int (case ge_var ge ''CHECKPOINT_EVERY'' of None \<Rightarrow> ''1000'' | Some v \<Rightarrow> v)"

definition restart_line :: "gen_env \<Rightarrow> string option" where
  "restart_line ge = (if ge_var ge ''GEN_RESTART_ON_FAILURE'' = Some ''1'' then Some ''on-failure'' else None)"

definition logging_level :: "gen_env \<Rightarrow> string" where
  "logging_level ge = (case ge_var ge ''LOGGING_LEVEL'' of None \<Rightarrow> ''WARNING'' | Some v \<Rightarrow> v)"

text \<open>The sizes, \<open>topology.py\<close>.\<close>

record topology =
  default_filters :: nat
  uc2_max_amount_group_bys :: nat
  uc2_max_amount_aggregates :: nat
  uc2_bank_names_group_bys :: nat
  uc2_bank_names_aggregates :: nat
  uc2_merges :: nat
  uc3_group_bys :: nat
  uc3_aggregates :: nat
  uc3_merges :: nat
  uc3_filters :: nat
  uc4_compute_graphs :: nat
  uc4_aggregate_graphs :: nat
  uc4_degree_aggregates :: nat
  uc4_prunes :: nat
  uc4_count_paths :: nat
  uc4_paths_aggregates :: nat
  uc5_converters :: nat
  uc5_amount_filters :: nat
  uc5_count_group_bys :: nat
  join_partition :: "nat list list"

definition the_topology :: topology where
  "the_topology =
     \<lparr>default_filters = 2, uc2_max_amount_group_bys = 2, uc2_max_amount_aggregates = 2,
      uc2_bank_names_group_bys = 2, uc2_bank_names_aggregates = 2, uc2_merges = 2,
      uc3_group_bys = 2, uc3_aggregates = 2, uc3_merges = 2, uc3_filters = 2,
      uc4_compute_graphs = 2, uc4_aggregate_graphs = 2, uc4_degree_aggregates = 2, uc4_prunes = 2,
      uc4_count_paths = 2, uc4_paths_aggregates = 2,
      uc5_converters = 2, uc5_amount_filters = 2, uc5_count_group_bys = 2,
      join_partition = [[1], [3], [2, 4, 5]]\<rparr>"

section \<open>Generators\<close>

text \<open>A generator yields blocks and extends the list of supervised nodes; \<open>compose += ...\<close>.\<close>

type_synonym generator = "string list \<Rightarrow> container list \<times> string list"

definition plus_gen :: "generator \<Rightarrow> generator \<Rightarrow> generator" where
  "plus_gen f g nodes = (case f nodes of (xs, nodes) \<Rightarrow> case g nodes of (ys, nodes) \<Rightarrow> (xs @ ys, nodes))"

fun for_range :: "('i \<Rightarrow> string list \<Rightarrow> container \<times> string list) \<Rightarrow> 'i list \<Rightarrow> generator" where
  "for_range f [] nodes = ([], nodes)"
| "for_range f (i # is) nodes =
     (case f i nodes of (x, nodes) \<Rightarrow> case for_range f is nodes of (xs, nodes) \<Rightarrow> (x # xs, nodes))"

definition supervisor_env :: "gen_env \<Rightarrow> string \<Rightarrow> string \<Rightarrow> string list \<Rightarrow> env \<times> string list" where
  "supervisor_env ge name kind nodes =
     ([(''SUPERVISOR_HOST'', ''supervisor''), (''SUPERVISOR_PORT'', ''9100''), (''NODE_NAME'', name),
       (''NODE_KIND'', kind), (''HEARTBEAT_INTERVAL'', interpolate ge ''HEARTBEAT_INTERVAL'' ''1'')],
      if name \<in> set nodes then nodes else nodes @ [name])"

text \<open>One node of a ring, the body of the loop of \<open>gen_nodes\<close>.  Of \<open>checkpoint_every\<close> only whether it
  is \<open>None\<close> is read: the value is the module's constant.\<close>

definition node_service ::
    "gen_env \<Rightarrow> int \<Rightarrow> string \<Rightarrow> string \<Rightarrow> nat \<Rightarrow> nat \<Rightarrow> string \<Rightarrow> string \<Rightarrow> int option \<Rightarrow> bool \<Rightarrow> env \<Rightarrow>
     nat \<Rightarrow> string list \<Rightarrow> container \<times> string list" where
  "node_service ge ck type2 strategy npeers naffinity rx tx checkpoint broadcast extra idx nodes =
     (let name = strategy @ ''_'' @ nat_str idx in
      case supervisor_env ge name type2 nodes of (sve, nodes) \<Rightarrow>
        (\<lparr>ct_name = name, ct_docker = type2, ct_restart = restart_line ge,
          ct_env =
            [(''MOM_HOST'', ''rabbitmq''), (''MOM_PORT'', ''5672''), (''STRATEGY'', strategy), (''RX'', rx), (''TX'', tx),
             (''IDX'', nat_str idx), (''NPEERS'', nat_str npeers), (''RING_NAME'', strategy @ ''_ring''),
             (''NAFFINITY_DOWNSTREAM'', nat_str naffinity),
             (''BROADCAST_DOWNSTREAM'', if broadcast then ''1'' else ''0''),
             (''PYTHONHASHSEED'', ''2026''), (''PYTHONUNBUFFERED'', ''1''), (''LOGGING_LEVEL'', logging_level ge)]
            @ extra @ sve
            @ (case checkpoint of None \<Rightarrow> [] | Some _ \<Rightarrow> [(''STATE_DIR'', ''/state''), (''CHECKPOINT_EVERY'', int_str ck)]),
          ct_volumes = (case checkpoint of None \<Rightarrow> [] | Some _ \<Rightarrow> [(name @ ''_state'', ''/state'')])\<rparr>,
         nodes))"

definition gen_nodes ::
    "gen_env \<Rightarrow> int \<Rightarrow> string \<Rightarrow> string \<Rightarrow> nat \<Rightarrow> nat \<Rightarrow> string \<Rightarrow> string \<Rightarrow> int option \<Rightarrow> bool \<Rightarrow> env \<Rightarrow> generator" where
  "gen_nodes ge ck type2 strategy npeers naffinity rx tx checkpoint broadcast extra =
     for_range (node_service ge ck type2 strategy npeers naffinity rx tx checkpoint broadcast extra) [0..<npeers]"

definition merge_service ::
    "gen_env \<Rightarrow> int \<Rightarrow> string \<Rightarrow> string \<Rightarrow> string \<Rightarrow> string \<Rightarrow> nat \<Rightarrow> int option \<Rightarrow> nat \<Rightarrow> string \<Rightarrow>
     nat \<Rightarrow> string list \<Rightarrow> container \<times> string list" where
  "merge_service ge ck strategy left right tx naffinity checkpoint npeers ring_name idx nodes =
     (let container = strategy @ ''_'' @ nat_str idx in
      case supervisor_env ge container ''merge'' nodes of (sve, nodes) \<Rightarrow>
        (\<lparr>ct_name = container, ct_docker = ''merge'', ct_restart = restart_line ge,
          ct_env =
            [(''MOM_HOST'', ''rabbitmq''), (''MOM_PORT'', ''5672''), (''LEFT_RX'', left), (''RIGHT_RX'', right), (''TX'', tx),
             (''STRATEGY'', strategy), (''NAFFINITY_DOWNSTREAM'', nat_str naffinity)]
            @ sve
            @ [(''IDX'', nat_str idx), (''NPEERS'', nat_str npeers), (''RING_NAME'', ring_name)]
            @ (case checkpoint of None \<Rightarrow> [] | Some _ \<Rightarrow> [(''STATE_DIR'', ''/state''), (''CHECKPOINT_EVERY'', int_str ck)]),
          ct_volumes = (case checkpoint of None \<Rightarrow> [] | Some _ \<Rightarrow> [(container @ ''_state'', ''/state'')])\<rparr>,
         nodes))"

definition gen_merge ::
    "gen_env \<Rightarrow> int \<Rightarrow> string \<Rightarrow> string \<Rightarrow> string \<Rightarrow> string \<Rightarrow> int option \<Rightarrow> nat \<Rightarrow> nat \<Rightarrow> generator" where
  "gen_merge ge ck strategy left right tx checkpoint naffinity npeers =
     for_range (merge_service ge ck strategy left right tx naffinity checkpoint npeers (strategy @ ''_ring'')) [0..<npeers]"

section \<open>The services\<close>

definition gen_gateway :: "gen_env \<Rightarrow> topology \<Rightarrow> generator" where
  "gen_gateway ge tp nodes =
     (case supervisor_env ge ''gateway'' ''gateway'' nodes of (sve, nodes) \<Rightarrow>
        ([\<lparr>ct_name = ''gateway'', ct_docker = ''gateway'', ct_restart = None,
           ct_env =
             [(''GATEWAY_HOST'', ''gateway''), (''GATEWAY_PORT'', ''12345''), (''MOM_HOST'', ''rabbitmq''), (''MOM_PORT'', ''5672''),
              (''SERVER_QUEUE_RX'', ''responses''), (''TRANSACTIONS_TX'', ''client_transactions''),
              (''ACCOUNTS_TX'', ''client_accounts''), (''NDEFAULT_FILTERS'', nat_str (default_filters tp)),
              (''NBANK_NAMES'', nat_str (uc2_bank_names_group_bys tp))] @ sve,
           ct_volumes = []\<rparr>], nodes))"

text \<open>\<open>_ROUTE_SHARDS\<close> and the filters that serve every use case.\<close>

definition route_shards :: "topology \<Rightarrow> (string \<times> nat) list" where
  "route_shards tp =
     [(''UC1_TRANSACTIONS_SHARDS'', 0), (''UC2_TRANSACTIONS_SHARDS'', uc2_max_amount_group_bys tp),
      (''UC3_PERIOD_A_SHARDS'', uc3_group_bys tp), (''UC3_PERIOD_B_SHARDS'', uc3_merges tp),
      (''UC4_TRANSACTIONS_SHARDS'', uc4_compute_graphs tp), (''UC5_TRANSACTIONS_SHARDS'', uc5_converters tp)]"

definition default_filter_service :: "gen_env \<Rightarrow> int \<Rightarrow> topology \<Rightarrow> nat \<Rightarrow> string list \<Rightarrow> container \<times> string list" where
  "default_filter_service ge ck tp idx nodes =
     (let name = ''default_filter_'' @ nat_str idx in
      case supervisor_env ge name ''filter'' nodes of (sve, nodes) \<Rightarrow>
        (\<lparr>ct_name = name, ct_docker = ''filter'', ct_restart = restart_line ge,
          ct_env =
            [(''MOM_HOST'', ''rabbitmq''), (''MOM_PORT'', ''5672''), (''RX'', ''client_transactions''),
             (''UC1_TRANSACTIONS_TX'', ''uc1_join''), (''UC2_TRANSACTIONS_TX'', ''uc2_filtered_transactions''),
             (''UC3_PERIOD_A_TRANSACTIONS_TX'', ''uc3_transactions_period_a''),
             (''UC3_PERIOD_B_TRANSACTIONS_TX'', ''uc3_transactions_period_b''),
             (''UC4_TRANSACTIONS_TX'', ''uc4_filtered_transactions''), (''UC5_TRANSACTIONS_TX'', ''uc5_filtered_transactions'')]
            @ map (\<lambda>(k, n). (k, nat_str n)) (route_shards tp)
            @ [(''IDX'', nat_str idx), (''NPEERS'', nat_str (default_filters tp)), (''RING_NAME'', ''default_filter_ring''),
               (''STRATEGY'', ''default''), (''STATE_DIR'', ''/state''), (''CHECKPOINT_EVERY'', int_str ck)] @ sve,
          ct_volumes = [(name @ ''_state'', ''/state'')]\<rparr>, nodes))"

definition gen_default_filters :: "gen_env \<Rightarrow> int \<Rightarrow> topology \<Rightarrow> generator" where
  "gen_default_filters ge ck tp = for_range (default_filter_service ge ck tp) [0..<default_filters tp]"

definition gen_uc1 :: generator where
  "gen_uc1 nodes = ([], nodes)"

definition gen_uc2 :: "gen_env \<Rightarrow> int \<Rightarrow> topology \<Rightarrow> generator" where
  "gen_uc2 ge ck tp =
     plus_gen (gen_nodes ge ck ''group_by'' ''uc2_max_amount_group_by'' (uc2_max_amount_group_bys tp)
       (uc2_max_amount_aggregates tp) ''uc2_filtered_transactions'' ''uc2_partial_max_amount'' (Some 5) False [])
    (plus_gen (gen_nodes ge ck ''aggregate'' ''uc2_max_amount_aggregate'' (uc2_max_amount_aggregates tp)
       (uc2_merges tp) ''uc2_partial_max_amount'' ''uc2_max_amounts_by_bank'' (Some 5) True [])
    (plus_gen (gen_nodes ge ck ''group_by'' ''uc2_bank_names_group_by'' (uc2_bank_names_group_bys tp)
       (uc2_bank_names_aggregates tp) ''client_accounts'' ''uc2_partial_bank_names'' (Some 5) False [])
    (plus_gen (gen_nodes ge ck ''aggregate'' ''uc2_bank_names_aggregate'' (uc2_bank_names_aggregates tp)
       (uc2_merges tp) ''uc2_partial_bank_names'' ''uc2_bank_id_name_mappings'' (Some 5) False [])
     (gen_merge ge ck ''uc2_merge'' ''uc2_max_amounts_by_bank'' ''uc2_bank_id_name_mappings'' ''uc2_join'' (Some 5) 0
       (uc2_merges tp)))))"

definition gen_uc3 :: "gen_env \<Rightarrow> int \<Rightarrow> topology \<Rightarrow> generator" where
  "gen_uc3 ge ck tp =
     plus_gen (gen_nodes ge ck ''group_by'' ''uc3_group_by_format'' (uc3_group_bys tp)
       (uc3_aggregates tp) ''uc3_transactions_period_a'' ''uc3_sum_by_format'' (Some 5) False [])
    (plus_gen (gen_nodes ge ck ''aggregate'' ''uc3_average_aggregate'' (uc3_aggregates tp)
       (uc3_merges tp) ''uc3_sum_by_format'' ''uc3_avg'' (Some 5) True [])
    (plus_gen (gen_merge ge ck ''uc3_merge'' ''uc3_avg'' ''uc3_transactions_period_b'' ''uc3_average_merged'' (Some 5)
       (uc3_filters tp) (uc3_merges tp))
     (gen_nodes ge ck ''filter'' ''uc3_average_filter'' (uc3_filters tp)
       0 ''uc3_average_merged'' ''uc3_join'' (Some 5) False [])))"

definition gen_uc4 :: "gen_env \<Rightarrow> int \<Rightarrow> topology \<Rightarrow> generator" where
  "gen_uc4 ge ck tp =
     plus_gen (gen_nodes ge ck ''group_by'' ''uc4_compute_graph_group_by'' (uc4_compute_graphs tp)
       (uc4_aggregate_graphs tp) ''uc4_filtered_transactions'' ''uc4_graphs'' (Some 5) False
       [(''TX_DEGREE'', ''uc4_degree_graphs''), (''NAFFINITY_DEGREE'', nat_str (uc4_degree_aggregates tp))])
    (plus_gen (gen_nodes ge ck ''aggregate'' ''uc4_aggregate_graphs'' (uc4_aggregate_graphs tp)
       (uc4_prunes tp) ''uc4_graphs'' ''uc4_graphs_to_prune'' (Some 5) False [])
    (plus_gen (gen_nodes ge ck ''aggregate'' ''uc4_degree_aggregate'' (uc4_degree_aggregates tp)
       (uc4_prunes tp) ''uc4_degree_graphs'' ''uc4_high_degree'' (Some 5) True [])
    (plus_gen (gen_merge ge ck ''uc4_prune'' ''uc4_high_degree'' ''uc4_graphs_to_prune'' ''uc4_pruned'' (Some 5)
       (uc4_count_paths tp) (uc4_prunes tp))
    (plus_gen (gen_nodes ge ck ''aggregate'' ''uc4_count_paths'' (uc4_count_paths tp)
       (uc4_paths_aggregates tp) ''uc4_pruned'' ''uc4_paths'' (Some 5) False [])
     (gen_nodes ge ck ''aggregate'' ''uc4_paths_aggregate'' (uc4_paths_aggregates tp)
       0 ''uc4_paths'' ''uc4_join'' (Some 5) False [])))))"

definition gen_uc5 :: "gen_env \<Rightarrow> int \<Rightarrow> topology \<Rightarrow> generator" where
  "gen_uc5 ge ck tp =
     plus_gen (gen_nodes ge ck ''group_by'' ''uc5_converter'' (uc5_converters tp)
       (uc5_amount_filters tp) ''uc5_filtered_transactions'' ''uc5_converted_transactions'' (Some 5) False [])
    (plus_gen (gen_nodes ge ck ''filter'' ''uc5_amount_filter'' (uc5_amount_filters tp)
       (uc5_count_group_bys tp) ''uc5_converted_transactions'' ''uc5_filtered_converted_transactions'' (Some 5) False [])
     (gen_nodes ge ck ''group_by'' ''uc5_count_group_by'' (uc5_count_group_bys tp)
       0 ''uc5_filtered_converted_transactions'' ''uc5_join'' (Some 5) False []))"

definition join_service :: "gen_env \<Rightarrow> int \<Rightarrow> nat \<times> nat list \<Rightarrow> string list \<Rightarrow> container \<times> string list" where
  "join_service ge ck part nodes =
     (case part of (idx, uc_ids) \<Rightarrow>
      let name = ''join_'' @ nat_str idx in
      case supervisor_env ge name ''join'' nodes of (sve, nodes) \<Rightarrow>
        (\<lparr>ct_name = name, ct_docker = ''join'', ct_restart = restart_line ge,
          ct_env =
            [(''MOM_HOST'', ''rabbitmq''), (''MOM_PORT'', ''5672''), (''UC1_RX'', ''uc1_join''), (''UC2_RX'', ''uc2_join''),
             (''UC3_RX'', ''uc3_join''), (''UC4_RX'', ''uc4_join''), (''UC5_RX'', ''uc5_join''),
             (''JOIN_UCS'', join_on (CHR '','') (map nat_str uc_ids)), (''RESPONSES_TX'', ''responses''),
             (''STATE_DIR'', ''/state''), (''CHECKPOINT_EVERY'', int_str ck)] @ sve,
          ct_volumes = [(name @ ''_state'', ''/state'')]\<rparr>, nodes))"

definition gen_join :: "gen_env \<Rightarrow> int \<Rightarrow> topology \<Rightarrow> generator" where
  "gen_join ge ck tp = for_range (join_service ge ck) (enumerate 0 (join_partition tp))"

definition client_service :: "gen_env \<Rightarrow> nat \<Rightarrow> container" where
  "client_service ge n =
     \<lparr>ct_name = ''client_'' @ nat_str n, ct_docker = ''client'', ct_restart = None,
      ct_env =
        [(''TRANSACTIONS_PATH'', ''/datasets/transactions_'' @ nat_str n @ ''.csv''),
         (''ACCOUNTS_PATH'', ''/datasets/'' @ ge_accounts ge),
         (''RESPONSES_PATH'', ''/responses/responses_'' @ nat_str n @ ''.csv''),
         (''GATEWAY_HOST'', ''gateway''), (''GATEWAY_PORT'', ''12345''), (''NRESPONSES'', ''5''), (''BATCH_SIZE'', ''500'')],
      ct_volumes = [(''./datasets'', ''/datasets''), (''./responses'', ''/responses'')]\<rparr>"

definition gen_clients :: "gen_env \<Rightarrow> container list" where
  "gen_clients ge = map (client_service ge) [0..<ge_nclients ge]"

definition expected_nodes_csv :: "string list \<Rightarrow> string" where
  "expected_nodes_csv nodes = join_on (CHR '','') nodes"

definition supervisor_service :: "gen_env \<Rightarrow> string list \<Rightarrow> nat \<Rightarrow> nat \<Rightarrow> container" where
  "supervisor_service ge nodes nnodes idx =
     \<lparr>ct_name = ''supervisor_'' @ nat_str idx, ct_docker = ''supervisor'', ct_restart = Some ''on-failure'',
      ct_env =
        [(''SUPERVISOR_BIND'', ''0.0.0.0''), (''SUPERVISOR_PORT'', ''9100''), (''INTERNAL_PORT'', ''9101''),
         (''LEADER_PORT'', ''9102''), (''IDX'', nat_str idx), (''NNODES'', nat_str nnodes), (''NODE_PREFIX'', ''supervisor_''),
         (''EXPECTED_NODES'', expected_nodes_csv nodes),
         (''HEARTBEAT_TIMEOUT'', interpolate ge ''HEARTBEAT_TIMEOUT'' ''3''),
         (''REVIVE_INTERVAL'', interpolate ge ''REVIVE_INTERVAL'' ''0.5''), (''LOGGING_LEVEL'', ''WARNING'')],
      ct_volumes = [(''/var/run/docker.sock'', ''/var/run/docker.sock'')]\<rparr>"

definition gen_supervisors :: "gen_env \<Rightarrow> string list \<Rightarrow> container list" where
  "gen_supervisors ge nodes = map (supervisor_service ge nodes 5) [0..<5]"

definition gen_rabbitmq :: container where
  "gen_rabbitmq =
     \<lparr>ct_name = ''rabbitmq'', ct_docker = ''rabbitmq'', ct_restart = None,
      ct_env = [(''RABBITMQ_LOG_LEVELS'', ''error''), (''RABBITMQ_CONFIG_FILE'', ''rabbitmq.conf'')], ct_volumes = []\<rparr>"

definition gen_chaos :: "gen_env \<Rightarrow> container" where
  "gen_chaos ge =
     \<lparr>ct_name = ''chaos'', ct_docker = ''chaos'', ct_restart = None,
      ct_env =
        [(''CHAOS_ENABLED'', interpolate ge ''CHAOS_ENABLED'' ''0''), (''CHAOS_INTERVAL'', interpolate ge ''CHAOS_INTERVAL'' ''10''),
         (''CHAOS_KILLS_MIN'', interpolate ge ''CHAOS_KILLS_MIN'' ''1''), (''CHAOS_KILLS_MAX'', interpolate ge ''CHAOS_KILLS_MAX'' ''5''),
         (''CHAOS_START_DELAY'', interpolate ge ''CHAOS_START_DELAY'' ''5''), (''CHAOS_TARGETS'', interpolate ge ''CHAOS_TARGETS'' []),
         (''CHAOS_EXCLUDE'', interpolate ge ''CHAOS_EXCLUDE'' ''rabbitmq,supervisor,gateway,chaos''),
         (''CHAOS_SEED'', interpolate ge ''CHAOS_SEED'' []), (''LOGGING_LEVEL'', ''INFO'')],
      ct_volumes = [(''/var/run/docker.sock'', ''/var/run/docker.sock'')]\<rparr>"

text \<open>\<open>gen_compose.main\<close>: every supervised node is generated before the supervisors, which read the
  list of their names; \<open>state_volumes_block\<close> declares one volume for each.\<close>

definition gen_pipeline :: "gen_env \<Rightarrow> int \<Rightarrow> topology \<Rightarrow> generator" where
  "gen_pipeline ge ck tp =
     plus_gen (gen_gateway ge tp) (plus_gen (gen_default_filters ge ck tp) (plus_gen gen_uc1
    (plus_gen (gen_uc2 ge ck tp) (plus_gen (gen_uc3 ge ck tp) (plus_gen (gen_uc4 ge ck tp)
    (plus_gen (gen_uc5 ge ck tp) (gen_join ge ck tp)))))))"

definition state_volumes_block :: "string list \<Rightarrow> string list" where
  "state_volumes_block nodes = map (\<lambda>name. name @ ''_state'') nodes"

definition gen_compose :: "gen_env \<Rightarrow> topology \<Rightarrow> (container list \<times> string list) result" where
  "gen_compose ge tp =
     bind_result (checkpoint_every ge) (\<lambda>ck.
       case gen_pipeline ge ck tp [] of (services, nodes) \<Rightarrow>
         Inr (gen_rabbitmq # gen_supervisors ge nodes @ services @ gen_chaos ge # gen_clients ge,
              state_volumes_block nodes))"

end
