(* ===== verification/Wiring.thy ===== *)
theory Wiring
  imports Deployment Ring_Topology Stamping Registry Election
begin

text \<open>
  What the entry points (\<open>main.py\<close> of each service, \<open>join.py\<close>, \<open>heartbeat/factory.py\<close>) make of the
  environment of their container: the queues a node consumes with the exchange and routing key
  each is bound to, the addresses it publishes to with the identity each writer stamps, its place
  in its ring, its checkpoint, and the peers and expected nodes of a supervisor.  The broker
  delivers what is published on an exchange with a routing key to the queues bound to it with that
  key, and what is published on the default exchange to the queue of that name.
\<close>

section \<open>Wirings\<close>

datatype binding = Bound string string | Direct string

type_synonym producer = "string \<times> int \<times> int"

record input =
  in_queue :: string
  in_bind :: binding
  in_prefetch :: int

record wiring =
  wi_inputs :: "input list"
  wi_outputs :: "(binding \<times> producer) list"
  wi_front :: "binding option"
  wi_ckpts :: "(string \<times> int) list"
  wi_responses :: "string option"
  wi_broadcast :: bool

definition environ :: "env \<Rightarrow> string \<Rightarrow> string result" where
  "environ e k = (case map_of e k of None \<Rightarrow> Inl KeyError | Some v \<Rightarrow> Inr v)"

definition getenv :: "env \<Rightarrow> string \<Rightarrow> string \<Rightarrow> string" where
  "getenv e k d = (case map_of e k of None \<Rightarrow> d | Some v \<Rightarrow> v)"

definition int_var :: "env \<Rightarrow> string \<Rightarrow> string \<Rightarrow> int result" where
  "int_var e k d = parse_int (getenv e k d)"

definition path_join :: "string \<Rightarrow> string \<Rightarrow> string" where
  "path_join a b = (if a = [] then b else if last a = CHR ''/'' then a @ b else a @ ''/'' @ b)"

text \<open>The writers of \<open>make_txs\<close>: where each publishes and what its producer id is derived from.\<close>

definition tx_writers :: "int \<Rightarrow> string \<Rightarrow> int \<Rightarrow> (binding \<times> producer) list result" where
  "tx_writers idx tx n =
     (if n < 0 then Inl (ValueError ''downstream nodes amount cannot be less than 0'')
      else if n = 0 then Inr [(Direct tx, (tx, idx, 0))]
      else Inr (map (\<lambda>r. (Bound tx (int_str r), (tx, idx, r))) (map int [0..<nat n])))"

definition checkpoints :: "string option \<Rightarrow> string list \<Rightarrow> int \<Rightarrow> (string \<times> int) list" where
  "checkpoints state_dir node_ids every =
     (case state_dir of
        None \<Rightarrow> []
      | Some d \<Rightarrow> if d = [] then [] else map (\<lambda>n. (path_join d (n @ ''.ckpt''), every)) node_ids)"

text \<open>What the nodes of every ring share: one shard of each input exchange, the ring's own queue, the
  peers and the one in front, and the checkpointer.\<close>

definition ring_wiring ::
    "int \<Rightarrow> int \<Rightarrow> string \<Rightarrow> string list \<Rightarrow> (binding \<times> producer) list \<Rightarrow> bool \<Rightarrow> string option \<Rightarrow> string \<Rightarrow> int \<Rightarrow> wiring result" where
  "ring_wiring idx npeers ring rxs ws broadcast state_dir strategy every =
     (let peer_ids = filter (\<lambda>i. i \<noteq> idx) (map int [0..<nat npeers]) in
      bind_result (get_front_back_ids idx peer_ids) (\<lambda>(front, back).
        Inr \<lparr>wi_inputs =
               map (\<lambda>rx. \<lparr>in_queue = rx @ int_str idx, in_bind = Bound rx (int_str idx), in_prefetch = max every 10\<rparr>) rxs
               @ [\<lparr>in_queue = ring @ ''_queue'' @ int_str idx, in_bind = Bound ring (int_str idx), in_prefetch = 1\<rparr>],
             wi_outputs = ws, wi_front = Some (Bound ring (int_str front)),
             wi_ckpts = checkpoints state_dir [strategy @ ''_'' @ int_str idx] every,
             wi_responses = None, wi_broadcast = broadcast\<rparr>))"

section \<open>The entry points\<close>

text \<open>\<open>filter/main.py\<close>\<close>

definition route_table :: "env \<Rightarrow> (string \<times> string) list result" where
  "route_table e =
     map_result (\<lambda>(tx_env, shards_env). bind_result (environ e tx_env) (\<lambda>tx. Inr (tx, shards_env)))
       [(''UC1_TRANSACTIONS_TX'', ''UC1_TRANSACTIONS_SHARDS''), (''UC2_TRANSACTIONS_TX'', ''UC2_TRANSACTIONS_SHARDS''),
        (''UC3_PERIOD_A_TRANSACTIONS_TX'', ''UC3_PERIOD_A_SHARDS''), (''UC4_TRANSACTIONS_TX'', ''UC4_TRANSACTIONS_SHARDS''),
        (''UC5_TRANSACTIONS_TX'', ''UC5_TRANSACTIONS_SHARDS''), (''UC3_PERIOD_B_TRANSACTIONS_TX'', ''UC3_PERIOD_B_SHARDS'')]"

definition filter_routes :: "env \<Rightarrow> int \<Rightarrow> (string \<times> string) list \<Rightarrow> (int \<times> (binding \<times> producer) list) list result" where
  "filter_routes e idx =
     map_result (\<lambda>(tx, shards_env).
       bind_result (int_var e shards_env ''1'') (\<lambda>naffinity.
       bind_result (tx_writers idx tx naffinity) (\<lambda>ws. Inr (naffinity, ws))))"

definition make_default_filter :: "env \<Rightarrow> string \<Rightarrow> string \<Rightarrow> int \<Rightarrow> wiring result" where
  "make_default_filter e rx strategy every =
     bind_result (int_var e ''IDX'' ''0'') (\<lambda>idx.
     bind_result (int_var e ''NPEERS'' ''1'') (\<lambda>npeers.
     bind_result (route_table e) (\<lambda>table.
     bind_result (filter_routes e idx table) (\<lambda>routes.
     bind_result (environ e ''RING_NAME'') (\<lambda>ring.
       ring_wiring idx npeers ring [rx]
         (concat (map (\<lambda>(n, ws). take 1 ws) (filter (\<lambda>(n, ws). n = 0) routes)) @
          concat (map snd (filter (\<lambda>(n, ws). n \<noteq> 0) routes)))
         False (map_of e ''STATE_DIR'') strategy every)))))"

definition make_filter :: "env \<Rightarrow> int \<Rightarrow> int \<Rightarrow> string \<Rightarrow> string \<Rightarrow> string \<Rightarrow> int \<Rightarrow> wiring result" where
  "make_filter e idx naffinity rx tx strategy every =
     bind_result (int_var e ''NPEERS'' ''1'') (\<lambda>npeers.
     bind_result (tx_writers idx tx naffinity) (\<lambda>ws.
     bind_result (environ e ''RING_NAME'') (\<lambda>ring.
       ring_wiring idx npeers ring [rx] ws False (map_of e ''STATE_DIR'') strategy every)))"

definition filter_main :: "env \<Rightarrow> wiring result" where
  "filter_main e =
     bind_result (environ e ''MOM_HOST'') (\<lambda>mom_host.
     bind_result (environ e ''RX'') (\<lambda>rx.
     bind_result (environ e ''STRATEGY'') (\<lambda>strategy.
     bind_result (int_var e ''CHECKPOINT_EVERY'' ''5'') (\<lambda>every.
       if strategy = ''default'' then make_default_filter e rx strategy every
       else if strategy \<in> {''uc3_average_filter'', ''uc4_path'', ''uc5_amount_filter''} then
         bind_result (int_var e ''IDX'' ''0'') (\<lambda>idx.
         bind_result (bind_result (environ e ''NAFFINITY_DOWNSTREAM'') parse_int) (\<lambda>naffinity.
         bind_result (environ e ''TX'') (\<lambda>tx. make_filter e idx naffinity rx tx strategy every)))
       else Inl (ValueError ''unknown filter strategy'')))))"

text \<open>\<open>group_by/main.py\<close>: UC4's builder has a second fleet downstream.\<close>

definition make_groupby :: "env \<Rightarrow> int \<Rightarrow> (string \<times> int) list \<Rightarrow> string \<Rightarrow> string \<Rightarrow> int \<Rightarrow> wiring result" where
  "make_groupby e idx routes rx strategy every =
     bind_result (int_var e ''NPEERS'' ''1'') (\<lambda>npeers.
     bind_result (map_result (\<lambda>(tx, naffinity). tx_writers idx tx naffinity) routes) (\<lambda>fleets.
     bind_result (environ e ''RING_NAME'') (\<lambda>ring.
       ring_wiring idx npeers ring [rx] (concat fleets) False (map_of e ''STATE_DIR'') strategy every)))"

definition groupby_main :: "env \<Rightarrow> wiring result" where
  "groupby_main e =
     bind_result (environ e ''MOM_HOST'') (\<lambda>mom_host.
     bind_result (environ e ''RX'') (\<lambda>rx.
     bind_result (environ e ''TX'') (\<lambda>tx.
     bind_result (environ e ''STRATEGY'') (\<lambda>strategy.
     bind_result (int_var e ''IDX'' ''0'') (\<lambda>idx.
     bind_result (bind_result (environ e ''NAFFINITY_DOWNSTREAM'') parse_int) (\<lambda>naffinity.
     bind_result (int_var e ''CHECKPOINT_EVERY'' ''5'') (\<lambda>every.
     bind_result
       (if strategy = ''uc4_compute_graph_group_by'' then
          bind_result (environ e ''TX_DEGREE'') (\<lambda>tx2.
          bind_result (bind_result (environ e ''NAFFINITY_DEGREE'') parse_int) (\<lambda>n2. Inr [(tx, naffinity), (tx2, n2)]))
        else if strategy \<in> {''uc2_max_amount_group_by'', ''uc2_bank_names_group_by'', ''uc3_group_by_format'',
                            ''uc5_converter'', ''uc5_count_group_by''} then Inr [(tx, naffinity)]
        else Inl (ValueError ''unknown group_by strategy''))
       (\<lambda>routes. make_groupby e idx routes rx strategy every))))))))"

text \<open>\<open>aggregate/main.py\<close>\<close>

definition make_aggregate :: "env \<Rightarrow> int \<Rightarrow> int \<Rightarrow> string \<Rightarrow> string \<Rightarrow> string \<Rightarrow> int \<Rightarrow> wiring result" where
  "make_aggregate e idx naffinity rx tx strategy every =
     bind_result (int_var e ''NPEERS'' ''1'') (\<lambda>npeers.
     bind_result (tx_writers idx tx naffinity) (\<lambda>ws.
     bind_result (environ e ''RING_NAME'') (\<lambda>ring.
       ring_wiring idx npeers ring [rx] ws (getenv e ''BROADCAST_DOWNSTREAM'' ''0'' = ''1'')
         (map_of e ''STATE_DIR'') strategy every)))"

definition aggregate_strategies :: "string list" where
  "aggregate_strategies =
     [''uc2_max_amount_aggregate'', ''uc2_bank_names_aggregate'', ''uc3_average_aggregate'', ''uc4_count_paths'',
      ''uc4_aggregate_graphs'', ''uc4_paths_aggregate'', ''uc4_degree_aggregate'']"

definition aggregate_main :: "env \<Rightarrow> wiring result" where
  "aggregate_main e =
     bind_result (environ e ''MOM_HOST'') (\<lambda>mom_host.
     bind_result (environ e ''RX'') (\<lambda>rx.
     bind_result (environ e ''TX'') (\<lambda>tx.
     bind_result (environ e ''STRATEGY'') (\<lambda>strategy.
     bind_result (int_var e ''IDX'' ''0'') (\<lambda>idx.
     bind_result (int_var e ''NAFFINITY_DOWNSTREAM'' ''0'') (\<lambda>naffinity.
     bind_result (int_var e ''CHECKPOINT_EVERY'' ''5'') (\<lambda>every.
       if strategy \<in> set aggregate_strategies then make_aggregate e idx naffinity rx tx strategy every
       else Inl (ValueError ''unknown aggregate strategy''))))))))"

text \<open>\<open>merge/main.py\<close>: all writers share one producer and one counter.\<close>

definition merge_writers :: "string \<Rightarrow> int \<Rightarrow> int \<Rightarrow> (binding \<times> producer) list" where
  "merge_writers tx idx naffinity =
     (if naffinity = 0 then [(Direct tx, (tx, idx, 0))]
      else map (\<lambda>i. (Bound tx (int_str i), (tx, idx, 0))) (map int [0..<nat naffinity]))"

definition merge_main :: "env \<Rightarrow> wiring result" where
  "merge_main e =
     bind_result (environ e ''MOM_HOST'') (\<lambda>mom_host.
     bind_result (environ e ''LEFT_RX'') (\<lambda>left.
     bind_result (environ e ''RIGHT_RX'') (\<lambda>right.
     bind_result (environ e ''TX'') (\<lambda>tx.
     bind_result (environ e ''STRATEGY'') (\<lambda>strategy.
     bind_result (int_var e ''IDX'' ''0'') (\<lambda>idx.
     bind_result (int_var e ''NPEERS'' ''1'') (\<lambda>npeers.
     bind_result (int_var e ''NAFFINITY_DOWNSTREAM'' ''0'') (\<lambda>naffinity.
     bind_result (int_var e ''CHECKPOINT_EVERY'' ''5'') (\<lambda>every.
       if strategy \<in> {''uc2_merge'', ''uc3_merge'', ''uc4_prune''} then
         bind_result (environ e ''RING_NAME'') (\<lambda>ring.
           ring_wiring idx npeers ring [left, right] (merge_writers tx idx naffinity) False
             (map_of e ''STATE_DIR'') strategy every)
       else Inl (ValueError ''unknown merge strategy''))))))))))"

text \<open>\<open>join/main.py\<close> and \<open>Join.start\<close>, which takes the first of its handlers for its own thread.\<close>

definition join_ucs :: "env \<Rightarrow> int list result" where
  "join_ucs e = map_result parse_int (filter (\<lambda>x. x \<noteq> []) (split_on (CHR '','') (getenv e ''JOIN_UCS'' ''1,2,3,4,5'')))"

definition join_main :: "env \<Rightarrow> wiring result" where
  "join_main e =
     bind_result (environ e ''MOM_HOST'') (\<lambda>mom_host.
     bind_result (map_result (environ e) [''UC1_RX'', ''UC2_RX'', ''UC3_RX'', ''UC4_RX'', ''UC5_RX'']) (\<lambda>rxs.
     bind_result (environ e ''RESPONSES_TX'') (\<lambda>responses.
     bind_result (int_var e ''CHECKPOINT_EVERY'' ''5'') (\<lambda>every.
     bind_result (join_ucs e) (\<lambda>ucs.
       let prefetch = (case map_of e ''STATE_DIR'' of None \<Rightarrow> 1 | Some d \<Rightarrow> if d = [] then 1 else every);
           handlers = filter (\<lambda>(rx, uc). uc \<in> set ucs) (zip rxs [1, 2, 3, 4, 5]) in
       if handlers = [] then Inl IndexError
       else Inr \<lparr>wi_inputs = map (\<lambda>(rx, uc). \<lparr>in_queue = rx, in_bind = Direct rx, in_prefetch = prefetch\<rparr>) handlers,
                 wi_outputs = [], wi_front = None,
                 wi_ckpts = checkpoints (map_of e ''STATE_DIR'') (map (\<lambda>(rx, uc). ''join_uc'' @ int_str uc) handlers) every,
                 wi_responses = Some responses, wi_broadcast = False\<rparr>)))))"

text \<open>\<open>gateway/main.py\<close>: the writers' identities belong to the client's session.  The gateway consumes
  the queues of its clients only, one on the exchange of the responses for each.\<close>

definition shard_addresses :: "string \<Rightarrow> int \<Rightarrow> binding list" where
  "shard_addresses exchange n = map (\<lambda>i. Bound exchange (int_str i)) (map int [0..<nat n])"

record gateway_wiring =
  gw_port :: int
  gw_transactions :: "binding list"
  gw_accounts :: "binding list"
  gw_responses :: string

definition gateway_main :: "env \<Rightarrow> gateway_wiring result" where
  "gateway_main e =
     bind_result (environ e ''GATEWAY_HOST'') (\<lambda>host.
     bind_result (environ e ''GATEWAY_PORT'') (\<lambda>port.
     bind_result (environ e ''MOM_HOST'') (\<lambda>mom_host.
     bind_result (environ e ''SERVER_QUEUE_RX'') (\<lambda>responses.
     bind_result (environ e ''TRANSACTIONS_TX'') (\<lambda>transactions.
     bind_result (environ e ''ACCOUNTS_TX'') (\<lambda>accounts.
     bind_result (int_var e ''NDEFAULT_FILTERS'' ''1'') (\<lambda>nfilters.
     bind_result (int_var e ''NBANK_NAMES'' ''1'') (\<lambda>nbanks.
     bind_result (parse_int port) (\<lambda>port.
       Inr \<lparr>gw_port = port, gw_transactions = shard_addresses transactions nfilters,
            gw_accounts = shard_addresses accounts nbanks, gw_responses = responses\<rparr>)))))))))"

text \<open>The identities of a session, \<open>client_stream_handler.py\<close>.\<close>

definition session_producers :: "uuid \<Rightarrow> producer list" where
  "session_producers cid = [(uuid_str cid, 0, 0), (uuid_str cid, 0, 1)]"

text \<open>\<open>supervisor/main.py\<close> and \<open>heartbeat/factory.py\<close>\<close>

record supervisor_wiring =
  sw_idx :: int
  sw_port :: int
  sw_peers :: "peer list"
  sw_registry :: registry
  sw_revive :: "rat option"

definition supervisor_main :: "env \<Rightarrow> supervisor_wiring result" where
  "supervisor_main e =
     bind_result (int_var e ''SUPERVISOR_PORT'' ''9100'') (\<lambda>port.
     bind_result (int_var e ''INTERNAL_PORT'' ''9101'') (\<lambda>internal.
     bind_result (int_var e ''LEADER_PORT'' ''9102'') (\<lambda>leader.
     bind_result (int_var e ''IDX'' ''0'') (\<lambda>idx.
     bind_result (int_var e ''NNODES'' ''1'') (\<lambda>nnodes.
     bind_result (parse_float (getenv e ''HEARTBEAT_TIMEOUT'' ''6'')) (\<lambda>timeout.
     bind_result (parse_float (getenv e ''SWEEP_INTERVAL'' ''0.5'')) (\<lambda>sweep.
     bind_result (parse_float (getenv e ''PING_DELAY'' ''0.5'')) (\<lambda>ping.
     bind_result (parse_float (getenv e ''REVIVE_INTERVAL'' ''5'')) (\<lambda>revive.
       let expected = filter (\<lambda>n. n \<noteq> []) (split_on (CHR '','') (getenv e ''EXPECTED_NODES'' [])) in
       Inr \<lparr>sw_idx = idx, sw_port = port,
            sw_peers = map (\<lambda>i. \<lparr>pe_idx = i, pe_host = getenv e ''NODE_PREFIX'' ''supervisor_'' @ int_str i\<rparr>)
                         (filter (\<lambda>i. i \<noteq> idx) (map int [0..<nat nnodes])),
            sw_registry = new_registry timeout expected 200,
            sw_revive = (if 0 < revive then Some revive else None)\<rparr>)))))))))"

record heartbeat_wiring =
  hw_id :: string
  hw_kind :: string
  hw_host :: string
  hw_port :: int
  hw_interval :: rat

definition make_heartbeat_client :: "env \<Rightarrow> heartbeat_wiring option result" where
  "make_heartbeat_client e =
     (case map_of e ''SUPERVISOR_HOST'' of
        None \<Rightarrow> Inr None
      | Some host \<Rightarrow>
          if host = [] then Inr None
          else bind_result (int_var e ''SUPERVISOR_PORT'' ''9100'') (\<lambda>port.
               bind_result (parse_float (getenv e ''HEARTBEAT_INTERVAL'' ''2'')) (\<lambda>interval.
                 let name = getenv e ''NODE_NAME'' [] in
                 Inr (Some \<lparr>hw_id = (if name = [] then getenv e ''HOSTNAME'' ''unknown'' else name),
                            hw_kind = getenv e ''NODE_KIND'' ''node'', hw_host = host, hw_port = port,
                            hw_interval = interval\<rparr>))))"

section \<open>The system\<close>

text \<open>The container's image decides which entry point runs.\<close>

definition node_main :: "container \<Rightarrow> wiring result" where
  "node_main ct =
     (if ct_docker ct = ''filter'' then filter_main (ct_env ct)
      else if ct_docker ct = ''group_by'' then groupby_main (ct_env ct)
      else if ct_docker ct = ''aggregate'' then aggregate_main (ct_env ct)
      else if ct_docker ct = ''merge'' then merge_main (ct_env ct)
      else if ct_docker ct = ''join'' then join_main (ct_env ct)
      else Inl RuntimeError)"

definition pipeline_nodes :: "container list \<Rightarrow> container list" where
  "pipeline_nodes cts = filter (\<lambda>ct. ct_docker ct \<in> {''filter'', ''group_by'', ''aggregate'', ''merge'', ''join''}) cts"

definition consumed :: "wiring list \<Rightarrow> input list" where
  "consumed ws = concat (map wi_inputs ws)"

definition published :: "wiring list \<Rightarrow> binding list" where
  "published ws = concat (map (\<lambda>w. map fst (wi_outputs w) @ (case wi_front w of None \<Rightarrow> [] | Some b \<Rightarrow> [b])) ws)"

definition producers :: "wiring list \<Rightarrow> producer list" where
  "producers ws = concat (map (\<lambda>w. remdups (map snd (wi_outputs w))) ws)"

end
