(* ===== verification/Deployed.thy ===== *)
theory Deployed
  imports Wiring Exactly_Once
begin

text \<open>
  The deployment as a table of fleets, and that the generated compose file and the entry points
  implement it: whatever the sizes of the rings, every node starts, every address written to is
  read by exactly one queue, no two nodes stamp the same identity, the broker's delivery window is
  larger than the acknowledgements a node holds back, and the supervisors expect exactly the
  supervised containers.
\<close>

section \<open>Names ending in a number\<close>

definition is_digit :: "char \<Rightarrow> bool" where
  "is_digit c \<longleftrightarrow> (48 :: nat) \<le> of_char c \<and> of_char c \<le> (57 :: nat)"

definition stem :: "string \<Rightarrow> string" where
  "stem s = rev (dropWhile is_digit (rev s))"

lemma nat_str_is_digit: "c \<in> set (nat_str n) \<Longrightarrow> is_digit c"
proof (induction n rule: nat_str.induct)
  case (1 n)
  have d: "is_digit (digit_char (k mod 10))" for k
    using pos_mod_bound [of 10 k] by (auto simp: is_digit_def digit_char_def of_char_of)
  show ?case
  proof (cases "n < 10")
    case True
    with "1.prems" d [of n] show ?thesis by (simp add: nat_str.simps [of n])
  next
    case False
    with "1.prems" "1.IH" d show ?thesis by (subst (asm) nat_str.simps) auto
  qed
qed

lemma nat_str_eq [simp]: "nat_str m = nat_str n \<longleftrightarrow> m = n"
  by (metis digits_val_nat_str option.inject)

lemma stem_number: "p \<noteq> [] \<Longrightarrow> \<not> is_digit (last p) \<Longrightarrow> stem (p @ nat_str n) = p"
  by (cases p rule: rev_cases) (auto simp: stem_def dropWhile_append nat_str_is_digit)

lemma stem_word: "p \<noteq> [] \<Longrightarrow> \<not> is_digit (last p) \<Longrightarrow> stem p = p"
  by (cases p rule: rev_cases) (auto simp: stem_def)

lemma int_str_of_nat [simp]: "int_str (int n) = nat_str n"
  by (simp add: int_str_def)

lemma parse_nat_str [simp]: "parse_int (nat_str n) = Inr (int n)"
  using parse_int_str [of "int n"] by simp

lemma nat_str_no_comma: "CHR '','' \<notin> set (nat_str n)"
  using nat_str_is_digit [of "CHR '',''" n] by (auto simp: is_digit_def)

section \<open>Lists put together from keyed blocks\<close>

lemma distinct_keyed:
  assumes "list_all2 (\<lambda>xs ks. distinct xs \<and> key ` set xs \<subseteq> set ks) xss kss" and "distinct (concat kss)"
  shows "distinct (concat xss)"
  using assms
proof (induction xss kss rule: list_all2_induct)
  case (Cons xs xss ks kss)
  then have "key ` set xs \<subseteq> set ks" "set ks \<inter> set (concat kss) = {}" "distinct xs" "distinct (concat xss)"
    by auto
  moreover have "key ` set (concat xss) \<subseteq> set (concat kss)"
    using Cons.hyps(2) by (induction rule: list_all2_induct) auto
  ultimately show ?case by fastforce
qed simp

lemma distinct_concat_upt:
  assumes "\<And>i. i < n \<Longrightarrow> distinct (f i)" and "\<And>i j x. x \<in> set (f i) \<Longrightarrow> x \<in> set (f j) \<Longrightarrow> i = j"
  shows "distinct (concat (map f [0..<n]))"
  using assms(1) by (induction n) (auto dest: assms(2))

section \<open>What the generators yield\<close>

definition add_name :: "string list \<Rightarrow> string \<Rightarrow> string list" where
  "add_name ns n = (if n \<in> set ns then ns else ns @ [n])"

definition yields :: "generator \<Rightarrow> container list \<Rightarrow> bool" where
  "yields g cts \<longleftrightarrow> (\<forall>ns. g ns = (cts, foldl add_name ns (map ct_name cts)))"

lemma yields_plus: "yields f xs \<Longrightarrow> yields g ys \<Longrightarrow> yields (plus_gen f g) (xs @ ys)"
  by (simp add: yields_def plus_gen_def)

lemma yields_range:
  assumes "\<And>i ns. f i ns = (c i, add_name ns (ct_name (c i)))"
  shows "yields (for_range f is) (map c is)"
proof -
  have "for_range f is ns = (map c is, foldl add_name ns (map ct_name (map c is)))" for ns
    by (induction "is" arbitrary: ns) (simp_all add: assms)
  then show ?thesis by (simp add: yields_def)
qed

lemma foldl_add_name: "distinct (ns @ xs) \<Longrightarrow> foldl add_name ns xs = ns @ xs"
  by (induction xs arbitrary: ns) (simp_all add: add_name_def)

definition node_ct where
  "node_ct ge ck type2 strategy npeers naff rx tx cp bc extra idx =
     fst (node_service ge ck type2 strategy npeers naff rx tx cp bc extra idx [])"

definition merge_ct where
  "merge_ct ge ck strategy left right tx naff cp npeers ring idx =
     fst (merge_service ge ck strategy left right tx naff cp npeers ring idx [])"

definition default_filter_ct where
  "default_filter_ct ge ck tp idx = fst (default_filter_service ge ck tp idx [])"

definition join_ct where "join_ct ge ck part = fst (join_service ge ck part [])"

definition gateway_ct where "gateway_ct ge tp = hd (fst (gen_gateway ge tp []))"

lemma yields_nodes:
  "yields (gen_nodes ge ck type2 strategy npeers naff rx tx cp bc extra)
     (map (node_ct ge ck type2 strategy npeers naff rx tx cp bc extra) [0..<npeers])"
  unfolding gen_nodes_def
  by (rule yields_range) (simp add: node_ct_def node_service_def supervisor_env_def Let_def add_name_def)

lemma yields_merge:
  "yields (gen_merge ge ck strategy left right tx cp naff npeers)
     (map (merge_ct ge ck strategy left right tx naff cp npeers (strategy @ ''_ring'')) [0..<npeers])"
  unfolding gen_merge_def
  by (rule yields_range) (simp add: merge_ct_def merge_service_def supervisor_env_def Let_def add_name_def)

lemma yields_default_filters:
  "yields (gen_default_filters ge ck tp) (map (default_filter_ct ge ck tp) [0..<default_filters tp])"
  unfolding gen_default_filters_def
  by (rule yields_range) (simp add: default_filter_ct_def default_filter_service_def supervisor_env_def Let_def add_name_def)

lemma yields_join: "yields (gen_join ge ck tp) (map (join_ct ge ck) (enumerate 0 (join_partition tp)))"
  unfolding gen_join_def
  by (rule yields_range) (auto simp: join_ct_def join_service_def supervisor_env_def Let_def add_name_def split: prod.splits)

lemma yields_gateway: "yields (gen_gateway ge tp) [gateway_ct ge tp]"
  by (simp add: yields_def gateway_ct_def gen_gateway_def supervisor_env_def add_name_def)

lemma yields_uc1: "yields gen_uc1 []"
  by (simp add: yields_def gen_uc1_def)

section \<open>The table of fleets\<close>

text \<open>A fleet is a ring of nodes of one service: its input exchanges and, for each output exchange, the
  number of shards downstream, \<open>0\<close> for the plain queue of a join.\<close>

record fleet =
  fl_docker :: string
  fl_strategy :: string
  fl_container :: string
  fl_ring :: string
  fl_size :: nat
  fl_rxs :: "string list"
  fl_routes :: "(string \<times> nat) list"
  fl_broadcast :: bool

definition fleet_of :: "string \<Rightarrow> string \<Rightarrow> nat \<Rightarrow> string list \<Rightarrow> (string \<times> nat) list \<Rightarrow> bool \<Rightarrow> fleet" where
  "fleet_of docker strategy n rxs routes broadcast =
     \<lparr>fl_docker = docker, fl_strategy = strategy, fl_container = strategy, fl_ring = strategy @ ''_ring'', fl_size = n,
      fl_rxs = rxs, fl_routes = routes, fl_broadcast = broadcast\<rparr>"

definition default_fleet :: "topology \<Rightarrow> fleet" where
  "default_fleet tp =
     \<lparr>fl_docker = ''filter'', fl_strategy = ''default'', fl_container = ''default_filter'', fl_ring = ''default_filter_ring'',
      fl_size = default_filters tp, fl_rxs = [''client_transactions''],
      fl_routes =
        [(''uc1_join'', 0), (''uc2_filtered_transactions'', uc2_max_amount_group_bys tp),
         (''uc3_transactions_period_a'', uc3_group_bys tp), (''uc4_filtered_transactions'', uc4_compute_graphs tp),
         (''uc5_filtered_transactions'', uc5_converters tp), (''uc3_transactions_period_b'', uc3_merges tp)],
      fl_broadcast = False\<rparr>"

definition fleets :: "topology \<Rightarrow> fleet list" where
  "fleets tp =
     [default_fleet tp,
      fleet_of ''group_by'' ''uc2_max_amount_group_by'' (uc2_max_amount_group_bys tp)
        [''uc2_filtered_transactions''] [(''uc2_partial_max_amount'', uc2_max_amount_aggregates tp)] False,
      fleet_of ''aggregate'' ''uc2_max_amount_aggregate'' (uc2_max_amount_aggregates tp)
        [''uc2_partial_max_amount''] [(''uc2_max_amounts_by_bank'', uc2_merges tp)] True,
      fleet_of ''group_by'' ''uc2_bank_names_group_by'' (uc2_bank_names_group_bys tp)
        [''client_accounts''] [(''uc2_partial_bank_names'', uc2_bank_names_aggregates tp)] False,
      fleet_of ''aggregate'' ''uc2_bank_names_aggregate'' (uc2_bank_names_aggregates tp)
        [''uc2_partial_bank_names''] [(''uc2_bank_id_name_mappings'', uc2_merges tp)] False,
      fleet_of ''merge'' ''uc2_merge'' (uc2_merges tp)
        [''uc2_max_amounts_by_bank'', ''uc2_bank_id_name_mappings''] [(''uc2_join'', 0)] False,
      fleet_of ''group_by'' ''uc3_group_by_format'' (uc3_group_bys tp)
        [''uc3_transactions_period_a''] [(''uc3_sum_by_format'', uc3_aggregates tp)] False,
      fleet_of ''aggregate'' ''uc3_average_aggregate'' (uc3_aggregates tp)
        [''uc3_sum_by_format''] [(''uc3_avg'', uc3_merges tp)] True,
      fleet_of ''merge'' ''uc3_merge'' (uc3_merges tp)
        [''uc3_avg'', ''uc3_transactions_period_b''] [(''uc3_average_merged'', uc3_filters tp)] False,
      fleet_of ''filter'' ''uc3_average_filter'' (uc3_filters tp)
        [''uc3_average_merged''] [(''uc3_join'', 0)] False,
      fleet_of ''group_by'' ''uc4_compute_graph_group_by'' (uc4_compute_graphs tp)
        [''uc4_filtered_transactions'']
        [(''uc4_graphs'', uc4_aggregate_graphs tp), (''uc4_degree_graphs'', uc4_degree_aggregates tp)] False,
      fleet_of ''aggregate'' ''uc4_aggregate_graphs'' (uc4_aggregate_graphs tp)
        [''uc4_graphs''] [(''uc4_graphs_to_prune'', uc4_prunes tp)] False,
      fleet_of ''aggregate'' ''uc4_degree_aggregate'' (uc4_degree_aggregates tp)
        [''uc4_degree_graphs''] [(''uc4_high_degree'', uc4_prunes tp)] True,
      fleet_of ''merge'' ''uc4_prune'' (uc4_prunes tp)
        [''uc4_high_degree'', ''uc4_graphs_to_prune''] [(''uc4_pruned'', uc4_count_paths tp)] False,
      fleet_of ''aggregate'' ''uc4_count_paths'' (uc4_count_paths tp)
        [''uc4_pruned''] [(''uc4_paths'', uc4_paths_aggregates tp)] False,
      fleet_of ''aggregate'' ''uc4_paths_aggregate'' (uc4_paths_aggregates tp)
        [''uc4_paths''] [(''uc4_join'', 0)] False,
      fleet_of ''group_by'' ''uc5_converter'' (uc5_converters tp)
        [''uc5_filtered_transactions''] [(''uc5_converted_transactions'', uc5_amount_filters tp)] False,
      fleet_of ''filter'' ''uc5_amount_filter'' (uc5_amount_filters tp)
        [''uc5_converted_transactions''] [(''uc5_filtered_converted_transactions'', uc5_count_group_bys tp)] False,
      fleet_of ''group_by'' ''uc5_count_group_by'' (uc5_count_group_bys tp)
        [''uc5_filtered_converted_transactions''] [(''uc5_join'', 0)] False]"

text \<open>The writers of a node on one output, and the wiring of the nodes of a fleet and of a join.\<close>

definition fleet_writers :: "bool \<Rightarrow> nat \<Rightarrow> string \<times> nat \<Rightarrow> (binding \<times> producer) list" where
  "fleet_writers shared i r =
     (case r of (tx, m) \<Rightarrow>
        if m = 0 then [(Direct tx, (tx, int i, 0))]
        else map (\<lambda>k. (Bound tx (nat_str k), (tx, int i, if shared then 0 else int k))) [0..<m])"

definition fleet_wiring :: "int \<Rightarrow> fleet \<Rightarrow> nat \<Rightarrow> wiring" where
  "fleet_wiring ck fl i =
     \<lparr>wi_inputs =
        map (\<lambda>rx. \<lparr>in_queue = rx @ nat_str i, in_bind = Bound rx (nat_str i), in_prefetch = max ck 10\<rparr>) (fl_rxs fl)
        @ [\<lparr>in_queue = fl_ring fl @ ''_queue'' @ nat_str i, in_bind = Bound (fl_ring fl) (nat_str i), in_prefetch = 1\<rparr>],
      wi_outputs = concat (map (fleet_writers (fl_docker fl = ''merge'') i) (fl_routes fl)),
      wi_front = Some (Bound (fl_ring fl) (nat_str (Suc i mod fl_size fl))),
      wi_ckpts = [(''/state/'' @ fl_strategy fl @ ''_'' @ nat_str i @ ''.ckpt'', ck)],
      wi_responses = None, wi_broadcast = fl_broadcast fl\<rparr>"

definition join_queue :: "nat \<Rightarrow> string" where
  "join_queue uc = ''uc'' @ nat_str uc @ ''_join''"

definition join_wiring :: "int \<Rightarrow> nat list \<Rightarrow> wiring" where
  "join_wiring ck ucs =
     (let mine = filter (\<lambda>uc. uc \<in> set ucs) [1, 2, 3, 4, 5] in
      \<lparr>wi_inputs = map (\<lambda>uc. \<lparr>in_queue = join_queue uc, in_bind = Direct (join_queue uc), in_prefetch = ck\<rparr>) mine,
       wi_outputs = [], wi_front = None,
       wi_ckpts = map (\<lambda>uc. (''/state/join_uc'' @ nat_str uc @ ''.ckpt'', ck)) mine,
       wi_responses = Some ''responses'', wi_broadcast = False\<rparr>)"

definition system :: "int \<Rightarrow> topology \<Rightarrow> wiring list" where
  "system ck tp =
     concat (map (\<lambda>fl. map (fleet_wiring ck fl) [0..<fl_size fl]) (fleets tp)) @ map (join_wiring ck) (join_partition tp)"

section \<open>The entry points implement the table\<close>

lemma filter_upt_int:
  assumes "i < n"
  shows "mset (filter (\<lambda>k. k \<noteq> int i) (map int [0..<n])) = mset (peers_of (map int [0..<n]) i)"
proof -
  have "[0..<n] = [0..<i] @ i # [Suc i..<n]"
    using upt_add_eq_append [of 0 i "n - i"] assms by (simp add: upt_conv_Cons)
  moreover have "filter (\<lambda>k. k \<noteq> int i) (map int [0..<i]) = map int [0..<i]"
    "filter (\<lambda>k. k \<noteq> int i) (map int [Suc i..<n]) = map int [Suc i..<n]"
    by (auto simp: filter_id_conv)
  moreover have "take i (map int [0..<n]) = map int [0..<i]" "drop (Suc i) (map int [0..<n]) = map int [Suc i..<n]"
    using assms by (simp_all add: take_map drop_map)
  ultimately show ?thesis by (simp add: peers_of_def)
qed

lemma ring_front:
  assumes "i < n"
  shows "\<exists>b. get_front_back_ids (int i) (filter (\<lambda>k. k \<noteq> int i) (map int [0..<n])) = Inr (int (Suc i mod n), b)"
proof -
  have "sorted (map int [0..<n])" "distinct (map int [0..<n])"
    by (auto simp: sorted_map distinct_map intro: sorted_wrt_mono_rel [OF _ sorted_upt])
  from front_back_cycle [OF this _ filter_upt_int [OF assms]] assms show ?thesis by simp
qed

lemma ring_wiring_of:
  assumes "i < n" and "sd = Some ''/state''"
  shows "ring_wiring (int i) (int n) ring rxs ws bc sd strat ck = Inr
     \<lparr>wi_inputs =
        map (\<lambda>rx. \<lparr>in_queue = rx @ nat_str i, in_bind = Bound rx (nat_str i), in_prefetch = max ck 10\<rparr>) rxs
        @ [\<lparr>in_queue = ring @ ''_queue'' @ nat_str i, in_bind = Bound ring (nat_str i), in_prefetch = 1\<rparr>],
      wi_outputs = ws, wi_front = Some (Bound ring (nat_str (Suc i mod n))),
      wi_ckpts = [(''/state/'' @ strat @ ''_'' @ nat_str i @ ''.ckpt'', ck)], wi_responses = None, wi_broadcast = bc\<rparr>"
  using ring_front [OF assms(1)] assms(2)
  by (auto simp: ring_wiring_def bind_result_def checkpoints_def path_join_def Let_def)

lemma tx_writers_of: "tx_writers (int i) tx (int m) = Inr (fleet_writers False i (tx, m))"
  by (auto simp: tx_writers_def fleet_writers_def o_def)

lemma merge_writers_of: "merge_writers tx (int i) (int m) = fleet_writers True i (tx, m)"
  by (auto simp: merge_writers_def fleet_writers_def o_def)

text \<open>The variables the entry points read from the environment of a ring node.\<close>

lemma node_env:
  fixes ge ck type2 strategy npeers naff rx tx c bc extra i
  defines "e \<equiv> ct_env (node_ct ge ck type2 strategy npeers naff rx tx (Some c) bc extra i)"
  assumes "fst ` set extra \<subseteq> {''TX_DEGREE'', ''NAFFINITY_DEGREE''}"
  shows "map_of e ''MOM_HOST'' = Some ''rabbitmq''" "map_of e ''STRATEGY'' = Some strategy"
    "map_of e ''RX'' = Some rx" "map_of e ''TX'' = Some tx" "map_of e ''IDX'' = Some (nat_str i)"
    "map_of e ''NPEERS'' = Some (nat_str npeers)" "map_of e ''RING_NAME'' = Some (strategy @ ''_ring'')"
    "map_of e ''NAFFINITY_DOWNSTREAM'' = Some (nat_str naff)"
    "map_of e ''BROADCAST_DOWNSTREAM'' = Some (if bc then ''1'' else ''0'')"
    "map_of e ''STATE_DIR'' = Some ''/state''" "map_of e ''CHECKPOINT_EVERY'' = Some (int_str ck)"
    "map_of e ''TX_DEGREE'' = map_of extra ''TX_DEGREE''" "map_of e ''NAFFINITY_DEGREE'' = map_of extra ''NAFFINITY_DEGREE''"
proof -
  have none: "map_of extra k = None" if "k \<notin> {''TX_DEGREE'', ''NAFFINITY_DEGREE''}" for k
    using that assms(2) by (auto simp: map_of_eq_None_iff)
  show "map_of e ''MOM_HOST'' = Some ''rabbitmq''" "map_of e ''STRATEGY'' = Some strategy"
    "map_of e ''RX'' = Some rx" "map_of e ''TX'' = Some tx" "map_of e ''IDX'' = Some (nat_str i)"
    "map_of e ''NPEERS'' = Some (nat_str npeers)" "map_of e ''RING_NAME'' = Some (strategy @ ''_ring'')"
    "map_of e ''NAFFINITY_DOWNSTREAM'' = Some (nat_str naff)"
    "map_of e ''BROADCAST_DOWNSTREAM'' = Some (if bc then ''1'' else ''0'')"
    "map_of e ''STATE_DIR'' = Some ''/state''" "map_of e ''CHECKPOINT_EVERY'' = Some (int_str ck)"
    by (simp_all add: e_def node_ct_def node_service_def supervisor_env_def Let_def map_add_def none)
  show "map_of e ''TX_DEGREE'' = map_of extra ''TX_DEGREE''" "map_of e ''NAFFINITY_DEGREE'' = map_of extra ''NAFFINITY_DEGREE''"
    by (simp_all add: e_def node_ct_def node_service_def supervisor_env_def Let_def map_add_def split: option.splits)
qed

lemma docker_node [simp]: "ct_docker (node_ct ge ck type2 strategy npeers naff rx tx cp bc extra i) = type2"
  by (simp add: node_ct_def node_service_def supervisor_env_def Let_def)

lemmas main_simps = environ_def getenv_def int_var_def bind_result_def tx_writers_of merge_writers_of ring_wiring_of

lemma aggregate_node:
  assumes "i < n" and "strategy \<in> set aggregate_strategies"
  shows "node_main (node_ct ge ck ''aggregate'' strategy n m rx tx (Some c) bc [] i) =
    Inr (fleet_wiring ck (fleet_of ''aggregate'' strategy n [rx] [(tx, m)] bc) i)"
  using assms
  by (simp add: node_main_def aggregate_main_def make_aggregate_def node_env main_simps fleet_wiring_def fleet_of_def)

lemma groupby_node:
  assumes "i < n" and "strategy \<in> {''uc2_max_amount_group_by'', ''uc2_bank_names_group_by'', ''uc3_group_by_format'',
                            ''uc5_converter'', ''uc5_count_group_by''}"
  shows "node_main (node_ct ge ck ''group_by'' strategy n m rx tx (Some c) False [] i) =
    Inr (fleet_wiring ck (fleet_of ''group_by'' strategy n [rx] [(tx, m)] False) i)"
proof -
  from assms(2) have "strategy \<noteq> ''uc4_compute_graph_group_by''" by auto
  with assms show ?thesis
    by (simp add: node_main_def groupby_main_def make_groupby_def node_env main_simps fleet_wiring_def fleet_of_def
        del: insert_iff)
qed

lemma builder_node:
  assumes "i < n"
  shows "node_main (node_ct ge ck ''group_by'' ''uc4_compute_graph_group_by'' n m rx tx (Some c) False
      [(''TX_DEGREE'', tx2), (''NAFFINITY_DEGREE'', nat_str m2)] i) =
    Inr (fleet_wiring ck (fleet_of ''group_by'' ''uc4_compute_graph_group_by'' n [rx] [(tx, m), (tx2, m2)] False) i)"
  using assms
  by (simp add: node_main_def groupby_main_def make_groupby_def node_env main_simps fleet_wiring_def fleet_of_def)

lemma filter_node:
  assumes "i < n" and "strategy \<in> {''uc3_average_filter'', ''uc4_path'', ''uc5_amount_filter''}"
  shows "node_main (node_ct ge ck ''filter'' strategy n m rx tx (Some c) False [] i) =
    Inr (fleet_wiring ck (fleet_of ''filter'' strategy n [rx] [(tx, m)] False) i)"
proof -
  from assms(2) have "strategy \<noteq> ''default''" by auto
  with assms show ?thesis
    by (simp add: node_main_def filter_main_def make_filter_def node_env main_simps fleet_wiring_def fleet_of_def
        del: insert_iff)
qed

lemma merge_node:
  assumes "i < n" and "strategy \<in> {''uc2_merge'', ''uc3_merge'', ''uc4_prune''}"
  shows "node_main (merge_ct ge ck strategy left right tx m (Some c) n (strategy @ ''_ring'') i) =
    Inr (fleet_wiring ck (fleet_of ''merge'' strategy n [left, right] [(tx, m)] False) i)"
  using assms
  by (simp add: node_main_def merge_main_def merge_ct_def merge_service_def supervisor_env_def Let_def
      main_simps fleet_wiring_def fleet_of_def del: insert_iff)

definition valid_topology :: "topology \<Rightarrow> bool" where
  "valid_topology tp \<longleftrightarrow>
     0 < default_filters tp \<and> 0 < uc2_max_amount_group_bys tp \<and> 0 < uc2_max_amount_aggregates tp \<and>
     0 < uc2_bank_names_group_bys tp \<and> 0 < uc2_bank_names_aggregates tp \<and> 0 < uc2_merges tp \<and>
     0 < uc3_group_bys tp \<and> 0 < uc3_aggregates tp \<and> 0 < uc3_merges tp \<and> 0 < uc3_filters tp \<and>
     0 < uc4_compute_graphs tp \<and> 0 < uc4_aggregate_graphs tp \<and> 0 < uc4_degree_aggregates tp \<and>
     0 < uc4_prunes tp \<and> 0 < uc4_count_paths tp \<and> 0 < uc4_paths_aggregates tp \<and>
     0 < uc5_converters tp \<and> 0 < uc5_amount_filters tp \<and> 0 < uc5_count_group_bys tp \<and>
     [] \<notin> set (join_partition tp) \<and> distinct (concat (join_partition tp)) \<and>
     set (concat (join_partition tp)) = {1, 2, 3, 4, 5}"

lemma default_filter_node:
  assumes "i < default_filters tp" and "valid_topology tp"
  shows "node_main (default_filter_ct ge ck tp i) = Inr (fleet_wiring ck (default_fleet tp) i)"
proof -
  let ?e = "ct_env (default_filter_ct ge ck tp i)"
  have e: "map_of ?e ''MOM_HOST'' = Some ''rabbitmq''" "map_of ?e ''RX'' = Some ''client_transactions''"
    "map_of ?e ''STRATEGY'' = Some ''default''" "map_of ?e ''CHECKPOINT_EVERY'' = Some (int_str ck)"
    "map_of ?e ''IDX'' = Some (nat_str i)" "map_of ?e ''NPEERS'' = Some (nat_str (default_filters tp))"
    "map_of ?e ''RING_NAME'' = Some ''default_filter_ring''" "map_of ?e ''STATE_DIR'' = Some ''/state''"
    "map_of ?e ''UC1_TRANSACTIONS_TX'' = Some ''uc1_join''" "map_of ?e ''UC2_TRANSACTIONS_TX'' = Some ''uc2_filtered_transactions''"
    "map_of ?e ''UC3_PERIOD_A_TRANSACTIONS_TX'' = Some ''uc3_transactions_period_a''"
    "map_of ?e ''UC3_PERIOD_B_TRANSACTIONS_TX'' = Some ''uc3_transactions_period_b''"
    "map_of ?e ''UC4_TRANSACTIONS_TX'' = Some ''uc4_filtered_transactions''"
    "map_of ?e ''UC5_TRANSACTIONS_TX'' = Some ''uc5_filtered_transactions''"
    "map_of ?e ''UC1_TRANSACTIONS_SHARDS'' = Some (nat_str 0)"
    "map_of ?e ''UC2_TRANSACTIONS_SHARDS'' = Some (nat_str (uc2_max_amount_group_bys tp))"
    "map_of ?e ''UC3_PERIOD_A_SHARDS'' = Some (nat_str (uc3_group_bys tp))"
    "map_of ?e ''UC3_PERIOD_B_SHARDS'' = Some (nat_str (uc3_merges tp))"
    "map_of ?e ''UC4_TRANSACTIONS_SHARDS'' = Some (nat_str (uc4_compute_graphs tp))"
    "map_of ?e ''UC5_TRANSACTIONS_SHARDS'' = Some (nat_str (uc5_converters tp))"
    by (simp_all add: default_filter_ct_def default_filter_service_def supervisor_env_def route_shards_def Let_def)
  have d: "ct_docker (default_filter_ct ge ck tp i) = ''filter''"
    by (simp add: default_filter_ct_def default_filter_service_def supervisor_env_def Let_def)
  note w = tx_writers_of [of i _ 0, simplified]
  have table: "route_table ?e =
      Inr [(''uc1_join'', ''UC1_TRANSACTIONS_SHARDS''), (''uc2_filtered_transactions'', ''UC2_TRANSACTIONS_SHARDS''),
        (''uc3_transactions_period_a'', ''UC3_PERIOD_A_SHARDS''), (''uc4_filtered_transactions'', ''UC4_TRANSACTIONS_SHARDS''),
        (''uc5_filtered_transactions'', ''UC5_TRANSACTIONS_SHARDS''), (''uc3_transactions_period_b'', ''UC3_PERIOD_B_SHARDS'')]"
    by (simp add: route_table_def e environ_def bind_result_def)
  have routes: "filter_routes ?e (int i)
      [(''uc1_join'', ''UC1_TRANSACTIONS_SHARDS''), (''uc2_filtered_transactions'', ''UC2_TRANSACTIONS_SHARDS''),
        (''uc3_transactions_period_a'', ''UC3_PERIOD_A_SHARDS''), (''uc4_filtered_transactions'', ''UC4_TRANSACTIONS_SHARDS''),
        (''uc5_filtered_transactions'', ''UC5_TRANSACTIONS_SHARDS''), (''uc3_transactions_period_b'', ''UC3_PERIOD_B_SHARDS'')] =
      Inr (map (\<lambda>(tx, m). (int m, fleet_writers False i (tx, m))) (fl_routes (default_fleet tp)))"
    by (simp add: filter_routes_def default_fleet_def e main_simps w)
  from assms have n: "default_filters tp \<noteq> 0" "uc2_max_amount_group_bys tp \<noteq> 0" "uc3_group_bys tp \<noteq> 0"
    "uc3_merges tp \<noteq> 0" "uc4_compute_graphs tp \<noteq> 0" "uc5_converters tp \<noteq> 0"
    by (auto simp: valid_topology_def)
  show ?thesis
    using assms(1)
    by (simp add: node_main_def d filter_main_def make_default_filter_def e environ_def getenv_def int_var_def
        bind_result_def table routes ring_wiring_of)
       (simp add: fleet_wiring_def default_fleet_def n fleet_writers_def)
qed

lemma join_ucs_of:
  assumes "map_of e ''JOIN_UCS'' = Some (join_on (CHR '','') (map nat_str ucs))" and "ucs \<noteq> []"
  shows "join_ucs e = Inr (map int ucs)"
proof -
  have "split_on (CHR '','') (join_on (CHR '','') (map nat_str ucs)) = map nat_str ucs"
    using assms(2) nat_str_no_comma by (intro split_join) auto
  moreover have "filter (\<lambda>x. x \<noteq> []) (map nat_str ucs) = map nat_str ucs"
    by (auto simp: filter_id_conv)
  moreover have "map_result parse_int (map nat_str xs) = Inr (map int xs)" for xs
    by (induction xs) (simp_all add: bind_result_def)
  ultimately show ?thesis by (simp add: join_ucs_def getenv_def assms(1))
qed

lemma join_queues: "join_queue 1 = ''uc1_join''" "join_queue 2 = ''uc2_join''" "join_queue 3 = ''uc3_join''"
  "join_queue 4 = ''uc4_join''" "join_queue 5 = ''uc5_join''" "join_queue (Suc 0) = ''uc1_join''"
  by code_simp+

lemma join_node:
  assumes "ucs \<noteq> []" and "set ucs \<subseteq> {1, 2, 3, 4, 5}"
  shows "node_main (join_ct ge ck (idx, ucs)) = Inr (join_wiring ck ucs)"
proof -
  let ?e = "ct_env (join_ct ge ck (idx, ucs))"
  have e: "map_of ?e ''MOM_HOST'' = Some ''rabbitmq''" "map_of ?e ''UC1_RX'' = Some (join_queue 1)"
    "map_of ?e ''UC2_RX'' = Some (join_queue 2)" "map_of ?e ''UC3_RX'' = Some (join_queue 3)"
    "map_of ?e ''UC4_RX'' = Some (join_queue 4)" "map_of ?e ''UC5_RX'' = Some (join_queue 5)"
    "map_of ?e ''RESPONSES_TX'' = Some ''responses''" "map_of ?e ''CHECKPOINT_EVERY'' = Some (int_str ck)"
    "map_of ?e ''STATE_DIR'' = Some ''/state''" "map_of ?e ''JOIN_UCS'' = Some (join_on (CHR '','') (map nat_str ucs))"
    unfolding join_queues by (simp_all add: join_ct_def join_service_def supervisor_env_def Let_def)
  have d: "ct_docker (join_ct ge ck (idx, ucs)) = ''join''"
    by (simp add: join_ct_def join_service_def supervisor_env_def Let_def)
  define hs where "hs = filter (\<lambda>(rx, uc). uc \<in> int ` set ucs) (zip (map join_queue [1, 2, 3, 4, 5]) [1, 2, 3, 4, 5 :: int])"
  have hs: "hs = map (\<lambda>uc. (join_queue uc, int uc)) (filter (\<lambda>uc. uc \<in> set ucs) [1, 2, 3, 4, 5])"
  proof -
    have "int k \<in> int ` set ucs \<longleftrightarrow> k \<in> set ucs" for k by auto
    from this [of 1] this [of 2] this [of 3] this [of 4] this [of 5] show ?thesis
      unfolding hs_def by simp
  qed
  obtain u where "u \<in> set ucs" using assms(1) by (cases ucs) auto
  with assms(2) have ne: "filter (\<lambda>uc. uc \<in> set ucs) [1, 2, 3, 4, 5] \<noteq> []"
    by (auto simp: filter_empty_conv)
  have "node_main (join_ct ge ck (idx, ucs)) =
      (if hs = [] then Inl IndexError
       else Inr \<lparr>wi_inputs = map (\<lambda>(rx, uc). \<lparr>in_queue = rx, in_bind = Direct rx, in_prefetch = ck\<rparr>) hs,
                 wi_outputs = [], wi_front = None,
                 wi_ckpts = map (\<lambda>n. (path_join ''/state'' (n @ ''.ckpt''), ck)) (map (\<lambda>(rx, uc). ''join_uc'' @ int_str uc) hs),
                 wi_responses = Some ''responses'', wi_broadcast = False\<rparr>)"
    by (simp add: node_main_def d join_main_def e environ_def getenv_def int_var_def bind_result_def
        join_ucs_of [OF e(10) assms(1)] hs_def checkpoints_def Let_def)
  also have "... = Inr (join_wiring ck ucs)"
    using ne unfolding hs by (simp add: join_wiring_def path_join_def Let_def o_def case_prod_beta del: filter.simps)
  finally show ?thesis .
qed

section \<open>The generated services\<close>

text \<open>A supervised container runs the heartbeat client under its own name.\<close>

definition supervised :: "gen_env \<Rightarrow> container \<Rightarrow> bool" where
  "supervised ge ct \<longleftrightarrow>
     map_of (ct_env ct) ''SUPERVISOR_HOST'' = Some ''supervisor'' \<and> map_of (ct_env ct) ''SUPERVISOR_PORT'' = Some ''9100'' \<and>
     map_of (ct_env ct) ''NODE_NAME'' = Some (ct_name ct) \<and> map_of (ct_env ct) ''NODE_KIND'' = Some (ct_docker ct) \<and>
     map_of (ct_env ct) ''HEARTBEAT_INTERVAL'' = Some (interpolate ge ''HEARTBEAT_INTERVAL'' ''1'')"

definition node_images :: "string list" where
  "node_images = [''filter'', ''group_by'', ''aggregate'', ''merge'', ''join'']"

text \<open>\<open>implements\<close>: a generator yields supervised containers with given names whose entry points make
  given wirings.\<close>

definition implements :: "gen_env \<Rightarrow> generator \<Rightarrow> wiring list \<Rightarrow> string list \<Rightarrow> bool" where
  "implements ge g ws names \<longleftrightarrow>
     (\<exists>cts. yields g cts \<and> map node_main cts = map Inr ws \<and> map ct_name cts = names \<and>
        (\<forall>ct\<in>set cts. ct_docker ct \<in> set node_images \<and> supervised ge ct))"

lemma implements_plus:
  assumes "implements ge f ws ns" and "implements ge g ws' ns'"
  shows "implements ge (plus_gen f g) (ws @ ws') (ns @ ns')"
proof -
  from assms obtain xs ys where "yields f xs" "map node_main xs = map Inr ws" "map ct_name xs = ns"
      "\<forall>ct\<in>set xs. ct_docker ct \<in> set node_images \<and> supervised ge ct"
    and "yields g ys" "map node_main ys = map Inr ws'" "map ct_name ys = ns'"
      "\<forall>ct\<in>set ys. ct_docker ct \<in> set node_images \<and> supervised ge ct"
    unfolding implements_def by blast
  then show ?thesis
    unfolding implements_def by (intro exI [of _ "xs @ ys"]) (auto intro: yields_plus)
qed

definition fleet_names :: "fleet \<Rightarrow> string list" where
  "fleet_names fl = map (\<lambda>i. fl_container fl @ ''_'' @ nat_str i) [0..<fl_size fl]"

definition fleet_nodes :: "int \<Rightarrow> fleet \<Rightarrow> wiring list" where
  "fleet_nodes ck fl = map (fleet_wiring ck fl) [0..<fl_size fl]"

lemma implements_range:
  assumes y: "yields g (map c [0..<fl_size fl])"
    and n: "\<And>i. i < fl_size fl \<Longrightarrow> node_main (c i) = Inr (fleet_wiring ck fl i)"
    and c: "\<And>i. ct_name (c i) = fl_container fl @ ''_'' @ nat_str i" "\<And>i. ct_docker (c i) \<in> set node_images"
      "\<And>i. supervised ge (c i)"
  shows "implements ge g (fleet_nodes ck fl) (fleet_names fl)"
  unfolding implements_def
  by (intro exI [of _ "map c [0..<fl_size fl]"]) (auto simp: y n c fleet_names_def fleet_nodes_def)

lemma node_ct_facts:
  assumes "fst ` set extra \<subseteq> {''TX_DEGREE'', ''NAFFINITY_DEGREE''}"
  shows "ct_name (node_ct ge ck type2 strategy n m rx tx cp bc extra i) = strategy @ ''_'' @ nat_str i"
    "supervised ge (node_ct ge ck type2 strategy n m rx tx cp bc extra i)"
proof -
  have none: "map_of extra k = None" if "k \<notin> {''TX_DEGREE'', ''NAFFINITY_DEGREE''}" for k
    using that assms by (auto simp: map_of_eq_None_iff)
  show "ct_name (node_ct ge ck type2 strategy n m rx tx cp bc extra i) = strategy @ ''_'' @ nat_str i"
    by (simp add: node_ct_def node_service_def supervisor_env_def Let_def)
  show "supervised ge (node_ct ge ck type2 strategy n m rx tx cp bc extra i)"
    by (cases cp) (simp_all add: supervised_def node_ct_def node_service_def supervisor_env_def Let_def map_add_def none)
qed

lemma merge_ct_facts:
  "ct_name (merge_ct ge ck strategy left right tx m cp n ring i) = strategy @ ''_'' @ nat_str i"
  "ct_docker (merge_ct ge ck strategy left right tx m cp n ring i) = ''merge''"
  "supervised ge (merge_ct ge ck strategy left right tx m cp n ring i)"
  by (cases cp, simp_all add: merge_ct_def supervised_def merge_service_def supervisor_env_def Let_def)+

lemma implements_nodes:
  assumes "\<And>i. i < n \<Longrightarrow> node_main (node_ct ge ck type2 strategy n m rx tx (Some c) bc extra i) =
      Inr (fleet_wiring ck (fleet_of type2 strategy n [rx] routes bc) i)"
    and "fst ` set extra \<subseteq> {''TX_DEGREE'', ''NAFFINITY_DEGREE''}" and "type2 \<in> set node_images"
  shows "implements ge (gen_nodes ge ck type2 strategy n m rx tx (Some c) bc extra)
    (fleet_nodes ck (fleet_of type2 strategy n [rx] routes bc)) (fleet_names (fleet_of type2 strategy n [rx] routes bc))"
  by (rule implements_range [where c = "node_ct ge ck type2 strategy n m rx tx (Some c) bc extra"])
     (simp_all add: assms node_ct_facts fleet_of_def [of type2 strategy n "[rx]" routes bc] yields_nodes)

lemma implements_merge:
  assumes "strategy \<in> {''uc2_merge'', ''uc3_merge'', ''uc4_prune''}"
  shows "implements ge (gen_merge ge ck strategy left right tx (Some c) m n)
    (fleet_nodes ck (fleet_of ''merge'' strategy n [left, right] [(tx, m)] False))
    (fleet_names (fleet_of ''merge'' strategy n [left, right] [(tx, m)] False))"
proof (rule implements_range [where c = "merge_ct ge ck strategy left right tx m (Some c) n (strategy @ ''_ring'')"])
  show "node_main (merge_ct ge ck strategy left right tx m (Some c) n (strategy @ ''_ring'') i) =
      Inr (fleet_wiring ck (fleet_of ''merge'' strategy n [left, right] [(tx, m)] False) i)"
    if "i < fl_size (fleet_of ''merge'' strategy n [left, right] [(tx, m)] False)" for i
    using merge_node [OF _ assms] that by (simp add: fleet_of_def)
qed (simp_all add: merge_ct_facts fleet_of_def yields_merge node_images_def)

lemma implements_default:
  assumes "valid_topology tp"
  shows "implements ge (gen_default_filters ge ck tp) (fleet_nodes ck (default_fleet tp)) (fleet_names (default_fleet tp))"
proof (rule implements_range [where c = "default_filter_ct ge ck tp"])
  show "yields (gen_default_filters ge ck tp) (map (default_filter_ct ge ck tp) [0..<fl_size (default_fleet tp)])"
    using yields_default_filters by (simp add: default_fleet_def)
  show "node_main (default_filter_ct ge ck tp i) = Inr (fleet_wiring ck (default_fleet tp) i)"
    if "i < fl_size (default_fleet tp)" for i
    using default_filter_node [OF _ assms] that by (simp add: default_fleet_def)
qed (simp_all add: default_filter_ct_def default_filter_service_def supervisor_env_def Let_def default_fleet_def
    supervised_def route_shards_def node_images_def)

lemma map_enumerate: "map (\<lambda>(i, x). f x) (enumerate k xs) = map f xs"
  by (induction xs arbitrary: k) simp_all

definition join_names :: "topology \<Rightarrow> string list" where
  "join_names tp = map (\<lambda>i. ''join_'' @ nat_str i) [0..<length (join_partition tp)]"

lemma implements_join:
  assumes "valid_topology tp"
  shows "implements ge (gen_join ge ck tp) (map (join_wiring ck) (join_partition tp)) (join_names tp)"
  unfolding implements_def
proof (intro exI conjI)
  let ?cts = "map (join_ct ge ck) (enumerate 0 (join_partition tp))"
  show "yields (gen_join ge ck tp) ?cts" by (rule yields_join)
  have part: "node_main (join_ct ge ck p) = Inr (join_wiring ck (snd p))" if "p \<in> set (enumerate 0 (join_partition tp))" for p
  proof -
    obtain idx ucs where p: "p = (idx, ucs)" by (cases p)
    with that have "ucs \<in> set (join_partition tp)" by (auto simp: in_set_enumerate_eq)
    with assms have "ucs \<noteq> []" "set ucs \<subseteq> {1, 2, 3, 4, 5}" by (auto simp: valid_topology_def)
    then show ?thesis by (simp add: p join_node)
  qed
  have "map node_main ?cts = map (\<lambda>(i, x). Inr (join_wiring ck x)) (enumerate 0 (join_partition tp))"
    by (simp add: part case_prod_beta)
  then show "map node_main ?cts = map Inr (map (join_wiring ck) (join_partition tp))"
    by (simp add: map_enumerate o_def)
  show "map ct_name ?cts = join_names tp"
    by (rule nth_equalityI)
       (simp_all add: join_names_def nth_enumerate_eq join_ct_def join_service_def supervisor_env_def Let_def)
  show "\<forall>ct\<in>set ?cts. ct_docker ct \<in> set node_images \<and> supervised ge ct"
    by (auto simp: join_ct_def join_service_def supervisor_env_def Let_def node_images_def supervised_def)
qed

lemma implements_uc1: "implements ge gen_uc1 [] []"
  by (simp add: implements_def yields_uc1)

lemma implements_groupby:
  assumes "strategy \<in> {''uc2_max_amount_group_by'', ''uc2_bank_names_group_by'', ''uc3_group_by_format'',
      ''uc5_converter'', ''uc5_count_group_by''}"
  shows "implements ge (gen_nodes ge ck ''group_by'' strategy n m rx tx (Some c) False [])
    (fleet_nodes ck (fleet_of ''group_by'' strategy n [rx] [(tx, m)] False))
    (fleet_names (fleet_of ''group_by'' strategy n [rx] [(tx, m)] False))"
  by (rule implements_nodes) (simp_all add: groupby_node [OF _ assms] node_images_def)

lemma implements_aggregate:
  assumes "strategy \<in> set aggregate_strategies"
  shows "implements ge (gen_nodes ge ck ''aggregate'' strategy n m rx tx (Some c) bc [])
    (fleet_nodes ck (fleet_of ''aggregate'' strategy n [rx] [(tx, m)] bc))
    (fleet_names (fleet_of ''aggregate'' strategy n [rx] [(tx, m)] bc))"
  by (rule implements_nodes) (simp_all add: aggregate_node [OF _ assms] node_images_def)

lemma implements_filter:
  assumes "strategy \<in> {''uc3_average_filter'', ''uc4_path'', ''uc5_amount_filter''}"
  shows "implements ge (gen_nodes ge ck ''filter'' strategy n m rx tx (Some c) False [])
    (fleet_nodes ck (fleet_of ''filter'' strategy n [rx] [(tx, m)] False))
    (fleet_names (fleet_of ''filter'' strategy n [rx] [(tx, m)] False))"
  by (rule implements_nodes) (simp_all add: filter_node [OF _ assms] node_images_def)

lemma implements_builder:
  "implements ge (gen_nodes ge ck ''group_by'' ''uc4_compute_graph_group_by'' n m rx tx (Some c) False
      [(''TX_DEGREE'', tx2), (''NAFFINITY_DEGREE'', nat_str m2)])
    (fleet_nodes ck (fleet_of ''group_by'' ''uc4_compute_graph_group_by'' n [rx] [(tx, m), (tx2, m2)] False))
    (fleet_names (fleet_of ''group_by'' ''uc4_compute_graph_group_by'' n [rx] [(tx, m), (tx2, m2)] False))"
  by (rule implements_nodes) (simp_all add: builder_node node_images_def)

lemmas implements_rules =
  implements_plus implements_groupby implements_aggregate implements_filter implements_merge implements_builder

definition service_names :: "topology \<Rightarrow> string list" where
  "service_names tp = ''gateway'' # concat (map fleet_names (fleets tp)) @ join_names tp"

definition pipeline_gen :: "gen_env \<Rightarrow> int \<Rightarrow> topology \<Rightarrow> generator" where
  "pipeline_gen ge ck tp =
     plus_gen (gen_default_filters ge ck tp) (plus_gen gen_uc1 (plus_gen (gen_uc2 ge ck tp) (plus_gen (gen_uc3 ge ck tp)
    (plus_gen (gen_uc4 ge ck tp) (plus_gen (gen_uc5 ge ck tp) (gen_join ge ck tp))))))"

lemma implements_uc2:
  "implements ge (gen_uc2 ge ck tp) (concat (map (fleet_nodes ck) (take 5 (drop 1 (fleets tp)))))
     (concat (map fleet_names (take 5 (drop 1 (fleets tp)))))"
proof -
  have "\<exists>ws ns. implements ge (gen_uc2 ge ck tp) ws ns \<and> ws = concat (map (fleet_nodes ck) (take 5 (drop 1 (fleets tp)))) \<and>
      ns = concat (map fleet_names (take 5 (drop 1 (fleets tp))))"
    unfolding gen_uc2_def
    by (intro exI conjI, (rule implements_rules | simp add: aggregate_strategies_def)+) (simp_all add: fleets_def)
  then show ?thesis by auto
qed

lemma implements_uc3:
  "implements ge (gen_uc3 ge ck tp) (concat (map (fleet_nodes ck) (take 4 (drop 6 (fleets tp)))))
     (concat (map fleet_names (take 4 (drop 6 (fleets tp)))))"
proof -
  have "\<exists>ws ns. implements ge (gen_uc3 ge ck tp) ws ns \<and> ws = concat (map (fleet_nodes ck) (take 4 (drop 6 (fleets tp)))) \<and>
      ns = concat (map fleet_names (take 4 (drop 6 (fleets tp))))"
    unfolding gen_uc3_def
    by (intro exI conjI, (rule implements_rules | simp add: aggregate_strategies_def)+) (simp_all add: fleets_def)
  then show ?thesis by auto
qed

lemma implements_uc4:
  "implements ge (gen_uc4 ge ck tp) (concat (map (fleet_nodes ck) (take 6 (drop 10 (fleets tp)))))
     (concat (map fleet_names (take 6 (drop 10 (fleets tp)))))"
proof -
  have "\<exists>ws ns. implements ge (gen_uc4 ge ck tp) ws ns \<and> ws = concat (map (fleet_nodes ck) (take 6 (drop 10 (fleets tp)))) \<and>
      ns = concat (map fleet_names (take 6 (drop 10 (fleets tp))))"
    unfolding gen_uc4_def
    by (intro exI conjI, (rule implements_rules | simp add: aggregate_strategies_def)+) (simp_all add: fleets_def)
  then show ?thesis by auto
qed

lemma implements_uc5:
  "implements ge (gen_uc5 ge ck tp) (concat (map (fleet_nodes ck) (drop 16 (fleets tp))))
     (concat (map fleet_names (drop 16 (fleets tp))))"
proof -
  have "\<exists>ws ns. implements ge (gen_uc5 ge ck tp) ws ns \<and> ws = concat (map (fleet_nodes ck) (drop 16 (fleets tp))) \<and>
      ns = concat (map fleet_names (drop 16 (fleets tp)))"
    unfolding gen_uc5_def
    by (intro exI conjI, (rule implements_rules | simp add: aggregate_strategies_def)+) (simp_all add: fleets_def)
  then show ?thesis by auto
qed

lemma implements_pipeline:
  assumes "valid_topology tp"
  shows "implements ge (pipeline_gen ge ck tp) (system ck tp) (concat (map fleet_names (fleets tp)) @ join_names tp)"
proof -
  have split: "fleets tp = default_fleet tp # take 5 (drop 1 (fleets tp)) @ take 4 (drop 6 (fleets tp)) @
      take 6 (drop 10 (fleets tp)) @ drop 16 (fleets tp)"
    by (simp add: fleets_def)
  note parts = implements_plus [OF implements_default [OF assms] implements_plus [OF implements_uc1
    implements_plus [OF implements_uc2 implements_plus [OF implements_uc3
    implements_plus [OF implements_uc4 implements_plus [OF implements_uc5 implements_join [OF assms]]]]]]]
  have ws: "system ck tp = fleet_nodes ck (default_fleet tp) @ [] @ concat (map (fleet_nodes ck) (take 5 (drop 1 (fleets tp)))) @
      concat (map (fleet_nodes ck) (take 4 (drop 6 (fleets tp)))) @ concat (map (fleet_nodes ck) (take 6 (drop 10 (fleets tp)))) @
      concat (map (fleet_nodes ck) (drop 16 (fleets tp))) @ map (join_wiring ck) (join_partition tp)"
    unfolding system_def fleet_nodes_def [symmetric] by (subst split) (simp del: take_drop drop_drop)
  have ns: "concat (map fleet_names (fleets tp)) @ join_names tp =
      fleet_names (default_fleet tp) @ [] @ concat (map fleet_names (take 5 (drop 1 (fleets tp)))) @
      concat (map fleet_names (take 4 (drop 6 (fleets tp)))) @ concat (map fleet_names (take 6 (drop 10 (fleets tp)))) @
      concat (map fleet_names (drop 16 (fleets tp))) @ join_names tp"
    by (subst split) (simp del: take_drop drop_drop)
  show ?thesis unfolding ws ns pipeline_gen_def by (rule parts)
qed

section \<open>Where a fleet reads and writes\<close>

definition shards :: "string \<Rightarrow> nat \<Rightarrow> binding set" where
  "shards x n = (\<lambda>i. Bound x (nat_str i)) ` {..<n}"

definition targets :: "string \<times> nat \<Rightarrow> binding set" where
  "targets r = (case r of (tx, m) \<Rightarrow> if m = 0 then {Direct tx} else shards tx m)"

lemma consumed_append [simp]: "consumed (xs @ ys) = consumed xs @ consumed ys"
  by (simp add: consumed_def)

lemma published_append [simp]: "published (xs @ ys) = published xs @ published ys"
  by (simp add: published_def)

lemma producers_append [simp]: "producers (xs @ ys) = producers xs @ producers ys"
  by (simp add: producers_def)

lemma consumed_concat: "consumed (concat wss) = concat (map consumed wss)"
  by (induction wss) (simp_all add: consumed_def)

lemma published_concat: "published (concat wss) = concat (map published wss)"
  by (induction wss) (simp_all add: published_def)

lemma producers_concat: "producers (concat wss) = concat (map producers wss)"
  by (induction wss) (simp_all add: producers_def)

lemma fleet_writers_targets: "fst ` set (fleet_writers shared i r) = targets r"
  by (cases r) (simp add: fleet_writers_def targets_def shards_def image_image lessThan_atLeast0)

lemma front_image:
  assumes "0 < n"
  shows "(\<lambda>i. Suc i mod n) ` {..<n} = {..<n}"
proof -
  have "k \<in> (\<lambda>i. Suc i mod n) ` {..<n}" if "k < n" for k
  proof (cases k)
    case 0
    with assms show ?thesis by (intro image_eqI [of _ _ "n - 1"]) auto
  next
    case (Suc m)
    with that show ?thesis by (intro image_eqI [of _ _ m]) auto
  qed
  with assms show ?thesis by auto
qed

lemma fleet_reads:
  "in_bind ` set (consumed (fleet_nodes ck fl)) = (\<Union>rx\<in>set (fl_rxs fl @ [fl_ring fl]). shards rx (fl_size fl))"
proof -
  have "in_bind ` set (wi_inputs (fleet_wiring ck fl i)) = (\<lambda>rx. Bound rx (nat_str i)) ` set (fl_rxs fl @ [fl_ring fl])" for i
    by (simp add: fleet_wiring_def image_image)
  then have "in_bind ` set (consumed (fleet_nodes ck fl)) =
      (\<Union>i<fl_size fl. (\<lambda>rx. Bound rx (nat_str i)) ` set (fl_rxs fl @ [fl_ring fl]))"
    by (simp add: consumed_def fleet_nodes_def image_UN lessThan_atLeast0)
  also have "... = (\<Union>rx\<in>set (fl_rxs fl @ [fl_ring fl]). shards rx (fl_size fl))"
    unfolding shards_def by blast
  finally show ?thesis .
qed

lemma fleet_publishes:
  assumes "0 < fl_size fl"
  shows "set (published (fleet_nodes ck fl)) = \<Union> (targets ` set (fl_routes fl)) \<union> shards (fl_ring fl) (fl_size fl)"
proof -
  let ?T = "\<Union> (targets ` set (fl_routes fl))"
  have out: "fst ` set (wi_outputs (fleet_wiring ck fl i)) = ?T" for i
    by (simp add: fleet_wiring_def image_UN fleet_writers_targets)
  have front: "wi_front (fleet_wiring ck fl i) = Some (Bound (fl_ring fl) (nat_str (Suc i mod fl_size fl)))" for i
    by (simp add: fleet_wiring_def)
  have "set (published (fleet_nodes ck fl)) =
      (\<Union>i\<in>{..<fl_size fl}. insert (Bound (fl_ring fl) (nat_str (Suc i mod fl_size fl))) ?T)"
    by (simp add: published_def fleet_nodes_def lessThan_atLeast0 front out)
  also have "... = ?T \<union> (\<lambda>i. Bound (fl_ring fl) (nat_str i)) ` (\<lambda>i. Suc i mod fl_size fl) ` {..<fl_size fl}"
    using assms by blast
  finally show ?thesis using assms by (simp add: front_image shards_def)
qed

lemma join_reads:
  assumes "set ucs \<subseteq> {1, 2, 3, 4, 5}"
  shows "map in_queue (wi_inputs (join_wiring ck ucs)) = map join_queue (filter (\<lambda>uc. uc \<in> set ucs) [1, 2, 3, 4, 5])"
    "map in_bind (wi_inputs (join_wiring ck ucs)) = map (Direct \<circ> join_queue) (filter (\<lambda>uc. uc \<in> set ucs) [1, 2, 3, 4, 5])"
  by (simp_all add: join_wiring_def Let_def o_def del: filter.simps)

lemma joins_read:
  assumes "valid_topology tp"
  shows "in_bind ` set (consumed (map (join_wiring ck) (join_partition tp))) = (Direct \<circ> join_queue) ` {1, 2, 3, 4, 5}"
proof -
  have sub: "set ucs \<subseteq> {1, 2, 3, 4, 5}" if "ucs \<in> set (join_partition tp)" for ucs
    using assms that by (auto simp: valid_topology_def)
  have "in_bind ` set (wi_inputs (join_wiring ck ucs)) = (Direct \<circ> join_queue) ` set ucs" if "ucs \<in> set (join_partition tp)" for ucs
  proof -
    have "in_bind ` set (wi_inputs (join_wiring ck ucs)) = set (map in_bind (wi_inputs (join_wiring ck ucs)))" by simp
    also have "... = (Direct \<circ> join_queue) ` set ucs"
      unfolding join_reads(2) [OF sub [OF that]] using sub [OF that] by (auto simp: set_filter simp del: filter.simps)
    finally show ?thesis .
  qed
  then have "in_bind ` set (consumed (map (join_wiring ck) (join_partition tp))) =
      (Direct \<circ> join_queue) ` set (concat (join_partition tp))"
    by (simp add: consumed_def image_UN)
  with assms show ?thesis by (simp only: valid_topology_def)
qed

lemma joins_publish: "published (map (join_wiring ck) ps) = []" "producers (map (join_wiring ck) ps) = []"
  by (induction ps) (simp_all add: published_def producers_def join_wiring_def Let_def)

section \<open>The whole system\<close>

lemma system_nodes: "system ck tp = concat (map (fleet_nodes ck) (fleets tp)) @ map (join_wiring ck) (join_partition tp)"
  by (simp add: system_def fleet_nodes_def [abs_def])

lemma fleets_positive: "valid_topology tp \<Longrightarrow> fl \<in> set (fleets tp) \<Longrightarrow> 0 < fl_size fl"
  by (auto simp: valid_topology_def fleets_def default_fleet_def fleet_of_def)

lemma system_reads:
  assumes "valid_topology tp"
  shows "in_bind ` set (consumed (system ck tp)) =
    (\<Union>fl\<in>set (fleets tp). \<Union>rx\<in>set (fl_rxs fl @ [fl_ring fl]). shards rx (fl_size fl)) \<union>
    (Direct \<circ> join_queue) ` {1, 2, 3, 4, 5}"
proof -
  have "in_bind ` set (consumed (concat (map (fleet_nodes ck) (fleets tp)))) =
      (\<Union>fl\<in>set (fleets tp). in_bind ` set (consumed (fleet_nodes ck fl)))"
    by (simp add: consumed_concat image_UN)
  also have "... = (\<Union>fl\<in>set (fleets tp). \<Union>rx\<in>set (fl_rxs fl @ [fl_ring fl]). shards rx (fl_size fl))"
    by (rule SUP_cong [OF refl]) (rule fleet_reads)
  finally show ?thesis
    unfolding system_nodes consumed_append set_append image_Un joins_read [OF assms] by simp
qed

lemma system_publishes:
  assumes "valid_topology tp"
  shows "set (published (system ck tp)) =
    (\<Union>fl\<in>set (fleets tp). \<Union> (targets ` set (fl_routes fl)) \<union> shards (fl_ring fl) (fl_size fl))"
proof -
  have "set (published (system ck tp)) = (\<Union>fl\<in>set (fleets tp). set (published (fleet_nodes ck fl)))"
    by (simp add: system_nodes published_concat joins_publish)
  also have "... = (\<Union>fl\<in>set (fleets tp). \<Union> (targets ` set (fl_routes fl)) \<union> shards (fl_ring fl) (fl_size fl))"
    by (rule SUP_cong [OF refl]) (rule fleet_publishes [OF fleets_positive [OF assms]])
  finally show ?thesis .
qed

text \<open>Every address is written to and read.\<close>

lemma system_wired:
  assumes "valid_topology tp"
  shows "set (published (system ck tp)) \<union> shards ''client_transactions'' (default_filters tp) \<union>
      shards ''client_accounts'' (uc2_bank_names_group_bys tp) = in_bind ` set (consumed (system ck tp))"
proof -
  have n: "uc2_max_amount_group_bys tp \<noteq> 0" "uc2_max_amount_aggregates tp \<noteq> 0" "uc2_bank_names_aggregates tp \<noteq> 0"
    "uc2_merges tp \<noteq> 0" "uc3_group_bys tp \<noteq> 0" "uc3_aggregates tp \<noteq> 0" "uc3_merges tp \<noteq> 0" "uc3_filters tp \<noteq> 0"
    "uc4_compute_graphs tp \<noteq> 0" "uc4_aggregate_graphs tp \<noteq> 0" "uc4_degree_aggregates tp \<noteq> 0" "uc4_prunes tp \<noteq> 0"
    "uc4_count_paths tp \<noteq> 0" "uc4_paths_aggregates tp \<noteq> 0" "uc5_converters tp \<noteq> 0" "uc5_amount_filters tp \<noteq> 0"
    "uc5_count_group_bys tp \<noteq> 0"
    using assms by (auto simp: valid_topology_def)
  show ?thesis
    unfolding system_reads [OF assms] system_publishes [OF assms]
    by (simp add: fleets_def default_fleet_def fleet_of_def targets_def n join_queues) blast
qed

definition word_name :: "string \<Rightarrow> bool" where
  "word_name w \<longleftrightarrow> w \<noteq> [] \<and> \<not> is_digit (last w)"

lemma numbered_eq:
  assumes "word_name p" and "word_name q" and "p @ nat_str i = q @ nat_str j"
  shows "p = q \<and> i = j"
  using assms stem_number [of p i] stem_number [of q j] by (auto simp: word_name_def)

lemma distinct_numbered:
  assumes "distinct ps" and "\<And>p. p \<in> set ps \<Longrightarrow> word_name p"
  shows "distinct (concat (map (\<lambda>i. map (\<lambda>p. p @ nat_str i) ps) [0..<n]))"
proof (rule distinct_concat_upt)
  show "distinct (map (\<lambda>p. p @ nat_str i) ps)" for i
    using assms(1) by (simp add: distinct_map inj_on_def)
  show "i = j" if x: "x \<in> set (map (\<lambda>p. p @ nat_str i) ps)" "x \<in> set (map (\<lambda>p. p @ nat_str j) ps)" for i j x
  proof -
    from x obtain p q where "p \<in> set ps" "q \<in> set ps" "p @ nat_str i = q @ nat_str j" by auto
    with numbered_eq [of p q i j] assms(2) show ?thesis by blast
  qed
qed

lemma distinct_bound:
  assumes "distinct xs"
  shows "distinct (concat (map (\<lambda>i. map (\<lambda>x. Bound x (nat_str i)) xs) [0..<n]))"
proof (rule distinct_concat_upt)
  show "distinct (map (\<lambda>x. Bound x (nat_str i)) xs)" for i
    using assms by (simp add: distinct_map inj_on_def)
qed auto

definition fleet_queues :: "fleet \<Rightarrow> string list" where
  "fleet_queues fl = fl_rxs fl @ [fl_ring fl @ ''_queue'']"

definition fleet_exchanges :: "fleet \<Rightarrow> string list" where
  "fleet_exchanges fl = fl_rxs fl @ [fl_ring fl]"

lemma fleet_consumed:
  "map in_queue (consumed (fleet_nodes ck fl)) = concat (map (\<lambda>i. map (\<lambda>p. p @ nat_str i) (fleet_queues fl)) [0..<fl_size fl])"
  "map in_bind (consumed (fleet_nodes ck fl)) = concat (map (\<lambda>i. map (\<lambda>x. Bound x (nat_str i)) (fleet_exchanges fl)) [0..<fl_size fl])"
  by (simp_all add: consumed_def fleet_nodes_def fleet_wiring_def fleet_queues_def fleet_exchanges_def map_concat o_def)

lemma fleets_names:
  "distinct (concat (map fleet_queues (fleets tp)) @ map join_queue [1, 2, 3, 4, 5])"
  "distinct (concat (map fleet_exchanges (fleets tp)))"
  "distinct (concat (map (map fst \<circ> fl_routes) (fleets tp)))"
  "list_all word_name (concat (map fleet_queues (fleets tp)) @ map join_queue [1, 2, 3, 4, 5])"
  by (simp_all add: fleets_def default_fleet_def fleet_of_def fleet_queues_def fleet_exchanges_def join_queues
      word_name_def is_digit_def)

text \<open>Every queue has one consumer and every address one queue.\<close>

lemma consumed_joins:
  assumes "valid_topology tp"
  shows "\<exists>ucs. distinct ucs \<and> set ucs \<subseteq> {1, 2, 3, 4, 5} \<and>
    map in_queue (consumed (map (join_wiring ck) (join_partition tp))) = map join_queue ucs \<and>
    map in_bind (consumed (map (join_wiring ck) (join_partition tp))) = map (Direct \<circ> join_queue) ucs"
proof -
  let ?f = "\<lambda>ucs. filter (\<lambda>uc. uc \<in> set ucs) [1, 2, 3, 4, 5 :: nat]"
  have d: "distinct (concat (map ?f ps))" if "distinct (concat ps)" for ps
    using that
  proof (induction ps)
    case (Cons p ps)
    moreover have "set (concat (map ?f ps)) \<subseteq> set (concat ps)" by (auto simp del: filter.simps)
    moreover have "set (?f p) \<subseteq> set p" by (auto simp del: filter.simps)
    moreover have "distinct (?f p)" by (rule distinct_filter) simp
    ultimately show ?case by (auto simp del: filter.simps)
  qed simp
  have sub: "set ucs \<subseteq> {1, 2, 3, 4, 5}" if "ucs \<in> set (join_partition tp)" for ucs
    using assms that by (auto simp: valid_topology_def)
  have q: "map in_queue (consumed (map (join_wiring ck) ps)) = map join_queue (concat (map ?f ps)) \<and>
      map in_bind (consumed (map (join_wiring ck) ps)) = map (Direct \<circ> join_queue) (concat (map ?f ps))"
    if "\<forall>ucs\<in>set ps. set ucs \<subseteq> {1, 2, 3, 4, 5}" for ps
    using that by (induction ps) (simp_all add: consumed_def join_reads del: filter.simps)
  show ?thesis
  proof (intro exI conjI)
    show "distinct (concat (map ?f (join_partition tp)))" using assms d by (simp only: valid_topology_def)
    show "set (concat (map ?f (join_partition tp))) \<subseteq> {1, 2, 3, 4, 5}" by (auto simp del: filter.simps)
  qed (use q [of "join_partition tp"] sub in auto)
qed

lemma list_all2_fleets:
  assumes "\<And>fl. fl \<in> set fls \<Longrightarrow> P (f fl) (g fl)" and "P x y"
  shows "list_all2 P (map f fls @ [x]) (map g fls @ [y])"
  using assms by (simp add: list_all2_append list_all2_map1 list_all2_map2 list_all2_same)

lemma distinct_concat_member: "distinct (concat xss) \<Longrightarrow> xs \<in> set xss \<Longrightarrow> distinct xs"
  by (induction xss) auto

lemma fleet_queue_keys:
  assumes "distinct (fleet_queues fl)" and w: "\<And>p. p \<in> set (fleet_queues fl) \<Longrightarrow> word_name p"
  shows "distinct (map in_queue (consumed (fleet_nodes ck fl)))"
    "stem ` set (map in_queue (consumed (fleet_nodes ck fl))) \<subseteq> set (fleet_queues fl)"
proof -
  show "distinct (map in_queue (consumed (fleet_nodes ck fl)))"
    unfolding fleet_consumed by (rule distinct_numbered [OF assms])
  have "stem (p @ nat_str i) = p" if "p \<in> set (fleet_queues fl)" for p i
    using w [OF that] by (intro stem_number) (auto simp: word_name_def)
  then show "stem ` set (map in_queue (consumed (fleet_nodes ck fl))) \<subseteq> set (fleet_queues fl)"
    unfolding fleet_consumed by auto
qed

definition exchange_of :: "binding \<Rightarrow> string" where
  "exchange_of b = (case b of Bound x _ \<Rightarrow> x | Direct q \<Rightarrow> [])"

lemma fleet_bind_keys:
  assumes "distinct (fleet_exchanges fl)"
  shows "distinct (map in_bind (consumed (fleet_nodes ck fl)))"
    "exchange_of ` set (map in_bind (consumed (fleet_nodes ck fl))) \<subseteq> set (fleet_exchanges fl)"
  unfolding fleet_consumed using distinct_bound [OF assms] by (auto simp: exchange_of_def)

lemma join_queue_words:
  assumes "set ucs \<subseteq> {1, 2, 3, 4, 5}" and "distinct ucs"
  shows "distinct (map join_queue ucs)" "uc \<in> set ucs \<Longrightarrow> stem (join_queue uc) = join_queue uc"
proof -
  have "distinct (map join_queue [1, 2, 3, 4, 5])" by (simp add: join_queues)
  then have "inj_on join_queue (set [1, 2, 3, 4, 5])" unfolding distinct_map by (rule conjunct2)
  then have "inj_on join_queue (set ucs)" by (rule inj_on_subset) (use assms(1) in simp)
  with assms(2) show "distinct (map join_queue ucs)" unfolding distinct_map by blast
  show "stem (join_queue uc) = join_queue uc"
    by (rule stem_word) (simp_all add: join_queue_def is_digit_def)
qed

lemma system_queues:
  assumes "valid_topology tp"
  shows "distinct (map in_queue (consumed (system ck tp)))"
proof -
  obtain ucs where u: "distinct ucs" "set ucs \<subseteq> {1, 2, 3, 4, 5}"
      "map in_queue (consumed (map (join_wiring ck) (join_partition tp))) = map join_queue ucs"
    using consumed_joins [OF assms] by blast
  let ?J = "map join_queue [1, 2, 3, 4, 5]"
  let ?xss = "map (\<lambda>fl. map in_queue (consumed (fleet_nodes ck fl))) (fleets tp) @ [map join_queue ucs]"
  have all: "distinct (concat (map fleet_queues (fleets tp)))"
    using fleets_names(1) [of tp] unfolding distinct_append by (rule conjunct1)
  have word: "word_name p" if "p \<in> set (fleet_queues fl)" "fl \<in> set (fleets tp)" for p fl
  proof -
    have "p \<in> set (concat (map fleet_queues (fleets tp)) @ ?J)" using that by auto
    with fleets_names(4) [of tp] show ?thesis unfolding list_all_iff by blast
  qed
  have "distinct (concat ?xss)"
  proof (rule distinct_keyed [where key = stem and kss = "map fleet_queues (fleets tp) @ [?J]"])
    show "list_all2 (\<lambda>xs ks. distinct xs \<and> stem ` set xs \<subseteq> set ks) ?xss (map fleet_queues (fleets tp) @ [?J])"
    proof (rule list_all2_fleets)
      fix fl assume fl: "fl \<in> set (fleets tp)"
      have "distinct (fleet_queues fl)" using distinct_concat_member [OF all] fl by simp
      from fleet_queue_keys [OF this word [OF _ fl]]
      show "distinct (map in_queue (consumed (fleet_nodes ck fl))) \<and>
          stem ` set (map in_queue (consumed (fleet_nodes ck fl))) \<subseteq> set (fleet_queues fl)" by blast
    next
      have "stem ` set (map join_queue ucs) = join_queue ` set ucs"
        by (simp add: image_image join_queue_words(2) [OF u(2,1)])
      with u(2) have "stem ` set (map join_queue ucs) \<subseteq> set ?J" by auto
      with join_queue_words(1) [OF u(2,1)]
      show "distinct (map join_queue ucs) \<and> stem ` set (map join_queue ucs) \<subseteq> set ?J" by blast
    qed
    show "distinct (concat (map fleet_queues (fleets tp) @ [?J]))" using fleets_names(1) [of tp] by simp
  qed
  then show ?thesis by (simp add: system_nodes consumed_concat map_concat o_def u(3))
qed

lemma system_binds:
  assumes "valid_topology tp"
  shows "distinct (map in_bind (consumed (system ck tp)))"
proof -
  obtain ucs where u: "distinct ucs" "set ucs \<subseteq> {1, 2, 3, 4, 5}"
      "map in_bind (consumed (map (join_wiring ck) (join_partition tp))) = map (Direct \<circ> join_queue) ucs"
    using consumed_joins [OF assms] by blast
  let ?xss = "map (\<lambda>fl. map in_bind (consumed (fleet_nodes ck fl))) (fleets tp) @ [map (Direct \<circ> join_queue) ucs]"
  have ne: "[] \<notin> set (concat (map fleet_exchanges (fleets tp)))"
    by (simp add: fleets_def default_fleet_def fleet_of_def fleet_exchanges_def)
  have "distinct (concat ?xss)"
  proof (rule distinct_keyed [where key = exchange_of and kss = "map fleet_exchanges (fleets tp) @ [[[]]]"])
    show "list_all2 (\<lambda>xs ks. distinct xs \<and> exchange_of ` set xs \<subseteq> set ks) ?xss (map fleet_exchanges (fleets tp) @ [[[]]])"
    proof (rule list_all2_fleets)
      fix fl assume "fl \<in> set (fleets tp)"
      then have "distinct (fleet_exchanges fl)" using distinct_concat_member [OF fleets_names(2) [of tp]] by simp
      from fleet_bind_keys [OF this] show "distinct (map in_bind (consumed (fleet_nodes ck fl))) \<and>
          exchange_of ` set (map in_bind (consumed (fleet_nodes ck fl))) \<subseteq> set (fleet_exchanges fl)" by blast
    next
      have "distinct (map Direct (map join_queue ucs))"
        using join_queue_words(1) [OF u(2,1)] by (subst distinct_map) (simp add: inj_on_def)
      then show "distinct (map (Direct \<circ> join_queue) ucs) \<and> exchange_of ` set (map (Direct \<circ> join_queue) ucs) \<subseteq> set [[]]"
        by (auto simp: exchange_of_def)
    qed
    show "distinct (concat (map fleet_exchanges (fleets tp) @ [[[]]]))" using fleets_names(2) [of tp] ne by simp
  qed
  then show ?thesis by (simp add: system_nodes consumed_concat map_concat o_def u(3))
qed

text \<open>No two nodes stamp with the same identity.\<close>

lemma image_concat_sub: "(\<And>x. x \<in> set xs \<Longrightarrow> g ` set (f x) \<subseteq> T) \<Longrightarrow> g ` set (concat (map f xs)) \<subseteq> T"
  by (simp add: image_UN UN_subset_iff)

lemma system_producers: "distinct (producers (system ck tp))" "fst ` set (producers (system ck tp)) \<subseteq> set (concat (map (map fst \<circ> fl_routes) (fleets tp)))"
proof -
  let ?f = "\<lambda>fl. concat (map (\<lambda>i. remdups (map snd (wi_outputs (fleet_wiring ck fl i)))) [0..<fl_size fl])"
  have p: "producers (fleet_nodes ck fl) = ?f fl" for fl
    by (simp add: producers_def fleet_nodes_def o_def)
  have w: "fst x \<in> set (map fst (fl_routes fl)) \<and> fst (snd x) = int i"
    if x: "x \<in> set (map snd (wi_outputs (fleet_wiring ck fl i)))" for fl i x
  proof -
    from x obtain r where "r \<in> set (fl_routes fl)" "x \<in> snd ` set (fleet_writers (fl_docker fl = ''merge'') i r)"
      by (auto simp: fleet_wiring_def)
    then show ?thesis by (cases r) (auto simp: fleet_writers_def image_iff split: if_splits intro: rev_bexI)
  qed
  have d: "distinct (?f fl)" for fl
  proof (rule distinct_concat_upt)
    show "i = j" if x: "x \<in> set (remdups (map snd (wi_outputs (fleet_wiring ck fl i))))"
        "x \<in> set (remdups (map snd (wi_outputs (fleet_wiring ck fl j))))" for i j x
      using w [of x fl i] w [of x fl j] x unfolding set_remdups by simp
  qed simp
  have k: "fst ` set (?f fl) \<subseteq> set (map fst (fl_routes fl))" for fl
  proof
    fix t assume "t \<in> fst ` set (?f fl)"
    then obtain a k r i where "(a, t, k, r) \<in> set (wi_outputs (fleet_wiring ck fl i))" by auto
    then have "(t, k, r) \<in> set (map snd (wi_outputs (fleet_wiring ck fl i)))" by force
    from w [OF this] show "t \<in> set (map fst (fl_routes fl))" by simp
  qed
  have s: "producers (system ck tp) = concat (map ?f (fleets tp))"
    unfolding system_nodes producers_append producers_concat joins_publish map_map o_def p by simp
  show "distinct (producers (system ck tp))"
    unfolding s
  proof (rule distinct_keyed [where key = fst and kss = "map (map fst \<circ> fl_routes) (fleets tp)"])
    show "list_all2 (\<lambda>xs ks. distinct xs \<and> fst ` set xs \<subseteq> set ks) (map ?f (fleets tp)) (map (map fst \<circ> fl_routes) (fleets tp))"
      using d k by (simp add: list_all2_map1 list_all2_map2 list_all2_same)
    show "distinct (concat (map (map fst \<circ> fl_routes) (fleets tp)))" by (rule fleets_names)
  qed
  show "fst ` set (producers (system ck tp)) \<subseteq> set (concat (map (map fst \<circ> fl_routes) (fleets tp)))"
    unfolding s
  proof (rule image_concat_sub)
    fix fl assume "fl \<in> set (fleets tp)"
    then have "set (map fst (fl_routes fl)) \<subseteq> set (concat (map (map fst \<circ> fl_routes) (fleets tp)))" by force
    with k show "fst ` set (?f fl) \<subseteq> set (concat (map (map fst \<circ> fl_routes) (fleets tp)))" by (rule order_trans)
  qed
qed

section \<open>The generated compose file\<close>

lemma set_shard_addresses: "set (shard_addresses x (int n)) = shards x n"
  by (simp add: shard_addresses_def shards_def image_image lessThan_atLeast0)

lemma gateway_ct_facts:
  "ct_name (gateway_ct ge tp) = ''gateway''" "ct_docker (gateway_ct ge tp) = ''gateway''" "supervised ge (gateway_ct ge tp)"
  "gateway_main (ct_env (gateway_ct ge tp)) = Inr
     \<lparr>gw_port = 12345, gw_transactions = shard_addresses ''client_transactions'' (int (default_filters tp)),
      gw_accounts = shard_addresses ''client_accounts'' (int (uc2_bank_names_group_bys tp)), gw_responses = ''responses''\<rparr>"
proof -
  have p: "parse_int ''12345'' = Inr 12345" by code_simp
  show "ct_name (gateway_ct ge tp) = ''gateway''" "ct_docker (gateway_ct ge tp) = ''gateway''" "supervised ge (gateway_ct ge tp)"
    by (simp_all add: gateway_ct_def gen_gateway_def supervisor_env_def supervised_def)
  show "gateway_main (ct_env (gateway_ct ge tp)) = Inr
     \<lparr>gw_port = 12345, gw_transactions = shard_addresses ''client_transactions'' (int (default_filters tp)),
      gw_accounts = shard_addresses ''client_accounts'' (int (uc2_bank_names_group_bys tp)), gw_responses = ''responses''\<rparr>"
    by (simp add: gateway_ct_def gen_gateway_def supervisor_env_def gateway_main_def environ_def getenv_def int_var_def
        bind_result_def p)
qed

definition fleet_stem :: "fleet \<Rightarrow> string" where
  "fleet_stem fl = fl_container fl @ ''_''"

lemma service_names_distinct:
  assumes "valid_topology tp"
  shows "distinct (service_names tp)"
proof -
  have stems: "distinct (map fleet_stem (fleets tp) @ [''join_'', ''gateway''])"
    by (simp add: fleet_stem_def fleets_def default_fleet_def fleet_of_def)
  have num: "distinct (map (\<lambda>i. p @ ''_'' @ nat_str i) [0..<n]) \<and> stem ` set (map (\<lambda>i. p @ ''_'' @ nat_str i) [0..<n]) \<subseteq> set [p @ ''_'']"
    for p n
    using stem_number [of "p @ ''_''"] by (auto simp: distinct_map inj_on_def is_digit_def)
  have "distinct (concat (map fleet_names (fleets tp) @ [join_names tp] @ [[''gateway'']]))"
  proof (rule distinct_keyed [where key = stem and kss = "map (\<lambda>fl. [fleet_stem fl]) (fleets tp) @ [[''join_'']] @ [[''gateway'']]"])
    have "distinct (fleet_names fl) \<and> stem ` set (fleet_names fl) \<subseteq> set [fleet_stem fl]" for fl
      using num [of "fl_container fl" "fl_size fl"] by (simp add: fleet_names_def fleet_stem_def)
    moreover have "distinct (join_names tp) \<and> stem ` set (join_names tp) \<subseteq> set [''join_'']"
      using num [of "''join''" "length (join_partition tp)"] by (simp add: join_names_def)
    moreover have "stem ''gateway'' = ''gateway''" by code_simp
    ultimately show "list_all2 (\<lambda>xs ks. distinct xs \<and> stem ` set xs \<subseteq> set ks)
        (map fleet_names (fleets tp) @ [join_names tp] @ [[''gateway'']])
        (map (\<lambda>fl. [fleet_stem fl]) (fleets tp) @ [[''join_'']] @ [[''gateway'']])"
      by (simp add: list_all2_append list_all2_map1 list_all2_map2 list_all2_same)
    have "concat (map (\<lambda>fl. [fleet_stem fl]) fls) = map fleet_stem fls" for fls by (induction fls) auto
    with stems show "distinct (concat (map (\<lambda>fl. [fleet_stem fl]) (fleets tp) @ [[''join_'']] @ [[''gateway'']]))" by simp
  qed
  then show ?thesis by (auto simp: service_names_def)
qed

text \<open>What the compose file contains, and what the entry points make of it.\<close>

lemma compose_contents:
  assumes "valid_topology tp" and "checkpoint_every ge = Inr ck"
  obtains cts where
    "gen_compose ge tp = Inr (gen_rabbitmq # gen_supervisors ge (service_names tp) @ (gateway_ct ge tp # cts) @
       gen_chaos ge # gen_clients ge, map (\<lambda>n. n @ ''_state'') (service_names tp))"
    "map node_main cts = map Inr (system ck tp)"
    "map ct_name (gateway_ct ge tp # cts) = service_names tp"
    "\<forall>ct\<in>set cts. ct_docker ct \<in> set node_images" "\<forall>ct\<in>set (gateway_ct ge tp # cts). supervised ge ct"
proof -
  obtain cts where y: "yields (pipeline_gen ge ck tp) cts" and m: "map node_main cts = map Inr (system ck tp)"
    and n: "map ct_name cts = concat (map fleet_names (fleets tp)) @ join_names tp"
    and d: "\<forall>ct\<in>set cts. ct_docker ct \<in> set node_images \<and> supervised ge ct"
    using implements_pipeline [OF assms(1)] unfolding implements_def by blast
  have names: "map ct_name (gateway_ct ge tp # cts) = service_names tp"
    by (simp add: service_names_def n gateway_ct_facts)
  have "gen_pipeline ge ck tp = plus_gen (gen_gateway ge tp) (pipeline_gen ge ck tp)"
    by (simp add: gen_pipeline_def pipeline_gen_def)
  with yields_plus [OF yields_gateway y] have "gen_pipeline ge ck tp [] =
      (gateway_ct ge tp # cts, foldl add_name [] (map ct_name (gateway_ct ge tp # cts)))"
    unfolding yields_def by simp
  then have "gen_pipeline ge ck tp [] = (gateway_ct ge tp # cts, service_names tp)"
    unfolding names using foldl_add_name [of "[]" "service_names tp"] service_names_distinct [OF assms(1)] by simp
  then have "gen_compose ge tp = Inr (gen_rabbitmq # gen_supervisors ge (service_names tp) @ (gateway_ct ge tp # cts) @
       gen_chaos ge # gen_clients ge, map (\<lambda>n. n @ ''_state'') (service_names tp))"
    by (simp add: gen_compose_def assms(2) bind_result_def state_volumes_block_def)
  with m names d gateway_ct_facts(3) show thesis by (intro that) auto
qed

lemma pipeline_nodes_of:
  assumes "\<forall>ct\<in>set cts. ct_docker ct \<in> set node_images"
  shows "pipeline_nodes (gen_rabbitmq # gen_supervisors ge ns @ (gateway_ct ge tp # cts) @ gen_chaos ge # gen_clients ge) = cts"
    "filter (\<lambda>ct. ct_docker ct = ''gateway'') (gen_rabbitmq # gen_supervisors ge ns @ (gateway_ct ge tp # cts) @
       gen_chaos ge # gen_clients ge) = [gateway_ct ge tp]"
proof -
  have o: "ct_docker gen_rabbitmq = ''rabbitmq''" "ct_docker (gen_chaos ge) = ''chaos''"
    "\<forall>ct\<in>set (gen_clients ge). ct_docker ct = ''client''" "\<forall>ct\<in>set (gen_supervisors ge ns). ct_docker ct = ''supervisor''"
    by (auto simp: gen_rabbitmq_def gen_chaos_def gen_clients_def client_service_def gen_supervisors_def supervisor_service_def)
  let ?P = "\<lambda>ct. ct_docker ct \<in> {''filter'', ''group_by'', ''aggregate'', ''merge'', ''join''}"
  have "filter ?P (gen_supervisors ge ns) = []" "filter ?P (gen_clients ge) = []" "filter ?P cts = cts"
    using o assms by (auto simp: filter_empty_conv filter_id_conv node_images_def)
  then show "pipeline_nodes (gen_rabbitmq # gen_supervisors ge ns @ (gateway_ct ge tp # cts) @ gen_chaos ge # gen_clients ge) = cts"
    by (simp add: pipeline_nodes_def o gateway_ct_facts)
  have "filter (\<lambda>ct. ct_docker ct = ''gateway'') (gen_supervisors ge ns) = []"
    "filter (\<lambda>ct. ct_docker ct = ''gateway'') (gen_clients ge) = []" "filter (\<lambda>ct. ct_docker ct = ''gateway'') cts = []"
    using o assms by (auto simp: filter_empty_conv node_images_def)
  then show "filter (\<lambda>ct. ct_docker ct = ''gateway'') (gen_rabbitmq # gen_supervisors ge ns @ (gateway_ct ge tp # cts) @
       gen_chaos ge # gen_clients ge) = [gateway_ct ge tp]"
    by (simp add: o gateway_ct_facts)
qed

end
