(* ===== verification/Deployment_Facts.thy ===== *)
theory Deployment_Facts
  imports Deployed
begin

text \<open>
  The properties of the deployment as a whole, stated of the generated compose file and of what the
  entry points make of it: the wiring, the identities, the delivery windows and the supervision.
\<close>

section \<open>Wiring\<close>

text \<open>
  C7.  For every valid choice of ring sizes the generated deployment starts and is wired up: every
  service parses its environment, every queue has one consumer, every exchange address or plain queue
  a node consumes is bound to exactly one queue, what the nodes and the gateway publish to is exactly
  what some node consumes, and the joins answer where the gateway listens.
\<close>

theorem deployment_wired:
  assumes "valid_topology tp" and "checkpoint_every ge = Inr ck"
  shows "\<exists>cts vols ws gw. gen_compose ge tp = Inr (cts, vols) \<and>
    map node_main (pipeline_nodes cts) = map Inr ws \<and>
    map (gateway_main \<circ> ct_env) (filter (\<lambda>ct. ct_docker ct = ''gateway'') cts) = [Inr gw] \<and>
    distinct (map in_queue (consumed ws)) \<and> distinct (map in_bind (consumed ws)) \<and>
    set (published ws) \<union> set (gw_transactions gw) \<union> set (gw_accounts gw) = in_bind ` set (consumed ws) \<and>
    (\<forall>w\<in>set ws. wi_responses w \<in> {None, Some (gw_responses gw)})"
proof -
  from assms obtain cts where c: "gen_compose ge tp = Inr (gen_rabbitmq # gen_supervisors ge (service_names tp) @
        (gateway_ct ge tp # cts) @ gen_chaos ge # gen_clients ge, map (\<lambda>n. n @ ''_state'') (service_names tp))"
      and m: "map node_main cts = map Inr (system ck tp)"
      and d: "\<forall>ct\<in>set cts. ct_docker ct \<in> set node_images"
    by (rule compose_contents)
  have r: "\<forall>w\<in>set (system ck tp). wi_responses w \<in> {None, Some ''responses''}"
    by (auto simp: system_def fleet_wiring_def join_wiring_def Let_def)
  note p = pipeline_nodes_of [OF d, of ge "service_names tp" tp]
  let ?gw = "\<lparr>gw_port = 12345, gw_transactions = shard_addresses ''client_transactions'' (int (default_filters tp)),
      gw_accounts = shard_addresses ''client_accounts'' (int (uc2_bank_names_group_bys tp)), gw_responses = ''responses''\<rparr>"
  show ?thesis
    by (rule exI, rule exI, rule exI [of _ "system ck tp"], rule exI [of _ ?gw], rule conjI [OF c])
       (simp only: p m system_queues [OF assms(1)] system_binds [OF assms(1)] list.map o_apply gateway_ct_facts
         gateway_wiring.simps set_shard_addresses system_wired [OF assms(1)] simp_thms, rule r)
qed

definition plain_env :: gen_env where
  "plain_env = \<lparr>ge_var = Map.empty, ge_nclients = 2, ge_accounts = ''HI-Medium_accounts.csv''\<rparr>"

lemma plain_env_every: "checkpoint_every plain_env = Inr 1000"
  by code_simp

lemma the_topology_valid: "valid_topology the_topology"
  by (auto simp: valid_topology_def the_topology_def)

theorem deployment_wired_witness:
  "\<exists>cts vols ws. gen_compose plain_env the_topology = Inr (cts, vols) \<and>
    map node_main (pipeline_nodes cts) = map Inr ws \<and> distinct (map in_queue (consumed ws))"
  using deployment_wired [OF the_topology_valid plain_env_every] by blast

section \<open>Identities\<close>

definition producer_name :: "producer \<Rightarrow> string" where
  "producer_name p = (case p of (tx, idx, route) \<Rightarrow> tx @ '':'' @ int_str idx @ '':'' @ int_str route)"

lemma int_str_no_colon: "CHR '':'' \<notin> set (int_str i)"
proof -
  have "CHR '':'' \<notin> set (nat_str n)" for n
    using nat_str_is_digit [of "CHR '':''" n] by (auto simp: is_digit_def)
  then show ?thesis by (simp add: int_str_def)
qed

lemma producer_name_inj:
  assumes "CHR '':'' \<notin> set (fst p)" and "CHR '':'' \<notin> set (fst q)" and "producer_name p = producer_name q"
  shows "p = q"
proof -
  obtain t i r where p: "p = (t, i, r)" by (cases p)
  obtain t' i' r' where q: "q = (t', i', r')" by (cases q)
  have "split_on (CHR '':'') (producer_name p) = [t, int_str i, int_str r]"
    "split_on (CHR '':'') (producer_name q) = [t', int_str i', int_str r']"
    using assms(1,2) int_str_no_colon by (simp_all add: p q producer_name_def split_on_append split_on_word)
  with assms(3) show ?thesis by (simp add: p q)
qed

lemma route_names:
  assumes "t \<in> set (concat (map (map fst \<circ> fl_routes) (fleets tp)))"
  shows "CHR '':'' \<notin> set t" and "CHR ''-'' \<notin> set t"
proof -
  have "list_all (\<lambda>t. CHR '':'' \<notin> set t \<and> CHR ''-'' \<notin> set t) (concat (map (map fst \<circ> fl_routes) (fleets tp)))"
    by (simp add: fleets_def default_fleet_def fleet_of_def)
  with assms show "CHR '':'' \<notin> set t" and "CHR ''-'' \<notin> set t" unfolding list_all_iff by blast+
qed

lemma uuid_str_chars: "CHR '':'' \<notin> set (uuid_str u)" "CHR ''-'' \<in> set (uuid_str u)"
proof -
  have "CHR '':'' \<notin> set (fixed_digits 16 32 (unat u))"
  proof
    assume "CHR '':'' \<in> set (fixed_digits 16 32 (unat u))"
    then obtain d where "d < 16" "CHR '':'' = digit_char d" using fixed_digits_chars [of 16 "CHR '':''" 32 "unat u"] by auto
    moreover from digit_char_range [OF this(1)] this(2) [symmetric] show False by simp
  qed
  then show "CHR '':'' \<notin> set (uuid_str u)"
    by (auto simp: uuid_str_def Let_def dest: in_set_takeD in_set_dropD)
  show "CHR ''-'' \<in> set (uuid_str u)" by (simp add: uuid_str_def Let_def)
qed

lemma session_producers_distinct:
  "distinct cids \<Longrightarrow> distinct (concat (map session_producers cids))"
  "p \<in> set (concat (map session_producers cids)) \<Longrightarrow> CHR '':'' \<notin> set (fst p) \<and> CHR ''-'' \<in> set (fst p)"
proof -
  show "distinct (concat (map session_producers cids))" if "distinct cids"
    using that by (induction cids) (auto simp: session_producers_def)
  show "CHR '':'' \<notin> set (fst p) \<and> CHR ''-'' \<in> set (fst p)" if "p \<in> set (concat (map session_producers cids))"
    using that uuid_str_chars by (auto simp: session_producers_def)
qed


lemma of_char_word_inj: "inj (of_char :: char \<Rightarrow> byte)"
proof (rule injI)
  fix c d :: char
  assume "(of_char c :: byte) = of_char d"
  then have "(of_nat (of_char c) :: byte) = of_nat (of_char d)" by (simp only: of_nat_of_char)
  then have "(of_char c :: nat) = of_char d"
    by (simp add: word_of_nat_eq_iff take_bit_eq_mod)
  then show "c = d" by simp
qed


section \<open>Delivery windows\<close>

text \<open>
  A node holds acknowledgements back until its checkpoint, and the broker stops delivering when as many
  messages are unacknowledged as the queue's prefetch allows.  \<open>window_ok\<close>: fewer are held than a
  checkpoint takes.
\<close>

definition window_ok :: "int \<Rightarrow> ('s, 'b, 'x, 'y) checkpointer \<Rightarrow> bool" where
  "window_ok every c \<longleftrightarrow> ckpt_every c = max 1 every \<and> int (length (pending_acks c)) < max 1 every"

lemma window_boot: "window_ok (nd_every N) (boot N c)"
  by (auto simp: window_ok_def boot_def new_checkpointer_def restore_cp_def split: prod.splits option.splits)

lemma window_first_boot: "window_ok (nd_every N) (first_boot N)"
  by (auto simp: window_ok_def first_boot_def new_checkpointer_def restore_cp_def split: prod.splits option.splits)

lemma run_eff_window [simp]: "pending_acks (run_eff N e c) = pending_acks c" "ckpt_every (run_eff N e c) = ckpt_every c"
  by (simp_all add: run_eff_def put_state_def split: prod.splits)

lemma flush_window [simp]:
  "pending_acks (checkpoint_and_flush S X f c) = []" "ckpt_every (checkpoint_and_flush S X f c) = ckpt_every c"
  by (simp_all add: checkpoint_and_flush_def flush_acks_def write_checkpoint_def Let_def split: prod.splits)

lemma window_flush:
  assumes "window_ok every c" and "flush S X f c = Inr c'"
  shows "window_ok every c'"
  using assms by (auto simp: flush_def with_lock_def bind_result_def window_ok_def split: if_splits)

lemma window_deliver:
  assumes "window_ok every c" and "handle_data S X m (\<lambda>c. Inr (run_eff N e c)) t c = Inr c'"
  shows "window_ok every c'"
  using assms
  by (auto simp: handle_data_def with_lock_def bind_result_def apply_and_record_def do_ack_def window_ok_def split: if_splits)

lemma window_step:
  assumes "window_ok (nd_every N) c" and "cp_step N q c c'"
  shows "window_ok (nd_every N) c'"
  using assms(2)
proof cases
  case (deliver t m)
  then show ?thesis using window_deliver [OF assms(1)] by blast
next
  case (control e)
  then show ?thesis using assms(1) by (simp add: window_ok_def)
next
  case (flush f)
  then show ?thesis using window_flush [OF assms(1)] by blast
next
  case (abort e cid)
  then obtain c1 where "mark_aborted cid (run_eff N (Ctl e) c) = Inr c1" "Checkpointing.flush (nd_fn N) (nd_extra N) True c1 = Inr c'"
    by (auto simp: abort_client_def bind_result_def split: sum.splits)
  moreover from this(1) assms(1) have "window_ok (nd_every N) c1"
    by (auto simp: mark_aborted_def with_lock_def bind_result_def window_ok_def split: if_splits)
  ultimately show ?thesis using window_flush by blast
qed (simp_all add: window_boot)

lemma window_reach: "cp_reach N q c \<Longrightarrow> window_ok (nd_every N) c"
  by (induction rule: cp_reach.induct) (auto intro: window_first_boot window_step)

text \<open>The queues whose acknowledgements are held back: all but the ring's own.\<close>

definition data_inputs :: "wiring \<Rightarrow> input list" where
  "data_inputs w =
     (case wi_front w of
        None \<Rightarrow> wi_inputs w
      | Some b \<Rightarrow> filter (\<lambda>i. exchange_of (in_bind i) \<noteq> exchange_of b) (wi_inputs w))"

lemma fleet_window:
  "i \<in> set (data_inputs (fleet_wiring ck fl k)) \<Longrightarrow> ck \<le> in_prefetch i"
  "(path, every) \<in> set (wi_ckpts (fleet_wiring ck fl k)) \<Longrightarrow> every = ck"
  by (auto simp: data_inputs_def fleet_wiring_def exchange_of_def)

lemma join_window:
  "i \<in> set (data_inputs (join_wiring ck ucs)) \<Longrightarrow> ck \<le> in_prefetch i"
  "(path, every) \<in> set (wi_ckpts (join_wiring ck ucs)) \<Longrightarrow> every = ck"
  by (auto simp: data_inputs_def join_wiring_def Let_def simp del: filter.simps)

text \<open>
  C36.  Holding acknowledgements back never stalls a node: whatever a node of the generated deployment
  has processed, through redeliveries, aborts, flushes and crashes, the messages it holds
  unacknowledged are fewer than the prefetch of each of its data queues, so the broker can deliver
  the next one.
\<close>

theorem delivery_window_open:
  assumes "valid_topology tp" and "checkpoint_every ge = Inr ck" and "1 \<le> ck"
  shows "\<exists>cts vols ws. gen_compose ge tp = Inr (cts, vols) \<and> map node_main (pipeline_nodes cts) = map Inr ws \<and>
    (\<forall>w\<in>set ws. \<forall>(path, every)\<in>set (wi_ckpts w). \<forall>i\<in>set (data_inputs w).
       \<forall>(N :: ('s, 'b, 'x, 'y, 'm, 'e) node) q c. nd_every N = every \<longrightarrow> cp_reach N q c \<longrightarrow>
         int (length (pending_acks c)) < in_prefetch i)"
proof -
  from assms(1,2) obtain cts where c: "gen_compose ge tp = Inr (gen_rabbitmq # gen_supervisors ge (service_names tp) @
        (gateway_ct ge tp # cts) @ gen_chaos ge # gen_clients ge, map (\<lambda>n. n @ ''_state'') (service_names tp))"
      and m: "map node_main cts = map Inr (system ck tp)"
      and d: "\<forall>ct\<in>set cts. ct_docker ct \<in> set node_images"
    by (rule compose_contents)
  have fetch: "every = ck \<and> ck \<le> in_prefetch i"
    if w: "w \<in> set (system ck tp)" and e: "(path, every) \<in> set (wi_ckpts w)" and i: "i \<in> set (data_inputs w)" for w path every i
  proof -
    from w consider fl k where "w = fleet_wiring ck fl k" | ucs where "w = join_wiring ck ucs"
      by (auto simp: system_def)
    then show ?thesis using fleet_window join_window e i by cases blast+
  qed
  have "\<forall>w\<in>set (system ck tp). \<forall>(path, every)\<in>set (wi_ckpts w). \<forall>i\<in>set (data_inputs w).
       \<forall>(N :: ('s, 'b, 'x, 'y, 'm, 'e) node) q c. nd_every N = every \<longrightarrow> cp_reach N q c \<longrightarrow>
         int (length (pending_acks c)) < in_prefetch i"
  proof (clarify)
    fix w path every i and N :: "('s, 'b, 'x, 'y, 'm, 'e) node" and q c
    assume "w \<in> set (system ck tp)" "(path, nd_every N) \<in> set (wi_ckpts w)" "i \<in> set (data_inputs w)" and r: "cp_reach N q c"
    from fetch [OF this(1,2,3)] have "nd_every N = ck" "ck \<le> in_prefetch i" by blast+
    with window_reach [OF r] assms(3) show "int (length (pending_acks c)) < in_prefetch i"
      by (simp add: window_ok_def)
  qed
  note all = this
  show ?thesis
    by (rule exI, rule exI, rule exI [of _ "system ck tp"], rule conjI [OF c], simp only: pipeline_nodes_of [OF d] m simp_thms)
       (rule all)
qed

definition sample_node :: "(nat, nat, nat, nat, nat, nat) node" where
  "sample_node =
     \<lparr>nd_fn = \<lparr>snap = (\<lambda>s. (s, s)), rest = (\<lambda>b s. b), fresh_obj = (\<lambda>s. s), clear_stale = (\<lambda>s. s)\<rparr>,
      nd_extra = \<lparr>snap = (\<lambda>s. (s, s)), rest = (\<lambda>b s. b), fresh_obj = (\<lambda>s. s), clear_stale = (\<lambda>s. s)\<rparr>,
      nd_ident = (\<lambda>m. \<lparr>m_client = 0, m_producer = [], m_seq = int m\<rparr>), nd_eff = (\<lambda>e st. st),
      nd_init = (0, [], []), nd_every = 1000\<rparr>"

theorem delivery_window_open_witness:
  "\<exists>cts vols ws w i. gen_compose plain_env the_topology = Inr (cts, vols) \<and>
    map node_main (pipeline_nodes cts) = map Inr ws \<and> w \<in> set ws \<and> i \<in> set (data_inputs w) \<and>
    int (length (pending_acks (first_boot sample_node))) < in_prefetch i"
proof -
  have k: "1 \<le> (1000 :: int)" by simp
  obtain cts vols ws where c: "gen_compose plain_env the_topology = Inr (cts, vols)"
    and m: "map node_main (pipeline_nodes cts) = map Inr ws"
    and all: "\<forall>w\<in>set ws. \<forall>(path, every)\<in>set (wi_ckpts w). \<forall>i\<in>set (data_inputs w).
       \<forall>(N :: (nat, nat, nat, nat, nat, nat) node) q c. nd_every N = every \<longrightarrow> cp_reach N q c \<longrightarrow>
         int (length (pending_acks c)) < in_prefetch i"
    using delivery_window_open [OF the_topology_valid plain_env_every k] by blast
  from compose_contents [OF the_topology_valid plain_env_every] obtain cts' vols' where
    "gen_compose plain_env the_topology = Inr (cts', vols')" "map node_main (pipeline_nodes cts') = map Inr (system 1000 the_topology)"
    by (metis pipeline_nodes_of(1))
  with c m have "map (Inr :: wiring \<Rightarrow> wiring result) ws = map Inr (system 1000 the_topology)" by simp
  then have ws: "ws = system 1000 the_topology" by (simp add: inj_map_eq_map)
  let ?w = "fleet_wiring 1000 (default_fleet the_topology) 0"
  let ?i = "\<lparr>in_queue = ''client_transactions'' @ nat_str 0, in_bind = Bound ''client_transactions'' (nat_str 0), in_prefetch = 1000\<rparr>"
  have w: "?w \<in> set ws" by (simp add: ws system_def fleets_def) (simp add: default_fleet_def the_topology_def)
  have e: "(''/state/'' @ ''default'' @ ''_'' @ nat_str 0 @ ''.ckpt'', 1000) \<in> set (wi_ckpts ?w)"
    by (simp add: fleet_wiring_def default_fleet_def)
  have i: "?i \<in> set (data_inputs ?w)"
    by (simp add: data_inputs_def fleet_wiring_def default_fleet_def exchange_of_def)
  have "nd_every sample_node = 1000" by (simp add: sample_node_def)
  with all w e i cp_reach.start [of sample_node Map.empty]
  have "int (length (pending_acks (first_boot sample_node))) < in_prefetch ?i" by fastforce
  with c m w i show ?thesis by blast
qed

section \<open>Supervision\<close>

lemma plain_names:
  assumes "n \<in> set (service_names tp)"
  shows "CHR '','' \<notin> set n" and "n \<noteq> []"
proof -
  have "list_all (\<lambda>fl. CHR '','' \<notin> set (fl_container fl)) (fleets tp)"
    by (simp add: fleets_def default_fleet_def fleet_of_def)
  then have "CHR '','' \<notin> set (fl_container fl)" if "fl \<in> set (fleets tp)" for fl
    using that by (simp add: list_all_iff)
  with assms show "CHR '','' \<notin> set n" and "n \<noteq> []"
    using nat_str_no_comma by (auto simp: service_names_def fleet_names_def join_names_def)
qed

lemma supervisor_numbers: "parse_int ''9100'' = Inr 9100" "parse_int ''9101'' = Inr 9101" "parse_int ''9102'' = Inr 9102"
  by code_simp+

lemma supervisor_floats: "\<exists>x. parse_float ''0.5'' = Inr x"
  by (intro exI [of _ "1 / 2"]) code_simp

lemma supervisor_wired:
  assumes "parse_float (interpolate ge ''HEARTBEAT_TIMEOUT'' ''3'') = Inr t"
    and "parse_float (interpolate ge ''REVIVE_INTERVAL'' ''0.5'') = Inr r"
  shows "supervisor_main (ct_env (supervisor_service ge (service_names tp) 5 k)) = Inr
    \<lparr>sw_idx = int k, sw_port = 9100,
     sw_peers = map (\<lambda>i. \<lparr>pe_idx = i, pe_host = ''supervisor_'' @ int_str i\<rparr>) (filter (\<lambda>i. i \<noteq> int k) (map int [0..<5])),
     sw_registry = new_registry t (service_names tp) 200, sw_revive = (if 0 < r then Some r else None)\<rparr>"
proof -
  obtain x where x: "parse_float ''0.5'' = Inr x" using supervisor_floats by blast
  have ns: "split_on (CHR '','') (expected_nodes_csv (service_names tp)) = service_names tp"
    using plain_names unfolding expected_nodes_csv_def by (intro split_join) (auto simp: service_names_def)
  have ne: "filter (\<lambda>n. n \<noteq> []) (service_names tp) = service_names tp"
    using plain_names(2) by (auto simp: filter_id_conv)
  show ?thesis
    by (simp add: supervisor_main_def supervisor_service_def getenv_def int_var_def bind_result_def supervisor_numbers assms x ns ne)
qed

definition supervised_nodes :: "container list \<Rightarrow> container list" where
  "supervised_nodes cts = filter (\<lambda>ct. ct_docker ct \<in> set (''gateway'' # node_images)) cts"

definition supervisors :: "container list \<Rightarrow> container list" where
  "supervisors cts = filter (\<lambda>ct. ct_docker ct = ''supervisor'') cts"

lemma supervised_of:
  assumes "\<forall>ct\<in>set cts. ct_docker ct \<in> set node_images"
  shows "supervised_nodes (gen_rabbitmq # gen_supervisors ge ns @ (gateway_ct ge tp # cts) @ gen_chaos ge # gen_clients ge) = gateway_ct ge tp # cts" "supervisors (gen_rabbitmq # gen_supervisors ge ns @ (gateway_ct ge tp # cts) @ gen_chaos ge # gen_clients ge) = gen_supervisors ge ns"
proof -
  have o: "ct_docker gen_rabbitmq = ''rabbitmq''" "ct_docker (gen_chaos ge) = ''chaos''"
    "\<forall>ct\<in>set (gen_clients ge). ct_docker ct = ''client''" "\<forall>ct\<in>set (gen_supervisors ge ns). ct_docker ct = ''supervisor''"
    by (auto simp: gen_rabbitmq_def gen_chaos_def gen_clients_def client_service_def gen_supervisors_def supervisor_service_def)
  let ?P = "\<lambda>ct. ct_docker ct \<in> set (''gateway'' # node_images)"
  have "filter ?P (gen_supervisors ge ns) = []" "filter ?P (gen_clients ge) = []" "filter ?P cts = cts"
    using o assms by (auto simp: filter_empty_conv filter_id_conv node_images_def)
  then show "supervised_nodes (gen_rabbitmq # gen_supervisors ge ns @ (gateway_ct ge tp # cts) @ gen_chaos ge # gen_clients ge) = gateway_ct ge tp # cts"
    by (simp add: supervised_nodes_def o gateway_ct_facts node_images_def)
  have "supervisors (gen_supervisors ge ns) = gen_supervisors ge ns" "supervisors (gen_clients ge) = []" "supervisors cts = []"
    using o assms by (auto simp: supervisors_def filter_empty_conv filter_id_conv node_images_def)
  then show "supervisors (gen_rabbitmq # gen_supervisors ge ns @ (gateway_ct ge tp # cts) @ gen_chaos ge # gen_clients ge) = gen_supervisors ge ns"
    by (simp add: supervisors_def o gateway_ct_facts)
qed

lemma supervisor_peers:
  assumes "k < 5"
  shows "map pe_host (map (\<lambda>i. \<lparr>pe_idx = i, pe_host = ''supervisor_'' @ int_str i\<rparr>) (filter (\<lambda>i. i \<noteq> int k) (map int [0..<5]))) =
    map ct_name (filter (\<lambda>c. ct_name c \<noteq> ''supervisor_'' @ nat_str k) (gen_supervisors ge ns))"
proof -
  have "map ct_name (filter (\<lambda>c. ct_name c \<noteq> ''supervisor_'' @ nat_str k) (map (supervisor_service ge ns 5) xs)) =
      map pe_host (map (\<lambda>i. \<lparr>pe_idx = i, pe_host = ''supervisor_'' @ int_str i\<rparr>) (filter (\<lambda>i. i \<noteq> int k) (map int xs)))" for xs
    by (induction xs) (auto simp: supervisor_service_def)
  then show ?thesis by (simp add: gen_supervisors_def del: upt_rec_numeral)
qed

lemma supervised_heartbeat:
  assumes "supervised ge ct" and "ct_name ct \<noteq> []" and "parse_float (interpolate ge ''HEARTBEAT_INTERVAL'' ''1'') = Inr iv"
  shows "make_heartbeat_client (ct_env ct) = Inr (Some
    \<lparr>hw_id = ct_name ct, hw_kind = ct_docker ct, hw_host = ''supervisor'', hw_port = 9100, hw_interval = iv\<rparr>)"
  using assms by (simp add: make_heartbeat_client_def supervised_def getenv_def int_var_def bind_result_def supervisor_numbers)

text \<open>
  C37.  Supervision covers the deployment: every service but the broker, the chaos monkey and the clients
  sends heartbeats under its container's name, names are unique and have their state volume declared,
  and every supervisor starts with a registry that expects exactly those containers, on the port they
  write to, with exactly the other supervisors as its peers.
\<close>

theorem supervision_complete:
  assumes "valid_topology tp" and "checkpoint_every ge = Inr ck"
    and "parse_float (interpolate ge ''HEARTBEAT_INTERVAL'' ''1'') = Inr iv"
    and "parse_float (interpolate ge ''HEARTBEAT_TIMEOUT'' ''3'') = Inr t"
    and "parse_float (interpolate ge ''REVIVE_INTERVAL'' ''0.5'') = Inr r"
  shows "\<exists>cts vols. gen_compose ge tp = Inr (cts, vols) \<and> length (supervisors cts) = 5 \<and>
    distinct (map ct_name (supervised_nodes cts)) \<and>
    (\<forall>ct\<in>set (supervised_nodes cts). ct_name ct @ ''_state'' \<in> set vols \<and>
       make_heartbeat_client (ct_env ct) = Inr (Some
         \<lparr>hw_id = ct_name ct, hw_kind = ct_docker ct, hw_host = ''supervisor'', hw_port = 9100, hw_interval = iv\<rparr>)) \<and>
    (\<forall>ct\<in>set (supervisors cts). \<exists>sw. supervisor_main (ct_env ct) = Inr sw \<and> sw_port sw = 9100 \<and>
       sw_registry sw = new_registry t (map ct_name (supervised_nodes cts)) 200 \<and>
       map pe_host (sw_peers sw) = map ct_name (filter (\<lambda>c. ct_name c \<noteq> ct_name ct) (supervisors cts)))"
proof -
  from assms(1,2) obtain cts where c: "gen_compose ge tp = Inr (gen_rabbitmq # gen_supervisors ge (service_names tp) @
        (gateway_ct ge tp # cts) @ gen_chaos ge # gen_clients ge, map (\<lambda>n. n @ ''_state'') (service_names tp))"
      and n: "map ct_name (gateway_ct ge tp # cts) = service_names tp"
      and d: "\<forall>ct\<in>set cts. ct_docker ct \<in> set node_images"
      and s: "\<forall>ct\<in>set (gateway_ct ge tp # cts). supervised ge ct"
    by (rule compose_contents)
  have hb: "\<forall>ct\<in>set (gateway_ct ge tp # cts). ct_name ct @ ''_state'' \<in> set (map (\<lambda>n. n @ ''_state'') (service_names tp)) \<and>
       make_heartbeat_client (ct_env ct) = Inr (Some
         \<lparr>hw_id = ct_name ct, hw_kind = ct_docker ct, hw_host = ''supervisor'', hw_port = 9100, hw_interval = iv\<rparr>)"
  proof
    fix ct assume ct: "ct \<in> set (gateway_ct ge tp # cts)"
    then have name: "ct_name ct \<in> set (service_names tp)" unfolding n [symmetric] set_map by (rule imageI)
    with supervised_heartbeat [OF bspec [OF s ct] plain_names(2) [OF name] assms(3)]
    show "ct_name ct @ ''_state'' \<in> set (map (\<lambda>n. n @ ''_state'') (service_names tp)) \<and>
       make_heartbeat_client (ct_env ct) = Inr (Some
         \<lparr>hw_id = ct_name ct, hw_kind = ct_docker ct, hw_host = ''supervisor'', hw_port = 9100, hw_interval = iv\<rparr>)" by simp
  qed
  have sw: "\<forall>ct\<in>set (gen_supervisors ge (service_names tp)). \<exists>sw. supervisor_main (ct_env ct) = Inr sw \<and> sw_port sw = 9100 \<and>
       sw_registry sw = new_registry t (service_names tp) 200 \<and>
       map pe_host (sw_peers sw) =
         map ct_name (filter (\<lambda>c. ct_name c \<noteq> ct_name ct) (gen_supervisors ge (service_names tp)))"
  proof
    fix ct assume "ct \<in> set (gen_supervisors ge (service_names tp))"
    then obtain k where k: "k < 5" "ct = supervisor_service ge (service_names tp) 5 k" by (auto simp: gen_supervisors_def)
    have name: "ct_name ct = ''supervisor_'' @ nat_str k" by (simp add: k supervisor_service_def)
    show "\<exists>sw. supervisor_main (ct_env ct) = Inr sw \<and> sw_port sw = 9100 \<and>
       sw_registry sw = new_registry t (service_names tp) 200 \<and>
       map pe_host (sw_peers sw) =
         map ct_name (filter (\<lambda>c. ct_name c \<noteq> ct_name ct) (gen_supervisors ge (service_names tp)))"
      unfolding name supervisor_peers [OF k(1), symmetric] unfolding k(2) supervisor_wired [OF assms(4,5)]
      by (intro exI conjI, rule refl) (simp_all only: supervisor_wiring.simps)
  qed
  have len: "length (gen_supervisors ge (service_names tp)) = 5" by (simp add: gen_supervisors_def)
  show ?thesis
    by (rule exI, rule exI, rule conjI [OF c], simp only: supervised_of [OF d] n len service_names_distinct [OF assms(1)] simp_thms)
       (intro conjI hb sw)
qed

theorem supervision_complete_witness:
  "\<exists>cts vols. gen_compose plain_env the_topology = Inr (cts, vols) \<and> length (supervisors cts) = 5 \<and>
    distinct (map ct_name (supervised_nodes cts))"
proof -
  have "parse_float (interpolate plain_env ''HEARTBEAT_INTERVAL'' ''1'') = Inr 1"
    "parse_float (interpolate plain_env ''HEARTBEAT_TIMEOUT'' ''3'') = Inr 3"
    "parse_float (interpolate plain_env ''REVIVE_INTERVAL'' ''0.5'') = Inr (1 / 2)"
    by code_simp+
  from supervision_complete [OF the_topology_valid plain_env_every this] show ?thesis by blast
qed

end
