(* ===== verification/Spec2Isabelle.thy ===== *)
theory Spec2Isabelle
  imports Prelude Dedup Checkpointing Exactly_Once Pystr Ring_Completion Ring_Topology Ring_Network
    Data_Model Messages Stamping Transport Gateway Client Filters Group_By Aggregates Conversion Json Spill
    Keyed Spilled_Items Graphs Degree Paths Prune Merges Join_Fns Join_Route Ring_Nodes Ring_Stateless Registry Election Heartbeats Ring_Exactly_Once UC4_Pipeline Reference Reference_UC4 UC2_Pipeline UC3_Pipeline UC5_Pipeline Deployment Wiring Deployed Deployment_Facts
begin

text \<open>
  A verification library for the money-laundering analysis pipeline: a distributed stream processor
  that answers five use cases (UC1-UC5) over the transactions and accounts a client uploads.

  \<^bold>\<open>The program.\<close>  A client splits its files among worker processes and uploads batches over a framed
  TCP connection.  The gateway stamps the client's id and a (producer, sequence number) identity on each
  message and deals them to the shards of two exchanges.  Fleets of nodes (filters, group-bys,
  aggregates, merges), each fleet a ring of peers, process the messages; a barrier token that circulates
  in the ring adds up what the peers sent and lets the leader announce to every downstream shard how
  many messages to expect.  Joins collect the answer of a use case and send it through the gateway to
  the client.  Nodes deduplicate by identity, checkpoint atomically, hold acknowledgements back until
  the checkpoint, and are restarted by supervisors that elect a leader, watch heartbeats and start dead
  containers.

  \<^bold>\<open>Theories and the code they model\<close> (paths under \<open>src/src\<close> unless they begin with \<open>scripts\<close>).

  \<^item> \<open>Prelude\<close>, \<open>Pystr\<close>, \<open>Json\<close>, \<open>Keyed\<close>: errors as values, insertion-ordered dicts, big-endian bytes,
    the textual forms of numbers and UUIDs, \<open>json\<close> on the shapes the spills use, sets of objects that
    compare by a key.
  \<^item> \<open>Dedup\<close>, \<open>Checkpointing\<close>, \<open>Exactly_Once\<close>: \<open>common/checkpoint\<close>.  The deduplicator refines the set of
    processed identities; a save is the list of file-system states a crash can leave; the checkpointer
    has its lock, dirty flag and held acknowledgements; \<open>cp_step\<close> is a node under redelivery, flushes,
    aborts and crashes at every crash point of the code, and the invariant of the locale
    \<open>checkpointed_node\<close> is that its state is that of a log without repetitions.
  \<^item> \<open>Ring_Completion\<close>, \<open>Ring_Topology\<close>, \<open>Ring_Network\<close>: \<open>common/comms/eof_handler/ring_completion.py\<close> and
    the ring of peers; the locale \<open>ring_barrier\<close> holds the safety invariant of the network of peers under
    token redelivery, aborts and restarts, and the progress of the barrier.
  \<^item> \<open>Ring_Nodes\<close>, \<open>Ring_Stateless\<close>, \<open>Ring_Exactly_Once\<close>: \<open>ring_node.py\<close>, \<open>sent_counts.py\<close> and the
    ring filter, broadcast filter, group-by, aggregate and merge.  \<open>stateless_sender\<close> is the contract of the
    nodes that send while they receive; \<open>aggregate_fn\<close> that of an aggregate under the checkpointer, a
    \<open>sublocale\<close> of \<open>checkpointed_node\<close>.
  \<^item> \<open>Data_Model\<close>, \<open>Messages\<close>, \<open>Stamping\<close>, \<open>Transport\<close>: \<open>common/comms/messages\<close>, \<open>stamping_mom.py\<close>,
    \<open>make_rx_tx.py\<close>, \<open>transport/connection.py\<close>: wire formats with their round trips, identities, framing.
  \<^item> \<open>Gateway\<close>, \<open>Client\<close>: \<open>gateway/client_stream_handler.py\<close>, \<open>client_stream_monitor.py\<close>, \<open>client/client.py\<close>.
  \<^item> \<open>Filters\<close>, \<open>Group_By\<close>, \<open>Aggregates\<close>, \<open>Conversion\<close>, \<open>Spill\<close>, \<open>Spilled_Items\<close>, \<open>Graphs\<close>, \<open>Degree\<close>,
    \<open>Paths\<close>, \<open>Prune\<close>, \<open>Merges\<close>: the functions of the use cases and the append-only files they spill to.
    The locale \<open>client_aggregate\<close> is the contract every aggregate and merge provides (what is delivered
    for one client determines that client's state, invariants kept, other clients untouched);
    \<open>line_log\<close> that of the spill files; \<open>item_codec\<close> that of the spilled lines.
  \<^item> \<open>Join_Fns\<close>, \<open>Join_Route\<close>: \<open>join\<close>.  \<open>join_contract\<close> is what the route handler asks of a join function.
  \<^item> \<open>Registry\<close>, \<open>Election\<close>, \<open>Heartbeats\<close>: \<open>supervisor\<close> and \<open>common/heartbeat\<close>: liveness registry and
    reviver, the election among supervisors as a cluster of event loops, the heartbeat protocol.
  \<^item> \<open>Reference\<close>, \<open>Reference_UC4\<close>: \<open>scripts/gen_input_output.py\<close>, the reference computation of the
    expected answers in both of its modes.  \<open>UC4_Pipeline\<close>, \<open>UC2_Pipeline\<close>, \<open>UC3_Pipeline\<close>,
    \<open>UC5_Pipeline\<close>: the use cases as whole pipelines, from the filtered payments to the response,
    composed of the stages above as the deployment wires them and compared with the reference; a
    run records what every worker received, and \<open>uc2_delivers\<close> and its like say that this is what
    the stage before sent.
  \<^item> \<open>Deployment\<close>, \<open>Wiring\<close>, \<open>Deployed\<close>, \<open>Deployment_Facts\<close>: \<open>scripts/gen_compose\<close> and the
    \<open>main.py\<close> of each service.  \<open>fleets\<close> is the pipeline as a table of fleets and edges;
    the generated environments, read back by the entry points, implement it
    (\<open>implements_pipeline\<close>), and the properties of the table are carried over to the compose file.

  Every locale is interpreted on the model's own definitions, in the theory that declares them.

  \<^bold>\<open>How the code is represented.\<close>  Raises are values of \<open>py_error\<close> in a sum; \<open>int\<close> is Python's \<open>int\<close>;
  \<open>128 word\<close> is a UUID and \<open>8 word\<close> a byte; dicts are association lists in insertion order; objects mutated
  in place are states passed along.  Threads and sockets are inputs: sequences of frames, deliveries,
  clock readings and events.  Amounts and times are rationals, so rounding is not modelled; UC4's tile
  size uses the exact integer square root.  Sets are iterated in insertion order.

  \<^bold>\<open>Parameters.\<close>  msgpack (a packing and an unpacking function with their round trip), \<open>uuid5\<close>, \<open>hash\<close> on
  strings, \<open>repr\<close> of floats (with \<open>float(repr(x)) = x\<close>), the HTTP service of exchange rates, pandas (laws of
  \<open>groupby\<close>, \<open>concat\<close> and \<open>to_csv\<close>, with a list instance), the broker (which redelivers whatever was not
  acknowledged) and the sizes of batches, spills and rings.  Each property with such a hypothesis has a
  witness with a concrete instance.

  \<^bold>\<open>Bounds and fuel.\<close>  The JSON reader has fuel twice the length of the text, one unit for each value and
  each character, which the round trip shows to be enough.  The converter's retry loop has
  no bound in the code: it is a partial function, shown to return when the service answers every
  request eventually.  Everything else terminates structurally or by a proved measure; no property is conditional
  on fuel.  The header's 64-bit sequence number and 32-bit frame length are kept at their width.

  \<^bold>\<open>What the properties show\<close>, by groups.  Exactly-once: the deduplicator passes first occurrences, a
  restarted node is in the state of a log without repetitions, saves are atomic, and the identities are
  unique across the deployment.  Completion: every downstream EOF announces exactly what was sent, the
  barrier terminates, a peer completes once in any order, and late and repeated EOFs are harmless.
  Use cases: each aggregate, merge and join computes its specification from any split and order, and the
  pipelines of UC2, UC3, UC4 and UC5 answer what the reference script computes from the same files
  (UC1's, a filter and a join, is a lemma of \<open>UC3_Pipeline\<close>).  Operation: the deployment is wired
  completely, no delivery window stalls, supervisors settle on the highest one and detect and revive
  dead nodes.  Where the code does not do what it says, the property states what it does: a line on
  the boundary of a worker's range is read by nobody, a late data message deadlocks the join, an
  acknowledged election can leave the cluster without a leader, a leader restored to before its report
  never emits.

  \<^bold>\<open>Assumptions to keep in mind.\<close>  A crash between sending an answer and the checkpoint sends the answer
  again on redelivery (the client's side is not deduplicated).  A path's key is the concatenation of
  its ends without a separator, so the path properties assume \<open>unambiguous\<close> keys (no two nodes of the
  input collide).  UC2's equivalence assumes that the accounts file gives each bank one name, and compares
  banks, names and amounts: of several accounts that paid a bank's largest amount the pipeline keeps
  the first to arrive and the script the first in the file.  \<open>strptime\<close> is modelled on full-width fields, which is what the spill writes.
  The delivery-window property concerns nodes with a checkpointer, as every generated one is.  The
  supervisors' name resolves through the network alias of the compose file, which is not modelled.

  \<^bold>\<open>Not modelled.\<close>  The pika wrappers (\<open>common/comms/middleware/*_rabbitmq.py\<close>, \<open>multi_consumer.py\<close>):
  calls of a third-party client, whose behaviour is the broker parameter.  Signal handlers, logging, the
  terminal dashboard, Docker calls and the YAML text around the service blocks: input and output.  The chaos
  monkey and fault injection are the crashes of the step relations.  Dataset sampling and symbolic links of
  \<open>gen_input_output.py\<close>, the benchmark, end-to-end, plot and demo scripts, the notebooks and the tests:
  they drive or describe a running deployment and hold no state of it.
\<close>

end
